(* ===== verification/Prelude.thy ===== *)
theory Prelude
  imports Main "HOL-Library.Word"
begin

text \<open>
  Shared vocabulary of the development: bytes and byte strings, Go's fixed-width
  integers with their wrap-around written out, slices, the error-or-value results every
  fallible function returns, and Go's \<^verbatim>\<open>sort.Search\<close>.  The generic lemmas on lists and
  on the search that several components use are here too.
\<close>

section \<open>Types\<close>

type_synonym byte = "8 word"
type_synonym bytes = "byte list"

text \<open>
  A Go \<^verbatim>\<open>uint64\<close> is a \<open>nat\<close> below \<open>2 ^ 64\<close> and a Go \<^verbatim>\<open>int64\<close> (and \<^verbatim>\<open>int\<close>, on amd64) an \<open>int\<close>
  in \<open>[-2 ^ 63, 2 ^ 63)\<close>.  Where the source's arithmetic can leave that range the wrap
  is written out with \<open>wrap64\<close> and \<open>u64\<close>.
\<close>

definition wrap64 :: "int \<Rightarrow> int" where
  "wrap64 x = (x + 2 ^ 63) mod 2 ^ 64 - 2 ^ 63"

definition u64 :: "int \<Rightarrow> nat" where
  "u64 x = nat (x mod 2 ^ 64)"

definition int64_of :: "nat \<Rightarrow> int" where
  "int64_of n = wrap64 (int n)"

definition in_int64 :: "int \<Rightarrow> bool" where
  "in_int64 x \<longleftrightarrow> - (2 ^ 63) \<le> x \<and> x < 2 ^ 63"

named_theorems wire "round-trip rules of the wire-format readers and writers"
named_theorems int64 "rules that drop a wrap-around on values in range"

lemma wrap64_id [int64]: "in_int64 x \<Longrightarrow> wrap64 x = x"
  by (simp add: wrap64_def in_int64_def)

lemma wrap64_id_le [int64]: "- (2 ^ 63) \<le> x \<Longrightarrow> x < 2 ^ 63 \<Longrightarrow> wrap64 x = x"
  by (simp add: wrap64_def)

lemma int64_of_id [int64]: "n < 2 ^ 63 \<Longrightarrow> int64_of n = int n"
  by (simp add: int64_of_def wrap64_def)

lemma wrap64_range: "in_int64 (wrap64 x)"
proof -
  have "0 \<le> (x + 2 ^ 63) mod 2 ^ 64" and "(x + 2 ^ 63) mod 2 ^ 64 < 2 ^ 64"
    by simp_all
  then show ?thesis by (simp add: wrap64_def in_int64_def)
qed

lemma u64_less: "u64 x < 2 ^ 64"
proof -
  have "0 \<le> x mod 2 ^ 64" and "x mod 2 ^ 64 < 2 ^ 64" by simp_all
  then show ?thesis by (simp add: u64_def nat_less_iff)
qed

lemma u64_of_nat [int64]: "n < 2 ^ 64 \<Longrightarrow> u64 (int n) = n"
  by (simp add: u64_def nat_mod_as_int)

section \<open>Results\<close>

text \<open>
  Every error return and every panic of the source is a value: \<open>Inl\<close> the error, \<open>Inr\<close>
  the result.  \<open>bindR\<close> is the \<^verbatim>\<open>if err != nil { return err }\<close> of the code.
\<close>

definition bindR :: "'e + 'a \<Rightarrow> ('a \<Rightarrow> 'e + 'b) \<Rightarrow> 'e + 'b" where
  "bindR m f = (case m of Inl e \<Rightarrow> Inl e | Inr x \<Rightarrow> f x)"

definition guardR :: "bool \<Rightarrow> 'e \<Rightarrow> ('e + 'b) \<Rightarrow> 'e + 'b" where
  "guardR ok e k = (if ok then k else Inl e)"

lemma bindR_Inl [simp]: "bindR (Inl e) f = Inl e"
  by (simp add: bindR_def)

lemma bindR_Inr [simp]: "bindR (Inr x) f = f x"
  by (simp add: bindR_def)

lemma bindR_eq_Inr: "bindR m f = Inr y \<longleftrightarrow> (\<exists>x. m = Inr x \<and> f x = Inr y)"
  by (cases m) simp_all

lemma bindR_eq_Inl: "bindR m f = Inl e \<longleftrightarrow> m = Inl e \<or> (\<exists>x. m = Inr x \<and> f x = Inl e)"
  by (cases m) simp_all

lemma guardR_True [simp]: "guardR True e k = k"
  by (simp add: guardR_def)

lemma guardR_False [simp]: "guardR False e k = Inl e"
  by (simp add: guardR_def)

lemma guardR_eq_Inr: "guardR ok e k = Inr y \<longleftrightarrow> ok \<and> k = Inr y"
  by (simp add: guardR_def)

lemma guardR_eq_Inl: "guardR ok e k = Inl e' \<longleftrightarrow> (\<not> ok \<and> e' = e) \<or> (ok \<and> k = Inl e')"
  by (auto simp: guardR_def)

lemmas result_simps = bindR_eq_Inr bindR_eq_Inl guardR_eq_Inr guardR_eq_Inl

section \<open>Slices\<close>

text \<open>
  \<open>slice lo hi xs\<close> is Go's \<^verbatim>\<open>xs[lo:hi]\<close> for bounds that are in range; \<open>overwrite p ys xs\<close>
  is \<^verbatim>\<open>copy(xs[p:], ys)\<close>, which stops at the end of the destination.
\<close>

definition slice :: "nat \<Rightarrow> nat \<Rightarrow> 'a list \<Rightarrow> 'a list" where
  "slice lo hi xs = take (hi - lo) (drop lo xs)"

definition overwrite :: "nat \<Rightarrow> 'a list \<Rightarrow> 'a list \<Rightarrow> 'a list" where
  "overwrite p ys xs =
     take p xs @ take (length xs - p) ys @ drop (p + length ys) xs"

lemma length_slice [simp]: "length (slice lo hi xs) = min (hi - lo) (length xs - lo)"
  by (simp add: slice_def)

lemma slice_full [simp]: "slice 0 (length xs) xs = xs"
  by (simp add: slice_def)

lemma slice_empty [simp]: "hi \<le> lo \<Longrightarrow> slice lo hi xs = []"
  by (simp add: slice_def)

lemma slice_nth [simp]: "i < hi - lo \<Longrightarrow> lo + i < length xs \<Longrightarrow> slice lo hi xs ! i = xs ! (lo + i)"
  by (simp add: slice_def)

lemma slice_append: "lo \<le> mid \<Longrightarrow> mid \<le> hi \<Longrightarrow> slice lo mid xs @ slice mid hi xs = slice lo hi xs"
proof -
  assume "lo \<le> mid" "mid \<le> hi"
  then have "drop mid xs = drop (mid - lo) (drop lo xs)" and "hi - lo = (mid - lo) + (hi - mid)"
    by simp_all
  then show ?thesis by (simp only: slice_def take_add)
qed

lemma take_slice: "lo \<le> hi \<Longrightarrow> take lo xs @ slice lo hi xs = take hi xs"
  using slice_append[of 0 lo hi xs] by (simp add: slice_def)

lemma slice_drop_end: "length xs \<le> hi \<Longrightarrow> slice lo hi xs = drop lo xs"
  by (simp add: slice_def)

lemma slice_prefix [simp]: "slice (length xs) (length xs + length ys) (xs @ ys @ zs) = ys"
  by (simp add: slice_def)

lemma length_overwrite [simp]: "p \<le> length xs \<Longrightarrow> length (overwrite p ys xs) = length xs"
  by (simp add: overwrite_def)

lemma overwrite_fits:
  "p + length ys \<le> length xs \<Longrightarrow> overwrite p ys xs = take p xs @ ys @ drop (p + length ys) xs"
  by (simp add: overwrite_def)

lemma nth_overwrite:
  assumes "p + length ys \<le> length xs" "i < length xs"
  shows "overwrite p ys xs ! i = (if p \<le> i \<and> i < p + length ys then ys ! (i - p) else xs ! i)"
  using assms by (auto simp: overwrite_fits nth_append min_def)

section \<open>Text\<close>

text \<open>A Go \<^verbatim>\<open>string\<close> converted to \<^verbatim>\<open>[]byte\<close> and back.\<close>

definition to_bytes :: "string \<Rightarrow> bytes" where
  "to_bytes s = map (\<lambda>c. of_nat (of_char c :: nat)) s"

definition of_bytes :: "bytes \<Rightarrow> string" where
  "of_bytes b = map (\<lambda>x. char_of (unat x)) b"

lemma unat_of_char: "unat (of_nat (of_char c :: nat) :: byte) = (of_char c :: nat)"
proof -
  have "(of_char c :: nat) < 256" by (cases c) simp
  then show ?thesis by (simp add: unat_of_nat take_bit_nat_eq_self)
qed

lemma of_bytes_to_bytes [simp]: "of_bytes (to_bytes s) = s"
  by (simp add: of_bytes_def to_bytes_def o_def unat_of_char)

section \<open>Binary search\<close>

text \<open>Go's \<^verbatim>\<open>sort.Search(n, f)\<close>: the bisection over \<open>[i, j)\<close>, with the source's midpoint.\<close>

function search_loop :: "(nat \<Rightarrow> bool) \<Rightarrow> nat \<Rightarrow> nat \<Rightarrow> nat" where
  "search_loop f i j =
     (if i < j then
        let h = (i + j) div 2 in
        if \<not> f h then search_loop f (h + 1) j else search_loop f i h
      else i)"
  by pat_completeness auto
termination
  by (relation "measure (\<lambda>(f, i, j). j - i)") auto

declare search_loop.simps [simp del]

definition sort_Search :: "nat \<Rightarrow> (nat \<Rightarrow> bool) \<Rightarrow> nat" where
  "sort_Search n f = search_loop f 0 n"

lemma search_loop_bounds: "i \<le> j \<Longrightarrow> i \<le> search_loop f i j \<and> search_loop f i j \<le> j"
proof (induction f i j rule: search_loop.induct)
  case (1 f i j)
  show ?case
  proof (cases "i < j")
    case True
    define h where "h = (i + j) div 2"
    have h: "i \<le> h" "h < j" using True by (auto simp: h_def)
    have "\<not> f h \<Longrightarrow> h + 1 \<le> search_loop f (h + 1) j \<and> search_loop f (h + 1) j \<le> j"
      using "1.IH"(1)[OF True h_def] h by simp
    moreover have "f h \<Longrightarrow> i \<le> search_loop f i h \<and> search_loop f i h \<le> h"
      using "1.IH"(2)[OF True h_def] h by simp
    ultimately show ?thesis
      using True h by (auto simp: search_loop.simps[of f i j] h_def[symmetric] Let_def)
  next
    case False
    with "1.prems" have "i = j" by simp
    then show ?thesis by (simp add: search_loop.simps[of f j j])
  qed
qed

lemma search_loop_least:
  assumes "\<And>a b. a \<le> b \<Longrightarrow> f a \<Longrightarrow> f b" "i \<le> j" "\<And>k. k < i \<Longrightarrow> \<not> f k"
  shows "(\<forall>k < search_loop f i j. \<not> f k) \<and> (search_loop f i j < j \<longrightarrow> f (search_loop f i j))"
  using assms
proof (induction f i j rule: search_loop.induct)
  case (1 f i j)
  note unfold = search_loop.simps[of f i j]
  show ?case
  proof (cases "i < j")
    case True
    define h where "h = (i + j) div 2"
    have h: "i \<le> h" "h < j" using True by (auto simp: h_def)
    show ?thesis
    proof (cases "f h")
      case fh: True
      have IH: "(\<forall>k < search_loop f i h. \<not> f k) \<and> (search_loop f i h < h \<longrightarrow> f (search_loop f i h))"
        using "1.IH"(2)[OF True h_def] fh h "1.prems" by blast
      have "search_loop f i h \<le> h" using search_loop_bounds[OF h(1)] by simp
      with IH fh have "f (search_loop f i h)" by (cases "search_loop f i h = h") auto
      with IH show ?thesis using True fh by (simp add: unfold h_def[symmetric] Let_def)
    next
      case nfh: False
      have "\<not> f k" if "k < h + 1" for k
        using nfh "1.prems"(1)[of k h] that by auto
      then show ?thesis
        using "1.IH"(1)[OF True h_def nfh "1.prems"(1)] nfh h True
        by (simp add: unfold h_def[symmetric] Let_def)
    qed
  next
    case False
    with "1.prems"(2) have "i = j" by simp
    then show ?thesis using "1.prems"(3) by (simp add: search_loop.simps[of f j j])
  qed
qed

lemma sort_Search_le: "sort_Search n f \<le> n"
  using search_loop_bounds[of 0 n f] by (simp add: sort_Search_def)

lemma sort_Search_least:
  assumes "\<And>a b. a \<le> b \<Longrightarrow> f a \<Longrightarrow> f b"
  shows "k < sort_Search n f \<Longrightarrow> \<not> f k"
    and "sort_Search n f < n \<Longrightarrow> f (sort_Search n f)"
  using search_loop_least[of f 0 n] assms by (auto simp: sort_Search_def)

end
