(* ===== verification/Fs.thy ===== *)
theory Fs
  imports Prelude
begin

text \<open>
  The file system the installer, the hash cache, the file store and the self-check act on.
  Names map to inode numbers and inodes hold the data, so a hard link shares an inode and a
  rename replaces a name.  Every system call consults \<open>fs_fault\<close>: it may fail, or the process may
  die before it takes effect, and a write that does not finish leaves a prefix.  A statement
  for every \<open>fs_fault\<close> therefore covers a crash between any two calls.  Not modelled: the loss of
  unsynced data at a power failure, directories as objects (making or opening one can only
  fail), following symbolic links, and the reuse of inode numbers.
\<close>

section \<open>State\<close>

datatype errno = ENOENT | EEXIST | EIO

datatype fault = Good | Bad | Dead

record inode =
  i_data :: bytes
  i_mode :: nat
  i_symlink :: bool
  i_mtime :: int

record fsys =
  fs_name :: "string \<Rightarrow> nat option"
  fs_node :: "nat \<Rightarrow> inode"
  fs_next :: nat
  fs_tick :: nat
  fs_fault :: "nat \<Rightarrow> fault"
  fs_torn :: "nat \<Rightarrow> nat"
  fs_rand :: "nat \<Rightarrow> string"
  fs_now :: "nat \<Rightarrow> int"

section \<open>Programs\<close>

text \<open>A program returns a value or dies; what it left in the file system is there either way.\<close>

datatype 'a out = Ret 'a | Crash

type_synonym ('a, 'z) sys = "'z fsys_scheme \<Rightarrow> 'a out \<times> 'z fsys_scheme"

definition retS :: "'a \<Rightarrow> ('a, 'z) sys" where
  "retS x s = (Ret x, s)"

definition bindS :: "('a, 'z) sys \<Rightarrow> ('a \<Rightarrow> ('b, 'z) sys) \<Rightarrow> ('b, 'z) sys" where
  "bindS m f s = (case m s of (Ret x, s') \<Rightarrow> f x s' | (Crash, s') \<Rightarrow> (Crash, s'))"

definition seqS :: "('a, 'z) sys \<Rightarrow> ('b, 'z) sys \<Rightarrow> ('b, 'z) sys" where
  "seqS m n = bindS m (\<lambda>_. n)"

text \<open>\<open>tryS m f\<close> is \<^verbatim>\<open>x, err := m; if err != nil { return err }; f(x)\<close>.\<close>

definition tryS :: "('e + 'a, 'z) sys \<Rightarrow> ('a \<Rightarrow> ('e + 'b, 'z) sys) \<Rightarrow> ('e + 'b, 'z) sys" where
  "tryS m f = bindS m (\<lambda>r. case r of Inl e \<Rightarrow> retS (Inl e) | Inr x \<Rightarrow> f x)"

section \<open>System calls\<close>

definition sysc :: "('z fsys_scheme \<Rightarrow> (errno + 'a) \<times> 'z fsys_scheme) \<Rightarrow> (errno + 'a, 'z) sys" where
  "sysc f s =
     (let t = fs_tick s; s' = s\<lparr>fs_tick := t + 1\<rparr> in
      case fs_fault s t of
        Dead \<Rightarrow> (Crash, s')
      | Bad \<Rightarrow> (Ret (Inl EIO), s')
      | Good \<Rightarrow> (case f s' of (r, s'') \<Rightarrow> (Ret r, s'')))"

definition sys_remove :: "string \<Rightarrow> (errno + unit, 'z) sys" where
  "sys_remove p = sysc (\<lambda>s. case fs_name s p of
     None \<Rightarrow> (Inl ENOENT, s) | Some i \<Rightarrow> (Inr (), s\<lparr>fs_name := (fs_name s)(p := None)\<rparr>))"

definition sys_link :: "string \<Rightarrow> string \<Rightarrow> (errno + unit, 'z) sys" where
  "sys_link a b = sysc (\<lambda>s. case fs_name s a of
     None \<Rightarrow> (Inl ENOENT, s)
   | Some i \<Rightarrow> if fs_name s b \<noteq> None then (Inl EEXIST, s) else (Inr (), s\<lparr>fs_name := (fs_name s)(b := Some i)\<rparr>))"

text \<open>Two names of one inode: \<^verbatim>\<open>rename\<close> does nothing and succeeds.\<close>

definition sys_rename :: "string \<Rightarrow> string \<Rightarrow> (errno + unit, 'z) sys" where
  "sys_rename a b = sysc (\<lambda>s. case fs_name s a of
     None \<Rightarrow> (Inl ENOENT, s)
   | Some i \<Rightarrow> if fs_name s b = Some i then (Inr (), s)
               else (Inr (), s\<lparr>fs_name := (fs_name s)(b := Some i, a := None)\<rparr>))"

definition new_inode :: "string \<Rightarrow> nat \<Rightarrow> 'z fsys_scheme \<Rightarrow> 'z fsys_scheme" where
  "new_inode p mode s = s\<lparr>
     fs_name := (fs_name s)(p := Some (fs_next s)),
     fs_node := (fs_node s)(fs_next s := \<lparr>i_data = [], i_mode = mode, i_symlink = False, i_mtime = fs_now s (fs_tick s)\<rparr>),
     fs_next := fs_next s + 1\<rparr>"

text \<open>\<^verbatim>\<open>os.CreateTemp\<close>: the name its retries settle on; an existing one is the retries running out.\<close>

definition sys_createTemp :: "string \<Rightarrow> (errno + (string \<times> nat), 'z) sys" where
  "sys_createTemp prefix = sysc (\<lambda>s.
     let p = prefix @ fs_rand s (fs_tick s) in
     if fs_name s p \<noteq> None then (Inl EEXIST, s) else (Inr (p, fs_next s), new_inode p 384 s))"

definition node_write :: "nat \<Rightarrow> bytes \<Rightarrow> 'z fsys_scheme \<Rightarrow> 'z fsys_scheme" where
  "node_write i data s = s\<lparr>fs_node := (fs_node s)(i := (fs_node s i)\<lparr>i_data := i_data (fs_node s i) @ data, i_mtime := fs_now s (fs_tick s)\<rparr>)\<rparr>"

definition sys_write :: "nat \<Rightarrow> bytes \<Rightarrow> (errno + unit, 'z) sys" where
  "sys_write i data s =
     (let t = fs_tick s; s' = s\<lparr>fs_tick := t + 1\<rparr>; part = node_write i (take (fs_torn s t) data) s' in
      case fs_fault s t of
        Dead \<Rightarrow> (Crash, part) | Bad \<Rightarrow> (Ret (Inl EIO), part) | Good \<Rightarrow> (Ret (Inr ()), node_write i data s'))"

definition sys_chmod :: "nat \<Rightarrow> nat \<Rightarrow> (errno + unit, 'z) sys" where
  "sys_chmod i mode = sysc (\<lambda>s. (Inr (), s\<lparr>fs_node := (fs_node s)(i := (fs_node s i)\<lparr>i_mode := mode\<rparr>)\<rparr>))"

text \<open>Calls that change nothing the model sees: \<^verbatim>\<open>fsync\<close>, \<^verbatim>\<open>close\<close>, \<^verbatim>\<open>access\<close>, \<^verbatim>\<open>mkdir\<close>, opening a directory.\<close>

definition sys_nop :: "(errno + unit, 'z) sys" where
  "sys_nop = sysc (\<lambda>s. (Inr (), s))"

definition sys_openTrunc :: "string \<Rightarrow> nat \<Rightarrow> (errno + nat, 'z) sys" where
  "sys_openTrunc p mode = sysc (\<lambda>s. case fs_name s p of
     None \<Rightarrow> (Inr (fs_next s), new_inode p mode s)
   | Some i \<Rightarrow> (Inr i, s\<lparr>fs_node := (fs_node s)(i := (fs_node s i)\<lparr>i_data := [], i_mtime := fs_now s (fs_tick s)\<rparr>)\<rparr>))"

definition sys_stat :: "string \<Rightarrow> (errno + (nat \<times> inode), 'z) sys" where
  "sys_stat p = sysc (\<lambda>s. case fs_name s p of None \<Rightarrow> (Inl ENOENT, s) | Some i \<Rightarrow> (Inr (i, fs_node s i), s))"

definition sys_readFile :: "string \<Rightarrow> (errno + bytes, 'z) sys" where
  "sys_readFile p = sysc (\<lambda>s. case fs_name s p of None \<Rightarrow> (Inl ENOENT, s) | Some i \<Rightarrow> (Inr (i_data (fs_node s i)), s))"

section \<open>Text in files\<close>

definition is_space :: "char \<Rightarrow> bool" where
  "is_space c \<longleftrightarrow> (let n = of_char c :: nat in n = 32 \<or> (9 \<le> n \<and> n \<le> 13))"

definition TrimSpace :: "string \<Rightarrow> string" where
  "TrimSpace s = rev (dropWhile is_space (rev (dropWhile is_space s)))"

lemma TrimSpace_id: "list_all (\<lambda>c. \<not> is_space c) s \<Longrightarrow> TrimSpace s = s"
proof -
  assume a: "list_all (\<lambda>c. \<not> is_space c) s"
  have "dropWhile is_space xs = xs" if "list_all (\<lambda>c. \<not> is_space c) xs" for xs using that by (cases xs) auto
  then show ?thesis using a by (simp add: TrimSpace_def)
qed

section \<open>A program logic\<close>

text \<open>
  \<open>wp m Q C s\<close>: run from \<open>s\<close>, \<open>m\<close> returns a result and a state in \<open>Q\<close>, or dies in a state in \<open>C\<close>.
  The rules for system calls drop the fault oracle: a call may die, may fail, or has its effect.
\<close>

definition wp :: "('a, 'z) sys \<Rightarrow> ('a \<Rightarrow> 'z fsys_scheme \<Rightarrow> bool) \<Rightarrow> ('z fsys_scheme \<Rightarrow> bool) \<Rightarrow> 'z fsys_scheme \<Rightarrow> bool" where
  "wp m Q C s = (case m s of (Ret r, s') \<Rightarrow> Q r s' | (Crash, s') \<Rightarrow> C s')"

lemma wp_ret [simp]: "wp (retS x) Q C = Q x"
  by (simp add: wp_def retS_def fun_eq_iff)

lemma wp_bind [simp]: "wp (bindS m f) Q C = wp m (\<lambda>r. wp (f r) Q C) C"
  by (auto simp: wp_def bindS_def fun_eq_iff split: prod.splits out.splits)

lemma wp_seq [simp]: "wp (seqS m n) Q C = wp m (\<lambda>_. wp n Q C) C"
  by (simp add: seqS_def)

lemma wp_try [simp]:
  "wp (tryS m f) Q C = wp m (\<lambda>r. case r of Inl e \<Rightarrow> Q (Inl e) | Inr x \<Rightarrow> wp (f x) Q C) C"
  by (auto simp: tryS_def wp_def bindS_def retS_def fun_eq_iff split: prod.splits out.splits sum.splits)

lemma wp_mono:
  assumes "wp m Q C s" "\<And>r s'. Q r s' \<Longrightarrow> Q' r s'" "\<And>s'. C s' \<Longrightarrow> C' s'"
  shows "wp m Q' C' s"
  using assms by (auto simp: wp_def split: prod.splits out.splits)

text \<open>What holds of a state without its clock.\<close>

definition ticked :: "'z fsys_scheme \<Rightarrow> 'z fsys_scheme" where
  "ticked s = s\<lparr>fs_tick := fs_tick s + 1\<rparr>"

lemma ticked_fields [simp]:
  "fs_name (ticked s) = fs_name s" "fs_node (ticked s) = fs_node s" "fs_next (ticked s) = fs_next s"
  "fs_rand (ticked s) = fs_rand s"
  by (simp_all add: ticked_def)

lemma wp_sysc:
  assumes "C (ticked s)" "Q (Inl EIO) (ticked s)" "Q (fst (f (ticked s))) (snd (f (ticked s)))"
  shows "wp (sysc f) Q C s"
  using assms by (auto simp: wp_def sysc_def ticked_def Let_def split: fault.splits prod.splits)

lemma wp_nop: "C (ticked s) \<Longrightarrow> (\<And>r. Q r (ticked s)) \<Longrightarrow> wp sys_nop Q C s"
  unfolding sys_nop_def by (rule wp_sysc) auto

lemma wp_stat:
  assumes "C (ticked s)" "\<And>e. e = EIO \<or> e = ENOENT \<and> fs_name s p = None \<Longrightarrow> Q (Inl e) (ticked s)"
    and "\<And>i. fs_name s p = Some i \<Longrightarrow> Q (Inr (i, fs_node s i)) (ticked s)"
  shows "wp (sys_stat p) Q C s"
  unfolding sys_stat_def using assms by (intro wp_sysc) (auto split: option.splits)

lemma wp_readFile:
  assumes "C (ticked s)" "\<And>e. e = EIO \<or> e = ENOENT \<and> fs_name s p = None \<Longrightarrow> Q (Inl e) (ticked s)"
    and "\<And>i. fs_name s p = Some i \<Longrightarrow> Q (Inr (i_data (fs_node s i))) (ticked s)"
  shows "wp (sys_readFile p) Q C s"
  unfolding sys_readFile_def using assms by (intro wp_sysc) (auto split: option.splits)

lemma wp_remove:
  assumes "C (ticked s)" "\<And>e. e = EIO \<or> e = ENOENT \<and> fs_name s p = None \<Longrightarrow> Q (Inl e) (ticked s)"
    and "fs_name s p \<noteq> None \<Longrightarrow> Q (Inr ()) ((ticked s)\<lparr>fs_name := (fs_name s)(p := None)\<rparr>)"
  shows "wp (sys_remove p) Q C s"
  unfolding sys_remove_def using assms by (intro wp_sysc) (auto split: option.splits)

lemma wp_link:
  assumes "C (ticked s)" "\<And>e. e = EIO \<or> e = EEXIST \<or> e = ENOENT \<and> fs_name s a = None \<Longrightarrow> Q (Inl e) (ticked s)"
    and "\<And>i. fs_name s a = Some i \<Longrightarrow> fs_name s b = None \<Longrightarrow> Q (Inr ()) ((ticked s)\<lparr>fs_name := (fs_name s)(b := Some i)\<rparr>)"
  shows "wp (sys_link a b) Q C s"
  unfolding sys_link_def using assms by (intro wp_sysc) (auto split: option.splits)

lemma wp_rename:
  assumes "C (ticked s)" "\<And>e. e = EIO \<or> e = ENOENT \<and> fs_name s a = None \<Longrightarrow> Q (Inl e) (ticked s)"
    and "\<And>i. fs_name s a = Some i \<Longrightarrow> fs_name s b = Some i \<Longrightarrow> Q (Inr ()) (ticked s)"
    and "\<And>i. fs_name s a = Some i \<Longrightarrow> fs_name s b \<noteq> Some i \<Longrightarrow>
           Q (Inr ()) ((ticked s)\<lparr>fs_name := (fs_name s)(b := Some i, a := None)\<rparr>)"
  shows "wp (sys_rename a b) Q C s"
  unfolding sys_rename_def using assms by (intro wp_sysc) (auto split: option.splits)

lemma wp_createTemp:
  assumes "C (ticked s)" "\<And>e. Q (Inl e) (ticked s)"
    and "\<And>x. fs_name s (prefix @ x) = None \<Longrightarrow> Q (Inr (prefix @ x, fs_next s)) (new_inode (prefix @ x) 384 (ticked s))"
  shows "wp (sys_createTemp prefix) Q C s"
  unfolding sys_createTemp_def using assms by (intro wp_sysc) (auto simp: Let_def)

lemma wp_write:
  assumes "\<And>n. C (node_write i (take n data) (ticked s))" "\<And>n. Q (Inl EIO) (node_write i (take n data) (ticked s))"
    and "Q (Inr ()) (node_write i data (ticked s))"
  shows "wp (sys_write i data) Q C s"
  using assms by (auto simp: wp_def sys_write_def ticked_def Let_def split: fault.splits)

lemma wp_chmod:
  assumes "C (ticked s)" "Q (Inl EIO) (ticked s)"
    and "Q (Inr ()) ((ticked s)\<lparr>fs_node := (fs_node s)(i := (fs_node s i)\<lparr>i_mode := m\<rparr>)\<rparr>)"
  shows "wp (sys_chmod i m) Q C s"
  unfolding sys_chmod_def using assms by (intro wp_sysc) auto

lemma wp_openTrunc:
  assumes "C (ticked s)" "Q (Inl EIO) (ticked s)"
    and "fs_name s p = None \<Longrightarrow> Q (Inr (fs_next s)) (new_inode p m (ticked s))"
    and "\<And>i t. fs_name s p = Some i \<Longrightarrow>
       Q (Inr i) ((ticked s)\<lparr>fs_node := (fs_node s)(i := (fs_node s i)\<lparr>i_data := [], i_mtime := t\<rparr>)\<rparr>)"
  shows "wp (sys_openTrunc p m) Q C s"
  unfolding sys_openTrunc_def using assms by (intro wp_sysc) (auto split: option.splits)

section \<open>Well-formedness and contents\<close>

definition fs_wf :: "'z fsys_scheme \<Rightarrow> bool" where
  "fs_wf s \<longleftrightarrow> (\<forall>p i. fs_name s p = Some i \<longrightarrow> i < fs_next s)"

definition content :: "'z fsys_scheme \<Rightarrow> string \<Rightarrow> bytes option" where
  "content s p = map_option (\<lambda>i. i_data (fs_node s i)) (fs_name s p)"

lemma new_inode_fields [simp]:
  "fs_name (new_inode p m s) = (fs_name s)(p := Some (fs_next s))"
  "fs_next (new_inode p m s) = fs_next s + 1"
  "fs_node (new_inode p m s) = (fs_node s)(fs_next s := \<lparr>i_data = [], i_mode = m, i_symlink = False, i_mtime = fs_now s (fs_tick s)\<rparr>)"
  by (simp_all add: new_inode_def)

lemma node_write_fields [simp]:
  "fs_name (node_write i d s) = fs_name s" "fs_next (node_write i d s) = fs_next s"
  "fs_node (node_write i d s) = (fs_node s)(i := (fs_node s i)\<lparr>i_data := i_data (fs_node s i) @ d, i_mtime := fs_now s (fs_tick s)\<rparr>)"
  by (simp_all add: node_write_def)

lemma content_ticked [simp]: "content (ticked s) p = content s p"
  by (simp add: content_def)

lemma fs_wf_ticked [simp]: "fs_wf (ticked s) = fs_wf s"
  by (simp add: fs_wf_def)

lemma content_update:
  "content (s\<lparr>fs_node := (fs_node s)(i := v)\<rparr>) q = (if fs_name s q = Some i then Some (i_data v) else content s q)"
  by (cases "fs_name s q") (auto simp: content_def)

lemma content_node_write:
  "content (node_write i d s) q = (if fs_name s q = Some i then Some (i_data (fs_node s i) @ d) else content s q)"
  by (cases "fs_name s q") (auto simp: content_def)

lemma content_new_inode:
  "fs_wf s \<Longrightarrow> content (new_inode p m s) q = (if q = p then Some [] else content s q)"
  by (cases "fs_name s q") (auto simp: content_def fs_wf_def)

lemma fs_wf_new_inode: "fs_wf s \<Longrightarrow> fs_wf (new_inode p m s)"
  by (auto simp: fs_wf_def less_Suc_eq)

lemma content_rename:
  "content (s\<lparr>fs_name := (fs_name s)(b := Some i, a := None)\<rparr>) q =
     (if q = a then None else if q = b then Some (i_data (fs_node s i)) else content s q)"
  by (simp add: content_def)

lemma content_unname: "content (s\<lparr>fs_name := (fs_name s)(a := None)\<rparr>) q = (if q = a then None else content s q)"
  by (simp add: content_def)

lemma content_name: "content (s\<lparr>fs_name := (fs_name s)(a := Some i)\<rparr>) q = (if q = a then Some (i_data (fs_node s i)) else content s q)"
  by (simp add: content_def)

end
