(* ===== verification/Path.thy ===== *)
theory Path
  imports Fs
begin

text \<open>
  Slash paths: \<^verbatim>\<open>path.Clean\<close>, \<^verbatim>\<open>filepath.Join\<close>, \<^verbatim>\<open>filepath.Dir\<close>, \<^verbatim>\<open>filepath.Base\<close> as the stores use them, and what
  they give on the keys a store accepts (\<^verbatim>\<open>checkKey\<close> in \<^verbatim>\<open>store/file.go\<close>, \<^verbatim>\<open>sshCheckKey\<close> in \<^verbatim>\<open>store/ssh.go\<close>).
\<close>

section \<open>Elements\<close>

fun split_slash :: "string \<Rightarrow> string list" where
  "split_slash [] = [[]]"
| "split_slash (c # s) = (if c = CHR ''/'' then [] # split_slash s
     else case split_slash s of [] \<Rightarrow> [[c]] | e # es \<Rightarrow> (c # e) # es)"

fun join_slash :: "string list \<Rightarrow> string" where
  "join_slash [] = []"
| "join_slash [e] = e"
| "join_slash (e # es) = e @ CHR ''/'' # join_slash es"

text \<open>\<open>out\<close> is the elements kept so far; \<^verbatim>\<open>..\<close> removes the last one unless it is itself a \<^verbatim>\<open>..\<close>.\<close>

definition clean_step :: "bool \<Rightarrow> string list \<Rightarrow> string \<Rightarrow> string list" where
  "clean_step rooted out e =
     (if e = [] \<or> e = ''.'' then out
      else if e = ''..'' then
        (if out \<noteq> [] \<and> last out \<noteq> ''..'' then butlast out else if rooted then out else out @ [''..''])
      else out @ [e])"

definition is_rooted :: "string \<Rightarrow> bool" where
  "is_rooted p \<longleftrightarrow> p \<noteq> [] \<and> hd p = CHR ''/''"

definition unsplit :: "bool \<Rightarrow> string list \<Rightarrow> string" where
  "unsplit rooted out = (if rooted then CHR ''/'' # join_slash out else if out = [] then ''.'' else join_slash out)"

definition clean_parts :: "string \<Rightarrow> string list" where
  "clean_parts p = foldl (clean_step (is_rooted p)) [] (split_slash p)"

definition Clean :: "string \<Rightarrow> string" where
  "Clean p = unsplit (is_rooted p) (clean_parts p)"

definition Join :: "string \<Rightarrow> string \<Rightarrow> string" where
  "Join a b = (if a = [] then if b = [] then [] else Clean b else Clean (a @ ''/'' @ b))"

definition upto_slash :: "string \<Rightarrow> string" where
  "upto_slash p = rev (dropWhile (\<lambda>c. c \<noteq> CHR ''/'') (rev p))"

definition after_slash :: "string \<Rightarrow> string" where
  "after_slash p = rev (takeWhile (\<lambda>c. c \<noteq> CHR ''/'') (rev p))"

definition Dir :: "string \<Rightarrow> string" where
  "Dir p = Clean (upto_slash p)"

definition Base :: "string \<Rightarrow> string" where
  "Base p = (if p = [] then ''.''
     else let b = after_slash (rev (dropWhile (\<lambda>c. c = CHR ''/'') (rev p))) in if b = [] then ''/'' else b)"

text \<open>\<^verbatim>\<open>os.CreateTemp(dir, pattern)\<close> puts one separator between them.\<close>

definition joinPath :: "string \<Rightarrow> string \<Rightarrow> string" where
  "joinPath dir name = (if dir \<noteq> [] \<and> last dir = CHR ''/'' then dir @ name else dir @ ''/'' @ name)"

section \<open>Splitting and joining\<close>

definition elem :: "string \<Rightarrow> bool" where
  "elem e \<longleftrightarrow> CHR ''/'' \<notin> set e"

definition good_elem :: "string \<Rightarrow> bool" where
  "good_elem e \<longleftrightarrow> elem e \<and> e \<noteq> [] \<and> e \<noteq> ''.'' \<and> e \<noteq> ''..''"

lemma elem_ends: "elem e \<Longrightarrow> e \<noteq> [] \<Longrightarrow> hd e \<noteq> CHR ''/'' \<and> last e \<noteq> CHR ''/''"
  by (metis elem_def hd_in_set last_in_set)

lemma split_slash_nonempty [simp]: "split_slash p \<noteq> []"
  by (cases p) (auto split: list.splits)

lemma split_slash_elem: "list_all elem (split_slash p)"
  by (induction p) (auto simp: elem_def split: list.splits)

lemma join_split [simp]: "join_slash (split_slash p) = p"
proof (induction p)
  case (Cons c s)
  obtain e es where "split_slash s = e # es" by (cases "split_slash s") auto
  then show ?case using Cons by (cases es) auto
qed simp

lemma split_slash_append: "split_slash (a @ CHR ''/'' # b) = split_slash a @ split_slash b"
  by (induction a) (auto split: list.splits)

lemma split_elem: "elem e \<Longrightarrow> split_slash e = [e]"
  by (induction e) (auto simp: elem_def)

lemma split_join: "es \<noteq> [] \<Longrightarrow> list_all elem es \<Longrightarrow> split_slash (join_slash es) = es"
  by (induction es rule: join_slash.induct) (auto simp: split_elem split_slash_append)

lemma join_append: "a \<noteq> [] \<Longrightarrow> b \<noteq> [] \<Longrightarrow> join_slash (a @ b) = join_slash a @ CHR ''/'' # join_slash b"
  by (induction a rule: join_slash.induct) (auto simp: neq_Nil_conv)

lemma join_inj:
  assumes "list_all elem a" "list_all elem b" "a \<noteq> []" "b \<noteq> []" "join_slash a = join_slash b"
  shows "a = b"
  by (metis split_join[OF assms(3,1)] split_join[OF assms(4,2)] assms(5))

section \<open>Cleaning\<close>

text \<open>What cleaning keeps: some \<^verbatim>\<open>..\<close> at the front, none of a rooted path, and good elements.\<close>

definition kept_parts :: "bool \<Rightarrow> string list \<Rightarrow> bool" where
  "kept_parts rooted out \<longleftrightarrow> (\<exists>n gs. out = replicate n ''..'' @ gs \<and> list_all good_elem gs \<and> (rooted \<longrightarrow> n = 0))"

lemma keptI: "list_all good_elem gs \<Longrightarrow> (r \<longrightarrow> n = 0) \<Longrightarrow> kept_parts r (replicate n ''..'' @ gs)"
  unfolding kept_parts_def by blast

lemma clean_step_good: "good_elem e \<Longrightarrow> clean_step r out e = out @ [e]"
  by (simp add: clean_step_def good_elem_def)

lemma clean_step_dot: "e = [] \<or> e = ''.'' \<Longrightarrow> clean_step r out e = out"
  by (simp add: clean_step_def)

lemma clean_step_dotdot:
  "clean_step r out ''..'' =
     (if out \<noteq> [] \<and> last out \<noteq> ''..'' then butlast out else if r then out else out @ [''..''])"
  by (simp add: clean_step_def)

lemma kept_dotdot:
  assumes "list_all good_elem gs" "r \<longrightarrow> n = 0"
  shows "kept_parts r (clean_step r (replicate n ''..'' @ gs) ''..'')"
proof (cases gs rule: rev_cases)
  case Nil
  have "last (replicate n ''..'') = ''..''" if "n \<noteq> 0" using that by (simp add: last_replicate)
  then have "clean_step r (replicate n ''..'' @ gs) ''..'' = (if r then replicate n ''..'' else replicate n ''..'' @ [''..''])"
    unfolding clean_step_dotdot Nil by (cases "n = 0") auto
  moreover have "replicate n ''..'' @ [''..''] = replicate (Suc n) ''..'' @ []" by (simp add: replicate_append_same)
  ultimately show ?thesis using keptI[of "[]" r n] keptI[of "[]" r "Suc n"] assms(2) by (cases r) (simp_all add: list_all_iff)
next
  case (snoc ys y)
  then have "list_all good_elem ys" "y \<noteq> ''..''" using assms(1) by (simp_all add: good_elem_def[of y])
  moreover from this have "clean_step r (replicate n ''..'' @ gs) ''..'' = replicate n ''..'' @ ys"
    unfolding clean_step_dotdot snoc by (simp add: butlast_append)
  ultimately show ?thesis using keptI assms(2) by simp
qed

lemma kept_clean_step:
  assumes "kept_parts r out" "elem e"
  shows "kept_parts r (clean_step r out e)"
proof -
  obtain n gs where o: "out = replicate n ''..'' @ gs" "list_all good_elem gs" "r \<longrightarrow> n = 0"
    using assms(1) unfolding kept_parts_def by blast
  consider "e = [] \<or> e = ''.''" | "e = ''..''" | "good_elem e" using assms(2) unfolding good_elem_def by blast
  then show ?thesis
  proof cases
    case 3
    then have "clean_step r out e = replicate n ''..'' @ (gs @ [e])" using o(1) clean_step_good by simp
    then show ?thesis using keptI[of "gs @ [e]" r n] o(2,3) 3 by simp
  qed (use assms(1) clean_step_dot kept_dotdot[OF o(2,3)] o(1) in simp_all)
qed

lemma kept_clean_fold: "kept_parts r out \<Longrightarrow> list_all elem es \<Longrightarrow> kept_parts r (foldl (clean_step r) out es)"
  by (induction es arbitrary: out) (simp_all add: kept_clean_step)

lemma kept_nil: "kept_parts r []"
  using keptI[of "[]" r 0] by simp

lemma kept_clean_parts: "kept_parts (is_rooted p) (clean_parts p)"
  unfolding clean_parts_def by (rule kept_clean_fold[OF kept_nil split_slash_elem])

lemma kept_elem: "kept_parts r out \<Longrightarrow> list_all elem out"
proof -
  assume "kept_parts r out"
  then obtain n gs where o: "out = replicate n ''..'' @ gs" "list_all good_elem gs" unfolding kept_parts_def by blast
  have "list_all elem gs" using o(2) unfolding good_elem_def list_all_iff by blast
  moreover have "list_all elem (replicate n ''..'')" by (induction n) (simp_all add: elem_def)
  ultimately show ?thesis by (simp add: o(1))
qed

lemma clean_good: "list_all good_elem es \<Longrightarrow> foldl (clean_step r) out es = out @ es"
  by (induction es arbitrary: out) (simp_all add: clean_step_good)

lemma clean_dotdots: "foldl (clean_step False) (replicate k ''..'') (replicate n ''..'') = replicate (k + n) ''..''"
proof (induction n arbitrary: k)
  case (Suc n)
  have "clean_step False (replicate k ''..'') ''..'' = replicate (Suc k) ''..''"
    by (cases "k = 0") (simp_all add: clean_step_dotdot last_replicate replicate_append_same)
  then show ?case using Suc[of "Suc k"] by simp
qed simp

lemma clean_kept:
  assumes "kept_parts r out"
  shows "foldl (clean_step r) [] out = out"
proof -
  obtain n gs where o: "out = replicate n ''..'' @ gs" "list_all good_elem gs" "r \<longrightarrow> n = 0"
    using assms unfolding kept_parts_def by blast
  have "foldl (clean_step r) [] (replicate n ''..'') = replicate n ''..''"
    using o(3) clean_dotdots[of 0 n] by (cases r) auto
  then show ?thesis using o(1) clean_good[OF o(2)] by simp
qed

text \<open>A cleaned path is its own clean form, and its parts are those kept.\<close>

lemma clean_step_nil [simp]: "clean_step r out [] = out"
  by (simp add: clean_step_def)

lemma hd_join: "e \<noteq> [] \<Longrightarrow> join_slash (e # es) \<noteq> [] \<and> hd (join_slash (e # es)) = hd e"
  by (cases es) simp_all

lemma kept_hd:
  assumes "kept_parts r (e # es)"
  shows "e \<noteq> []" "hd e \<noteq> CHR ''/''"
proof -
  obtain n gs where o: "e # es = replicate n ''..'' @ gs" "list_all good_elem gs" using assms unfolding kept_parts_def by blast
  have "e = ''..'' \<or> good_elem e" using o by (cases n; cases gs) auto
  then show n: "e \<noteq> []" by (auto simp: good_elem_def)
  show "hd e \<noteq> CHR ''/''" using \<open>e = ''..'' \<or> good_elem e\<close> elem_ends[of e] by (auto simp: good_elem_def)
qed

lemma rooted_unsplit: "kept_parts r out \<Longrightarrow> is_rooted (unsplit r out) = r"
  using kept_hd hd_join by (cases out) (auto simp: unsplit_def is_rooted_def)

lemma parts_unsplit:
  assumes "kept_parts r out"
  shows "clean_parts (unsplit r out) = out"
proof -
  note el = kept_elem[OF assms]
  show ?thesis
  proof (cases "out = []")
    case True
    then show ?thesis using rooted_unsplit[OF assms] by (simp add: clean_parts_def unsplit_def clean_step_def)
  next
    case False
    then have "split_slash (unsplit r out) = (if r then [] # out else out)" using split_join[OF _ el] by (simp add: unsplit_def)
    then show ?thesis using rooted_unsplit[OF assms] clean_kept[OF assms] clean_step_dot[of "[]" r "[]"]
      by (cases r) (simp_all add: clean_parts_def)
  qed
qed

lemma Clean_unsplit: "kept_parts r out \<Longrightarrow> Clean (unsplit r out) = unsplit r out"
  by (simp add: Clean_def rooted_unsplit parts_unsplit)

lemma unsplit_inj:
  "kept_parts r a \<Longrightarrow> kept_parts r b \<Longrightarrow> unsplit r a = unsplit r b \<Longrightarrow> a = b"
  using parts_unsplit by metis

section \<open>Keys\<close>

definition checkKey :: "string \<Rightarrow> bool" where
  "checkKey key \<longleftrightarrow> \<not> (key = [] \<or> key \<noteq> Clean key \<or> hd key = CHR ''/'' \<or> hd key = CHR ''.'')"

text \<open>A key the stores accept is a list of names: nothing in it climbs, and it does not start with a dot.\<close>

theorem checkKey_elems:
  "checkKey key \<longleftrightarrow> key \<noteq> [] \<and> hd key \<noteq> CHR ''.'' \<and> list_all good_elem (split_slash key)"
proof
  assume a: "checkKey key"
  then have k: "key \<noteq> []" "key = Clean key" "hd key \<noteq> CHR ''.''" and nr: "\<not> is_rooted key" by (auto simp: checkKey_def is_rooted_def)
  obtain n gs where o: "clean_parts key = replicate n ''..'' @ gs" "list_all good_elem gs"
    using kept_clean_parts[of key] unfolding kept_parts_def by blast
  have "clean_parts key \<noteq> []" using k nr by (auto simp: Clean_def unsplit_def)
  then have j: "key = join_slash (clean_parts key)" using k(2) nr by (simp add: Clean_def unsplit_def)
  have "n = 0"
  proof (rule ccontr)
    assume "n \<noteq> 0"
    then obtain m where "n = Suc m" by (cases n) auto
    then have "hd key = CHR ''.''" using j o(1) hd_join[of "''..''" "replicate m ''..'' @ gs"] by simp
    then show False using k(3) by simp
  qed
  then have "list_all good_elem (clean_parts key)" using o by simp
  moreover have "split_slash key = clean_parts key"
    using split_join[OF \<open>clean_parts key \<noteq> []\<close> kept_elem[OF kept_clean_parts]] j by simp
  ultimately show "key \<noteq> [] \<and> hd key \<noteq> CHR ''.'' \<and> list_all good_elem (split_slash key)" using k by simp
next
  assume a: "key \<noteq> [] \<and> hd key \<noteq> CHR ''.'' \<and> list_all good_elem (split_slash key)"
  have nr: "\<not> is_rooted key"
  proof
    assume "is_rooted key"
    then have "hd (split_slash key) = []" by (cases key) (auto simp: is_rooted_def)
    then show False using a by (cases "split_slash key") (auto simp: good_elem_def)
  qed
  then have "clean_parts key = split_slash key" using clean_good a by (simp add: clean_parts_def)
  then have "Clean key = key" using nr by (simp add: Clean_def unsplit_def)
  then show "checkKey key" using a nr by (simp add: checkKey_def is_rooted_def)
qed

text \<open>Under a clean root, a key's file is the root's elements and then the key's.\<close>

lemma kept_good: "kept_parts r out \<Longrightarrow> list_all good_elem gs \<Longrightarrow> kept_parts r (out @ gs)"
proof -
  assume a: "kept_parts r out" "list_all good_elem gs"
  then obtain n hs where o: "out = replicate n ''..'' @ hs" "list_all good_elem hs" "r \<longrightarrow> n = 0" unfolding kept_parts_def by blast
  then show ?thesis using keptI[of "hs @ gs" r n] a(2) by simp
qed

lemma rooted_append: "a \<noteq> [] \<Longrightarrow> is_rooted (a @ b) = is_rooted a"
  by (simp add: is_rooted_def)

lemma Join_elems:
  assumes "root \<noteq> []" "list_all good_elem (split_slash key)"
  shows "Join root key = unsplit (is_rooted root) (clean_parts root @ split_slash key)"
proof -
  have "clean_parts (root @ CHR ''/'' # key) = clean_parts root @ split_slash key"
    by (simp add: clean_parts_def split_slash_append clean_good[OF assms(2)] rooted_append[OF assms(1)])
  then show ?thesis using assms(1) by (simp add: Join_def Clean_def rooted_append)
qed

lemma Join_inj:
  assumes "root \<noteq> []" "list_all good_elem (split_slash a)" "list_all good_elem (split_slash b)" "Join root a = Join root b"
  shows "a = b"
proof -
  note k = kept_good[OF kept_clean_parts assms(2), of root] kept_good[OF kept_clean_parts assms(3), of root]
  have "clean_parts root @ split_slash a = clean_parts root @ split_slash b"
    using unsplit_inj[OF k] assms(4) Join_elems[OF assms(1,2)] Join_elems[OF assms(1,3)] by simp
  then have "join_slash (split_slash a) = join_slash (split_slash b)" by simp
  then show ?thesis by simp
qed

section \<open>Temporary names\<close>

definition tempName :: "string \<Rightarrow> string" where
  "tempName p = joinPath (Dir p) (Base p @ ''.tmp.'')"

lemma upto_after: "elem b \<Longrightarrow> upto_slash (a @ CHR ''/'' # b) = a @ ''/''" "elem b \<Longrightarrow> after_slash (a @ CHR ''/'' # b) = b"
  by (auto simp: upto_slash_def after_slash_def elem_def takeWhile_append dropWhile_append)

lemma upto_after_elem: "elem b \<Longrightarrow> upto_slash b = []" "elem b \<Longrightarrow> after_slash b = b"
proof -
  assume "elem b"
  then have "takeWhile (\<lambda>c. c \<noteq> CHR ''/'') (rev b) = rev b" "dropWhile (\<lambda>c. c \<noteq> CHR ''/'') (rev b) = []"
    unfolding takeWhile_eq_all_conv dropWhile_eq_Nil_conv by (auto simp: elem_def)
  then show "upto_slash b = []" "after_slash b = b" by (simp_all only: upto_slash_def after_slash_def rev_rev_ident rev.simps)
qed

lemma Base_elem:
  assumes "elem b" "b \<noteq> []" "p = b \<or> p = a @ CHR ''/'' # b"
  shows "Base p = b"
proof -
  have "hd (rev p) \<noteq> CHR ''/''" "p \<noteq> []" using assms elem_ends[of b] by (auto simp: hd_append hd_rev)
  then have "rev (dropWhile (\<lambda>c. c = CHR ''/'') (rev p)) = p" by (cases "rev p") auto
  moreover have "after_slash p = b" using assms upto_after upto_after_elem by auto
  ultimately show ?thesis using \<open>p \<noteq> []\<close> assms(2) by (simp add: Base_def)
qed

lemma kept_butlast:
  assumes "kept_parts r (out @ [b])" "good_elem b"
  shows "kept_parts r out"
proof -
  obtain n gs where o: "out @ [b] = replicate n ''..'' @ gs" "list_all good_elem gs" "r \<longrightarrow> n = 0"
    using assms(1) unfolding kept_parts_def by blast
  show ?thesis
  proof (cases gs rule: rev_cases)
    case Nil
    then have "b \<in> set (replicate n ''..'')" using o(1) by (metis append_Nil2 in_set_conv_decomp)
    then show ?thesis using assms(2) by (simp add: good_elem_def)
  next
    case (snoc ys y)
    then show ?thesis using keptI[of ys r n] o by simp
  qed
qed

lemma Clean_slash:
  assumes "kept_parts r out" "out \<noteq> []"
  shows "Clean (unsplit r out @ ''/'') = unsplit r out"
proof -
  define d where "d = unsplit r out"
  have d: "d \<noteq> []" using assms kept_hd hd_join by (cases out) (auto simp: d_def unsplit_def)
  have "clean_parts (d @ ''/'') = clean_parts d"
    using split_slash_append[of d "[]"] by (simp add: clean_parts_def rooted_append[OF d] clean_step_dot)
  then show ?thesis using Clean_unsplit[OF assms(1)] rooted_append[OF d] by (simp add: Clean_def d_def)
qed

lemma Clean_slash_only: "Clean ''/'' = ''/''" "Clean [] = ''.''"
  by (simp_all add: Clean_def clean_parts_def is_rooted_def unsplit_def clean_step_dot)

lemma tempName_longer:
  assumes "kept_parts r (out @ [b])" "good_elem b"
  shows "length (unsplit r (out @ [b])) < length (tempName (unsplit r (out @ [b])))"
proof -
  define p where "p = unsplit r (out @ [b])"
  have b: "elem b" "b \<noteq> []" using assms(2) by (auto simp: good_elem_def)
  have kept: "kept_parts r out" by (rule kept_butlast[OF assms])
  show ?thesis
  proof (cases "out = []")
    case True
    then have p: "p = (if r then [] @ CHR ''/'' # b else b)" by (simp add: p_def unsplit_def)
    then have "Base p = b" using Base_elem[OF b, of p "[]"] by (cases r) auto
    moreover have "Dir p = (if r then ''/'' else ''.'')"
      using upto_after(1)[OF b(1), of "[]"] upto_after_elem(1)[OF b(1)] Clean_slash_only by (simp add: Dir_def p)
    ultimately show ?thesis using p by (auto simp: tempName_def joinPath_def p_def[symmetric])
  next
    case False
    define d where "d = (if r then CHR ''/'' # join_slash out else join_slash out)"
    have p: "p = d @ CHR ''/'' # b" using False by (simp add: p_def d_def unsplit_def join_append)
    have du: "d = unsplit r out" using False by (simp add: d_def unsplit_def)
    have "Dir p = d" using upto_after(1)[OF b(1), of d] Clean_slash[OF kept False] by (simp add: Dir_def p du)
    moreover have "Base p = b" using Base_elem[OF b, of p d] p by simp
    ultimately show ?thesis using p by (simp add: tempName_def joinPath_def p_def[symmetric])
  qed
qed

end
