(* ===== verification/Buf.thy ===== *)
theory Buf
  imports Prelude
begin

text \<open>
  The codec's wire primitives: \<^verbatim>\<open>encoding/binary\<close>'s varints as the codec uses them, and
  \<^verbatim>\<open>delta/buf.go\<close>'s append-only writer and error-sticky reader.  The locale \<open>wire_format\<close>
  is the interface every serialised value offers; it is interpreted here for the
  unsigned and signed varints and the length-prefixed strings, and by the later
  theories for the records they serialise.
\<close>

section \<open>Errors of the codec\<close>

text \<open>
  One constructor per way the codec reports failure.  \<open>Corrupt\<close> is \<^verbatim>\<open>errCorrupt\<close> with
  the message that follows it; \<open>Panic\<close> is a run-time panic (a slice or an index out of
  range), which no caller recovers.
\<close>

datatype derror =
    Corrupt string
  | LzErr string
  | CzErr string
  | OldSizeMismatch
  | OldHashMismatch
  | OutHashMismatch
  | PredictedBaseMismatch
  | PredictionLength
  | PlainTooLarge
  | Unsupported string
  | UnsupportedTransform byte
  | NotGoBinary derror
  | Panic

section \<open>Varints\<close>

fun put_uvarint :: "nat \<Rightarrow> bytes" where
  "put_uvarint x =
     (if x \<ge> 128 then of_nat (x mod 128 + 128) # put_uvarint (x div 128) else [of_nat x])"

declare put_uvarint.simps [simp del]

text \<open>
  \<^verbatim>\<open>binary.Uvarint\<close>: the value and the number of bytes read; the count is 0 when the buffer
  ends inside the varint and negative when it does not fit 64 bits.  The bits or-ed in at
  \<open>s\<close> lie above those of \<open>x\<close>, so the or is an addition.
\<close>

fun uvarint_loop :: "nat \<Rightarrow> nat \<Rightarrow> nat \<Rightarrow> bytes \<Rightarrow> nat \<times> int" where
  "uvarint_loop i s x [] = (0, 0)"
| "uvarint_loop i s x (b # bs) =
     (if i = 10 then (0, - int (i + 1))
      else if unat b < 128 then
        (if i = 9 \<and> unat b > 1 then (0, - int (i + 1))
         else (x + unat b * 2 ^ s, int (i + 1)))
      else uvarint_loop (i + 1) (s + 7) (x + (unat b mod 128) * 2 ^ s) bs)"

definition uvarint :: "bytes \<Rightarrow> nat \<times> int" where
  "uvarint b = uvarint_loop 0 0 0 b"

text \<open>\<^verbatim>\<open>binary.PutVarint\<close> and \<^verbatim>\<open>binary.Varint\<close>: zig-zag, then the unsigned form.\<close>

definition zigzag :: "int \<Rightarrow> nat" where
  "zigzag x = (if x < 0 then nat (- 2 * x - 1) else nat (2 * x))"

definition unzigzag :: "nat \<Rightarrow> int" where
  "unzigzag u = (if odd u then - int (u div 2) - 1 else int (u div 2))"

definition put_varint :: "int \<Rightarrow> bytes" where
  "put_varint x = put_uvarint (zigzag x)"

definition varint :: "bytes \<Rightarrow> int \<times> int" where
  "varint b = (case uvarint b of (u, n) \<Rightarrow> (unzigzag u, n))"

section \<open>The writer\<close>

text \<open>A \<^verbatim>\<open>wbuf\<close> is the bytes appended so far; every method returns the longer buffer.\<close>

definition w_u :: "nat \<Rightarrow> bytes \<Rightarrow> bytes" where
  "w_u v w = w @ put_uvarint v"

definition w_s :: "int \<Rightarrow> bytes \<Rightarrow> bytes" where
  "w_s v w = w @ put_varint v"

definition w_raw :: "bytes \<Rightarrow> bytes \<Rightarrow> bytes" where
  "w_raw b w = w @ b"

definition w_bytes :: "bytes \<Rightarrow> bytes \<Rightarrow> bytes" where
  "w_bytes b w = w_raw b (w_u (length b) w)"

definition w_str :: "bytes \<Rightarrow> bytes \<Rightarrow> bytes" where
  "w_str s w = w_raw s (w_u (length s) w)"

section \<open>The reader\<close>

text \<open>
  A \<^verbatim>\<open>rbuf\<close> holds what is left to read and the first error.  After an error the buffer
  is empty, so every later read fails too and the first error is the one reported.
\<close>

record rbuf =
  rb :: bytes
  rerr :: "derror option"

definition rbuf_of :: "bytes \<Rightarrow> rbuf" where
  "rbuf_of b = \<lparr>rb = b, rerr = None\<rparr>"

definition r_fail :: "string \<Rightarrow> rbuf \<Rightarrow> rbuf" where
  "r_fail msg r =
     \<lparr>rb = [], rerr = (case rerr r of None \<Rightarrow> Some (Corrupt msg) | Some e \<Rightarrow> Some e)\<rparr>"

definition r_u :: "rbuf \<Rightarrow> nat \<times> rbuf" where
  "r_u r = (case uvarint (rb r) of (v, n) \<Rightarrow>
     if n \<le> 0 then (0, r_fail ''bad uvarint'' r) else (v, r\<lparr>rb := drop (nat n) (rb r)\<rparr>))"

definition r_s :: "rbuf \<Rightarrow> int \<times> rbuf" where
  "r_s r = (case varint (rb r) of (v, n) \<Rightarrow>
     if n \<le> 0 then (0, r_fail ''bad varint'' r) else (v, r\<lparr>rb := drop (nat n) (rb r)\<rparr>))"

definition r_un :: "nat \<Rightarrow> string \<Rightarrow> rbuf \<Rightarrow> nat \<times> rbuf" where
  "r_un mx what r = (case r_u r of (v, r') \<Rightarrow>
     if v > mx then (0, r_fail what r') else (v, r'))"

definition r_byte :: "rbuf \<Rightarrow> byte \<times> rbuf" where
  "r_byte r = (case rb r of [] \<Rightarrow> (0, r_fail ''truncated'' r) | b # bs \<Rightarrow> (b, r\<lparr>rb := bs\<rparr>))"

definition r_take :: "nat \<Rightarrow> rbuf \<Rightarrow> bytes \<times> rbuf" where
  "r_take n r =
     (if length (rb r) < n then ([], r_fail ''bytes wanted'' r)
      else (take n (rb r), r\<lparr>rb := drop n (rb r)\<rparr>))"

definition r_bytes :: "rbuf \<Rightarrow> bytes \<times> rbuf" where
  "r_bytes r = (case r_u r of (n, r') \<Rightarrow> r_take n r')"

definition r_done :: "rbuf \<Rightarrow> derror + unit" where
  "r_done r = (case rerr r of Some e \<Rightarrow> Inl e
     | None \<Rightarrow> if rb r \<noteq> [] then Inl (Corrupt ''trailing bytes'') else Inr ())"

text \<open>The codec's \<^verbatim>\<open>for i < n && r.err == nil\<close> loops over equal records.\<close>

fun read_n :: "(rbuf \<Rightarrow> 'a \<times> rbuf) \<Rightarrow> nat \<Rightarrow> rbuf \<Rightarrow> 'a list \<times> rbuf" where
  "read_n get 0 r = ([], r)"
| "read_n get (Suc n) r =
     (if rerr r \<noteq> None then ([], r)
      else case get r of (x, r') \<Rightarrow> (case read_n get n r' of (xs, r'') \<Rightarrow> (x # xs, r'')))"

section \<open>Round trips of the varints\<close>

lemma unat_byte: "n < 256 \<Longrightarrow> unat (of_nat n :: byte) = n"
  by (simp add: unat_of_nat take_bit_nat_eq_self)

lemma byte_less: "unat (b :: byte) < 256"
  by (rule order_less_le_trans[OF unsigned_less]) simp

lemma put_uvarint_nonempty [simp]: "put_uvarint v \<noteq> []"
  by (simp add: put_uvarint.simps[of v])

lemma put_varint_nonempty [simp]: "put_varint v \<noteq> []"
  by (simp add: put_varint_def)

lemma length_put_uvarint_le: "v < 2 ^ (7 * Suc k) \<Longrightarrow> length (put_uvarint v) \<le> Suc k"
proof (induction k arbitrary: v)
  case 0
  then show ?case by (simp add: put_uvarint.simps[of v])
next
  case (Suc k)
  have "v < 2 ^ (7 * Suc k) * 128" using Suc.prems by (simp add: power_add)
  then have "v div 128 < 2 ^ (7 * Suc k)" by (rule less_mult_imp_div_less)
  then show ?case using Suc.IH[of "v div 128"] by (simp add: put_uvarint.simps[of v])
qed

lemma length_put_uvarint: "v < 2 ^ 64 \<Longrightarrow> length (put_uvarint v) \<le> 10"
  using length_put_uvarint_le[of v 9] by simp

lemma uvarint_loop_put:
  assumes "v * 2 ^ (7 * i) < 2 ^ 64" "i \<le> 9"
  shows "uvarint_loop i (7 * i) x (put_uvarint v @ rest) =
    (x + v * 2 ^ (7 * i), int (i + length (put_uvarint v)))"
  using assms
proof (induction v arbitrary: i x rule: put_uvarint.induct)
  case (1 v)
  show ?case
  proof (cases "v \<ge> 128")
    case True
    have i: "i \<le> 8"
    proof (rule ccontr)
      assume "\<not> i \<le> 8"
      with "1.prems"(2) have "i = 9" by simp
      with "1.prems"(1) True show False by simp
    qed
    have ub: "unat (of_nat (v mod 128 + 128) :: byte) = v mod 128 + 128"
      by (rule unat_byte) (simp add: Suc_leI)
    have step: "v div 128 * 2 ^ (7 * (i + 1)) = (v div 128 * 128) * 2 ^ (7 * i)"
      by (simp add: power_add)
    have "v div 128 * 128 \<le> v" by simp
    then have "v div 128 * 2 ^ (7 * (i + 1)) \<le> v * 2 ^ (7 * i)"
      unfolding step by (rule mult_le_mono1)
    with "1.prems"(1) have lt: "v div 128 * 2 ^ (7 * (i + 1)) < 2 ^ 64" by linarith
    have eq: "(v mod 128) * 2 ^ (7 * i) + v div 128 * 2 ^ (7 * (i + 1)) = v * 2 ^ (7 * i)"
      unfolding step by (simp flip: distrib_right)
    have "uvarint_loop i (7 * i) x (put_uvarint v @ rest) =
        uvarint_loop (i + 1) (7 * (i + 1)) (x + (v mod 128) * 2 ^ (7 * i)) (put_uvarint (v div 128) @ rest)"
      using True i ub by (simp add: put_uvarint.simps[of v] add.commute[of 7])
    also have "\<dots> = (x + (v mod 128) * 2 ^ (7 * i) + v div 128 * 2 ^ (7 * (i + 1)),
        int (i + 1 + length (put_uvarint (v div 128))))"
      using "1.IH"[OF True lt] i by simp
    also have "\<dots> = (x + v * 2 ^ (7 * i), int (i + length (put_uvarint v)))"
      using True eq by (simp add: put_uvarint.simps[of v])
    finally show ?thesis .
  next
    case False
    have ub: "unat (of_nat v :: byte) = v" using False by (simp add: unat_byte)
    have "\<not> (i = 9 \<and> v > 1)" using "1.prems"(1) by auto
    then show ?thesis using False "1.prems"(2) ub by (simp add: put_uvarint.simps[of v])
  qed
qed

lemma uvarint_put:
  "v < 2 ^ 64 \<Longrightarrow> uvarint (put_uvarint v @ rest) = (v, int (length (put_uvarint v)))"
  using uvarint_loop_put[of v 0 0 rest] by (simp add: uvarint_def)

lemma unzigzag_zigzag [simp]: "unzigzag (zigzag x) = x"
proof (cases "x < 0")
  case True
  then obtain n where n: "x = - int (Suc n)" using negD by blast
  have "nat (- 2 * x - 1) = 2 * n + 1" using n by simp
  then show ?thesis using True n by (simp add: zigzag_def unzigzag_def)
next
  case False
  then obtain n where n: "x = int n" using nonneg_int_cases by (metis not_less)
  have "nat (2 * x) = 2 * n" using n by simp
  then show ?thesis using False n by (simp add: zigzag_def unzigzag_def)
qed

lemma zigzag_less: "in_int64 x \<Longrightarrow> zigzag x < 2 ^ 64"
  by (auto simp: in_int64_def zigzag_def nat_less_iff)

lemma unzigzag_range: "u < 2 ^ 64 \<Longrightarrow> in_int64 (unzigzag u)"
  by (auto simp: in_int64_def unzigzag_def)

lemma varint_put:
  "in_int64 x \<Longrightarrow> varint (put_varint x @ rest) = (x, int (length (put_varint x)))"
  by (simp only: varint_def put_varint_def uvarint_put[OF zigzag_less] prod.case unzigzag_zigzag)

section \<open>Serialised values\<close>

text \<open>
  The contract of one serialised value: a writer, a reader and the values they carry.
  Reading back what was written gives the value and leaves the reader exactly at the
  bytes that follow, with no error.  Sequences then round-trip as well.
\<close>

locale wire_format =
  fixes put :: "'a \<Rightarrow> bytes"
    and get :: "rbuf \<Rightarrow> 'a \<times> rbuf"
    and ok :: "'a \<Rightarrow> bool"
  assumes get_put: "ok v \<Longrightarrow> get (rbuf_of (put v @ rest)) = (v, rbuf_of rest)"
begin

lemma read_n_puts:
  "list_all ok vs \<Longrightarrow>
   read_n get (length vs) (rbuf_of (concat (map put vs) @ rest)) = (vs, rbuf_of rest)"
proof (induction vs)
  case Nil
  show ?case by simp
next
  case (Cons v vs)
  then show ?case by (simp add: get_put) (simp add: rbuf_of_def)
qed

lemma get_put_end: "ok v \<Longrightarrow> get (rbuf_of (put v)) = (v, rbuf_of [])"
  using get_put[of v "[]"] by simp

end

lemma r_u_put [wire]: "v < 2 ^ 64 \<Longrightarrow> r_u (rbuf_of (put_uvarint v @ rest)) = (v, rbuf_of rest)"
  by (simp add: r_u_def rbuf_of_def uvarint_put)

lemma r_s_put [wire]: "in_int64 v \<Longrightarrow> r_s (rbuf_of (put_varint v @ rest)) = (v, rbuf_of rest)"
  using varint_put[of v rest] by (simp add: r_s_def rbuf_of_def)

lemma r_un_put [wire]:
  "v \<le> mx \<Longrightarrow> v < 2 ^ 64 \<Longrightarrow> r_un mx what (rbuf_of (put_uvarint v @ rest)) = (v, rbuf_of rest)"
  by (simp add: r_un_def r_u_put)

lemma r_byte_put [wire]: "r_byte (rbuf_of (b # rest)) = (b, rbuf_of rest)"
  by (simp add: r_byte_def rbuf_of_def)

lemma r_take_put [wire]: "n = length b \<Longrightarrow> r_take n (rbuf_of (b @ rest)) = (b, rbuf_of rest)"
  by (simp add: r_take_def rbuf_of_def)

lemma r_bytes_put [wire]:
  "length b < 2 ^ 64 \<Longrightarrow> r_bytes (rbuf_of (put_uvarint (length b) @ b @ rest)) = (b, rbuf_of rest)"
  by (simp add: r_bytes_def wire)

lemma r_done_empty [simp]: "r_done (rbuf_of []) = Inr ()"
  by (simp add: r_done_def rbuf_of_def)

lemma rerr_rbuf_of [simp]: "rerr (rbuf_of b) = None"
  by (simp add: rbuf_of_def)

lemma rb_rbuf_of [simp]: "rb (rbuf_of b) = b"
  by (simp add: rbuf_of_def)

interpretation wu: wire_format put_uvarint r_u "\<lambda>v. v < 2 ^ 64"
  by unfold_locales (simp add: r_u_put)

interpretation ws: wire_format put_varint r_s in_int64
  by unfold_locales (simp add: r_s_put)

interpretation wb: wire_format "\<lambda>b. w_bytes b []" r_bytes "\<lambda>b. length b < 2 ^ 64"
  by unfold_locales (simp add: w_bytes_def w_raw_def w_u_def r_bytes_put)

lemmas writer_defs = w_u_def w_s_def w_raw_def w_bytes_def w_str_def

section \<open>The reader is total and bounded\<close>

text \<open>What a reader can return, whatever the bytes: the facts the decoders rely on.\<close>

lemma uvarint_loop_bound:
  "uvarint_loop i (7 * i) x bs = (v, n) \<Longrightarrow> 0 < n \<Longrightarrow> x < 2 ^ (7 * i) \<Longrightarrow> i \<le> 10 \<Longrightarrow>
   v < 2 ^ 64 \<and> nat n \<le> i + length bs"
proof (induction bs arbitrary: i x)
  case Nil
  then show ?case by simp
next
  case (Cons b bs)
  consider (stop) "i \<noteq> 10" "unat b < 128" "\<not> (i = 9 \<and> unat b > 1)" | (cont) "i \<noteq> 10" "\<not> unat b < 128"
    using Cons.prems(1,2) by (auto split: if_splits)
  then show ?case
  proof cases
    case stop
    then have v: "v = x + unat b * 2 ^ (7 * i)" "n = int (i + 1)" using Cons.prems(1) by auto
    have "v < (unat b + 1) * 2 ^ (7 * i)" using v Cons.prems(3) by simp
    also have "\<dots> \<le> 2 ^ 64"
    proof (cases "i = 9")
      case True
      then show ?thesis using stop(3) by simp
    next
      case False
      then have "i \<le> 8" using stop(1) Cons.prems(4) by simp
      then have "(2::nat) ^ (7 * i) \<le> 2 ^ 56" by (intro power_increasing) auto
      moreover have "unat b + 1 \<le> 2 ^ 7" using stop(2) by simp
      ultimately have "(unat b + 1) * 2 ^ (7 * i) \<le> 2 ^ 7 * 2 ^ 56" by (intro mult_le_mono)
      then show ?thesis by simp
    qed
    finally show ?thesis using v by simp
  next
    case cont
    have "x + unat b mod 128 * 2 ^ (7 * i) < 2 ^ (7 * (i + 1))"
    proof -
      have "x + unat b mod 128 * 2 ^ (7 * i) < (unat b mod 128 + 1) * 2 ^ (7 * i)"
        using Cons.prems(3) by simp
      also have "\<dots> \<le> 128 * 2 ^ (7 * i)" by (intro mult_le_mono1) (simp add: Suc_leI)
      also have "\<dots> = 2 ^ (7 * (i + 1))" by (simp add: power_add)
      finally show ?thesis .
    qed
    moreover have "uvarint_loop (i + 1) (7 * (i + 1)) (x + unat b mod 128 * 2 ^ (7 * i)) bs = (v, n)"
      using Cons.prems(1) cont by (simp add: add.commute[of 7])
    moreover have "i + 1 \<le> 10" using Cons.prems(4) cont by simp
    ultimately have "v < 2 ^ 64 \<and> nat n \<le> i + 1 + length bs"
      using Cons.IH Cons.prems(2) by blast
    then show ?thesis by simp
  qed
qed

lemma uvarint_bound: "uvarint bs = (v, n) \<Longrightarrow> 0 < n \<Longrightarrow> v < 2 ^ 64 \<and> nat n \<le> length bs"
  using uvarint_loop_bound[of 0 0 bs v n] by (simp add: uvarint_def)

lemma r_u_bound: "fst (r_u r) < 2 ^ 64"
  by (auto simp: r_u_def split: prod.splits dest: uvarint_bound)

lemma r_un_bound: "fst (r_un mx what r) \<le> mx"
  by (auto simp: r_un_def split: prod.splits)

lemma r_s_range: "in_int64 (fst (r_s r))"
proof -
  have "in_int64 (0::int)" by (simp add: in_int64_def)
  then show ?thesis
    by (auto simp: r_s_def varint_def split: prod.splits intro!: unzigzag_range dest: uvarint_bound)
qed

lemma length_r_take: "length (fst (r_take n r)) \<le> n"
  by (simp add: r_take_def)

lemma r_sticky:
  "rerr r = Some e \<Longrightarrow> rerr (snd (r_u r)) = Some e"
  "rerr r = Some e \<Longrightarrow> rerr (snd (r_s r)) = Some e"
  "rerr r = Some e \<Longrightarrow> rerr (snd (r_un mx what r)) = Some e"
  "rerr r = Some e \<Longrightarrow> rerr (snd (r_byte r)) = Some e"
  "rerr r = Some e \<Longrightarrow> rerr (snd (r_take n r)) = Some e"
  "rerr r = Some e \<Longrightarrow> rerr (snd (r_bytes r)) = Some e"
  by (auto simp: r_u_def r_s_def r_un_def r_byte_def r_take_def r_bytes_def r_fail_def
      split: prod.splits list.splits)

end
