(* ===== verification/Cz.thy ===== *)
theory Cz
  imports Buf
begin

text \<open>
  \<^verbatim>\<open>internal/cz\<close>: the compression of patch and blob frames.  The zstd and brotli packages
  and BLAKE3 are third-party code and appear as the fields of \<open>prims\<close>; what the codec relies
  on is the predicate \<open>prims_ok\<close>: each decompressor inverts its compressor, and a digest
  has 32 bytes.
\<close>

section \<open>Third-party primitives\<close>

text \<open>
  \<open>brotli_dec z\<close> is what a brotli reader over \<open>z\<close> delivers: the bytes in total, and whether
  it ends in \<^verbatim>\<open>io.EOF\<close> rather than another error.  \<open>brotli_enc q\<close> is the writer at quality \<open>q\<close>,
  \<open>None\<close> when a write or the close fails.  \<open>cap_grow\<close> is the capacity Go's \<^verbatim>\<open>append\<close> gives a
  full slice.
\<close>

record prims =
  blake3 :: "bytes \<Rightarrow> bytes"
  zstd_enc :: "bytes \<Rightarrow> bytes"
  zstd_dec :: "bytes \<Rightarrow> bytes option"
  brotli_enc :: "nat \<Rightarrow> bytes \<Rightarrow> bytes option"
  brotli_dec :: "bytes \<Rightarrow> bytes \<times> bool"
  cap_grow :: "nat \<Rightarrow> nat"

definition prims_ok :: "prims \<Rightarrow> bool" where
  "prims_ok P \<longleftrightarrow>
     (\<forall>x. length (blake3 P x) = 32) \<and>
     (\<forall>x. zstd_dec P (zstd_enc P x) = Some x) \<and>
     (\<forall>q x z. brotli_enc P q x = Some z \<longrightarrow> brotli_dec P z = (x, True))"

section \<open>Codec tags and Compress\<close>

definition Raw :: byte where "Raw = 0"
definition Zstd :: byte where "Zstd = 1"
definition Brotli :: byte where "Brotli = 2"

definition BrotliMax :: nat where
  "BrotliMax = 4 * 2 ^ 20"

definition CompressZstd :: "prims \<Rightarrow> bytes \<Rightarrow> bytes" where
  "CompressZstd P src = zstd_enc P src"

definition Compress :: "prims \<Rightarrow> bytes \<Rightarrow> byte \<times> bytes" where
  "Compress P src =
     (let best = (Raw, src);
          z = CompressZstd P src;
          best = (if length z < length (snd best) then (Zstd, z) else best);
          q = (if length src > BrotliMax then 10 else 11) in
      case brotli_enc P q src of
        None \<Rightarrow> best
      | Some b \<Rightarrow> if length b < length (snd best) then (Brotli, b) else best)"

section \<open>Decompress\<close>

text \<open>
  \<^verbatim>\<open>readAll\<close>: \<open>buf\<close> of capacity \<open>cp\<close> is filled from the stream; a full buffer grows unless it
  already holds more than \<open>n\<close> bytes.  A read delivers what is there up to the free capacity,
  and a read with nothing left ends the loop with the stream's final error.
\<close>

function readAll :: "(nat \<Rightarrow> nat) \<Rightarrow> bytes \<times> bool \<Rightarrow> bytes \<Rightarrow> nat \<Rightarrow> nat \<Rightarrow> derror + bytes" where
  "readAll grow (stream, eof) buf cp n =
     (if length buf = cp \<and> length buf > n then Inl (CzErr ''stream longer than declared'')
      else
        let cp' = (if length buf = cp then max (grow cp) (cp + 1) else cp);
            m = min (cp' - length buf) (length stream) in
        if m = 0 then (if eof then Inr buf else Inl (CzErr ''read error''))
        else readAll grow (drop m stream, eof) (buf @ take m stream) cp' n)"
  by pat_completeness auto
termination
  by (relation "measure (\<lambda>(grow, (stream, eof), buf, cp, n). length stream)") auto

declare readAll.simps [simp del]

definition Decompress :: "prims \<Rightarrow> byte \<Rightarrow> bytes \<Rightarrow> int \<Rightarrow> derror + bytes" where
  "Decompress P codec src n =
     (if n < 0 then Inl (CzErr ''negative output length'')
      else
        bindR
          (if codec = Raw then Inr src
           else if codec = Zstd then
             (case zstd_dec P src of None \<Rightarrow> Inl (CzErr ''zstd'') | Some out \<Rightarrow> Inr out)
           else if codec = Brotli then readAll (cap_grow P) (brotli_dec P src) [] (nat n) (nat n)
           else Inl (CzErr ''unknown codec''))
          (\<lambda>out. if int (length out) \<noteq> n then Inl (CzErr ''decompressed length'') else Inr out))"

section \<open>Properties\<close>

lemma Compress_cases:
  obtains (raw) "Compress P src = (Raw, src)"
  | (zstd) "Compress P src = (Zstd, zstd_enc P src)" "length (zstd_enc P src) < length src"
  | (brotli) q b where "brotli_enc P q src = Some b" "Compress P src = (Brotli, b)" "length b < length src"
proof -
  define q where "q = (if length src > BrotliMax then 10 else 11 :: nat)"
  define best where "best = (if length (zstd_enc P src) < length src then (Zstd, zstd_enc P src) else (Raw, src))"
  have C: "Compress P src = (case brotli_enc P q src of None \<Rightarrow> best
      | Some b \<Rightarrow> if length b < length (snd best) then (Brotli, b) else best)"
    unfolding Compress_def CompressZstd_def Let_def q_def best_def snd_conv by (rule refl)
  have le: "length (snd best) \<le> length src" by (simp add: best_def)
  consider (keep) "Compress P src = best"
    | (new) b where "brotli_enc P q src = Some b" "Compress P src = (Brotli, b)" "length b < length (snd best)"
    using C by (cases "brotli_enc P q src") (auto split: if_splits)
  then show thesis
  proof cases
    case keep
    then show thesis using raw zstd by (auto simp: best_def split: if_splits)
  next
    case new
    then show thesis using brotli le by auto
  qed
qed

lemma Compress_le: "length (snd (Compress P src)) \<le> length src"
  by (rule Compress_cases[of P src]) auto

lemma tags [simp]: "Raw \<noteq> Zstd" "Zstd \<noteq> Raw" "Brotli \<noteq> Raw" "Brotli \<noteq> Zstd" "Raw \<noteq> Brotli" "Zstd \<noteq> Brotli"
  by (simp_all add: Raw_def Zstd_def Brotli_def)

lemma readAll_complete:
  "length buf \<le> cp \<Longrightarrow> length buf + length (fst s) \<le> n \<Longrightarrow> snd s \<Longrightarrow>
   readAll grow s buf cp n = Inr (buf @ fst s)"
proof (induction grow s buf cp n rule: readAll.induct)
  case (1 grow stream eof buf cp n)
  define cp' where "cp' = (if length buf = cp then max (grow cp) (cp + 1) else cp)"
  define m where "m = min (cp' - length buf) (length stream)"
  have unfold: "readAll grow (stream, eof) buf cp n =
      (if length buf = cp \<and> length buf > n then Inl (CzErr ''stream longer than declared'')
       else if m = 0 then (if eof then Inr buf else Inl (CzErr ''read error''))
       else readAll grow (drop m stream, eof) (buf @ take m stream) cp' n)"
    unfolding readAll.simps[of grow stream] Let_def cp'_def m_def by (rule refl)
  have nfull: "\<not> (length buf = cp \<and> length buf > n)" using "1.prems" by simp
  have cp': "length buf < cp'" using "1.prems"(1) by (auto simp: cp'_def)
  show ?case
  proof (cases "m = 0")
    case True
    then have "stream = []" using cp' by (auto simp: m_def min_def split: if_splits)
    then show ?thesis using nfull True "1.prems" unfold by auto
  next
    case False
    have "readAll grow (drop m stream, eof) (buf @ take m stream) cp' n = Inr ((buf @ take m stream) @ drop m stream)"
      using "1.IH"[OF nfull cp'_def m_def] False "1.prems" cp' by (simp add: m_def)
    then show ?thesis using nfull False by (simp add: unfold)
  qed
qed

text \<open>Whatever it accepts is the whole stream, and never more than one growth past \<open>n\<close> bytes.\<close>

lemma readAll_sound:
  "length buf \<le> cp \<Longrightarrow> cp \<le> max n (max (grow n) (n + 1)) \<Longrightarrow> n \<le> cp \<Longrightarrow>
   (n < cp \<longrightarrow> cp = max (grow n) (n + 1)) \<Longrightarrow> readAll grow s buf cp n = Inr out \<Longrightarrow>
   out = buf @ fst s \<and> snd s \<and> length out \<le> max (grow n) (n + 1)"
proof (induction grow s buf cp n rule: readAll.induct)
  case (1 grow stream eof buf cp n)
  define cp' where "cp' = (if length buf = cp then max (grow cp) (cp + 1) else cp)"
  define m where "m = min (cp' - length buf) (length stream)"
  have unfold: "readAll grow (stream, eof) buf cp n =
      (if length buf = cp \<and> length buf > n then Inl (CzErr ''stream longer than declared'')
       else if m = 0 then (if eof then Inr buf else Inl (CzErr ''read error''))
       else readAll grow (drop m stream, eof) (buf @ take m stream) cp' n)"
    unfolding readAll.simps[of grow stream] Let_def cp'_def m_def by (rule refl)
  have nfull: "\<not> (length buf = cp \<and> length buf > n)"
    using "1.prems"(5) by (auto simp: unfold)
  have cp': "length buf < cp'" using "1.prems"(1) by (auto simp: cp'_def)
  have bound: "cp' \<le> max (grow n) (n + 1)" "n \<le> cp'" "n < cp' \<longrightarrow> cp' = max (grow n) (n + 1)"
    using "1.prems"(1-4) nfull by (auto simp: cp'_def)
  show ?case
  proof (cases "m = 0")
    case True
    then have "stream = []" using cp' by (auto simp: m_def min_def split: if_splits)
    moreover have "readAll grow (stream, eof) buf cp n = (if eof then Inr buf else Inl (CzErr ''read error''))"
      using nfull True unfold by auto
    ultimately show ?thesis using "1.prems"(5) cp' bound by (auto split: if_splits)
  next
    case False
    then have "readAll grow (drop m stream, eof) (buf @ take m stream) cp' n = Inr out"
      using "1.prems"(5) nfull by (simp add: unfold)
    moreover have "length (buf @ take m stream) \<le> cp'" using cp' by (simp add: m_def)
    moreover have "cp' \<le> max n (max (grow n) (n + 1))" using bound(1) by simp
    ultimately show ?thesis
      using "1.IH"[OF nfull cp'_def m_def False] bound(2,3) by auto
  qed
qed

lemma Decompress_length: "Decompress P codec src n = Inr out \<Longrightarrow> int (length out) = n"
  by (auto simp: Decompress_def result_simps split: if_splits)

lemma Decompress_Compress:
  assumes "prims_ok P" "Compress P src = (codec, z)"
  shows "Decompress P codec z (int (length src)) = Inr src"
proof (rule Compress_cases[of P src])
  fix q b
  assume *: "brotli_enc P q src = Some b" "Compress P src = (Brotli, b)"
  then have "brotli_dec P b = (src, True)" using assms(1) by (auto simp: prims_ok_def)
  then show ?thesis using * assms(2) readAll_complete[of "[]" "length src" "(src, True)" "length src"]
    by (simp add: Decompress_def)
qed (use assms in \<open>auto simp: Decompress_def prims_ok_def\<close>)

end
