(* ===== verification/Container.thy ===== *)
theory Container
  imports Cz
begin

text \<open>
  \<^verbatim>\<open>delta/container.go\<close>: the patch container.  A patch is the magic, the transform and flags
  bytes, a length-prefixed header record with the frame table, and the compressed frames.
  Sizes and offsets are \<^verbatim>\<open>int64\<close> fields that are never negative and are \<open>nat\<close> here.
\<close>

section \<open>Data\<close>

definition Magic :: bytes where
  "Magic = [0x42, 0x53, 0x5A, 0x31]"

definition TransformPlain :: byte where "TransformPlain = 0"
definition TransformGoAMD64 :: byte where "TransformGoAMD64 = 1"
definition maxTransform :: byte where "maxTransform = TransformGoAMD64"

definition FrameSize :: nat where
  "FrameSize = 8 * 2 ^ 20"

definition maxPatchSize :: nat where
  "maxPatchSize = 2 ^ 34"

record frame =
  fr_off :: nat
  fr_len :: nat
  fr_zlen :: nat
  fr_codec :: byte
  fr_b3 :: bytes

record header =
  h_transform :: byte
  h_flags :: byte
  h_from :: bytes
  h_to :: bytes
  h_oldsize :: nat
  h_newsize :: nat
  h_frames :: "frame list"
  h_bodyoff :: nat

definition hashOf :: "prims \<Rightarrow> bytes \<Rightarrow> bytes" where
  "hashOf P b = blake3 P b"

text \<open>\<^verbatim>\<open>copy(h[:], b)\<close> into a fresh 32-byte array.\<close>

definition hash_of_bytes :: "bytes \<Rightarrow> bytes" where
  "hash_of_bytes b = overwrite 0 b (replicate 32 0)"

definition hex_digit :: "nat \<Rightarrow> char" where
  "hex_digit n = ''0123456789abcdef'' ! (n mod 16)"

definition hex_encode :: "bytes \<Rightarrow> string" where
  "hex_encode b = concat (map (\<lambda>x. [hex_digit (unat x div 16), hex_digit (unat x mod 16)]) b)"

definition delta_Hash_String :: "bytes \<Rightarrow> string" where
  "delta_Hash_String h = (if h = replicate 32 0 then [] else ''b3:'' @ hex_encode h)"

section \<open>Writing\<close>

definition put_frame :: "frame \<Rightarrow> bytes \<Rightarrow> bytes" where
  "put_frame fr f =
     w_raw (fr_b3 fr) (w_raw [fr_codec fr] (w_u (fr_zlen fr) (w_u (fr_len fr) (w_u (fr_off fr) f))))"

definition marshalHeader :: "header \<Rightarrow> bytes \<Rightarrow> bytes" where
  "marshalHeader h body =
     (let w = w_raw [h_transform h, h_flags h] (w_raw Magic []);
          f = w_u (length (h_frames h)) (w_u (h_newsize h) (w_u (h_oldsize h) (w_raw (h_to h) (w_raw (h_from h) []))));
          f = foldl (\<lambda>f fr. put_frame fr f) f (h_frames h) in
      w_bytes f w @ body)"

section \<open>Parsing\<close>

definition get_frame :: "rbuf \<Rightarrow> frame \<times> rbuf" where
  "get_frame f =
     (case r_un maxPatchSize ''frame offset'' f of (off, f) \<Rightarrow>
      case r_un FrameSize ''frame length'' f of (len, f) \<Rightarrow>
      case r_un maxPatchSize ''frame compressed length'' f of (zlen, f) \<Rightarrow>
      case r_byte f of (codec, f) \<Rightarrow>
      case r_take 32 f of (b3, f) \<Rightarrow>
        (\<lparr>fr_off = off, fr_len = len, fr_zlen = zlen, fr_codec = codec, fr_b3 = hash_of_bytes b3\<rparr>, f))"

fun parse_frames :: "nat \<Rightarrow> nat \<Rightarrow> frame list \<Rightarrow> rbuf \<Rightarrow> frame list \<times> rbuf" where
  "parse_frames 0 off acc f = (acc, f)"
| "parse_frames (Suc n) off acc f =
     (if rerr f \<noteq> None then (acc, f)
      else case get_frame f of (fr, f') \<Rightarrow>
        if fr_off fr \<noteq> off then (acc, r_fail ''frame starts'' f')
        else parse_frames n (off + fr_len fr) (acc @ [fr]) f')"

definition ParseHeader :: "bytes \<Rightarrow> derror + header" where
  "ParseHeader b =
     (if length b < 6 \<or> take 4 b \<noteq> Magic then Inl (Corrupt ''bad magic'')
      else
        case r_bytes (rbuf_of (drop 6 b)) of (rec, r) \<Rightarrow>
        case rerr r of Some e \<Rightarrow> Inl e
        | None \<Rightarrow>
          (case r_take 32 (rbuf_of rec) of (from, f) \<Rightarrow>
           case r_take 32 f of (to, f) \<Rightarrow>
           case r_un maxPatchSize ''old size'' f of (oldsize, f) \<Rightarrow>
           case r_un maxPatchSize ''new size'' f of (newsize, f) \<Rightarrow>
           case r_un (2 ^ 20) ''frame count'' f of (n, f) \<Rightarrow>
           case parse_frames n 0 [] f of (frames, f) \<Rightarrow>
           bindR (r_done f) (\<lambda>_. Inr
             \<lparr>h_transform = b ! 4, h_flags = b ! 5, h_from = hash_of_bytes from, h_to = hash_of_bytes to,
              h_oldsize = oldsize, h_newsize = newsize, h_frames = frames,
              h_bodyoff = length b - length (rb r)\<rparr>)))"

section \<open>Frames\<close>

definition BodySize :: "header \<Rightarrow> nat" where
  "BodySize h = sum_list (map fr_len (h_frames h))"

definition Size :: "header \<Rightarrow> nat" where
  "Size h = h_bodyoff h + sum_list (map fr_zlen (h_frames h))"

function frame_loop :: "prims \<Rightarrow> bytes \<Rightarrow> nat \<Rightarrow> frame list \<Rightarrow> bytes \<Rightarrow> frame list \<times> bytes" where
  "frame_loop P body off frames out =
     (if off < length body \<or> off = 0 \<and> length body = 0 then
        let e = min (off + FrameSize) (length body); chunk = slice off e body in
        case Compress P chunk of (codec, z) \<Rightarrow>
        let frames' = frames @ [\<lparr>fr_off = off, fr_len = length chunk, fr_zlen = length z,
                                 fr_codec = codec, fr_b3 = hashOf P z\<rparr>];
            out' = out @ z in
        if e = length body then (frames', out') else frame_loop P body (off + FrameSize) frames' out'
      else (frames, out))"
  by pat_completeness auto
termination
  by (relation "measure (\<lambda>(P, body, off, frames, out). length body - off)")
     (auto simp: FrameSize_def)

declare frame_loop.simps [simp del]

definition frameBody :: "prims \<Rightarrow> bytes \<Rightarrow> frame list \<times> bytes" where
  "frameBody P body = frame_loop P body 0 [] []"

fun readBody_loop :: "prims \<Rightarrow> bytes \<Rightarrow> nat \<Rightarrow> frame list \<Rightarrow> bytes \<Rightarrow> derror + bytes" where
  "readBody_loop P patch off [] body = Inr body"
| "readBody_loop P patch off (f # fs) body =
     (let z = slice off (off + fr_zlen f) patch in
      if hashOf P z \<noteq> fr_b3 f then Inl (Corrupt ''frame fails its hash'')
      else case Decompress P (fr_codec f) z (int (fr_len f)) of
        Inl e \<Rightarrow> Inl (Corrupt ''frame'')
      | Inr out \<Rightarrow> readBody_loop P patch (off + fr_zlen f) fs (body @ out))"

definition readBody :: "prims \<Rightarrow> header \<Rightarrow> bytes \<Rightarrow> derror + bytes" where
  "readBody P h patch =
     (if length patch \<noteq> Size h then Inl (Corrupt ''patch size'')
      else readBody_loop P patch (h_bodyoff h) (h_frames h) [])"

section \<open>A frame survives the wire\<close>

definition frame_ok :: "frame \<Rightarrow> bool" where
  "frame_ok fr \<longleftrightarrow> fr_off fr \<le> maxPatchSize \<and> fr_len fr \<le> FrameSize \<and> fr_zlen fr \<le> maxPatchSize \<and> length (fr_b3 fr) = 32"

lemma hash_of_bytes_id [simp]: "length b = 32 \<Longrightarrow> hash_of_bytes b = b"
  by (simp add: hash_of_bytes_def overwrite_def)

lemma put_frame_append: "put_frame fr f = f @ put_frame fr []"
  by (simp add: put_frame_def writer_defs)

lemma foldl_put_frame: "foldl (\<lambda>f fr. put_frame fr f) f fs = f @ concat (map (\<lambda>fr. put_frame fr []) fs)"
proof (induction fs arbitrary: f)
  case (Cons fr fs)
  show ?case using put_frame_append[of fr f] by (simp add: Cons)
qed simp

lemma sizes_small: "FrameSize < 2 ^ 64" "maxPatchSize < 2 ^ 64"
  by (simp_all add: FrameSize_def maxPatchSize_def)

lemma get_frame_put:
  assumes "frame_ok fr"
  shows "get_frame (rbuf_of (put_frame fr [] @ rest)) = (fr, rbuf_of rest)"
proof -
  have "fr_off fr < 2 ^ 64" "fr_len fr < 2 ^ 64" "fr_zlen fr < 2 ^ 64"
    using assms sizes_small by (auto simp: frame_ok_def intro: le_less_trans)
  then show ?thesis using assms
    by (simp add: get_frame_def put_frame_def writer_defs r_un_put r_byte_put r_take_put frame_ok_def)
qed

interpretation wframe: wire_format "\<lambda>fr. put_frame fr []" get_frame frame_ok
  by unfold_locales (rule get_frame_put)

text \<open>The frame table covers the body from \<open>off\<close> on, with no gap.\<close>

fun frames_chain :: "nat \<Rightarrow> frame list \<Rightarrow> bool" where
  "frames_chain off [] \<longleftrightarrow> True"
| "frames_chain off (f # fs) \<longleftrightarrow> frame_ok f \<and> fr_off f = off \<and> frames_chain (off + fr_len f) fs"

lemma parse_frames_put:
  "frames_chain off fs \<Longrightarrow>
   parse_frames (length fs) off acc (rbuf_of (concat (map (\<lambda>fr. put_frame fr []) fs) @ rest)) = (acc @ fs, rbuf_of rest)"
  by (induction fs arbitrary: off acc) (simp_all add: get_frame_put)

text \<open>Every header the parser accepts has a gap-free frame table within the codec's bounds.\<close>

lemma length_hash_of_bytes [simp]: "length (hash_of_bytes b) = 32"
  by (simp add: hash_of_bytes_def)

lemma get_frame_ok: "frame_ok (fst (get_frame f))"
proof -
  obtain off f1 where 1: "r_un maxPatchSize ''frame offset'' f = (off, f1)" by fastforce
  obtain len f2 where 2: "r_un FrameSize ''frame length'' f1 = (len, f2)" by fastforce
  obtain zlen f3 where 3: "r_un maxPatchSize ''frame compressed length'' f2 = (zlen, f3)" by fastforce
  show ?thesis
    using r_un_bound[of maxPatchSize "''frame offset''" f] r_un_bound[of FrameSize "''frame length''" f1]
      r_un_bound[of maxPatchSize "''frame compressed length''" f2]
    by (simp add: get_frame_def 1 2 3 frame_ok_def split: prod.splits)
qed

lemma parse_frames_chain:
  "parse_frames n off acc f = (fs, f') \<Longrightarrow> \<exists>gs. fs = acc @ gs \<and> frames_chain off gs \<and> length gs \<le> n"
proof (induction n off acc f rule: parse_frames.induct)
  case (2 n off acc f)
  obtain fr f1 where g: "get_frame f = (fr, f1)" by fastforce
  show ?case
  proof (cases "rerr f \<noteq> None \<or> fr_off fr \<noteq> off")
    case True
    then have "fs = acc" using "2.prems" g by (auto split: if_splits)
    then show ?thesis by (auto intro: exI[of _ "[]"])
  next
    case False
    then have "parse_frames n (off + fr_len fr) (acc @ [fr]) f1 = (fs, f')" using "2.prems" g by simp
    then obtain gs where "fs = (acc @ [fr]) @ gs" "frames_chain (off + fr_len fr) gs" "length gs \<le> n"
      using "2.IH"[OF _ g[symmetric]] False by auto
    then show ?thesis using False get_frame_ok[of f] g by (intro exI[of _ "fr # gs"]) simp
  qed
qed auto

definition header_ok :: "header \<Rightarrow> bool" where
  "header_ok h \<longleftrightarrow> length (h_from h) = 32 \<and> length (h_to h) = 32 \<and> h_oldsize h \<le> maxPatchSize \<and>
     h_newsize h \<le> maxPatchSize \<and> length (h_frames h) \<le> 2 ^ 20 \<and> frames_chain 0 (h_frames h)"

lemma ParseHeader_ok: "ParseHeader b = Inr h \<Longrightarrow> header_ok h \<and> h_bodyoff h \<le> length b"
proof -
  assume p: "ParseHeader b = Inr h"
  obtain rec r where 0: "r_bytes (rbuf_of (drop 6 b)) = (rec, r)" by fastforce
  obtain from' f1 where 1: "r_take 32 (rbuf_of rec) = (from', f1)" by fastforce
  obtain to' f2 where 2: "r_take 32 f1 = (to', f2)" by fastforce
  obtain os f3 where 3: "r_un maxPatchSize ''old size'' f2 = (os, f3)" by fastforce
  obtain ns f4 where 4: "r_un maxPatchSize ''new size'' f3 = (ns, f4)" by fastforce
  obtain n f5 where 5: "r_un (2 ^ 20) ''frame count'' f4 = (n, f5)" by fastforce
  obtain fs f6 where 6: "parse_frames n 0 [] f5 = (fs, f6)" by fastforce
  have h: "h = \<lparr>h_transform = b ! 4, h_flags = b ! 5, h_from = hash_of_bytes from', h_to = hash_of_bytes to',
      h_oldsize = os, h_newsize = ns, h_frames = fs, h_bodyoff = length b - length (rb r)\<rparr>"
    using p by (simp add: ParseHeader_def 0 1 2 3 4 5[simplified] 6 result_simps split: if_splits option.splits)
  have "os \<le> maxPatchSize" "ns \<le> maxPatchSize" "n \<le> 2 ^ 20"
    using r_un_bound[of maxPatchSize "''old size''" f2] r_un_bound[of maxPatchSize "''new size''" f3]
      r_un_bound[of "2 ^ 20" "''frame count''" f4] 3 4 5 by auto
  then show ?thesis using parse_frames_chain[OF 6] by (auto simp: h header_ok_def)
qed

lemma length_put_frame: "frame_ok fr \<Longrightarrow> length (put_frame fr []) \<le> 63"
proof -
  assume "frame_ok fr"
  then have "fr_off fr < 2 ^ 64" "fr_len fr < 2 ^ 64" "fr_zlen fr < 2 ^ 64" "length (fr_b3 fr) = 32"
    using sizes_small by (auto simp: frame_ok_def intro: le_less_trans)
  then show ?thesis
    using length_put_uvarint[of "fr_off fr"] length_put_uvarint[of "fr_len fr"] length_put_uvarint[of "fr_zlen fr"]
    by (simp add: put_frame_def writer_defs)
qed

lemma length_frame_table:
  "frames_chain off fs \<Longrightarrow> length (concat (map (\<lambda>fr. put_frame fr []) fs)) \<le> 63 * length fs"
proof (induction fs arbitrary: off)
  case (Cons fr fs)
  then show ?case using length_put_frame[of fr] Cons.IH[of "off + fr_len fr"] by simp
qed simp

lemma ParseHeader_marshal:
  assumes "header_ok h"
  shows "ParseHeader (marshalHeader h body) =
    Inr (h\<lparr>h_bodyoff := length (marshalHeader h body) - length body\<rparr>)"
proof -
  define tab where "tab = concat (map (\<lambda>fr. put_frame fr []) (h_frames h))"
  define rec where "rec = h_from h @ h_to h @ put_uvarint (h_oldsize h) @ put_uvarint (h_newsize h) @
    put_uvarint (length (h_frames h)) @ tab"
  have m: "marshalHeader h body = Magic @ [h_transform h, h_flags h] @ put_uvarint (length rec) @ rec @ body"
    by (simp add: marshalHeader_def foldl_put_frame writer_defs rec_def tab_def Let_def add.assoc)
  have small: "h_oldsize h < 2 ^ 64" "h_newsize h < 2 ^ 64" "length (h_frames h) < 2 ^ 64"
    "h_oldsize h \<le> maxPatchSize" "h_newsize h \<le> maxPatchSize" "length (h_frames h) \<le> 2 ^ 20"
    using assms sizes_small by (auto simp: header_ok_def intro: le_less_trans)
  have tab: "parse_frames (length (h_frames h)) 0 [] (rbuf_of tab) = (h_frames h, rbuf_of [])"
    using assms parse_frames_put[of 0 "h_frames h" "[]" "[]"] by (simp add: tab_def header_ok_def)
  have "length tab \<le> 63 * length (h_frames h)"
    using assms length_frame_table by (auto simp: tab_def header_ok_def)
  then have "length rec \<le> 64 + 30 + 63 * 2 ^ 20"
    using assms small(6) length_put_uvarint[OF small(1)] length_put_uvarint[OF small(2)] length_put_uvarint[OF small(3)]
    by (simp add: rec_def header_ok_def)
  then have rec: "r_bytes (rbuf_of (put_uvarint (length rec) @ rec @ body)) = (rec, rbuf_of body)"
    by (intro r_bytes_put) simp
  show ?thesis
    using assms small
    by (simp add: ParseHeader_def m Magic_def rec)
       (simp add: rec_def r_take_put r_un_put[simplified] r_u_put tab header_ok_def)
qed

section \<open>The frames carry the body\<close>

text \<open>
  The frames \<open>fs\<close>, stored as the bytes \<open>z\<close>, carry \<open>bd\<close> from offset \<open>off\<close>: each frame's stored bytes
  hash to its digest and decompress to its piece.
\<close>

fun frames_for :: "prims \<Rightarrow> nat \<Rightarrow> frame list \<Rightarrow> bytes \<Rightarrow> bytes \<Rightarrow> bool" where
  "frames_for P off [] z bd \<longleftrightarrow> z = [] \<and> bd = []"
| "frames_for P off (f # fs) z bd \<longleftrightarrow>
     frame_ok f \<and> fr_off f = off \<and> fr_zlen f \<le> length z \<and> fr_len f \<le> length bd \<and>
     fr_b3 f = hashOf P (take (fr_zlen f) z) \<and>
     Decompress P (fr_codec f) (take (fr_zlen f) z) (int (fr_len f)) = Inr (take (fr_len f) bd) \<and>
     frames_for P (off + fr_len f) fs (drop (fr_zlen f) z) (drop (fr_len f) bd)"

lemma frames_for_chain: "frames_for P off fs z bd \<Longrightarrow> frames_chain off fs"
  by (induction P off fs z bd rule: frames_for.induct) auto

lemma frames_for_zlen: "frames_for P off fs z bd \<Longrightarrow> sum_list (map fr_zlen fs) = length z"
  by (induction P off fs z bd rule: frames_for.induct) auto

lemma frames_for_len: "frames_for P off fs z bd \<Longrightarrow> sum_list (map fr_len fs) = length bd"
  by (induction P off fs z bd rule: frames_for.induct) auto

lemma readBody_loop_frames:
  "frames_for P off fs z bd \<Longrightarrow> readBody_loop P (pre @ z) (length pre) fs acc = Inr (acc @ bd)"
proof (induction P off fs z bd arbitrary: pre acc rule: frames_for.induct)
  case (2 P off f fs z bd)
  have "pre @ z = (pre @ take (fr_zlen f) z) @ drop (fr_zlen f) z" by simp
  moreover have "length pre + fr_zlen f = length (pre @ take (fr_zlen f) z)" using "2.prems" by simp
  moreover have "slice (length pre) (length pre + fr_zlen f) (pre @ z) = take (fr_zlen f) z"
    by (simp add: slice_def)
  ultimately show ?case
    using "2.prems" "2.IH"[of "pre @ take (fr_zlen f) z" "acc @ take (fr_len f) bd"] by (simp add: Let_def)
qed simp

lemma chunk_frame:
  assumes "prims_ok P" "Compress P chunk = (codec, z)" "length chunk \<le> FrameSize" "off \<le> maxPatchSize"
    and "frames_for P (off + length chunk) fs z' bd'"
  shows "frames_for P off (\<lparr>fr_off = off, fr_len = length chunk, fr_zlen = length z,
      fr_codec = codec, fr_b3 = hashOf P z\<rparr> # fs) (z @ z') (chunk @ bd')"
proof -
  have "length z \<le> length chunk" using Compress_le[of P chunk] assms(2) by simp
  moreover have "FrameSize \<le> maxPatchSize" by (simp add: FrameSize_def maxPatchSize_def)
  moreover have "length (hashOf P z) = 32" using assms(1) by (simp add: prims_ok_def hashOf_def)
  ultimately show ?thesis
    using assms Decompress_Compress[OF assms(1,2)] by (simp add: frame_ok_def)
qed

lemma FrameSize_pos: "0 < FrameSize"
  by (simp add: FrameSize_def)

lemma frame_loop_frames:
  assumes "prims_ok P" "length body \<le> maxPatchSize" "off < length body \<or> off = 0"
  shows "\<exists>gs z. frame_loop P body off fs out = (fs @ gs, out @ z) \<and> frames_for P off gs z (drop off body) \<and>
    length gs * FrameSize \<le> length body - off + FrameSize"
  using assms(3)
proof (induction "length body - off" arbitrary: off fs out rule: less_induct)
  case less
  define e where "e = min (off + FrameSize) (length body)"
  define chunk where "chunk = slice off e body"
  obtain codec z where z: "Compress P chunk = (codec, z)" by fastforce
  define fr where "fr = \<lparr>fr_off = off, fr_len = length chunk, fr_zlen = length z, fr_codec = codec, fr_b3 = hashOf P z\<rparr>"
  have enter: "off < length body \<or> off = 0 \<and> length body = 0" using less.prems by auto
  have unfold: "frame_loop P body off fs out =
      (if e = length body then (fs @ [fr], out @ z) else frame_loop P body (off + FrameSize) (fs @ [fr]) (out @ z))"
    unfolding frame_loop.simps[of P body off] if_P[OF enter] Let_def e_def[symmetric] chunk_def[symmetric] z prod.case fr_def
    by (rule refl)
  have off: "off \<le> maxPatchSize" using less.prems assms(2) by auto
  have len: "length chunk = e - off" by (simp add: chunk_def e_def)
  have le: "length chunk \<le> FrameSize" by (simp add: len e_def)
  show ?case
  proof (cases "e = length body")
    case True
    then have "frames_for P off [fr] z (drop off body)"
      using chunk_frame[OF assms(1) z le off, of "[]" "[]" "[]"] by (simp add: fr_def chunk_def slice_drop_end)
    then show ?thesis using unfold True by (intro exI[of _ "[fr]"] exI[of _ z]) (simp del: frames_for.simps)
  next
    case False
    then have next': "off + FrameSize < length body" and e: "e = off + FrameSize" by (auto simp: e_def)
    then have "length body - (off + FrameSize) < length body - off" using FrameSize_pos by linarith
    from less.hyps[OF this, of "fs @ [fr]" "out @ z"] next' obtain gs z' where
      IH: "frame_loop P body (off + FrameSize) (fs @ [fr]) (out @ z) = ((fs @ [fr]) @ gs, (out @ z) @ z')"
        "frames_for P (off + FrameSize) gs z' (drop (off + FrameSize) body)"
        "length gs * FrameSize \<le> length body - (off + FrameSize) + FrameSize" by blast
    have split: "drop off body = chunk @ drop (off + FrameSize) body"
      using next' e by (simp add: chunk_def slice_def add.commute flip: drop_drop)
    have "frames_for P off (fr # gs) (z @ z') (drop off body)"
      using chunk_frame[OF assms(1) z le off, of gs z' "drop (off + FrameSize) body"] IH(2) len e
      by (simp add: split fr_def)
    then show ?thesis using unfold False IH next'
      by (intro exI[of _ "fr # gs"] exI[of _ "z @ z'"]) (simp del: frames_for.simps)
  qed
qed

lemma frameBody_frames:
  assumes "prims_ok P" "length body \<le> maxPatchSize"
  obtains fs z where "frameBody P body = (fs, z)" "frames_for P 0 fs z body" "length fs \<le> 2 ^ 20"
proof -
  obtain fs z where *: "frameBody P body = (fs, z)" "frames_for P 0 fs z body"
    "length fs * FrameSize \<le> length body + FrameSize"
    using frame_loop_frames[OF assms, of 0 "[]" "[]"] by (auto simp: frameBody_def)
  have "length fs \<le> 2 ^ 20"
    using *(3) assms(2) by (simp add: FrameSize_def maxPatchSize_def)
  with * that show thesis by blast
qed

text \<open>Sealing a body under a header and opening the patch again gives the header and the body.\<close>

lemma patch_roundtrip:
  assumes "prims_ok P" "length body \<le> maxPatchSize" "frameBody P body = (fs, z)"
    and "h_frames h = fs" "length (h_from h) = 32" "length (h_to h) = 32"
    and "h_oldsize h \<le> maxPatchSize" "h_newsize h \<le> maxPatchSize"
  obtains h' where "ParseHeader (marshalHeader h z) = Inr h'" "readBody P h' (marshalHeader h z) = Inr body"
    "h' = h\<lparr>h_bodyoff := h_bodyoff h'\<rparr>"
proof -
  from frameBody_frames[OF assms(1,2)] assms(3) have ff: "frames_for P 0 fs z body" "length fs \<le> 2 ^ 20"
    by (metis prod.inject)+
  define h' where "h' = h\<lparr>h_bodyoff := length (marshalHeader h z) - length z\<rparr>"
  have "header_ok h" using ff assms(4-) frames_for_chain[OF ff(1)] by (simp add: header_ok_def)
  then have 1: "ParseHeader (marshalHeader h z) = Inr h'" by (simp add: ParseHeader_marshal h'_def)
  obtain pre where pre: "marshalHeader h z = pre @ z" by (auto simp: marshalHeader_def Let_def)
  have "readBody P h' (marshalHeader h z) = Inr body"
    using readBody_loop_frames[OF ff(1), of pre "[]"] frames_for_zlen[OF ff(1)] assms(4)
    by (simp add: readBody_def Size_def h'_def pre)
  with 1 show thesis using that[of h'] by (simp add: h'_def)
qed

end
