(* ===== verification/Release.thy ===== *)
theory Release
  imports Container
begin

text \<open>
  The pure part of \<^verbatim>\<open>release\<close>: hashes and their text form (\<^verbatim>\<open>hash.go\<close>), the pointer and the
  checks it passes before a target acts on it (\<^verbatim>\<open>pointer.go\<close>), the plan a target derives from
  it (\<^verbatim>\<open>plan.go\<close>) and the framed blob of a whole binary (\<^verbatim>\<open>blob.go\<close>).
\<close>

section \<open>Hashes\<close>

type_synonym hash = bytes

definition zeroHash :: hash where
  "zeroHash = replicate 32 0"

datatype rerror =
    RelErr string
  | UnknownFormat int int
  | FrameErr derror

definition HashBytes :: "prims \<Rightarrow> bytes \<Rightarrow> hash" where
  "HashBytes P b = blake3 P b"

definition IsZero :: "hash \<Rightarrow> bool" where
  "IsZero h \<longleftrightarrow> h = zeroHash"

definition Hash_String :: "hash \<Rightarrow> string" where
  "Hash_String h = (if IsZero h then [] else ''b3:'' @ hex_encode h)"

definition Hash_Short :: "hash \<Rightarrow> string" where
  "Hash_Short h = (if IsZero h then [] else hex_encode (take 4 h))"

text \<open>\<^verbatim>\<open>hex.DecodeString\<close>: both letter cases, an odd length is an error.\<close>

definition hex_val :: "char \<Rightarrow> nat option" where
  "hex_val c =
     (let n = of_char c :: nat in
      if 48 \<le> n \<and> n \<le> 57 then Some (n - 48)
      else if 97 \<le> n \<and> n \<le> 102 then Some (n - 97 + 10)
      else if 65 \<le> n \<and> n \<le> 70 then Some (n - 65 + 10)
      else None)"

fun hex_decode :: "string \<Rightarrow> bytes option" where
  "hex_decode [] = Some []"
| "hex_decode [c] = None"
| "hex_decode (c # d # s) =
     (case (hex_val c, hex_val d) of
        (Some x, Some y) \<Rightarrow> map_option (\<lambda>bs. of_nat (x * 16 + y) # bs) (hex_decode s)
      | _ \<Rightarrow> None)"

definition ParseHash :: "string \<Rightarrow> rerror + hash" where
  "ParseHash s =
     (if s = [] then Inr zeroHash
      else if take 3 s \<noteq> ''b3:'' then Inl (RelErr ''want a b3: prefix'')
      else case hex_decode (drop 3 s) of
        None \<Rightarrow> Inl (RelErr ''want 64 hex digits'')
      | Some b \<Rightarrow> if length b \<noteq> 32 then Inl (RelErr ''want 64 hex digits'') else Inr b)"

section \<open>The pointer\<close>

definition PointerKey :: string where "PointerKey = ''latest.json''"
definition Format :: int where "Format = 1"
definition MaxChain :: nat where "MaxChain = 8"
definition blobFrameSize :: int where "blobFrameSize = 8 * 2 ^ 20"

text \<open>Sizes and offsets are \<^verbatim>\<open>int64\<close> fields read from JSON, so they may be negative.\<close>

record blobFrame =
  bf_off :: int
  bf_len :: int
  bf_zoff :: int
  bf_zlen :: int
  bf_codec :: byte
  bf_b3 :: hash

record blob =
  bl_key :: string
  bl_size :: int
  bl_frames :: "blobFrame list"

record release =
  rel_hash :: hash
  rel_version :: string
  rel_size :: int
  rel_blob :: "blob option"

record edge =
  ed_from :: hash
  ed_to :: hash
  ed_key :: string
  ed_size :: int
  ed_b3 :: hash

record pointer =
  pt_format :: int
  pt_seq :: int
  pt_head :: release
  pt_chain :: "edge list"
  pt_etag :: string

definition PatchKey :: "hash \<Rightarrow> hash \<Rightarrow> string" where
  "PatchKey from to = ''patches/'' @ Hash_Short from @ ''-'' @ Hash_Short to @ ''.bsz''"

definition BlobKey :: "hash \<Rightarrow> string" where
  "BlobKey h = ''blobs/'' @ hex_encode h @ ''.blob''"

text \<open>
  \<open>ParsePointer\<close> over the decoding \<open>unmarshal\<close> that \<^verbatim>\<open>encoding/json\<close> makes of the bytes; the
  checks are the source's, the chain walked with the \<^verbatim>\<open>To\<close> each edge must have.
\<close>

fun check_chain :: "hash \<Rightarrow> edge list \<Rightarrow> rerror option" where
  "check_chain to [] = None"
| "check_chain to (e # es) =
     (if IsZero (ed_from e) \<or> IsZero (ed_to e) \<or> ed_key e = [] then Some (RelErr ''chain incomplete'')
      else if ed_to e \<noteq> to then Some (RelErr ''chain does not link'')
      else check_chain (ed_from e) es)"

definition ParsePointer :: "(bytes \<Rightarrow> pointer option) \<Rightarrow> bytes \<Rightarrow> rerror + pointer" where
  "ParsePointer unmarshal b =
     (case unmarshal b of None \<Rightarrow> Inl (RelErr ''pointer'')
      | Some p \<Rightarrow>
        if pt_format p > Format then Inl (UnknownFormat (pt_format p) Format)
        else if IsZero (rel_hash (pt_head p)) then Inl (RelErr ''pointer has no head hash'')
        else if rel_size (pt_head p) < 0 then Inl (RelErr ''pointer head size'')
        else case check_chain (rel_hash (pt_head p)) (pt_chain p) of Some e \<Rightarrow> Inl e | None \<Rightarrow> Inr p)"

section \<open>The plan\<close>

datatype planKind = PlanNone | PlanChain | PlanBlob

record plan =
  pl_kind :: planKind
  pl_edges :: "edge list"
  pl_blob :: "blob option"
  pl_bytes :: int
  pl_head :: hash
  pl_atHead :: bool

definition edges_bytes :: "edge list \<Rightarrow> int" where
  "edges_bytes es = foldl (\<lambda>n e. wrap64 (n + ed_size e)) 0 es"

text \<open>The index of the first edge, among the newest \<open>MaxChain\<close>, that starts at \<open>current\<close>.\<close>

definition chain_from :: "hash \<Rightarrow> edge list \<Rightarrow> nat option" where
  "chain_from current es = List.find (\<lambda>k. ed_from (es ! k) = current) [0..<min (length es) MaxChain]"

definition MakePlan :: "pointer \<Rightarrow> hash \<Rightarrow> plan" where
  "MakePlan p current =
     (let head = rel_hash (pt_head p);
          none = \<lparr>pl_kind = PlanNone, pl_edges = [], pl_blob = None, pl_bytes = 0, pl_head = head, pl_atHead = False\<rparr>;
          rest = (case rel_blob (pt_head p) of
                    Some b \<Rightarrow> none\<lparr>pl_kind := PlanBlob, pl_blob := Some b, pl_bytes := bl_size b\<rparr>
                  | None \<Rightarrow> none) in
      if current = head then none\<lparr>pl_atHead := True\<rparr>
      else case chain_from current (pt_chain p) of
        None \<Rightarrow> rest
      | Some k \<Rightarrow>
          let es = take (k + 1) (pt_chain p); n = edges_bytes es in
          if (case rel_blob (pt_head p) of Some b \<Rightarrow> n \<ge> bl_size b | None \<Rightarrow> False) then rest
          else none\<lparr>pl_kind := PlanChain, pl_edges := rev es, pl_bytes := n\<rparr>)"

section \<open>Blobs\<close>

text \<open>
  The frames are compressed by parallel workers, each writing its own slot, so the table is
  the map over the indices whatever the schedule; the offsets are set in order afterwards.
\<close>

definition blob_frame :: "prims \<Rightarrow> bytes \<Rightarrow> nat \<Rightarrow> nat \<Rightarrow> blobFrame \<times> bytes" where
  "blob_frame P data frame i =
     (let off = i * frame; e = min (off + frame) (length data) in
      case Compress P (slice off e data) of (codec, z) \<Rightarrow>
      (\<lparr>bf_off = int off, bf_len = int e - int off, bf_zoff = 0, bf_zlen = int (length z),
        bf_codec = codec, bf_b3 = HashBytes P z\<rparr>, z))"

fun place_frames :: "(blobFrame \<times> bytes) list \<Rightarrow> bytes \<Rightarrow> blobFrame list \<times> bytes" where
  "place_frames [] out = ([], out)"
| "place_frames ((f, z) # fs) out =
     (case place_frames fs (out @ z) of (gs, out') \<Rightarrow> (f\<lparr>bf_zoff := int (length out)\<rparr> # gs, out'))"

definition encodeBlob :: "prims \<Rightarrow> hash \<Rightarrow> bytes \<Rightarrow> nat \<Rightarrow> bytes \<times> blob" where
  "encodeBlob P h data frame =
     (let n = max ((length data + frame - 1) div frame) 1 in
      case place_frames (map (blob_frame P data frame) [0..<n]) [] of (frames, out) \<Rightarrow>
      (out, \<lparr>bl_key = BlobKey h, bl_size = int (length out), bl_frames = frames\<rparr>))"

definition EncodeBlob :: "prims \<Rightarrow> hash \<Rightarrow> bytes \<Rightarrow> bytes \<times> blob" where
  "EncodeBlob P h data = encodeBlob P h data (nat blobFrameSize)"

definition DecodeFrame :: "prims \<Rightarrow> blobFrame \<Rightarrow> bytes \<Rightarrow> rerror + bytes" where
  "DecodeFrame P f z =
     (if int (length z) \<noteq> bf_zlen f then Inl (RelErr ''blob frame length'')
      else if HashBytes P z \<noteq> bf_b3 f then Inl (RelErr ''blob frame fails its hash'')
      else case Decompress P (bf_codec f) z (bf_len f) of Inl e \<Rightarrow> Inl (FrameErr e) | Inr b \<Rightarrow> Inr b)"

definition PlainSize :: "blob \<Rightarrow> int" where
  "PlainSize b = foldl (\<lambda>n f. wrap64 (n + bf_len f)) 0 (bl_frames b)"

fun check_frames :: "int \<Rightarrow> int \<Rightarrow> blobFrame list \<Rightarrow> rerror + int" where
  "check_frames off zoff [] = Inr zoff"
| "check_frames off zoff (f # fs) =
     (if bf_off f \<noteq> off \<or> bf_len f < 0 \<or> bf_len f > blobFrameSize \<or> bf_zoff f \<noteq> zoff \<or> bf_zlen f < 0
      then Inl (RelErr ''blob frame out of order'')
      else check_frames (wrap64 (off + bf_len f)) (wrap64 (zoff + bf_zlen f)) fs)"

definition Blob_Check :: "blob \<Rightarrow> rerror + unit" where
  "Blob_Check b = bindR (check_frames 0 0 (bl_frames b)) (\<lambda>zoff.
     if zoff \<noteq> bl_size b then Inl (RelErr ''blob frames total'') else Inr ())"

section \<open>Hash text round-trips\<close>

lemma hex_val_digits: "\<forall>n \<in> set [0..<16]. hex_val (hex_digit n) = Some n"
  by code_simp

lemma hex_val_digit: "n < 16 \<Longrightarrow> hex_val (hex_digit n) = Some n"
  using hex_val_digits by simp

lemma hex_decode_encode: "hex_decode (hex_encode b) = Some b"
proof (induction b)
  case (Cons x b)
  have "unat x div 16 < 16" using byte_less[of x] by (simp add: less_mult_imp_div_less)
  moreover have "unat x div 16 * 16 + unat x mod 16 = unat x" by simp
  ultimately show ?case using Cons by (simp add: hex_encode_def hex_val_digit del: of_nat_add)
qed (simp add: hex_encode_def)

lemma ParseHash_String:
  assumes "length h = 32"
  shows "ParseHash (Hash_String h) = Inr h"
  using assms hex_decode_encode[of h] by (auto simp: Hash_String_def IsZero_def ParseHash_def)

lemma ParseHash_length: "ParseHash s = Inr h \<Longrightarrow> length h = 32"
  by (auto simp: ParseHash_def zeroHash_def split: if_splits option.splits)

lemma hex_encode_inj: "hex_encode a = hex_encode b \<Longrightarrow> a = b"
  by (metis hex_decode_encode option.inject)

lemma Hash_String_inj: "length a = 32 \<Longrightarrow> length b = 32 \<Longrightarrow> Hash_String a = Hash_String b \<Longrightarrow> a = b"
  by (metis ParseHash_String sum.inject(2))

section \<open>An accepted chain links the head to its oldest edge\<close>

text \<open>\<open>es\<close>, newest first, is a path ending at \<open>to\<close>.\<close>

fun linked :: "hash \<Rightarrow> edge list \<Rightarrow> bool" where
  "linked to [] \<longleftrightarrow> True"
| "linked to (e # es) \<longleftrightarrow> ed_to e = to \<and> \<not> IsZero (ed_from e) \<and> linked (ed_from e) es"

lemma check_chain_linked: "check_chain to es = None \<Longrightarrow> linked to es"
  by (induction to es rule: check_chain.induct) (auto split: if_splits)

lemma ParsePointer_ok:
  assumes "ParsePointer u b = Inr p"
  shows "linked (rel_hash (pt_head p)) (pt_chain p) \<and> \<not> IsZero (rel_hash (pt_head p)) \<and>
    0 \<le> rel_size (pt_head p) \<and> pt_format p \<le> Format \<and> u b = Some p"
  using assms check_chain_linked
  by (auto simp: ParsePointer_def split: option.splits if_splits)

text \<open>\<open>leads from to es\<close>: applying \<open>es\<close> in order leads from \<open>from\<close> to \<open>to\<close>.\<close>

fun leads :: "hash \<Rightarrow> hash \<Rightarrow> edge list \<Rightarrow> bool" where
  "leads from to [] \<longleftrightarrow> from = to"
| "leads from to (e # es) \<longleftrightarrow> ed_from e = from \<and> leads (ed_to e) to es"

lemma leads_append: "leads a b xs \<Longrightarrow> leads b c ys \<Longrightarrow> leads a c (xs @ ys)"
  by (induction xs arbitrary: a) auto

lemma linked_leads:
  "linked to es \<Longrightarrow> k < length es \<Longrightarrow> leads (ed_from (es ! k)) to (rev (take (k + 1) es))"
proof (induction to es arbitrary: k rule: linked.induct)
  case (2 to e es)
  then show ?case by (cases k) (auto intro!: leads_append[where b = "ed_from e"])
qed simp

lemma chain_from_Some:
  "chain_from current es = Some k \<Longrightarrow> k < length es \<and> k < MaxChain \<and> ed_from (es ! k) = current"
  by (auto simp: chain_from_def find_Some_iff)

lemma chain_from_None:
  "chain_from current es = None \<longleftrightarrow> (\<forall>k < min (length es) MaxChain. ed_from (es ! k) \<noteq> current)"
  by (auto simp: chain_from_def find_None_iff)

lemma MakePlan_chain:
  assumes "linked (rel_hash (pt_head p)) (pt_chain p)" "pl_kind (MakePlan p current) = PlanChain"
  shows "leads current (rel_hash (pt_head p)) (pl_edges (MakePlan p current)) \<and>
    pl_edges (MakePlan p current) \<noteq> [] \<and> length (pl_edges (MakePlan p current)) \<le> MaxChain \<and>
    set (pl_edges (MakePlan p current)) \<subseteq> set (pt_chain p) \<and>
    (\<forall>b. rel_blob (pt_head p) = Some b \<longrightarrow> pl_bytes (MakePlan p current) < bl_size b)"
proof -
  obtain k where k: "chain_from current (pt_chain p) = Some k" "pl_edges (MakePlan p current) = rev (take (k + 1) (pt_chain p))"
    "\<And>b. rel_blob (pt_head p) = Some b \<Longrightarrow> pl_bytes (MakePlan p current) < bl_size b"
    using assms(2) by (auto simp: MakePlan_def Let_def split: if_splits option.splits)
  note c = chain_from_Some[OF k(1)]
  have "leads current (rel_hash (pt_head p)) (rev (take (k + 1) (pt_chain p)))"
    using linked_leads[OF assms(1), of k] c by simp
  then show ?thesis using c k set_take_subset[of "k + 1" "pt_chain p"] by auto
qed

lemma MakePlan_none:
  assumes "pl_kind (MakePlan p current) = PlanNone"
  shows "if pl_atHead (MakePlan p current) then current = rel_hash (pt_head p)
    else current \<noteq> rel_hash (pt_head p) \<and> rel_blob (pt_head p) = None \<and>
      (\<forall>k < min (length (pt_chain p)) MaxChain. ed_from (pt_chain p ! k) \<noteq> current)"
  using assms chain_from_None[of current "pt_chain p"]
  by (auto simp: MakePlan_def Let_def split: if_splits option.splits)

lemma MakePlan_blob:
  "pl_kind (MakePlan p current) = PlanBlob \<Longrightarrow>
   \<exists>b. rel_blob (pt_head p) = Some b \<and> pl_blob (MakePlan p current) = Some b \<and> current \<noteq> rel_hash (pt_head p)"
  by (auto simp: MakePlan_def Let_def split: if_splits option.splits)

section \<open>A published blob passes its check and rebuilds the binary\<close>

definition blob_serves :: "prims \<Rightarrow> bytes \<Rightarrow> bytes \<Rightarrow> blobFrame \<Rightarrow> bool" where
  "blob_serves P data obj f \<longleftrightarrow> 0 \<le> bf_off f \<and> 0 \<le> bf_len f \<and> 0 \<le> bf_zoff f \<and>
     bf_off f + bf_len f \<le> int (length data) \<and> bf_zoff f + bf_zlen f \<le> int (length obj) \<and>
     DecodeFrame P f (slice (nat (bf_zoff f)) (nat (bf_zoff f + bf_zlen f)) obj) =
       Inr (slice (nat (bf_off f)) (nat (bf_off f + bf_len f)) data)"

lemma blob_frame_decodes:
  assumes "prims_ok P" "blob_frame P data frame i = (f, z)" "i * frame \<le> length data"
  shows "bf_off f = int (i * frame)" "bf_len f = int (min ((i + 1) * frame) (length data)) - int (i * frame)"
    "bf_zlen f = int (length z)" "length z \<le> frame"
    "DecodeFrame P (f\<lparr>bf_zoff := zo\<rparr>) z = Inr (slice (i * frame) (min ((i + 1) * frame) (length data)) data)"
proof -
  define chunk where "chunk = slice (i * frame) (min (i * frame + frame) (length data)) data"
  obtain codec z' where c: "Compress P chunk = (codec, z')" by fastforce
  have f: "f = \<lparr>bf_off = int (i * frame), bf_len = int (min (i * frame + frame) (length data)) - int (i * frame), bf_zoff = 0,
      bf_zlen = int (length z), bf_codec = codec, bf_b3 = HashBytes P z\<rparr>" and z: "z = z'"
    using assms(2) c by (auto simp: blob_frame_def Let_def chunk_def)
  have len: "int (min (i * frame + frame) (length data)) - int (i * frame) = int (length chunk)"
    using assms(3) by (auto simp: chunk_def)
  show "bf_off f = int (i * frame)" "bf_len f = int (min ((i + 1) * frame) (length data)) - int (i * frame)"
    "bf_zlen f = int (length z)" by (simp_all add: f add.commute)
  show "length z \<le> frame" using Compress_le[of P chunk] c z by (simp add: chunk_def)
  show "DecodeFrame P (f\<lparr>bf_zoff := zo\<rparr>) z = Inr (slice (i * frame) (min ((i + 1) * frame) (length data)) data)"
    using Decompress_Compress[OF assms(1) c] len by (simp add: f z DecodeFrame_def) (simp add: chunk_def add.commute)
qed

lemma place_frames_serve:
  assumes "prims_ok P" "0 < frame" "int frame \<le> blobFrameSize" "length data < 2 ^ 62"
    and "\<And>i. i < b \<Longrightarrow> i * frame \<le> length data" "a \<le> b"
    and "place_frames (map (blob_frame P data frame) [a..<b]) out = (gs, obj)"
    and "length out \<le> a * frame"
  shows "(\<exists>zs. obj = out @ zs) \<and> length obj \<le> b * frame \<and> length gs = b - a \<and> (\<forall>f \<in> set gs. blob_serves P data obj f) \<and>
    (b * frame < 2 ^ 62 + frame \<longrightarrow>
       check_frames (int (min (a * frame) (length data))) (int (length out)) gs = Inr (int (length obj))) \<and>
    foldl (\<lambda>n f. wrap64 (n + bf_len f)) (int (min (a * frame) (length data))) gs = int (min (b * frame) (length data))"
  using assms(6-)
proof (induction "b - a" arbitrary: a out gs)
  case 0
  then show ?case by auto
next
  case (Suc n)
  then have ab: "a < b" by simp
  then have upt: "[a..<b] = a # [Suc a..<b]" by (simp add: upt_conv_Cons)
  obtain f z where fz: "blob_frame P data frame a = (f, z)" by fastforce
  obtain hs obj' where rec: "place_frames (map (blob_frame P data frame) [Suc a..<b]) (out @ z) = (hs, obj')" by fastforce
  have gs: "gs = f\<lparr>bf_zoff := int (length out)\<rparr> # hs" "obj' = obj" using Suc.prems(2) rec fz by (auto simp: upt)
  have A: "a * frame \<le> length data" using assms(5) ab by simp
  note f = blob_frame_decodes[OF assms(1) fz A]
  define e where "e = min ((a + 1) * frame) (length data)"
  have e: "a * frame \<le> e" "e \<le> length data" "e \<le> a * frame + frame" "bf_len f = int e - int (a * frame)"
    using A f(2) by (auto simp: e_def)
  have out: "length (out @ z) \<le> Suc a * frame" using Suc.prems(3) f(4) by simp
  have IH: "\<exists>zs. obj = (out @ z) @ zs" "length obj \<le> b * frame" "length hs = b - Suc a" "\<forall>f \<in> set hs. blob_serves P data obj f"
    "b * frame < 2 ^ 62 + frame \<longrightarrow> check_frames (int e) (int (length (out @ z))) hs = Inr (int (length obj))"
    "foldl (\<lambda>n f. wrap64 (n + bf_len f)) (int e) hs = int (min (b * frame) (length data))"
    using Suc.hyps(1)[of "Suc a" "out @ z" hs] Suc.hyps(2) ab rec gs(2) out by (simp_all add: e_def)
  obtain zs where zs: "obj = out @ z @ zs" using IH(1) by auto
  have we: "wrap64 (int (a * frame) + bf_len f) = int e" using e assms(4) by (simp add: wrap64_id_le)
  have serve: "blob_serves P data obj (f\<lparr>bf_zoff := int (length out)\<rparr>)"
    using f(1,3,5)[folded e_def] e by (simp add: blob_serves_def zs nat_add_distrib flip: of_nat_add of_nat_mult)
  have check: "check_frames (int (min (a * frame) (length data))) (int (length out)) gs = Inr (int (length obj))"
    if "b * frame < 2 ^ 62 + frame"
  proof -
    have "int (length out) + int (length z) < 2 ^ 63"
      using IH(2) that zs assms(3) by (simp add: blobFrameSize_def)
    then have "wrap64 (int (length out) + bf_zlen f) = int (length (out @ z))" by (simp add: f(3) wrap64_id_le)
    moreover have "bf_len f \<le> blobFrameSize" using e(3,4) assms(3) by linarith
    moreover have "int (min (a * frame) (length data)) = int (a * frame)" using A by simp
    ultimately show ?thesis using IH(5) that we e(1,4) f(1,3) by (simp add: gs(1) del: of_nat_mult of_nat_add length_append)
  qed
  have "int (min (a * frame) (length data)) = int (a * frame)" using A by simp
  then have "foldl (\<lambda>n f. wrap64 (n + bf_len f)) (int (min (a * frame) (length data))) gs = int (min (b * frame) (length data))"
    using IH(6) we by (simp add: gs(1) del: of_nat_mult)
  then show ?case using IH(2,3,4) zs serve check ab by (simp add: gs(1))
qed

lemma encodeBlob_serves:
  assumes "prims_ok P" "0 < frame" "int frame \<le> blobFrameSize" "length data < 2 ^ 61" "encodeBlob P h data frame = (obj, b)"
  shows "Blob_Check b = Inr () \<and> PlainSize b = int (length data) \<and> bl_size b = int (length obj) \<and>
    (\<forall>f \<in> set (bl_frames b). blob_serves P data obj f)"
proof -
  define n where "n = max ((length data + frame - 1) div frame) 1"
  obtain gs where gs: "place_frames (map (blob_frame P data frame) [0..<n]) [] = (gs, obj)"
    "b = \<lparr>bl_key = BlobKey h, bl_size = int (length obj), bl_frames = gs\<rparr>"
    using assms(5) by (auto simp: encodeBlob_def n_def Let_def split: prod.splits)
  have up: "length data \<le> n * frame"
  proof -
    have "length data + frame - 1 < ((length data + frame - 1) div frame + 1) * frame"
      using assms(2) by (metis dividend_less_times_div mult.commute Suc_eq_plus1 mult_Suc_right add.commute)
    then have "length data \<le> (length data + frame - 1) div frame * frame" using assms(2) by simp
    also have "\<dots> \<le> n * frame" by (simp add: n_def)
    finally show ?thesis .
  qed
  have low: "i * frame \<le> length data" if "i < n" for i
  proof (cases "i = 0")
    case False
    then have "i + 1 \<le> (length data + frame - 1) div frame" using that by (simp add: n_def)
    then have "(i + 1) * frame \<le> length data + frame - 1"
      by (metis div_times_less_eq_dividend le_trans mult_le_mono1)
    then show ?thesis using assms(2) by simp
  qed simp
  have nf: "n * frame < 2 ^ 62 + frame"
  proof -
    have "(n - 1) * frame \<le> length data" using low[of "n - 1"] by (simp add: n_def)
    moreover have "n * frame = (n - 1) * frame + frame" by (cases n) (auto simp: n_def)
    ultimately show ?thesis using assms(4) by simp
  qed
  have "length data < 2 ^ 62" using assms(4) by simp
  from place_frames_serve[OF assms(1,2,3) this low _ gs(1)] nf up show ?thesis
    by (auto simp: gs(2) Blob_Check_def PlainSize_def)
qed

text \<open>
  The check bounds a frame's place and plain length, not its stored length: a table whose
  one frame claims \<open>2 ^ 62\<close> stored bytes passes, and the fetcher allocates that many.
\<close>

lemma Blob_Check_zlen_unbounded:
  "Blob_Check \<lparr>bl_key = k, bl_size = 2 ^ 62,
     bl_frames = [\<lparr>bf_off = 0, bf_len = 1, bf_zoff = 0, bf_zlen = 2 ^ 62, bf_codec = 0, bf_b3 = zeroHash\<rparr>]\<rparr> = Inr ()"
  by (simp add: Blob_Check_def blobFrameSize_def wrap64_def)

end
