(* ===== verification/Install.thy ===== *)
theory Install
  imports Fs Release
begin

text \<open>
  \<^verbatim>\<open>release/install.go\<close>: the installer, every step of it a system call that can fail or be the
  last thing the process does.  The theorems hold for every fault oracle, so they are
  statements about a crash at any instant.
\<close>

section \<open>Paths\<close>

definition OldPath :: "string \<Rightarrow> string" where "OldPath path = path @ ''.old''"
definition PendingPath :: "string \<Rightarrow> string" where "PendingPath path = path @ ''.pending''"
definition StateDir :: "string \<Rightarrow> string" where "StateDir path = path @ ''.go-binsync''"
definition tmpPrefix :: "string \<Rightarrow> string" where "tmpPrefix path = path @ ''.tmp.''"
definition failedPath :: "string \<Rightarrow> string" where "failedPath path = StateDir path @ ''/failed''"

section \<open>Operations\<close>

text \<open>Wrapping a system call's error.\<close>

definition errS :: "string \<Rightarrow> (errno + 'a, 'z) sys \<Rightarrow> ('a \<Rightarrow> (rerror + 'b, 'z) sys) \<Rightarrow> (rerror + 'b, 'z) sys" where
  "errS msg m f = bindS m (\<lambda>r. case r of Inl e \<Rightarrow> retS (Inl (RelErr msg)) | Inr x \<Rightarrow> f x)"

text \<open>The same, with a missing file accepted.\<close>

definition errS_noent :: "string \<Rightarrow> (errno + unit, 'z) sys \<Rightarrow> (rerror + 'b, 'z) sys \<Rightarrow> (rerror + 'b, 'z) sys" where
  "errS_noent msg m k = bindS m (\<lambda>r. case r of
     Inl ENOENT \<Rightarrow> k | Inl e \<Rightarrow> retS (Inl (RelErr msg)) | Inr _ \<Rightarrow> k)"

definition syncDir :: "(rerror + unit, 'z) sys" where
  "syncDir = errS ''sync'' sys_nop (\<lambda>_. errS ''sync'' sys_nop (\<lambda>_. seqS sys_nop (retS (Inr ()))))"

text \<open>\<^verbatim>\<open>f.Close\<close> runs whatever happened, and its error counts when nothing failed before it.\<close>

definition closeS :: "(errno + unit, 'z) sys \<Rightarrow> (errno + unit, 'z) sys" where
  "closeS m = bindS m (\<lambda>err. bindS sys_nop (\<lambda>cerr. retS (case err of Inl e \<Rightarrow> Inl e | Inr _ \<Rightarrow> cerr)))"

definition writeExec :: "nat \<Rightarrow> bytes \<Rightarrow> (errno + unit, 'z) sys" where
  "writeExec i data = closeS (tryS (sys_write i data) (\<lambda>_. tryS (sys_chmod i 493) (\<lambda>_. sys_nop)))"

definition writeSync :: "string \<Rightarrow> bytes \<Rightarrow> nat \<Rightarrow> (errno + unit, 'z) sys" where
  "writeSync p data perm = tryS (sys_openTrunc p perm) (\<lambda>i. closeS (tryS (sys_write i data) (\<lambda>_. sys_nop)))"

definition inst_check :: "string \<Rightarrow> (rerror + unit, 'z) sys" where
  "inst_check path = bindS (sys_stat path) (\<lambda>r.
     let access = errS ''directory is not writable'' sys_nop (\<lambda>_. retS (Inr ())) in
     case r of
       Inl ENOENT \<Rightarrow> access
     | Inl e \<Rightarrow> retS (Inl (RelErr ''install''))
     | Inr (ino, nd) \<Rightarrow>
         if i_symlink nd then retS (Inl (RelErr ''path is a symlink''))
         else if odd (i_mode nd div 2) then retS (Inl (RelErr ''mode is world-writable''))
         else access)"

definition stage_file :: "prims \<Rightarrow> bytes \<Rightarrow> hash \<Rightarrow> string \<Rightarrow> nat \<Rightarrow> (rerror + string, 'z) sys" where
  "stage_file P data want tmp i =
     bindS (writeExec i data) (\<lambda>err.
       case err of
         Inl e \<Rightarrow> seqS (sys_remove tmp) (retS (Inl (RelErr ''write'')))
       | Inr _ \<Rightarrow> if HashBytes P data \<noteq> want then seqS (sys_remove tmp) (retS (Inl (RelErr ''bytes hash'')))
                 else retS (Inr tmp))"

definition inst_stage :: "prims \<Rightarrow> string \<Rightarrow> bytes \<Rightarrow> hash \<Rightarrow> (rerror + string, 'z) sys" where
  "inst_stage P path data want =
     tryS (inst_check path) (\<lambda>_.
     errS ''install'' (sys_createTemp (tmpPrefix path)) (\<lambda>(tmp, i). stage_file P data want tmp i))"

definition linkOld :: "string \<Rightarrow> (rerror + unit, 'z) sys" where
  "linkOld path =
     errS_noent ''install'' (sys_remove (OldPath path))
       (errS_noent ''install'' (sys_link path (OldPath path)) (retS (Inr ())))"

definition markPending :: "string \<Rightarrow> hash \<Rightarrow> (rerror + unit, 'z) sys" where
  "markPending path want =
     errS ''install'' (writeSync (PendingPath path) (to_bytes (Hash_String want)) 420) (\<lambda>_. retS (Inr ()))"

definition Install :: "prims \<Rightarrow> string \<Rightarrow> bytes \<Rightarrow> hash \<Rightarrow> (rerror + unit, 'z) sys" where
  "Install P path data want =
     tryS (inst_stage P path data want) (\<lambda>tmp.
     bindS (linkOld path) (\<lambda>r. case r of
       Inl e \<Rightarrow> seqS (sys_remove tmp) (retS (Inl e))
     | Inr _ \<Rightarrow>
       bindS (markPending path want) (\<lambda>r. case r of
         Inl e \<Rightarrow> seqS (sys_remove tmp) (retS (Inl e))
       | Inr _ \<Rightarrow>
         bindS (sys_rename tmp path) (\<lambda>r. case r of
           Inl e \<Rightarrow> seqS (sys_remove tmp) (seqS (sys_remove (PendingPath path)) (retS (Inl (RelErr ''install''))))
         | Inr _ \<Rightarrow> syncDir))))"

definition Revert :: "string \<Rightarrow> (rerror + unit, 'z) sys" where
  "Revert path =
     (let rest = errS_noent ''revert'' (sys_remove (PendingPath path)) syncDir in
      bindS (sys_rename (OldPath path) path) (\<lambda>r. case r of
        Inl ENOENT \<Rightarrow> bindS (sys_stat (PendingPath path)) (\<lambda>st. case st of
            Inl e \<Rightarrow> retS (Inl (RelErr ''nothing to revert to''))
          | Inr _ \<Rightarrow> rest)
      | Inl e \<Rightarrow> retS (Inl (RelErr ''revert''))
      | Inr _ \<Rightarrow> rest))"

text \<open>The bool of \<open>Pending\<close> comes with the error, so the result is a triple.\<close>

definition Pending :: "string \<Rightarrow> (hash \<times> bool \<times> rerror option, 'z) sys" where
  "Pending path = bindS (sys_readFile (PendingPath path)) (\<lambda>r. case r of
     Inl ENOENT \<Rightarrow> retS (zeroHash, False, None)
   | Inl e \<Rightarrow> retS (zeroHash, False, Some (RelErr ''pending marker''))
   | Inr b \<Rightarrow> (case ParseHash (TrimSpace (of_bytes b)) of
       Inl e \<Rightarrow> retS (zeroHash, True, Some (RelErr ''pending marker''))
     | Inr h \<Rightarrow> retS (h, True, None)))"

definition ClearPending :: "string \<Rightarrow> (rerror + unit, 'z) sys" where
  "ClearPending path = errS_noent ''clear pending'' (sys_remove (PendingPath path)) syncDir"

definition MarkFailed :: "string \<Rightarrow> hash \<Rightarrow> (rerror + unit, 'z) sys" where
  "MarkFailed path h =
     errS ''mark failed'' sys_nop (\<lambda>_.
     errS ''mark failed'' (writeSync (failedPath path) (to_bytes (Hash_String h)) 420) (\<lambda>_. retS (Inr ())))"

definition Failed :: "string \<Rightarrow> (hash option, 'z) sys" where
  "Failed path = bindS (sys_readFile (failedPath path)) (\<lambda>r. case r of
     Inl e \<Rightarrow> retS None
   | Inr b \<Rightarrow> (case ParseHash (TrimSpace (of_bytes b)) of
       Inl e \<Rightarrow> retS None
     | Inr h \<Rightarrow> retS (if IsZero h then None else Some h)))"

definition ClearFailed :: "string \<Rightarrow> (rerror + unit, 'z) sys" where
  "ClearFailed path = errS_noent ''clear failed marker'' (sys_remove (failedPath path)) (retS (Inr ()))"

section \<open>Proof rules\<close>

lemma path_neqs [simp]:
  "OldPath path \<noteq> path" "PendingPath path \<noteq> path" "failedPath path \<noteq> path" "tmpPrefix path @ x \<noteq> path"
  "path \<noteq> OldPath path" "path \<noteq> PendingPath path" "path \<noteq> failedPath path" "path \<noteq> tmpPrefix path @ x"
  "OldPath path \<noteq> PendingPath path" "PendingPath path \<noteq> OldPath path"
  "OldPath path \<noteq> tmpPrefix path @ x" "tmpPrefix path @ x \<noteq> OldPath path"
  "PendingPath path \<noteq> tmpPrefix path @ x" "tmpPrefix path @ x \<noteq> PendingPath path"
  "failedPath path \<noteq> OldPath path" "failedPath path \<noteq> PendingPath path"
  "OldPath path \<noteq> failedPath path" "PendingPath path \<noteq> failedPath path"
  by (simp_all add: OldPath_def PendingPath_def failedPath_def StateDir_def tmpPrefix_def)

lemma wp_errS [simp]:
  "wp (errS msg m f) Q C = wp m (\<lambda>r. case r of Inl e \<Rightarrow> Q (Inl (RelErr msg)) | Inr x \<Rightarrow> wp (f x) Q C) C"
  by (auto simp: fun_eq_iff errS_def wp_def bindS_def retS_def split: prod.splits out.splits sum.splits)

lemma wp_errS_noent [simp]:
  "wp (errS_noent msg m k) Q C =
   wp m (\<lambda>r. if r = Inr () \<or> r = Inl ENOENT then wp k Q C else Q (Inl (RelErr msg))) C"
  by (auto simp: fun_eq_iff errS_noent_def wp_def bindS_def retS_def split: prod.splits out.splits sum.splits errno.splits)

lemma wp_syncDir:
  assumes "\<And>s. I s \<Longrightarrow> I (ticked s)" "I s" "\<And>r s. I s \<Longrightarrow> Q r s" "\<And>s. I s \<Longrightarrow> C s"
  shows "wp syncDir Q C s"
  unfolding syncDir_def using assms by (auto intro!: wp_nop split: sum.splits)

lemma wp_closeS:
  assumes "wp m (\<lambda>r s. C (ticked s) \<and> (\<forall>e. r = Inl e \<longrightarrow> Q (Inl e) (ticked s)) \<and> (r = Inr () \<longrightarrow> (\<forall>r'. Q r' (ticked s)))) C s"
  shows "wp (closeS m) Q C s"
  unfolding closeS_def using assms
  by (simp, elim wp_mono) (auto intro!: wp_nop split: sum.splits)

section \<open>Install is atomic\<close>

text \<open>
  What holds of the file system while the old binary is in place: \<open>c0\<close> at the path, and the
  pending marker a file of its own.
\<close>

definition before :: "string \<Rightarrow> bytes option \<Rightarrow> 'z fsys_scheme \<Rightarrow> bool" where
  "before path c0 s \<longleftrightarrow> fs_wf s \<and> content s path = c0 \<and>
     (\<forall>i. fs_name s (PendingPath path) = Some i \<longrightarrow> fs_name s path \<noteq> Some i)"

text \<open>The staged file \<open>tmp\<close> holds \<open>d\<close> and is the only name of its inode.\<close>

definition staged :: "string \<Rightarrow> bytes option \<Rightarrow> string \<Rightarrow> nat \<Rightarrow> bytes \<Rightarrow> 'z fsys_scheme \<Rightarrow> bool" where
  "staged path c0 tmp i d s \<longleftrightarrow> before path c0 s \<and> tmp \<noteq> path \<and> tmp \<noteq> OldPath path \<and> tmp \<noteq> PendingPath path \<and>
     fs_name s tmp = Some i \<and> i_data (fs_node s i) = d \<and> (\<forall>p. fs_name s p = Some i \<longrightarrow> p = tmp)"

lemma before_ticked [simp]: "before path c0 (ticked s) = before path c0 s"
  by (simp add: before_def)

lemma staged_ticked [simp]: "staged path c0 tmp i d (ticked s) = staged path c0 tmp i d s"
  by (simp add: staged_def)

lemma before_remove [simp]:
  "p \<noteq> path \<Longrightarrow> before path c0 s \<Longrightarrow> before path c0 ((ticked s)\<lparr>fs_name := (fs_name s)(p := None)\<rparr>)"
  by (auto simp: before_def fs_wf_def content_def)

lemma wp_remove_before:
  "p \<noteq> path \<Longrightarrow> before path c0 s \<Longrightarrow> wp (sys_remove p) (\<lambda>_. before path c0) (before path c0) s"
  by (rule wp_remove) auto

lemma wp_inst_check: "before path c0 s \<Longrightarrow> wp (inst_check path) (\<lambda>_. before path c0) (before path c0) s"
  unfolding inst_check_def Let_def
  by (auto intro!: wp_stat wp_nop split: errno.splits sum.splits)

text \<open>Writing to the freshly created temp file touches nothing else.\<close>

lemma staged_before: "staged path c0 tmp i d s \<Longrightarrow> before path c0 s"
  by (simp add: staged_def)

lemma staged_new:
  assumes "before path c0 s" "fs_name s (tmpPrefix path @ x) = None"
  shows "staged path c0 (tmpPrefix path @ x) (fs_next s) [] (new_inode (tmpPrefix path @ x) m (ticked s))"
  using assms by (auto simp: staged_def before_def content_new_inode fs_wf_new_inode) (auto simp: fs_wf_def)

lemma staged_write:
  assumes "staged path c0 tmp i d s"
  shows "staged path c0 tmp i (d @ e) (node_write i e (ticked s))"
  using assms by (auto simp: staged_def before_def content_node_write fs_wf_def)

lemma staged_chmod:
  assumes "staged path c0 tmp i d s"
  shows "staged path c0 tmp i d ((ticked s)\<lparr>fs_node := (fs_node s)(i := (fs_node s i)\<lparr>i_mode := m\<rparr>)\<rparr>)"
proof -
  let ?s = "(ticked s)\<lparr>fs_node := (fs_node s)(i := (fs_node s i)\<lparr>i_mode := m\<rparr>)\<rparr>"
  have "content ?s q = content s q" for q by (cases "fs_name s q") (auto simp: content_def)
  then show ?thesis using assms by (simp add: staged_def before_def fs_wf_def)
qed

lemma wp_writeExec:
  fixes s :: "'z fsys_scheme"
  assumes "staged path c0 tmp i [] s"
  shows "wp (writeExec i data) (\<lambda>r s. \<exists>d. staged path c0 tmp i d s \<and> (r = Inr () \<longrightarrow> d = data)) (before path c0) s"
proof -
  have w: "staged path c0 tmp i d (node_write i d (ticked s))" for d using staged_write[OF assms, of d] by simp
  define Q where "Q = (\<lambda>r (s :: 'z fsys_scheme). \<exists>d. staged path c0 tmp i d s \<and> (r = (Inr () :: errno + unit) \<longrightarrow> d = data))"
  have Q: "staged path c0 tmp i data s \<Longrightarrow> Q r s" "staged path c0 tmp i d s \<Longrightarrow> Q (Inl e) s" for r s d e
    by (auto simp: Q_def)
  have after: "wp (tryS (sys_chmod i 493) (\<lambda>_. sys_nop))
      (\<lambda>r s. before path c0 (ticked s) \<and> (\<forall>e. r = Inl e \<longrightarrow> Q (Inl e) (ticked s)) \<and> (r = Inr () \<longrightarrow> (\<forall>r'. Q r' (ticked s))))
      (before path c0) s" if "staged path c0 tmp i data s" for s :: "'z fsys_scheme"
    using that staged_chmod[OF that, of 493] staged_before[OF staged_chmod[OF that, of 493]] by (auto intro!: wp_chmod wp_nop Q(1) split: sum.splits dest: staged_before)
  show ?thesis
    unfolding writeExec_def Q_def[symmetric]
  proof (rule wp_closeS, unfold wp_try[of "sys_write i data"], rule wp_write)
    show "before path c0 (node_write i (take n data) (ticked s))" for n using staged_before[OF w] .
    show "(case Inl EIO of Inl e \<Rightarrow> (\<lambda>s. before path c0 (ticked s) \<and> (\<forall>e'. Inl e = Inl e' \<longrightarrow> Q (Inl e') (ticked s)) \<and>
         (Inl e = Inr () \<longrightarrow> (\<forall>r'. Q r' (ticked s))))
       | Inr x \<Rightarrow> wp (tryS (sys_chmod i 493) (\<lambda>_. sys_nop)) (\<lambda>r s. before path c0 (ticked s) \<and>
         (\<forall>e. r = Inl e \<longrightarrow> Q (Inl e) (ticked s)) \<and> (r = Inr () \<longrightarrow> (\<forall>r'. Q r' (ticked s)))) (before path c0))
       (node_write i (take n data) (ticked s))" for n
      using w[of "take n data"] staged_before[OF w[of "take n data"]] by (auto simp: Q_def)
    show "(case Inr () of Inl e \<Rightarrow> (\<lambda>s. before path c0 (ticked s) \<and> (\<forall>e'. Inl e = Inl e' \<longrightarrow> Q (Inl e') (ticked s)) \<and>
         (Inl e = Inr () \<longrightarrow> (\<forall>r'. Q r' (ticked s))))
       | Inr x \<Rightarrow> wp (tryS (sys_chmod i 493) (\<lambda>_. sys_nop)) (\<lambda>r s. before path c0 (ticked s) \<and>
         (\<forall>e. r = Inl e \<longrightarrow> Q (Inl e) (ticked s)) \<and> (r = Inr () \<longrightarrow> (\<forall>r'. Q r' (ticked s)))) (before path c0))
       (node_write i data (ticked s))"
      unfolding sum.case by (rule after[OF w])
  qed
qed

definition stage_post :: "prims \<Rightarrow> string \<Rightarrow> bytes option \<Rightarrow> bytes \<Rightarrow> hash \<Rightarrow> rerror + string \<Rightarrow> 'z fsys_scheme \<Rightarrow> bool" where
  "stage_post P path c0 data want r s \<longleftrightarrow> (case r of Inl e \<Rightarrow> before path c0 s
     | Inr tmp \<Rightarrow> HashBytes P data = want \<and> (\<exists>i. staged path c0 tmp i data s))"

lemma stage_post_simps [simp]:
  "stage_post P path c0 data want (Inl e) s = before path c0 s"
  "stage_post P path c0 data want (Inr tmp) s = (HashBytes P data = want \<and> (\<exists>i. staged path c0 tmp i data s))"
  by (simp_all add: stage_post_def)

lemma wp_stage_file:
  fixes s :: "'z fsys_scheme"
  assumes "staged path c0 tmp i [] s"
  shows "wp (stage_file P data want tmp i) (stage_post P path c0 data want) (before path c0) s"
proof -
  have neq: "tmp \<noteq> path" using assms by (auto simp: staged_def)
  note abort = wp_remove_before[OF neq staged_before]
  show ?thesis unfolding stage_file_def wp_bind
    by (rule wp_mono[OF wp_writeExec[OF assms, of data]]) (auto split: sum.splits intro: abort)
qed

lemma wp_inst_stage:
  fixes s :: "'z fsys_scheme"
  assumes "before path c0 s"
  shows "wp (inst_stage P path data want) (stage_post P path c0 data want) (before path c0) s"
  unfolding inst_stage_def wp_try
  by (rule wp_mono[OF wp_inst_check[OF assms]])
     (auto split: sum.splits intro!: wp_createTemp wp_stage_file staged_new)

text \<open>With the previous binary linked: \<open>.old\<close> is the inode the path holds.\<close>

definition linked_old :: "string \<Rightarrow> bytes option \<Rightarrow> string \<Rightarrow> nat \<Rightarrow> bytes \<Rightarrow> 'z fsys_scheme \<Rightarrow> bool" where
  "linked_old path c0 tmp i d s \<longleftrightarrow> staged path c0 tmp i d s \<and> fs_name s (OldPath path) = fs_name s path"

lemma linked_old_ticked [simp]: "linked_old path c0 tmp i d (ticked s) = linked_old path c0 tmp i d s"
  by (simp add: linked_old_def)

lemma staged_remove_old:
  "staged path c0 tmp i d s \<Longrightarrow> staged path c0 tmp i d ((ticked s)\<lparr>fs_name := (fs_name s)(OldPath path := None)\<rparr>)"
  by (auto simp: staged_def)

lemma linked_old_link:
  assumes "staged path c0 tmp i d s" "fs_name s path = Some j"
  shows "linked_old path c0 tmp i d ((ticked s)\<lparr>fs_name := (fs_name s)(OldPath path := Some j)\<rparr>)"
proof -
  have "j \<noteq> i" using assms by (auto simp: staged_def)
  then show ?thesis using assms by (auto simp: linked_old_def staged_def before_def fs_wf_def content_def)
qed

definition link_post :: "string \<Rightarrow> bytes option \<Rightarrow> string \<Rightarrow> nat \<Rightarrow> bytes \<Rightarrow> rerror + unit \<Rightarrow> 'z fsys_scheme \<Rightarrow> bool" where
  "link_post path c0 tmp i d r s \<longleftrightarrow> staged path c0 tmp i d s \<and> (r = Inr () \<longrightarrow> linked_old path c0 tmp i d s)"

lemma wp_link_step:
  assumes "staged path c0 tmp i d s" "fs_name s (OldPath path) = None"
  shows "wp (errS_noent ''install'' (sys_link path (OldPath path)) (retS (Inr ()))) (link_post path c0 tmp i d) (before path c0) s"
proof -
  have none: "fs_name s path = None \<Longrightarrow> linked_old path c0 tmp i d s"
    using assms by (auto simp: linked_old_def staged_def before_def content_def)
  have some: "fs_name s path = Some j \<Longrightarrow> linked_old path c0 tmp i d ((ticked s)\<lparr>fs_name := (fs_name s)(OldPath path := Some j)\<rparr>)" for j
    by (rule linked_old_link[OF assms(1)])
  then have some': "fs_name s path = Some j \<Longrightarrow> staged path c0 tmp i d ((ticked s)\<lparr>fs_name := (fs_name s)(OldPath path := Some j)\<rparr>)" for j
    by (simp add: linked_old_def)
  show ?thesis unfolding wp_errS_noent wp_ret
    by (rule wp_link) (use assms none some some' in \<open>auto simp: link_post_def staged_before\<close>)
qed

lemma wp_linkOld:
  assumes "staged path c0 tmp i d s"
  shows "wp (linkOld path) (link_post path c0 tmp i d) (before path c0) s"
proof -
  have t: "staged path c0 tmp i d (ticked s)" using assms by simp
  have steps: "fs_name s (OldPath path) = None \<Longrightarrow>
      wp (errS_noent ''install'' (sys_link path (OldPath path)) (retS (Inr ()))) (link_post path c0 tmp i d) (before path c0) (ticked s)"
    "wp (errS_noent ''install'' (sys_link path (OldPath path)) (retS (Inr ()))) (link_post path c0 tmp i d) (before path c0)
      ((ticked s)\<lparr>fs_name := (fs_name s)(OldPath path := None)\<rparr>)"
    using wp_link_step[OF t] wp_link_step[OF staged_remove_old[OF assms]] by simp_all
  show ?thesis unfolding linkOld_def wp_errS_noent[of _ "sys_remove (OldPath path)"]
    by (rule wp_remove) (use assms steps in \<open>auto simp: link_post_def[of path c0 tmp i d "Inl e" for e] staged_before simp del: wp_errS_noent\<close>)
qed

text \<open>The pending marker, held by the inode \<open>k\<close>.\<close>

definition marked :: "string \<Rightarrow> bytes option \<Rightarrow> string \<Rightarrow> nat \<Rightarrow> bytes \<Rightarrow> nat \<Rightarrow> bytes \<Rightarrow> 'z fsys_scheme \<Rightarrow> bool" where
  "marked path c0 tmp i d k m s \<longleftrightarrow> linked_old path c0 tmp i d s \<and> fs_name s (PendingPath path) = Some k \<and>
     i_data (fs_node s k) = m"

lemma linked_old_staged: "linked_old path c0 tmp i d s \<Longrightarrow> staged path c0 tmp i d s"
  by (simp add: linked_old_def)

lemma marked_linked: "marked path c0 tmp i d k m s \<Longrightarrow> linked_old path c0 tmp i d s"
  by (simp add: marked_def)

lemma marked_ticked [simp]: "marked path c0 tmp i d k m (ticked s) = marked path c0 tmp i d k m s"
  by (simp add: marked_def)

lemma linked_old_update:
  assumes "linked_old path c0 tmp i d s" "fs_name s (PendingPath path) = Some k" "s' = s\<lparr>fs_node := (fs_node s)(k := v)\<rparr>"
  shows "marked path c0 tmp i d k (i_data v) s'"
proof -
  have k: "k \<noteq> i" "fs_name s path \<noteq> Some k" using assms by (auto simp: linked_old_def staged_def before_def)
  have "content s' path = content s path" using k(2) content_update[of s k v path] assms(3) by simp
  then show ?thesis using assms(1,2) k by (auto simp: assms(3) marked_def linked_old_def staged_def before_def fs_wf_def)
qed

lemma marked_new:
  assumes "linked_old path c0 tmp i d s" "fs_name s (PendingPath path) = None"
  shows "marked path c0 tmp i d (fs_next s) [] (new_inode (PendingPath path) m s)"
proof -
  have wf: "fs_wf s" and i: "i < fs_next s" using assms(1) by (auto simp: linked_old_def staged_def before_def fs_wf_def)
  have "content (new_inode (PendingPath path) m s) path = content s path" by (simp add: content_new_inode[OF wf])
  moreover have "fs_name s path \<noteq> Some (fs_next s)" using wf by (auto simp: fs_wf_def)
  ultimately show ?thesis using assms i fs_wf_new_inode[OF wf, of "PendingPath path" m]
    by (auto simp: marked_def linked_old_def staged_def before_def)
qed

lemma wp_marker_write:
  fixes s :: "'z fsys_scheme"
  assumes "marked path c0 tmp i d k [] s"
  shows "wp (closeS (tryS (sys_write k m) (\<lambda>_. sys_nop)))
    (\<lambda>r s. staged path c0 tmp i d s \<and> (r = Inr () \<longrightarrow> marked path c0 tmp i d k m s)) (before path c0) s"
proof -
  have w: "marked path c0 tmp i d k e (node_write k e (ticked s))" for e
    using linked_old_update[of path c0 tmp i d "ticked s" k "node_write k e (ticked s)"
        "(fs_node s k)\<lparr>i_data := i_data (fs_node s k) @ e, i_mtime := fs_now (ticked s) (fs_tick (ticked s))\<rparr>"] assms
    by (simp add: marked_def node_write_def)
  note b = w[THEN marked_linked, THEN linked_old_staged] w[THEN marked_linked, THEN linked_old_staged, THEN staged_before]
  have "wp (sys_nop) (\<lambda>r s. before path c0 (ticked s) \<and> (\<forall>e. r = Inl e \<longrightarrow> staged path c0 tmp i d (ticked s) \<and> (Inl e = Inr () \<longrightarrow> marked path c0 tmp i d k m (ticked s))) \<and>
     (r = Inr () \<longrightarrow> (\<forall>r'. staged path c0 tmp i d (ticked s) \<and> (r' = Inr () \<longrightarrow> marked path c0 tmp i d k m (ticked s))))) (before path c0) (node_write k m (ticked s))"
    by (rule wp_nop) (use w b in auto)
  then show ?thesis
    by (intro wp_closeS, unfold wp_try, intro wp_write) (use b in auto)
qed

lemma wp_markPending:
  fixes s :: "'z fsys_scheme"
  assumes "linked_old path c0 tmp i d s"
  shows "wp (markPending path want)
    (\<lambda>r s. staged path c0 tmp i d s \<and> (r = Inr () \<longrightarrow> (\<exists>k. marked path c0 tmp i d k (to_bytes (Hash_String want)) s))) (before path c0) s"
proof -
  have t: "linked_old path c0 tmp i d (ticked s)" using assms by simp
  have new: "fs_name s (PendingPath path) = None \<Longrightarrow>
      marked path c0 tmp i d (fs_next s) [] (new_inode (PendingPath path) 420 (ticked s))"
    using marked_new[OF t] by simp
  have old: "fs_name s (PendingPath path) = Some k \<Longrightarrow>
      marked path c0 tmp i d k [] ((ticked s)\<lparr>fs_node := (fs_node s)(k := (fs_node s k)\<lparr>i_data := [], i_mtime := x\<rparr>)\<rparr>)" for k x
    using linked_old_update[OF t, of k _ "(fs_node s k)\<lparr>i_data := [], i_mtime := x\<rparr>"] by simp
  have step: "wp (closeS (tryS (sys_write k (to_bytes (Hash_String want))) (\<lambda>_. sys_nop)))
     (\<lambda>r. case r of Inl e \<Rightarrow> (\<lambda>s. staged path c0 tmp i d s \<and> (Inl (RelErr ''install'') = Inr () \<longrightarrow> (\<exists>k. marked path c0 tmp i d k (to_bytes (Hash_String want)) s)))
      | Inr x \<Rightarrow> (\<lambda>s. staged path c0 tmp i d s \<and> (Inr () = Inr () \<longrightarrow> (\<exists>k. marked path c0 tmp i d k (to_bytes (Hash_String want)) s)))) (before path c0) s"
    if "marked path c0 tmp i d k [] s" for k and s :: "'z fsys_scheme"
    by (rule wp_mono[OF wp_marker_write[OF that]]) (auto split: sum.splits)
  show ?thesis
    unfolding markPending_def wp_errS writeSync_def wp_try wp_ret
    by (rule wp_openTrunc) (use assms staged_before[OF linked_old_staged[OF assms]] step[OF new] step[OF old] in \<open>auto simp: linked_old_staged staged_before\<close>)
qed

section \<open>The theorem\<close>

definition atomic :: "prims \<Rightarrow> string \<Rightarrow> bytes option \<Rightarrow> bytes \<Rightarrow> hash \<Rightarrow> 'z fsys_scheme \<Rightarrow> bool" where
  "atomic P path c0 data want s \<longleftrightarrow> content s path = c0 \<or> content s path = Some data \<and> HashBytes P data = want"

definition installed :: "prims \<Rightarrow> string \<Rightarrow> bytes option \<Rightarrow> bytes \<Rightarrow> hash \<Rightarrow> 'z fsys_scheme \<Rightarrow> bool" where
  "installed P path c0 data want s \<longleftrightarrow> content s path = Some data \<and> HashBytes P data = want \<and>
     content s (PendingPath path) = Some (to_bytes (Hash_String want)) \<and>
     content s (OldPath path) = c0"

lemma before_atomic: "before path c0 s \<Longrightarrow> atomic P path c0 data want s"
  by (simp add: before_def atomic_def)

lemma installed_atomic: "installed P path c0 data want s \<Longrightarrow> atomic P path c0 data want s"
  by (simp add: installed_def atomic_def)

lemma installed_ticked [simp]: "installed P path c0 data want (ticked s) = installed P path c0 data want s"
  by (simp add: installed_def)

lemma marked_rename:
  assumes "marked path c0 tmp i data k (to_bytes (Hash_String want)) s" "HashBytes P data = want"
  shows "installed P path c0 data want ((ticked s)\<lparr>fs_name := (fs_name s)(path := Some i, tmp := None)\<rparr>)"
proof -
  have *: "tmp \<noteq> path" "tmp \<noteq> OldPath path" "tmp \<noteq> PendingPath path" "i_data (fs_node s i) = data"
    "fs_name s (PendingPath path) = Some k" "i_data (fs_node s k) = to_bytes (Hash_String want)"
    "content s path = c0" "fs_name s (OldPath path) = fs_name s path"
    using assms(1) by (auto simp: marked_def linked_old_def staged_def before_def)
  then show ?thesis using assms(2) by (auto simp: installed_def content_def)
qed

lemma wp_Install:
  fixes s :: "'z fsys_scheme"
  assumes "before path c0 s"
  shows "wp (Install P path data want)
    (\<lambda>r s. (r = Inr () \<longrightarrow> installed P path c0 data want s) \<and> atomic P path c0 data want s)
    (atomic P path c0 data want) s"
proof -
  define Q where "Q = (\<lambda>r (s :: 'z fsys_scheme). (r = (Inr () :: rerror + unit) \<longrightarrow> installed P path c0 data want s) \<and> atomic P path c0 data want s)"
  note at = before_atomic[of path c0 _ P data want]
  have undo: "wp (seqS (sys_remove tmp) (retS (Inl e))) Q (atomic P path c0 data want) s"
    if "staged path c0 tmp i data s" for tmp i e and s :: "'z fsys_scheme"
  proof -
    have "tmp \<noteq> path" using that by (simp add: staged_def)
    then show ?thesis unfolding wp_seq wp_ret
      by (rule wp_mono[OF wp_remove_before[OF _ staged_before[OF that]]]) (auto simp: Q_def at)
  qed
  have undo2: "wp (seqS (sys_remove tmp) (seqS (sys_remove (PendingPath path)) (retS (Inl e)))) Q (atomic P path c0 data want) s"
    if "staged path c0 tmp i data s" for tmp i e and s :: "'z fsys_scheme"
  proof -
    have "tmp \<noteq> path" using that by (simp add: staged_def)
    then show ?thesis unfolding wp_seq wp_ret
      by (rule wp_mono[OF wp_remove_before[OF _ staged_before[OF that]]])
         (auto simp: at intro!: wp_mono[OF wp_remove_before[of "PendingPath path" path c0]] simp: Q_def)
  qed
  have sync: "wp syncDir Q (atomic P path c0 data want) s" if "installed P path c0 data want s" for s :: "'z fsys_scheme"
    by (rule wp_syncDir[where I = "installed P path c0 data want"]) (use that in \<open>auto simp: Q_def installed_atomic\<close>)
  have rename: "wp (bindS (sys_rename tmp path) (\<lambda>r. case r of
           Inl e \<Rightarrow> seqS (sys_remove tmp) (seqS (sys_remove (PendingPath path)) (retS (Inl (RelErr ''install''))))
         | Inr _ \<Rightarrow> syncDir)) Q (atomic P path c0 data want) s"
    if m: "marked path c0 tmp i data k (to_bytes (Hash_String want)) s" and h: "HashBytes P data = want"
    for tmp i k and s :: "'z fsys_scheme"
  proof -
    have st: "staged path c0 tmp i data s" using marked_linked[OF m] by (rule linked_old_staged)
    then have i: "fs_name s tmp = Some i" "fs_name s path \<noteq> Some i" by (auto simp: staged_def)
    have st': "staged path c0 tmp i data (ticked s)" using st by simp
    show ?thesis unfolding wp_bind
      by (rule wp_rename)
         (use i undo2[OF st'] sync[OF marked_rename[OF m h]] at[OF staged_before[OF st']] in \<open>auto simp del: wp_seq\<close>)
  qed
  have pend: "wp (bindS (markPending path want) (\<lambda>r. case r of
         Inl e \<Rightarrow> seqS (sys_remove tmp) (retS (Inl e))
       | Inr _ \<Rightarrow> bindS (sys_rename tmp path) (\<lambda>r. case r of
           Inl e \<Rightarrow> seqS (sys_remove tmp) (seqS (sys_remove (PendingPath path)) (retS (Inl (RelErr ''install''))))
         | Inr _ \<Rightarrow> syncDir))) Q (atomic P path c0 data want) s"
    if l: "linked_old path c0 tmp i data s" and h: "HashBytes P data = want" for tmp i and s :: "'z fsys_scheme"
    unfolding wp_bind[of "markPending path want"]
    by (rule wp_mono[OF wp_markPending[OF l]])
       (use undo rename[OF _ h] at in \<open>auto split: sum.splits simp del: wp_bind wp_seq\<close>)
  show ?thesis
    unfolding Install_def Q_def[symmetric] wp_try
  proof (rule wp_mono[OF wp_inst_stage[OF assms, of P data want]])
    fix r and s' :: "'z fsys_scheme"
    assume post: "stage_post P path c0 data want r s'"
    show "(case r of Inl e \<Rightarrow> Q (Inl e) | Inr tmp \<Rightarrow> wp (bindS (linkOld path) (\<lambda>r. case r of
       Inl e \<Rightarrow> seqS (sys_remove tmp) (retS (Inl e))
     | Inr _ \<Rightarrow>
       bindS (markPending path want) (\<lambda>r. case r of
         Inl e \<Rightarrow> seqS (sys_remove tmp) (retS (Inl e))
       | Inr _ \<Rightarrow>
         bindS (sys_rename tmp path) (\<lambda>r. case r of
           Inl e \<Rightarrow> seqS (sys_remove tmp) (seqS (sys_remove (PendingPath path)) (retS (Inl (RelErr ''install''))))
         | Inr _ \<Rightarrow> syncDir)))) Q (atomic P path c0 data want)) s'"
    proof (cases r)
      case (Inl e)
      then show ?thesis using post at by (simp add: Q_def)
    next
      case (Inr tmp)
      then obtain i where st: "staged path c0 tmp i data s'" and h: "HashBytes P data = want" using post by auto
      show ?thesis unfolding Inr sum.case wp_bind[of "linkOld path"]
        by (rule wp_mono[OF wp_linkOld[OF st]])
           (use undo pend[OF _ h] at in \<open>auto simp: link_post_def split: sum.splits simp del: wp_bind wp_seq\<close>)
    qed
  qed (rule at)
qed

section \<open>Revert\<close>

text \<open>With \<open>c1\<close> kept at \<open>.old\<close>, a revert ends with \<open>c1\<close> at the path and no marker; a crash or a failure
  leaves the path with what it had or with \<open>c1\<close>.\<close>

lemma wp_Revert:
  fixes s :: "'z fsys_scheme"
  assumes "content s path = c0" "content s (OldPath path) = Some c1"
  shows "wp (Revert path)
    (\<lambda>r s. (r = Inr () \<longrightarrow> content s path = Some c1 \<and> fs_name s (PendingPath path) = None) \<and>
           (content s path = c0 \<or> content s path = Some c1))
    (\<lambda>s. content s path = c0 \<or> content s path = Some c1) s"
proof -
  define Q where "Q = (\<lambda>r (s :: 'z fsys_scheme). (r = (Inr () :: rerror + unit) \<longrightarrow> content s path = Some c1 \<and> fs_name s (PendingPath path) = None) \<and>
     (content s path = c0 \<or> content s path = Some c1))"
  define C where "C = (\<lambda>s :: 'z fsys_scheme. content s path = c0 \<or> content s path = Some c1)"
  have sync: "wp syncDir Q C s" if "content s path = Some c1 \<and> fs_name s (PendingPath path) = None" for s :: "'z fsys_scheme"
    by (rule wp_syncDir[where I = "\<lambda>s. content s path = Some c1 \<and> fs_name s (PendingPath path) = None"])
       (use that in \<open>auto simp: Q_def C_def\<close>)
  have rest: "wp (errS_noent ''revert'' (sys_remove (PendingPath path)) syncDir) Q C s"
    if "content s path = Some c1" for s :: "'z fsys_scheme"
  proof -
    have gone: "content ((ticked s)\<lparr>fs_name := (fs_name s)(PendingPath path := None)\<rparr>) path = Some c1"
      using that by (simp add: content_def)
    show ?thesis unfolding wp_errS_noent
      by (rule wp_remove) (use that sync[of "ticked s"] sync[OF conjI[OF gone]] in \<open>auto simp: Q_def C_def\<close>)
  qed
  obtain j where j: "fs_name s (OldPath path) = Some j" "i_data (fs_node s j) = c1"
    using assms(2) by (auto simp: content_def)
  have same: "content (ticked s) path = Some c1" if "fs_name s path = Some j" using that j by (simp add: content_def)
  have moved: "content ((ticked s)\<lparr>fs_name := (fs_name s)(path := Some j, OldPath path := None)\<rparr>) path = Some c1"
    using j by (simp add: content_def)
  show ?thesis
    unfolding Revert_def Let_def Q_def[symmetric] C_def[symmetric] wp_bind[of "sys_rename (OldPath path) path"]
    by (rule wp_rename) (use assms(1) j rest[OF same] rest[OF moved] in \<open>auto simp: Q_def C_def simp del: wp_errS_noent\<close>)
qed

text \<open>With neither, there is nothing to revert and nothing changes.\<close>

lemma wp_Revert_nothing:
  assumes "fs_name s (OldPath path) = None" "fs_name s (PendingPath path) = None"
  shows "wp (Revert path) (\<lambda>r s'. r \<noteq> Inr () \<and> fs_name s' = fs_name s \<and> fs_node s' = fs_node s)
    (\<lambda>s'. fs_name s' = fs_name s \<and> fs_node s' = fs_node s) s"
  unfolding Revert_def Let_def wp_bind
  by (rule wp_rename) (use assms in \<open>auto intro!: wp_stat split: errno.splits\<close>)

section \<open>Markers\<close>

lemma hex_digit_no_space: "\<not> is_space (hex_digit n)"
proof -
  have "\<forall>n \<in> set [0..<16]. \<not> is_space (hex_digit n)" by code_simp
  moreover have "hex_digit n = hex_digit (n mod 16)" by (simp add: hex_digit_def)
  ultimately show ?thesis by simp
qed

lemma prefix_no_space: "\<not> is_space (CHR ''b'') \<and> \<not> is_space (CHR ''3'') \<and> \<not> is_space (CHR '':'')"
  by code_simp

lemma Hash_String_no_space: "list_all (\<lambda>c. \<not> is_space c) (Hash_String h)"
  using prefix_no_space by (auto simp: Hash_String_def hex_encode_def list_all_iff hex_digit_no_space)

lemma ParseHash_marker:
  "length h = 32 \<Longrightarrow> ParseHash (TrimSpace (Hash_String h)) = Inr h"
  by (simp add: TrimSpace_id[OF Hash_String_no_space] ParseHash_String)

lemma wp_Pending:
  assumes "content s (PendingPath path) = Some (to_bytes (Hash_String h))" "length h = 32"
  shows "wp (Pending path) (\<lambda>r s'. (r = (h, True, None) \<or> r = (zeroHash, False, Some (RelErr ''pending marker''))) \<and>
      fs_name s' = fs_name s \<and> fs_node s' = fs_node s)
    (\<lambda>s'. fs_name s' = fs_name s \<and> fs_node s' = fs_node s) s"
  unfolding Pending_def wp_bind
  by (rule wp_readFile) (use assms in \<open>auto simp: content_def ParseHash_marker split: errno.splits\<close>)

lemma wp_Failed:
  assumes "content s (failedPath path) = Some (to_bytes (Hash_String h))" "length h = 32" "\<not> IsZero h"
  shows "wp (Failed path) (\<lambda>r s'. (r = Some h \<or> r = None) \<and> fs_name s' = fs_name s \<and> fs_node s' = fs_node s)
    (\<lambda>s'. fs_name s' = fs_name s \<and> fs_node s' = fs_node s) s"
  unfolding Failed_def wp_bind
  by (rule wp_readFile) (use assms in \<open>auto simp: content_def ParseHash_marker\<close>)

text \<open>Writing a marker in a file of its own leaves every other file alone.\<close>

definition own :: "'z fsys_scheme \<Rightarrow> string \<Rightarrow> bool" where
  "own s p \<longleftrightarrow> (\<forall>i q. fs_name s p = Some i \<longrightarrow> fs_name s q = Some i \<longrightarrow> q = p)"

definition marker_at :: "(string \<Rightarrow> bytes option) \<Rightarrow> string \<Rightarrow> bytes option \<Rightarrow> 'z fsys_scheme \<Rightarrow> bool" where
  "marker_at cs p m s \<longleftrightarrow> fs_wf s \<and> own s p \<and> (\<forall>q. q \<noteq> p \<longrightarrow> content s q = cs q) \<and> (\<forall>d. m = Some d \<longrightarrow> content s p = Some d)"

lemma marker_at_ticked [simp]: "marker_at cs p m (ticked s) = marker_at cs p m s"
  by (simp add: marker_at_def own_def)

lemma marker_at_weaken: "marker_at cs p m s \<Longrightarrow> marker_at cs p None s"
  by (simp add: marker_at_def)

lemma marker_at_new:
  "marker_at cs p m s \<Longrightarrow> marker_at cs p (Some []) (new_inode p mode (ticked s))"
  unfolding marker_at_def own_def
  by (auto simp: content_new_inode fs_wf_new_inode) (auto simp: fs_wf_def)

lemma marker_at_update:
  assumes "marker_at cs p m s" "fs_name s p = Some i" "s' = (ticked s)\<lparr>fs_node := (fs_node s)(i := v)\<rparr>"
  shows "marker_at cs p (Some (i_data v)) s'"
proof -
  have iff: "fs_name s q = Some i \<longleftrightarrow> q = p" for q using assms(1,2) unfolding marker_at_def own_def by metis
  have "content s' q = (if q = p then Some (i_data v) else content s q)" for q
    using content_update[of "ticked s" i v q] iff[of q] by (simp add: assms(3))
  moreover have "fs_name s' = fs_name s" "fs_next s' = fs_next s" by (simp_all add: assms(3))
  ultimately show ?thesis using assms(1) by (simp add: marker_at_def own_def fs_wf_def)
qed

lemma wp_writeSync:
  fixes s :: "'z fsys_scheme"
  assumes "marker_at cs p m s"
  shows "wp (writeSync p data perm) (\<lambda>r. if r = Inr () then marker_at cs p (Some data) else marker_at cs p None) (marker_at cs p None) s"
proof -
  define Q where "Q = (\<lambda>r. if r = (Inr () :: errno + unit) then marker_at cs p (Some data) else (marker_at cs p None :: 'z fsys_scheme \<Rightarrow> bool))"
  have Q: "marker_at cs p (Some data) s \<Longrightarrow> Q r s" "marker_at cs p None s \<Longrightarrow> Q (Inl e) s" for r e and s :: "'z fsys_scheme"
    by (auto simp: Q_def dest: marker_at_weaken)
  have w: "marker_at cs p (Some d) (node_write i d (ticked s))"
    if "marker_at cs p (Some []) s" "fs_name s p = Some i" for d i and s :: "'z fsys_scheme"
  proof -
    have e: "i_data (fs_node s i) = []" using that by (simp add: marker_at_def content_def)
    show ?thesis
      using marker_at_update[OF that refl, of "(fs_node s i)\<lparr>i_data := d, i_mtime := fs_now (ticked s) (fs_tick (ticked s))\<rparr>"]
      by (simp add: node_write_def e)
  qed
  have tail: "wp (closeS (tryS (sys_write i data) (\<lambda>_. sys_nop))) Q (marker_at cs p None) s"
    if "marker_at cs p (Some []) s" "fs_name s p = Some i" for i and s :: "'z fsys_scheme"
  proof (rule wp_closeS, unfold wp_try, rule wp_write)
    note w = w[OF that]
    note wn = w[THEN marker_at_weaken]
    have "wp sys_nop (\<lambda>r s. marker_at cs p None (ticked s) \<and> (\<forall>e. r = Inl e \<longrightarrow> Q (Inl e) (ticked s)) \<and> (r = Inr () \<longrightarrow> (\<forall>r'. Q r' (ticked s))))
        (marker_at cs p None) (node_write i data (ticked s))"
      by (rule wp_nop) (use w[of data] wn[of data] in \<open>auto intro: Q\<close>)
    then show "(case Inr () of Inl e \<Rightarrow> (\<lambda>s. marker_at cs p None (ticked s) \<and> (\<forall>e'. Inl e = Inl e' \<longrightarrow> Q (Inl e') (ticked s)) \<and>
         (Inl e = Inr () \<longrightarrow> (\<forall>r'. Q r' (ticked s))))
       | Inr x \<Rightarrow> wp sys_nop (\<lambda>r s. marker_at cs p None (ticked s) \<and>
         (\<forall>e. r = Inl e \<longrightarrow> Q (Inl e) (ticked s)) \<and> (r = Inr () \<longrightarrow> (\<forall>r'. Q r' (ticked s)))) (marker_at cs p None))
       (node_write i data (ticked s))" by simp
  qed (use w[OF that, THEN marker_at_weaken] Q(2) in auto)
  have n: "fs_name s p = None \<Longrightarrow> wp (closeS (tryS (sys_write (fs_next s) data) (\<lambda>_. sys_nop))) Q (marker_at cs p None) (new_inode p perm (ticked s))"
    by (rule tail[OF marker_at_new[OF assms]]) simp
  have o: "fs_name s p = Some i \<Longrightarrow> wp (closeS (tryS (sys_write i data) (\<lambda>_. sys_nop))) Q (marker_at cs p None)
      ((ticked s)\<lparr>fs_node := (fs_node s)(i := (fs_node s i)\<lparr>i_data := [], i_mtime := x\<rparr>)\<rparr>)" for i x
    using marker_at_update[OF assms _ refl, of i "(fs_node s i)\<lparr>i_data := [], i_mtime := x\<rparr>"] by (intro tail) auto
  show ?thesis
    unfolding writeSync_def Q_def[symmetric] wp_try
    by (rule wp_openTrunc) (use assms n o marker_at_weaken[OF assms] in \<open>auto simp: Q(2)\<close>)
qed

lemma wp_MarkFailed:
  assumes "marker_at cs (failedPath path) m s"
  shows "wp (MarkFailed path h)
    (\<lambda>r. if r = Inr () then marker_at cs (failedPath path) (Some (to_bytes (Hash_String h))) else marker_at cs (failedPath path) None)
    (marker_at cs (failedPath path) None) s"
proof -
  have t: "marker_at cs (failedPath path) m (ticked s)" using assms by simp
  show ?thesis
    unfolding MarkFailed_def wp_errS wp_ret
    by (rule wp_nop)
       (use assms in \<open>auto split: sum.splits dest: marker_at_weaken intro!: wp_mono[OF wp_writeSync[OF t]]\<close>)
qed

end
