(* ===== verification/HashCache.thy ===== *)
theory HashCache
  imports Install
begin

text \<open>
  \<^verbatim>\<open>release/hashcache.go\<close>: the hash of the installed binary, cached in a file keyed by the
  identity the file had when it was hashed.
\<close>

section \<open>Decimal text\<close>

fun dec :: "nat \<Rightarrow> string" where
  "dec n = (if n < 10 then [char_of (48 + n)] else dec (n div 10) @ [char_of (48 + n mod 10)])"

declare dec.simps [simp del]

definition dec_int :: "int \<Rightarrow> string" where
  "dec_int i = (if i < 0 then CHR ''-'' # dec (nat (- i)) else dec (nat i))"

definition digit_val :: "char \<Rightarrow> nat option" where
  "digit_val c = (let n = of_char c :: nat in if 48 \<le> n \<and> n \<le> 57 then Some (n - 48) else None)"

fun scan_digits :: "nat \<Rightarrow> string \<Rightarrow> nat option" where
  "scan_digits acc [] = Some acc"
| "scan_digits acc (c # s) = (case digit_val c of None \<Rightarrow> None | Some d \<Rightarrow> scan_digits (acc * 10 + d) s)"

definition scan_nat :: "string \<Rightarrow> nat option" where
  "scan_nat s = (if s = [] then None else scan_digits 0 s)"

definition scan_int :: "string \<Rightarrow> int option" where
  "scan_int s =
     (if s \<noteq> [] \<and> hd s = CHR ''-'' then map_option (\<lambda>n. - int n) (scan_nat (tl s))
      else if s \<noteq> [] \<and> hd s = CHR ''+'' then map_option int (scan_nat (tl s))
      else map_option int (scan_nat s))"

definition fits_int64 :: "int \<Rightarrow> bool" where
  "fits_int64 i \<longleftrightarrow> - (2 ^ 63) \<le> i \<and> i < 2 ^ 63"

text \<open>The space-separated fields \<^verbatim>\<open>fmt.Sscanf\<close> reads; a missing field is an error.\<close>

definition next_field :: "string \<Rightarrow> string \<times> string" where
  "next_field s = (let t = dropWhile (\<lambda>c. is_space c \<and> c \<noteq> char_of (10 :: nat)) s in
     (takeWhile (\<lambda>c. \<not> is_space c) t, dropWhile (\<lambda>c. \<not> is_space c) t))"

fun scan_fields :: "nat \<Rightarrow> string \<Rightarrow> string list option" where
  "scan_fields 0 s = Some []"
| "scan_fields (Suc k) s = (case next_field s of (t, r) \<Rightarrow>
     if t = [] then None else map_option (\<lambda>ts. t # ts) (scan_fields k r))"

section \<open>The cache\<close>

record fileID =
  id_dev :: nat
  id_ino :: nat
  id_size :: int
  id_mtimeNS :: int

definition statID :: "nat \<Rightarrow> nat \<times> inode \<Rightarrow> fileID" where
  "statID dev st = \<lparr>id_dev = dev, id_ino = fst st, id_size = int (length (i_data (snd st))), id_mtimeNS = i_mtime (snd st)\<rparr>"

definition hashPath :: "string \<Rightarrow> string" where
  "hashPath path = StateDir path @ ''/hash''"

definition parse_cache :: "bytes \<Rightarrow> fileID \<Rightarrow> hash option" where
  "parse_cache b want = (case scan_fields 5 (of_bytes b) of
     Some [a, i, z, m, hs] \<Rightarrow>
       (case (scan_nat a, scan_nat i, scan_int z, scan_int m) of
          (Some a', Some i', Some z', Some m') \<Rightarrow>
            if 2 ^ 64 \<le> a' \<or> 2 ^ 64 \<le> i' \<or> \<not> fits_int64 z' \<or> \<not> fits_int64 m' then None
            else if \<lparr>id_dev = a', id_ino = i', id_size = z', id_mtimeNS = m'\<rparr> \<noteq> want then None
            else (case ParseHash hs of Inl e \<Rightarrow> None | Inr h \<Rightarrow> if IsZero h then None else Some h)
        | _ \<Rightarrow> None)
   | _ \<Rightarrow> None)"

definition readHashCache :: "string \<Rightarrow> fileID \<Rightarrow> (hash option, 'z) sys" where
  "readHashCache p want = bindS (sys_readFile p) (\<lambda>r. case r of
     Inl e \<Rightarrow> retS None | Inr b \<Rightarrow> retS (parse_cache b want))"

definition cache_line :: "fileID \<Rightarrow> hash \<Rightarrow> string" where
  "cache_line i h = dec (id_dev i) @ '' '' @ dec (id_ino i) @ '' '' @ dec_int (id_size i) @ '' '' @ dec_int (id_mtimeNS i) @ '' '' @
     Hash_String h @ [char_of (10 :: nat)]"

definition writeHashCache :: "string \<Rightarrow> fileID \<Rightarrow> hash \<Rightarrow> (unit, 'z) sys" where
  "writeHashCache p i h =
     bindS sys_nop (\<lambda>r. case r of Inl e \<Rightarrow> retS ()
     | Inr _ \<Rightarrow> bindS (tryS (sys_openTrunc p 420) (\<lambda>n. closeS (sys_write n (to_bytes (cache_line i h))))) (\<lambda>_. retS ()))"

definition HashFile :: "prims \<Rightarrow> string \<Rightarrow> (errno + hash, 'z) sys" where
  "HashFile P p = tryS (sys_readFile p) (\<lambda>b. retS (Inr (HashBytes P b)))"

definition CachedHash :: "prims \<Rightarrow> nat \<Rightarrow> string \<Rightarrow> (errno + hash, 'z) sys" where
  "CachedHash P dev path =
     tryS (sys_stat path) (\<lambda>st.
     bindS (readHashCache (hashPath path) (statID dev st)) (\<lambda>c. case c of
       Some h \<Rightarrow> retS (Inr h)
     | None \<Rightarrow>
       tryS (HashFile P path) (\<lambda>h.
       bindS (sys_stat path) (\<lambda>after. case after of
         Inr st2 \<Rightarrow> if statID dev st2 = statID dev st
                    then seqS (writeHashCache (hashPath path) (statID dev st) h) (retS (Inr h))
                    else retS (Inr h)
       | Inl e \<Rightarrow> retS (Inr h)))))"

section \<open>A cache line reads back, and a torn one reads as nothing\<close>

lemma digit_val_char: "d < 10 \<Longrightarrow> digit_val (char_of (48 + d)) = Some d"
  by (simp add: digit_val_def)

lemma scan_digits_append: "scan_digits acc s = Some v \<Longrightarrow> scan_digits acc (s @ t) = scan_digits v t"
  by (induction s arbitrary: acc) (auto split: option.splits)

lemma dec_nonempty [simp]: "dec n \<noteq> []"
  by (simp add: dec.simps[of n])

lemma scan_digits_dec: "scan_digits 0 (dec n) = Some n"
proof (induction n rule: dec.induct)
  case (1 n)
  show ?case
  proof (cases "n < 10")
    case True
    then show ?thesis by (simp add: dec.simps[of n] digit_val_char)
  next
    case False
    then have "scan_digits 0 (dec n) = scan_digits (n div 10) [char_of (48 + n mod 10)]"
      using 1 by (simp add: dec.simps[of n] scan_digits_append)
    then show ?thesis by (simp add: digit_val_char)
  qed
qed

lemma scan_nat_dec: "scan_nat (dec n) = Some n"
  by (simp add: scan_nat_def scan_digits_dec)

lemma dec_digits: "list_all (\<lambda>c. digit_val c \<noteq> None) (dec n)"
proof (induction n rule: dec.induct)
  case (1 n)
  then show ?case by (subst dec.simps) (simp add: digit_val_char)
qed

lemma digit_no_space: "digit_val c \<noteq> None \<Longrightarrow> \<not> is_space c \<and> c \<noteq> CHR ''-'' \<and> c \<noteq> CHR ''+''"
  by (auto simp: digit_val_def is_space_def Let_def split: if_splits)

lemma dec_no_space: "list_all (\<lambda>c. \<not> is_space c) (dec n)"
  using dec_digits[of n] digit_no_space unfolding list_all_iff by blast

lemma minus_no_space: "\<not> is_space (CHR ''-'')"
  by code_simp

lemma dec_int_no_space: "list_all (\<lambda>c. \<not> is_space c) (dec_int i)"
  using dec_no_space minus_no_space by (simp add: dec_int_def)

lemma dec_int_nonempty [simp]: "dec_int i \<noteq> []"
  by (simp add: dec_int_def)

lemma scan_int_dec: "scan_int (dec_int i) = Some i"
proof (cases "i < 0")
  case True
  then show ?thesis by (simp add: dec_int_def scan_int_def scan_nat_dec)
next
  case False
  obtain c s where c: "dec (nat i) = c # s" by (cases "dec (nat i)") auto
  have "c \<noteq> CHR ''-'' \<and> c \<noteq> CHR ''+''" using dec_digits[of "nat i"] digit_no_space[of c] by (simp add: c)
  then have "scan_int (c # s) = map_option int (scan_nat (c # s))"
    by (simp add: scan_int_def)
  then show ?thesis using False scan_nat_dec[of "nat i"] by (simp add: dec_int_def c)
qed

definition field_ok :: "string \<Rightarrow> bool" where
  "field_ok t \<longleftrightarrow> t \<noteq> [] \<and> list_all (\<lambda>c. \<not> is_space c) t"

lemma space_is_space: "is_space (CHR '' '') \<and> CHR '' '' \<noteq> char_of (10 :: nat)"
  by code_simp

lemma next_field_nosp:
  assumes "list_all (\<lambda>c. \<not> is_space c) t" "t \<noteq> []" "r = [] \<or> (\<exists>c r'. r = c # r' \<and> is_space c)"
  shows "next_field (t @ r) = (t, r)" "next_field (CHR '' '' # t @ r) = (t, r)"
proof -
  have tw: "takeWhile (\<lambda>c. \<not> is_space c) (t @ r) = t" "dropWhile (\<lambda>c. \<not> is_space c) (t @ r) = r"
    using assms by (auto simp: list_all_iff takeWhile_append dropWhile_append)
  have "dropWhile (\<lambda>c. is_space c \<and> c \<noteq> char_of (10 :: nat)) (t @ r) = t @ r" using assms(1,2) space_is_space by (cases t) auto
  then show "next_field (t @ r) = (t, r)" "next_field (CHR '' '' # t @ r) = (t, r)"
    using tw space_is_space by (simp_all add: next_field_def)
qed

lemma scan_fields_cons: "scan_fields k (CHR '' '' # s) = scan_fields k s"
proof (cases k)
  case (Suc j)
  have "next_field (CHR '' '' # s) = next_field s" using space_is_space by (simp add: next_field_def)
  then show ?thesis by (simp add: Suc)
qed simp

lemma scan_fields_nil: "scan_fields (Suc k) [] = None"
  by (simp add: next_field_def)

lemma nl_is_space: "is_space (char_of (10 :: nat))"
  by code_simp

lemma list_all_take: "list_all p xs \<Longrightarrow> list_all p (take n xs)"
  by (auto simp: list_all_iff dest: in_set_takeD)

text \<open>A prefix of a line has the line's fields, the last one possibly cut, or too few.\<close>

lemma scan_fields_torn:
  assumes "list_all field_ok ts" "list_all (\<lambda>c. \<not> is_space c) H"
    and "scan_fields (Suc (length ts)) (take n (concat (map (\<lambda>t. t @ '' '') ts) @ H @ [char_of (10 :: nat)])) = Some us"
  shows "\<exists>k. us = ts @ [take k H]"
  using assms(1,3)
proof (induction ts arbitrary: n us)
  case Nil
  define r where "r = take (n - length H) [char_of (10 :: nat)]"
  have s: "take n (H @ [char_of (10 :: nat)]) = take n H @ r" by (simp add: r_def)
  have "take n H \<noteq> []"
  proof
    assume e: "take n H = []"
    have "fst (next_field r) = []" using nl_is_space by (cases "n - length H") (auto simp: r_def next_field_def)
    then show False using Nil.prems(2) s e by (auto split: prod.splits)
  qed
  moreover have "r = [] \<or> (\<exists>c r'. r = c # r' \<and> is_space c)" using nl_is_space by (cases "n - length H") (auto simp: r_def)
  ultimately have "next_field (take n H @ r) = (take n H, r)"
    using next_field_nosp(1) list_all_take[OF assms(2)] by blast
  then show ?case using Nil.prems(2) s by (auto split: if_splits)
next
  case (Cons t ts)
  define rest where "rest = concat (map (\<lambda>t. t @ '' '') ts) @ H @ [char_of (10 :: nat)]"
  have t: "t \<noteq> []" "list_all (\<lambda>c. \<not> is_space c) t" "list_all field_ok ts"
    using Cons.prems(1) by (simp_all add: field_ok_def[of t])
  have line: "concat (map (\<lambda>t. t @ '' '') (t # ts)) @ H @ [char_of (10 :: nat)] = t @ CHR '' '' # rest" by (simp add: rest_def)
  show ?case
  proof (cases "n \<le> length t")
    case True
    then have "take n (t @ CHR '' '' # rest) = take n t" by simp
    moreover have "scan_fields (Suc (Suc (length ts))) (take n t) = None"
    proof (cases "take n t = []")
      case False
      then have "next_field (take n t) = (take n t, [])" using next_field_nosp(1)[of "take n t" "[]"] list_all_take[OF t(2)] by simp
      then show ?thesis using scan_fields_nil by simp
    qed (auto simp: next_field_def)
    ultimately show ?thesis using Cons.prems(2) line by simp
  next
    case False
    then obtain m where m: "n = length t + Suc m" by (metis add_Suc_right less_imp_Suc_add not_le)
    then have "take n (t @ CHR '' '' # rest) = t @ CHR '' '' # take m rest" by simp
    moreover have "next_field (t @ CHR '' '' # take m rest) = (t, CHR '' '' # take m rest)"
      using next_field_nosp(1)[OF t(2,1), of "CHR '' '' # take m rest"] space_is_space by auto
    ultimately have "map_option (\<lambda>ts. t # ts) (scan_fields (Suc (length ts)) (take m rest)) = Some us"
      using Cons.prems(2) line t(1) scan_fields_cons[of "Suc (length ts)" "take m rest"] by (simp del: scan_fields.simps(2) add: scan_fields.simps(2)[of "Suc (length ts)"])
    then obtain vs where "scan_fields (Suc (length ts)) (take m rest) = Some vs" "us = t # vs" by auto
    then show ?thesis using Cons.IH[OF t(3), of m vs] by (auto simp: rest_def)
  qed
qed

lemma hex_decode_length: "hex_decode s = Some b \<Longrightarrow> length s = 2 * length b"
  by (induction s arbitrary: b rule: hex_decode.induct) (auto split: option.splits)

lemma length_hex_encode: "length (hex_encode b) = 2 * length b"
  by (induction b) (simp_all add: hex_encode_def)

lemma ParseHash_torn:
  assumes "ParseHash (take k (Hash_String h)) = Inr h'" "\<not> IsZero h'" "length h = 32"
  shows "h' = h"
proof -
  have "take k (Hash_String h) \<noteq> []"
  proof (rule notI)
    assume "take k (Hash_String h) = []"
    then have "ParseHash [] = Inr h'" using assms(1) by (simp only:)
    then show False using assms(2) by (simp add: ParseHash_def IsZero_def)
  qed
  moreover from this obtain b where "hex_decode (drop 3 (take k (Hash_String h))) = Some b" "length b = 32"
    using assms(1) by (auto simp: ParseHash_def split: if_splits option.splits)
  ultimately have "64 + 3 \<le> length (take k (Hash_String h))" using hex_decode_length by fastforce
  moreover have "length (Hash_String h) \<le> 67" using assms(3) by (simp add: Hash_String_def length_hex_encode)
  ultimately have "take k (Hash_String h) = Hash_String h" by simp
  then show ?thesis using assms(1,3) ParseHash_String by simp
qed

lemma parse_cache_torn:
  assumes "parse_cache (to_bytes (take n (cache_line i h))) want = Some h'" "length h = 32"
  shows "want = i \<and> h' = h"
proof -
  have eta: "\<lparr>id_dev = id_dev i, id_ino = id_ino i, id_size = id_size i, id_mtimeNS = id_mtimeNS i\<rparr> = i" by (cases i) simp
  define ts where "ts = [dec (id_dev i), dec (id_ino i), dec_int (id_size i), dec_int (id_mtimeNS i)]"
  have ok: "list_all field_ok ts" using dec_no_space dec_int_no_space by (simp add: ts_def field_ok_def)
  have line: "cache_line i h = concat (map (\<lambda>t. t @ '' '') ts) @ Hash_String h @ [char_of (10 :: nat)]"
    by (simp add: cache_line_def ts_def)
  obtain us where us: "scan_fields (Suc (length ts)) (take n (cache_line i h)) = Some us"
    using assms(1) by (auto simp: parse_cache_def ts_def eval_nat_numeral split: option.splits)
  then obtain k where k: "us = ts @ [take k (Hash_String h)]"
    using scan_fields_torn[OF ok Hash_String_no_space, of n h us] by (auto simp: line)
  have "scan_fields 5 (take n (cache_line i h)) = Some us" using us by (simp add: ts_def eval_nat_numeral)
  then have "i = want \<and> (case ParseHash (take k (Hash_String h)) of Inl e \<Rightarrow> None | Inr h \<Rightarrow> if IsZero h then None else Some h) = Some h'"
    using assms(1) by (simp add: parse_cache_def k ts_def scan_nat_dec scan_int_dec eta split: if_splits)
  then show ?thesis using ParseHash_torn[OF _ _ assms(2)] by (auto split: if_splits sum.splits)
qed


section \<open>The cached hash is the file's hash\<close>

text \<open>
  The cache vouches for the path when a hash it gives for the file now there is that file's.  It
  does so when empty, and every write keeps it so, finished or not.
\<close>

definition vouches :: "prims \<Rightarrow> nat \<Rightarrow> string \<Rightarrow> nat \<Rightarrow> inode \<Rightarrow> bytes option \<Rightarrow> bool" where
  "vouches P dev path i nd c \<longleftrightarrow>
     (\<forall>b h. c = Some b \<longrightarrow> parse_cache b (statID dev (i, nd)) = Some h \<longrightarrow> h = HashBytes P (i_data nd))"

definition cached :: "prims \<Rightarrow> nat \<Rightarrow> string \<Rightarrow> nat \<Rightarrow> inode \<Rightarrow> (string \<Rightarrow> bytes option) \<Rightarrow> 'z fsys_scheme \<Rightarrow> bool" where
  "cached P dev path i nd cs s \<longleftrightarrow> marker_at cs (hashPath path) None s \<and>
     fs_name s path = Some i \<and> fs_node s i = nd \<and> vouches P dev path i nd (content s (hashPath path))"

lemma hashPath_neq [simp]: "hashPath path \<noteq> path"
  by (simp add: hashPath_def StateDir_def)

lemma parse_cache_nil: "parse_cache [] want = None"
  by (simp add: parse_cache_def of_bytes_def eval_nat_numeral next_field_def)

lemma cached_ticked [simp]: "cached P dev path i nd cs (ticked s) = cached P dev path i nd cs s"
  by (simp add: cached_def)

lemma vouches_nil: "vouches P dev path i nd (Some [])"
  by (simp add: vouches_def parse_cache_nil)

lemma vouches_line:
  "prims_ok P \<Longrightarrow> vouches P dev path i nd (Some (take n (to_bytes (cache_line (statID dev (i, nd)) (HashBytes P (i_data nd))))))"
  using parse_cache_torn[of n "statID dev (i, nd)" "HashBytes P (i_data nd)"]
  by (auto simp: vouches_def to_bytes_def take_map HashBytes_def prims_ok_def)

lemma cached_new:
  assumes "cached P dev path i nd cs s" "fs_name s (hashPath path) = None"
  shows "cached P dev path i nd cs (new_inode (hashPath path) mode (ticked s))"
    and "content (new_inode (hashPath path) mode (ticked s)) (hashPath path) = Some []"
proof -
  have m: "marker_at cs (hashPath path) (Some []) (new_inode (hashPath path) mode (ticked s))"
    using assms(1) marker_at_new unfolding cached_def by blast
  then show c: "content (new_inode (hashPath path) mode (ticked s)) (hashPath path) = Some []" by (simp add: marker_at_def)
  have "i < fs_next s" using assms(1) by (auto simp: cached_def marker_at_def fs_wf_def)
  then show "cached P dev path i nd cs (new_inode (hashPath path) mode (ticked s))"
    using assms(1) marker_at_weaken[OF m] c hashPath_neq[of path, THEN not_sym] vouches_nil[of P dev path i nd]
    by (simp add: cached_def)
qed

lemma cached_update:
  assumes "cached P dev path i nd cs s" "fs_name s (hashPath path) = Some k" "s' = (ticked s)\<lparr>fs_node := (fs_node s)(k := v)\<rparr>"
    and "vouches P dev path i nd (Some (i_data v))"
  shows "cached P dev path i nd cs s'" "content s' (hashPath path) = Some (i_data v)"
proof -
  have m: "marker_at cs (hashPath path) (Some (i_data v)) s'"
    using assms(1) marker_at_update[OF _ assms(2,3)] unfolding cached_def by blast
  then show c: "content s' (hashPath path) = Some (i_data v)" by (simp add: marker_at_def)
  have "k \<noteq> i" using assms(1,2) hashPath_neq[of path] unfolding cached_def marker_at_def own_def by metis
  then show "cached P dev path i nd cs s'"
    using assms marker_at_weaken[OF m] c by (simp add: cached_def)
qed

lemma wp_writeHashCache:
  fixes s :: "'z fsys_scheme"
  assumes "prims_ok P" "cached P dev path i nd cs s"
  shows "wp (writeHashCache (hashPath path) (statID dev (i, nd)) (HashBytes P (i_data nd)))
    (\<lambda>_. cached P dev path i nd cs) (cached P dev path i nd cs) s"
proof -
  define line where "line = to_bytes (cache_line (statID dev (i, nd)) (HashBytes P (i_data nd)))"
  have w: "cached P dev path i nd cs (node_write k (take n line) (ticked s))"
    if "cached P dev path i nd cs s" "content s (hashPath path) = Some []" "fs_name s (hashPath path) = Some k"
    for k n and s :: "'z fsys_scheme"
    by (rule cached_update(1)[OF that(1,3)]) (use that(2,3) vouches_line[OF assms(1)] in \<open>auto simp: node_write_def content_def line_def\<close>)
  have tail: "wp (closeS (sys_write k line)) (\<lambda>_. cached P dev path i nd cs) (cached P dev path i nd cs) s"
    if "cached P dev path i nd cs s" "content s (hashPath path) = Some []" "fs_name s (hashPath path) = Some k"
    for k and s :: "'z fsys_scheme"
    by (intro wp_closeS wp_write) (use w[OF that] w[OF that, of "length line"] in auto)
  have t: "cached P dev path i nd cs (ticked s)" using assms(2) by simp
  have n: "wp (closeS (sys_write (fs_next (ticked s)) line)) (\<lambda>_. cached P dev path i nd cs) (cached P dev path i nd cs)
      (new_inode (hashPath path) 420 (ticked (ticked s)))" if "fs_name (ticked s) (hashPath path) = None"
    by (rule tail[OF cached_new[OF t that]]) simp
  have o: "wp (closeS (sys_write k line)) (\<lambda>_. cached P dev path i nd cs) (cached P dev path i nd cs)
      ((ticked (ticked s))\<lparr>fs_node := (fs_node (ticked s))(k := (fs_node (ticked s) k)\<lparr>i_data := [], i_mtime := x\<rparr>)\<rparr>)"
    if "fs_name (ticked s) (hashPath path) = Some k" for k x
    using cached_update[OF t that refl, of "(fs_node (ticked s) k)\<lparr>i_data := [], i_mtime := x\<rparr>"] vouches_nil[of P dev path i nd] that
    by (intro tail) auto
  have "wp (sys_openTrunc (hashPath path) 420)
      (\<lambda>r. case r of Inl e \<Rightarrow> cached P dev path i nd cs
       | Inr k \<Rightarrow> wp (closeS (sys_write k line)) (\<lambda>_. cached P dev path i nd cs) (cached P dev path i nd cs))
      (cached P dev path i nd cs) (ticked s)"
    by (rule wp_openTrunc) (use t n o in auto)
  then show ?thesis
    unfolding writeHashCache_def line_def[symmetric] wp_bind
    by (intro wp_nop) (use assms(2) in \<open>auto split: sum.splits\<close>)
qed

lemma wp_CachedHash:
  fixes s :: "'z fsys_scheme"
  assumes "prims_ok P" "cached P dev path i nd cs s"
  shows "wp (CachedHash P dev path)
    (\<lambda>r s'. cached P dev path i nd cs s' \<and> (\<forall>h. r = Inr h \<longrightarrow> h = HashBytes P (i_data nd))) (cached P dev path i nd cs) s"
proof -
  define C where "C = (cached P dev path i nd cs :: 'z fsys_scheme \<Rightarrow> bool)"
  define Q where "Q = (\<lambda>r s'. C (s' :: 'z fsys_scheme) \<and> (\<forall>h. r = (Inr h :: errno + hash) \<longrightarrow> h = HashBytes P (i_data nd)))"
  have st: "fs_name s path = Some i" "fs_node s i = nd" if "C s" for s :: "'z fsys_scheme" using that by (auto simp: C_def cached_def)
  have QI: "C s \<Longrightarrow> Q (Inl e) s" "C s \<Longrightarrow> Q (Inr (HashBytes P (i_data nd))) s" for e and s :: "'z fsys_scheme"
    by (simp_all add: Q_def C_def)
  have wr: "wp (writeHashCache (hashPath path) (statID dev (i, nd)) (HashBytes P (i_data nd)))
      (\<lambda>_. Q (Inr (HashBytes P (i_data nd)))) C s" if "C s" for s :: "'z fsys_scheme"
    using that unfolding C_def by (rule wp_mono[OF wp_writeHashCache[OF assms(1)]]) (auto simp: Q_def C_def)
  have again: "wp (sys_stat path) (\<lambda>after. wp (case after of
         Inr st2 \<Rightarrow> if statID dev st2 = statID dev (i, nd)
                    then seqS (writeHashCache (hashPath path) (statID dev (i, nd)) (HashBytes P (i_data nd))) (retS (Inr (HashBytes P (i_data nd))))
                    else retS (Inr (HashBytes P (i_data nd)))
       | Inl e \<Rightarrow> retS (Inr (HashBytes P (i_data nd)))) Q C) C s" if "C s" for s :: "'z fsys_scheme"
    by (rule wp_stat) (use that wr[of "ticked s"] st[OF that] in \<open>auto simp: Q_def C_def\<close>)
  have hash: "wp (tryS (HashFile P path) (\<lambda>h. bindS (sys_stat path) (\<lambda>after. case after of
         Inr st2 \<Rightarrow> if statID dev st2 = statID dev (i, nd)
                    then seqS (writeHashCache (hashPath path) (statID dev (i, nd)) h) (retS (Inr h))
                    else retS (Inr h)
       | Inl e \<Rightarrow> retS (Inr h)))) Q C s" if "C s" for s :: "'z fsys_scheme"
    unfolding HashFile_def wp_try
    by (rule wp_readFile) (use that again[of "ticked s"] st[OF that] in \<open>auto simp: Q_def C_def\<close>)
  have vo: "parse_cache b (statID dev (i, nd)) = Some h \<Longrightarrow> content s (hashPath path) = Some b \<Longrightarrow> h = HashBytes P (i_data nd)"
    if "C s" for s :: "'z fsys_scheme" and b h
    using that by (auto simp: C_def cached_def vouches_def)
  show ?thesis
    unfolding CachedHash_def Q_def[symmetric] C_def[symmetric] wp_try[of "sys_stat path"]
  proof (rule wp_stat, goal_cases)
    case (3 j)
    then have j: "(j, fs_node s j) = (i, nd)" using st[of s] assms(2) by (simp add: C_def)
    have s: "C (ticked s)" "C (ticked (ticked s))" using assms(2) by (simp_all add: C_def)
    show ?case
      unfolding j sum.case readHashCache_def wp_bind
      by (rule wp_readFile)
         (use hash[OF s(2)] s vo[OF s(1)] QI in \<open>auto simp: content_def simp del: wp_bind wp_try split: option.splits\<close>)
  qed (use assms(2) in \<open>auto simp: Q_def C_def\<close>)
qed

end
