(* ===== verification/Store.thy ===== *)
theory Store
  imports Path HashCache
begin

text \<open>
  \<^verbatim>\<open>store/store.go\<close> and \<^verbatim>\<open>store/file.go\<close>: the object interface and the directory store.  A reader is the bytes it yields and whether it ends without an error.
  What the clients rely on is the locale \<open>object_store\<close>, interpreted on the directory store for
  every root and every schedule of its lock.  The body of a \<open>Get\<close> is read where \<open>Get\<close> returns: the
  inode an open file names is never written again, since \<open>Put\<close> writes an inode only before it
  has a key's name.  Closing a file that was only read, and directories as objects, have no
  effect in the model.
\<close>

section \<open>The interface\<close>

type_synonym reader = "bytes \<times> bool"

datatype serror = NotFound | NotModified | PreconditionFailed | ReadOnly | StoreErr string

record getOptions =
  IfNoneMatch :: string
  Off :: int
  Len :: int

record putOptions =
  IfMatch :: "string option"
  ContentType :: string
  CacheControl :: string
  PutSize :: int

record object =
  ob_body :: reader
  ob_size :: int
  ob_etag :: string

definition wholeObject :: getOptions where
  "wholeObject = \<lparr>IfNoneMatch = [], Off = 0, Len = 0\<rparr>"

definition ranged :: "getOptions \<Rightarrow> bool" where
  "ranged o' \<longleftrightarrow> Off o' > 0 \<or> Len o' > 0"

definition GetAll :: "(string \<Rightarrow> getOptions \<Rightarrow> (serror + object, 'z) sys) \<Rightarrow> string \<Rightarrow> (serror + (bytes \<times> string), 'z) sys" where
  "GetAll get key = tryS (get key wholeObject) (\<lambda>obj.
     case ob_body obj of (b, ok) \<Rightarrow> retS (if ok then Inr (b, ob_etag obj) else Inl (StoreErr ''read'')))"

section \<open>The directory store\<close>

definition lockName :: string where "lockName = ''.go-binsync.lock''"

definition file_path :: "string \<Rightarrow> string \<Rightarrow> serror + string" where
  "file_path root key = (if checkKey key then Inr (Join root key) else Inl (StoreErr ''want a clean relative path''))"

definition fileETag :: "nat \<times> inode \<Rightarrow> string" where
  "fileETag st = dec_int (int (length (i_data (snd st)))) @ ''-'' @ dec_int (i_mtime (snd st)) @ ''-'' @ dec (fst st)"

text \<open>System calls on an open file: its identity, and a read that may stop early.\<close>

definition sys_open :: "string \<Rightarrow> (errno + nat, 'z) sys" where
  "sys_open p = sysc (\<lambda>s. case fs_name s p of None \<Rightarrow> (Inl ENOENT, s) | Some i \<Rightarrow> (Inr i, s))"

definition sys_fstat :: "nat \<Rightarrow> (errno + (nat \<times> inode), 'z) sys" where
  "sys_fstat i = sysc (\<lambda>s. (Inr (i, fs_node s i), s))"

definition sys_read :: "nat \<Rightarrow> int \<Rightarrow> int \<Rightarrow> (reader, 'z) sys" where
  "sys_read i off n s =
     (let t = fs_tick s; s' = s\<lparr>fs_tick := t + 1\<rparr>; b = take (nat n) (drop (nat off) (i_data (fs_node s i))) in
      case fs_fault s t of
        Dead \<Rightarrow> (Crash, s')
      | Bad \<Rightarrow> (Ret (take (fs_torn s t) b, False), s')
      | Good \<Rightarrow> (Ret (if off < 0 then ([], False) else (b, True)), s'))"

definition sys_openCreate :: "string \<Rightarrow> nat \<Rightarrow> (errno + nat, 'z) sys" where
  "sys_openCreate p mode = sysc (\<lambda>s. case fs_name s p of
     None \<Rightarrow> (Inr (fs_next s), new_inode p mode s) | Some i \<Rightarrow> (Inr i, s))"

definition get_range :: "getOptions \<Rightarrow> int \<Rightarrow> int \<times> int" where
  "get_range o' sz =
     (if ranged o' then let off = min (Off o') sz; n = sz - off in (off, if Len o' > 0 then min n (Len o') else n)
      else (0, sz))"

definition file_Get :: "string \<Rightarrow> string \<Rightarrow> getOptions \<Rightarrow> (serror + object, 'z) sys" where
  "file_Get root key o' = (case file_path root key of Inl e \<Rightarrow> retS (Inl e) | Inr p \<Rightarrow>
     bindS (sys_open p) (\<lambda>f. case f of
       Inl ENOENT \<Rightarrow> retS (Inl NotFound)
     | Inl e \<Rightarrow> retS (Inl (StoreErr ''get''))
     | Inr i \<Rightarrow> bindS (sys_fstat i) (\<lambda>fi. case fi of
         Inl e \<Rightarrow> retS (Inl (StoreErr ''get''))
       | Inr st \<Rightarrow>
           if IfNoneMatch o' \<noteq> [] \<and> IfNoneMatch o' = fileETag st then retS (Inl NotModified)
           else case get_range o' (int (length (i_data (snd st)))) of (off, n) \<Rightarrow>
             bindS (sys_read i off n) (\<lambda>b. retS (Inr \<lparr>ob_body = b, ob_size = n, ob_etag = fileETag st\<rparr>)))))"

text \<open>
  The lock's loop: what each \<^verbatim>\<open>flock\<close> answers, and the end of the list is the end of the
  context.  Releasing it is a call that changes no file.
\<close>

datatype flock = Locked | LockErr | WouldBlock

fun lock_loop :: "flock list \<Rightarrow> (errno + unit, 'z) sys" where
  "lock_loop [] = retS (Inl EIO)"
| "lock_loop (Locked # _) = retS (Inr ())"
| "lock_loop (LockErr # _) = retS (Inl EIO)"
| "lock_loop (WouldBlock # fl) = lock_loop fl"

definition file_lock :: "flock list \<Rightarrow> string \<Rightarrow> (errno + unit, 'z) sys" where
  "file_lock fl root = tryS (sys_openCreate (Join root lockName) 420) (\<lambda>_. lock_loop fl)"

definition unlockS :: "('a, 'z) sys \<Rightarrow> ('a, 'z) sys" where
  "unlockS m = bindS m (\<lambda>r. seqS sys_nop (seqS sys_nop (retS r)))"

definition sys_copy :: "nat \<Rightarrow> reader \<Rightarrow> (errno + unit, 'z) sys" where
  "sys_copy i r = tryS (sys_write i (fst r)) (\<lambda>_. retS (if snd r then Inr () else Inl EIO))"

definition writeTemp :: "string \<Rightarrow> reader \<Rightarrow> (errno + string, 'z) sys" where
  "writeTemp p r = tryS (sys_createTemp (tempName p)) (\<lambda>(name, i).
     bindS (closeS (tryS (sys_copy i r) (\<lambda>_. tryS (sys_chmod i 420) (\<lambda>_. sys_nop)))) (\<lambda>e. case e of
       Inl e \<Rightarrow> seqS (sys_remove name) (retS (Inl e))
     | Inr _ \<Rightarrow> retS (Inr name)))"

definition fsyncDir :: "(errno + unit, 'z) sys" where
  "fsyncDir = tryS sys_nop (\<lambda>_. closeS sys_nop)"

definition putS :: "(errno + 'a, 'z) sys \<Rightarrow> ('a \<Rightarrow> (serror + 'b, 'z) sys) \<Rightarrow> (serror + 'b, 'z) sys" where
  "putS m f = bindS m (\<lambda>r. case r of Inl e \<Rightarrow> retS (Inl (StoreErr ''put'')) | Inr x \<Rightarrow> f x)"

definition put_replace :: "string \<Rightarrow> reader \<Rightarrow> (serror + unit, 'z) sys" where
  "put_replace p r = putS (writeTemp p r) (\<lambda>tmp.
     bindS (sys_rename tmp p) (\<lambda>e. case e of
       Inl e \<Rightarrow> seqS (sys_remove tmp) (retS (Inl (StoreErr ''put'')))
     | Inr _ \<Rightarrow> putS fsyncDir (\<lambda>_. retS (Inr ()))))"

definition put_match :: "string \<Rightarrow> reader \<Rightarrow> string \<Rightarrow> (serror + unit, 'z) sys" where
  "put_match p r want = bindS (sys_stat p) (\<lambda>fi. case fi of
     Inr st \<Rightarrow> if fileETag st \<noteq> want then retS (Inl PreconditionFailed) else put_replace p r
   | Inl ENOENT \<Rightarrow> if [] \<noteq> want then retS (Inl PreconditionFailed) else put_replace p r
   | Inl e \<Rightarrow> retS (Inl (StoreErr ''put'')))"

definition file_Put :: "flock list \<Rightarrow> string \<Rightarrow> string \<Rightarrow> reader \<Rightarrow> putOptions \<Rightarrow> (serror + unit, 'z) sys" where
  "file_Put fl root key r o' = (case file_path root key of Inl e \<Rightarrow> retS (Inl e) | Inr p \<Rightarrow>
     putS sys_nop (\<lambda>_. case IfMatch o' of
       None \<Rightarrow> put_replace p r
     | Some want \<Rightarrow> putS (file_lock fl root) (\<lambda>_. unlockS (put_match p r want))))"

text \<open>\<^verbatim>\<open>openFile\<close>: a host that is not \<^verbatim>\<open>localhost\<close> is the first element of a relative path.\<close>

definition openFile :: "string \<Rightarrow> string \<Rightarrow> string option" where
  "openFile host upath =
     (let root = if host \<noteq> [] \<and> host \<noteq> ''localhost'' then host @ upath else upath in
      if root = [] then None else Some (Clean root))"

section \<open>What a put leaves\<close>

text \<open>
  \<open>cs\<close> is what every name held at the start.  Until the rename the key keeps what it had; after
  it, it has the new bytes.  No other object that was there changes.
\<close>

definition put_inv :: "(string \<Rightarrow> bytes option) \<Rightarrow> string \<Rightarrow> 'z fsys_scheme \<Rightarrow> bool" where
  "put_inv cs p s \<longleftrightarrow> fs_wf s \<and> content s p = cs p \<and> (\<forall>q d. cs q = Some d \<longrightarrow> content s q = Some d)"

definition put_done :: "(string \<Rightarrow> bytes option) \<Rightarrow> string \<Rightarrow> bytes \<Rightarrow> 'z fsys_scheme \<Rightarrow> bool" where
  "put_done cs p d s \<longleftrightarrow> fs_wf s \<and> content s p = Some d \<and> (\<forall>q d. q \<noteq> p \<longrightarrow> cs q = Some d \<longrightarrow> content s q = Some d)"

definition put_post :: "(string \<Rightarrow> bytes option) \<Rightarrow> string \<Rightarrow> reader \<Rightarrow> 'z fsys_scheme \<Rightarrow> bool" where
  "put_post cs p r s \<longleftrightarrow> put_inv cs p s \<or> snd r \<and> put_done cs p (fst r) s"

definition put_staged :: "(string \<Rightarrow> bytes option) \<Rightarrow> string \<Rightarrow> string \<Rightarrow> nat \<Rightarrow> bytes \<Rightarrow> 'z fsys_scheme \<Rightarrow> bool" where
  "put_staged cs p tmp i d s \<longleftrightarrow> put_inv cs p s \<and> tmp \<noteq> p \<and> cs tmp = None \<and> fs_name s tmp = Some i \<and>
     i_data (fs_node s i) = d \<and> (\<forall>q. fs_name s q = Some i \<longrightarrow> q = tmp)"

lemma put_ticked [simp]:
  "put_inv cs p (ticked s) = put_inv cs p s" "put_done cs p d (ticked s) = put_done cs p d s"
  "put_post cs p r (ticked s) = put_post cs p r s" "put_staged cs p tmp i d (ticked s) = put_staged cs p tmp i d s"
  by (simp_all add: put_inv_def put_done_def put_post_def put_staged_def)

lemma put_staged_new:
  assumes "put_inv cs p s" "fs_name s tmp = None" "tmp \<noteq> p"
  shows "put_staged cs p tmp (fs_next s) [] (new_inode tmp m s)"
proof -
  have wf: "fs_wf s" using assms(1) by (simp add: put_inv_def)
  have n: "cs tmp = None" using assms(1,2) by (cases "cs tmp") (fastforce simp: put_inv_def content_def)+
  have fresh: "fs_name s q \<noteq> Some (fs_next s)" for q using wf by (auto simp: fs_wf_def)
  show ?thesis
    using assms wf n fresh by (auto simp: put_staged_def put_inv_def content_new_inode fs_wf_new_inode)
qed

lemma put_staged_update:
  assumes "put_staged cs p tmp i d s"
  shows "put_staged cs p tmp i (i_data v) (s\<lparr>fs_node := (fs_node s)(i := v)\<rparr>)"
proof -
  have c: "content (s\<lparr>fs_node := (fs_node s)(i := v)\<rparr>) q = (if q = tmp then Some (i_data v) else content s q)" for q
    using assms by (auto simp: content_update put_staged_def)
  show ?thesis using assms by (auto simp: put_staged_def put_inv_def c fs_wf_def)
qed

lemma put_staged_write:
  "put_staged cs p tmp i d s \<Longrightarrow> put_staged cs p tmp i (d @ b) (node_write i b s)"
  using put_staged_update[of cs p tmp i d s "(fs_node s i)\<lparr>i_data := i_data (fs_node s i) @ b, i_mtime := fs_now s (fs_tick s)\<rparr>"]
  by (simp add: node_write_def) (simp add: put_staged_def)

lemma put_staged_remove:
  "put_staged cs p tmp i d s \<Longrightarrow> put_inv cs p (s\<lparr>fs_name := (fs_name s)(tmp := None)\<rparr>)"
  by (auto simp: put_staged_def put_inv_def content_unname fs_wf_def)

lemma put_staged_rename:
  "put_staged cs p tmp i d s \<Longrightarrow> put_done cs p d (s\<lparr>fs_name := (fs_name s)(p := Some i, tmp := None)\<rparr>)"
  by (auto simp: put_staged_def put_inv_def put_done_def content_rename fs_wf_def)

lemma put_staged_inv: "put_staged cs p tmp i d s \<Longrightarrow> put_inv cs p s"
  by (simp add: put_staged_def)

lemma put_inv_post: "put_inv cs p s \<Longrightarrow> put_post cs p r s"
  by (simp add: put_post_def)

lemma wp_cleanup:
  assumes "put_staged cs p tmp i d s" "\<And>s. put_inv cs p s \<Longrightarrow> Q s" "\<And>s. put_inv cs p s \<Longrightarrow> C s"
  shows "wp (sys_remove tmp) (\<lambda>_. Q) C s"
  by (rule wp_remove)
     (use assms(2,3) put_staged_inv[OF assms(1)] put_staged_remove[of cs p tmp i d "ticked s"] assms(1) in auto)

lemma wp_writeTemp:
  fixes s :: "'z fsys_scheme"
  assumes "put_inv cs p s" "\<And>x. tempName p @ x \<noteq> p"
  shows "wp (writeTemp p r) (\<lambda>e s. case e of Inl _ \<Rightarrow> put_inv cs p s | Inr tmp \<Rightarrow> snd r \<and> (\<exists>i. put_staged cs p tmp i (fst r) s))
    (put_inv cs p) s"
proof -
  define Q where "Q = (\<lambda>e (s :: 'z fsys_scheme). case (e :: errno + string) of Inl _ \<Rightarrow> put_inv cs p s
      | Inr tmp \<Rightarrow> snd r \<and> (\<exists>i. put_staged cs p tmp i (fst r) s))"
  define body where "body = (\<lambda>i. closeS (tryS (sys_copy i r) (\<lambda>_. tryS (sys_chmod i 420) (\<lambda>_. sys_nop))) :: (errno + unit, 'z) sys)"
  have body: "wp (body i) (\<lambda>e s. (\<exists>d. put_staged cs p tmp i d s) \<and> (e = Inr () \<longrightarrow> snd r \<and> put_staged cs p tmp i (fst r) s)) (put_inv cs p) s"
    if st: "put_staged cs p tmp i [] s" for tmp i and s :: "'z fsys_scheme"
  proof -
    define R where "R = (\<lambda>(e :: errno + unit) (s :: 'z fsys_scheme). put_inv cs p (ticked s) \<and>
       (\<forall>e'. e = Inl e' \<longrightarrow> (\<exists>d. put_staged cs p tmp i d (ticked s)) \<and> (Inl e' = Inr () \<longrightarrow> snd r \<and> put_staged cs p tmp i (fst r) (ticked s))) \<and>
       (e = Inr () \<longrightarrow> (\<forall>r' :: errno + unit. (\<exists>d. put_staged cs p tmp i d (ticked s)) \<and> (r' = Inr () \<longrightarrow> snd r \<and> put_staged cs p tmp i (fst r) (ticked s)))))"
    have fail: "R (Inl e) s" if "put_staged cs p tmp i d s" for e d and s :: "'z fsys_scheme"
      using that put_staged_inv[OF that] by (auto simp: R_def)
    have ok: "R (Inr ()) s" if "put_staged cs p tmp i (fst r) s" "snd r" for s :: "'z fsys_scheme"
      using that put_staged_inv[OF that(1)] by (auto simp: R_def)
    have any: "R e s" if "put_staged cs p tmp i (fst r) s" "snd r" for e and s :: "'z fsys_scheme"
      using ok[OF that] fail[OF that(1)] by (cases e) auto
    have chmod: "wp (tryS (sys_chmod i 420) (\<lambda>_. sys_nop)) R (put_inv cs p) s" if "put_staged cs p tmp i (fst r) s" "snd r" for s :: "'z fsys_scheme"
    proof -
      have t: "put_staged cs p tmp i (fst r) (ticked s)" using that by simp
      have u: "put_staged cs p tmp i (fst r) ((ticked s)\<lparr>fs_node := (fs_node s)(i := (fs_node s i)\<lparr>i_mode := 420\<rparr>)\<rparr>)"
        using put_staged_update[OF t, of "(fs_node s i)\<lparr>i_mode := 420\<rparr>"] t by (simp add: put_staged_def)
      note iu = put_staged_inv[OF u]
      have "wp sys_nop R (put_inv cs p) ((ticked s)\<lparr>fs_node := (fs_node s)(i := (fs_node s i)\<lparr>i_mode := 420\<rparr>)\<rparr>)"
        by (rule wp_nop) (use u iu any that in auto)
      then show ?thesis unfolding wp_try by (intro wp_chmod) (use put_staged_inv[OF t] fail[OF t] in auto)
    qed
    have w: "put_staged cs p tmp i b (node_write i b (ticked s))" for b
      using put_staged_write[of cs p tmp i "[]" "ticked s" b] st by simp
    have "wp (tryS (sys_copy i r) (\<lambda>_. tryS (sys_chmod i 420) (\<lambda>_. sys_nop))) R (put_inv cs p) s"
      unfolding sys_copy_def wp_try wp_ret
      by (rule wp_write) (use w put_staged_inv[OF w] fail[OF w] chmod[OF w, unfolded wp_try] in auto)
    then show ?thesis unfolding body_def R_def by - (rule wp_closeS)
  qed
  have each: "wp (bindS (body i) (\<lambda>e. case e of Inl e \<Rightarrow> seqS (sys_remove tmp) (retS (Inl e)) | Inr _ \<Rightarrow> retS (Inr tmp))) Q (put_inv cs p) s"
    if st: "put_staged cs p tmp i [] s" for tmp i and s :: "'z fsys_scheme"
  proof -
    have "wp (case e of Inl e \<Rightarrow> seqS (sys_remove tmp) (retS (Inl e)) | Inr _ \<Rightarrow> retS (Inr tmp)) Q (put_inv cs p) s'"
      if a: "(\<exists>d. put_staged cs p tmp i d s') \<and> (e = Inr () \<longrightarrow> snd r \<and> put_staged cs p tmp i (fst r) s')" for e :: "errno + unit" and s'
    proof -
      obtain d where "put_staged cs p tmp i d s'" using a by blast
      with a show ?thesis by (cases e) (auto simp: Q_def intro: wp_cleanup)
    qed
    then show ?thesis unfolding wp_bind by (rule wp_mono[OF body[OF st]])
  qed
  have start: "wp (bindS (body (fs_next s)) (\<lambda>e. case e of Inl e \<Rightarrow> seqS (sys_remove (tempName p @ x)) (retS (Inl e))
      | Inr _ \<Rightarrow> retS (Inr (tempName p @ x)))) Q (put_inv cs p) (new_inode (tempName p @ x) 384 (ticked s))"
    if "fs_name s (tempName p @ x) = None" for x
    by (rule each) (use put_staged_new[of cs p "ticked s" "tempName p @ x"] assms that in simp)
  have Qe: "put_inv cs p (ticked s) \<Longrightarrow> Q (Inl e) (ticked s)" for e by (simp add: Q_def)
  show ?thesis
    unfolding writeTemp_def Q_def[symmetric] wp_try[of "sys_createTemp (tempName p)"]
    by (rule wp_createTemp) (use assms start[unfolded body_def] Qe in \<open>auto simp del: wp_bind\<close>)
qed

lemma wp_fsyncDir:
  assumes "\<And>s. I s \<Longrightarrow> I (ticked s)" "I s" "\<And>e s. I s \<Longrightarrow> Q e s" "\<And>s. I s \<Longrightarrow> C s"
  shows "wp fsyncDir Q C s"
  unfolding fsyncDir_def wp_try closeS_def wp_bind wp_ret
  using assms by (auto intro!: wp_nop split: sum.splits)

lemma wp_putS: "wp (putS m f) Q C = wp m (\<lambda>r. case r of Inl e \<Rightarrow> Q (Inl (StoreErr ''put'')) | Inr x \<Rightarrow> wp (f x) Q C) C"
  unfolding putS_def wp_bind by (intro arg_cong2[where f = "\<lambda>q c. wp m q c"]) (auto split: sum.splits)

lemma wp_put_replace:
  fixes s :: "'z fsys_scheme"
  assumes "put_inv cs p s" "\<And>x. tempName p @ x \<noteq> p"
  shows "wp (put_replace p r) (\<lambda>e s. put_post cs p r s \<and> (e = Inr () \<longrightarrow> snd r \<and> put_done cs p (fst r) s)) (put_post cs p r) s"
proof -
  define Q where "Q = (\<lambda>e (s :: 'z fsys_scheme). put_post cs p r s \<and> (e = (Inr () :: serror + unit) \<longrightarrow> snd r \<and> put_done cs p (fst r) s))"
  have sync: "wp fsyncDir (\<lambda>e. case e of Inl e \<Rightarrow> Q (Inl (StoreErr ''put'')) | Inr x \<Rightarrow> Q (Inr ())) (put_post cs p r) s"
    if "put_done cs p (fst r) s" "snd r" for s :: "'z fsys_scheme"
    by (rule wp_fsyncDir[where I = "put_done cs p (fst r)"]) (use that in \<open>auto simp: Q_def put_post_def split: sum.splits\<close>)
  have ren: "wp (sys_rename tmp p) (\<lambda>e. wp (case e of Inl e \<Rightarrow> seqS (sys_remove tmp) (retS (Inl (StoreErr ''put'')))
        | Inr _ \<Rightarrow> putS fsyncDir (\<lambda>_. retS (Inr ()))) Q (put_post cs p r)) (put_post cs p r) s"
    if st: "put_staged cs p tmp i (fst r) s" and ok: "snd r" for tmp i and s :: "'z fsys_scheme"
  proof -
    have t: "put_staged cs p tmp i (fst r) (ticked s)" using st by simp
    have names: "fs_name s tmp = Some i" "fs_name s p \<noteq> Some i" using st by (auto simp: put_staged_def)
    have rm: "wp (sys_remove tmp) (\<lambda>_. Q (Inl (StoreErr ''put''))) (put_post cs p r) (ticked s)"
      by (rule wp_cleanup[OF t]) (auto simp: Q_def put_inv_post)
    show ?thesis
      by (rule wp_rename)
         (use names rm put_inv_post[OF put_staged_inv[OF t]] sync[OF put_staged_rename[OF t] ok] in \<open>auto simp: wp_putS\<close>)
  qed
  show ?thesis
    unfolding put_replace_def Q_def[symmetric] wp_putS wp_bind
    by (rule wp_mono[OF wp_writeTemp[OF assms, of r]])
       (use ren in \<open>auto simp: Q_def put_inv_post split: sum.splits\<close>)
qed

text \<open>With a precondition that does not hold, nothing is written; otherwise this is a replacement.\<close>

definition etag_of :: "string \<Rightarrow> 'z fsys_scheme \<Rightarrow> string" where
  "etag_of p s = (case fs_name s p of None \<Rightarrow> [] | Some i \<Rightarrow> fileETag (i, fs_node s i))"

definition put_result :: "(string \<Rightarrow> bytes option) \<Rightarrow> string \<Rightarrow> string \<Rightarrow> reader \<Rightarrow> string option \<Rightarrow> serror + unit \<Rightarrow> 'z fsys_scheme \<Rightarrow> bool" where
  "put_result cs p tag r m e s \<longleftrightarrow> put_post cs p r s \<and> (e = Inr () \<longrightarrow> snd r \<and> put_done cs p (fst r) s) \<and>
     (m \<noteq> None \<and> m \<noteq> Some tag \<longrightarrow> put_inv cs p s \<and> e \<noteq> Inr ())"

definition put_crash :: "(string \<Rightarrow> bytes option) \<Rightarrow> string \<Rightarrow> string \<Rightarrow> reader \<Rightarrow> string option \<Rightarrow> 'z fsys_scheme \<Rightarrow> bool" where
  "put_crash cs p tag r m s \<longleftrightarrow> put_post cs p r s \<and> (m \<noteq> None \<and> m \<noteq> Some tag \<longrightarrow> put_inv cs p s)"

lemma put_result_ticked [simp]:
  "put_result cs p tag r m e (ticked s) = put_result cs p tag r m e s" "put_crash cs p tag r m (ticked s) = put_crash cs p tag r m s"
  by (simp_all add: put_result_def put_crash_def)

lemma put_result_inv: "put_inv cs p s \<Longrightarrow> put_result cs p tag r m (Inl e) s" "put_inv cs p s \<Longrightarrow> put_crash cs p tag r m s"
  by (simp_all add: put_result_def put_crash_def put_inv_post)

lemma put_result_crash: "put_result cs p tag r m e s \<Longrightarrow> put_crash cs p tag r m s"
  by (simp add: put_result_def put_crash_def)

lemma wp_put_match:
  fixes s :: "'z fsys_scheme"
  assumes "put_inv cs p s" "\<And>x. tempName p @ x \<noteq> p"
  shows "wp (put_match p r want) (put_result cs p (etag_of p s) r (Some want)) (put_crash cs p (etag_of p s) r (Some want)) s"
proof -
  have t: "put_inv cs p (ticked s)" using assms(1) by simp
  have rep: "wp (put_replace p r) (put_result cs p (etag_of p s) r (Some want)) (put_crash cs p (etag_of p s) r (Some want)) (ticked s)"
    if "etag_of p s = want"
    by (rule wp_mono[OF wp_put_replace[OF t assms(2), of r]]) (use that in \<open>auto simp: put_result_def put_crash_def\<close>)
  show ?thesis
    unfolding put_match_def wp_bind
    by (rule wp_stat) (use t rep put_result_inv[OF t] in \<open>auto simp: etag_of_def split: errno.splits\<close>)
qed

text \<open>The lock file is a name of its own.\<close>

lemma lockName_elem: "list_all good_elem (split_slash lockName)"
  by code_simp

lemma key_path_neqs:
  assumes "checkKey key" "root \<noteq> []"
  shows "Join root key \<noteq> Join root lockName" "\<And>x. tempName (Join root key) @ x \<noteq> Join root key"
proof -
  have g: "list_all good_elem (split_slash key)" "hd key \<noteq> CHR ''.''" using assms(1) by (simp_all add: checkKey_elems)
  have "key \<noteq> lockName" using g(2) by (auto simp: lockName_def)
  then show "Join root key \<noteq> Join root lockName" using Join_inj[OF assms(2) g(1) lockName_elem] by blast
  obtain es b where e: "split_slash key = es @ [b]" by (cases "split_slash key" rule: rev_cases) auto
  have "kept_parts (is_rooted root) ((clean_parts root @ es) @ [b])" using kept_good[OF kept_clean_parts g(1), of root] by (simp add: e)
  from tempName_longer[OF this] g(1) have "length (Join root key) < length (tempName (Join root key))"
    by (simp add: Join_elems[OF assms(2) g(1)] e)
  then show "tempName (Join root key) @ x \<noteq> Join root key" for x by (metis add.commute le_add2 length_append linorder_not_less)
qed

lemma wp_file_lock:
  fixes s :: "'z fsys_scheme"
  assumes "put_inv cs p s" "Join root lockName \<noteq> p"
  shows "wp (file_lock fl root) (\<lambda>e s'. put_inv cs p s' \<and> etag_of p s' = etag_of p s) (put_inv cs p) s"
proof -
  have loop: "wp (lock_loop fl) (\<lambda>e s'. put_inv cs p s' \<and> etag_of p s' = etag_of p s) (put_inv cs p) s'"
    if "put_inv cs p s'" "etag_of p s' = etag_of p s" for s'
    using that by (induction fl rule: lock_loop.induct) auto
  have wf: "fs_wf s" using assms(1) by (simp add: put_inv_def)
  have new: "put_inv cs p (new_inode (Join root lockName) 420 (ticked s)) \<and> etag_of p (new_inode (Join root lockName) 420 (ticked s)) = etag_of p s"
    if "fs_name s (Join root lockName) = None"
  proof
    show "put_inv cs p (new_inode (Join root lockName) 420 (ticked s))"
      using put_staged_inv[OF put_staged_new[of cs p "ticked s" "Join root lockName"]] assms that by simp
    show "etag_of p (new_inode (Join root lockName) 420 (ticked s)) = etag_of p s"
      using assms(2) wf by (auto simp: etag_of_def fs_wf_def split: option.splits)
  qed
  have same: "etag_of p (ticked s) = etag_of p s" by (simp add: etag_of_def split: option.splits)
  show ?thesis
    unfolding file_lock_def wp_try sys_openCreate_def
    by (rule wp_sysc) (use assms same new in \<open>auto intro!: loop split: option.splits\<close>)
qed

theorem wp_file_Put:
  fixes s :: "'z fsys_scheme"
  assumes "root \<noteq> []" "checkKey key" "fs_wf s"
  shows "wp (file_Put fl root key r o')
    (put_result (content s) (Join root key) (etag_of (Join root key) s) r (IfMatch o'))
    (put_crash (content s) (Join root key) (etag_of (Join root key) s) r (IfMatch o')) s"
proof -
  define p where "p = Join root key"
  define m where "m = IfMatch o'"
  define tag where "tag = etag_of p s"
  define cs where "cs = content s"
  note neq = key_path_neqs[OF assms(2,1), folded p_def]
  have inv: "put_inv cs p (ticked s)" using assms(3) by (simp add: put_inv_def cs_def)
  have tag1: "etag_of p (ticked s) = tag" by (simp add: etag_of_def tag_def split: option.splits)
  have unlock: "wp (unlockS (put_match p r want)) (put_result cs p tag r (Some want)) (put_crash cs p tag r (Some want)) s'"
    if "put_inv cs p s'" "etag_of p s' = tag" for want and s' :: "'z fsys_scheme"
    unfolding unlockS_def wp_bind wp_seq wp_ret
    by (rule wp_mono[OF wp_put_match[OF that(1) neq(2)]])
       (auto simp: that(2) intro!: wp_nop dest: put_result_crash)
  have body: "wp (case m of None \<Rightarrow> put_replace p r | Some want \<Rightarrow> putS (file_lock fl root) (\<lambda>_. unlockS (put_match p r want)))
      (put_result cs p tag r m) (put_crash cs p tag r m) (ticked s)"
  proof (cases m)
    case None
    then show ?thesis
      using wp_mono[OF wp_put_replace[OF inv neq(2), of r]] by (auto simp: put_result_def put_crash_def intro: wp_mono)
  next
    case (Some want)
    define K where "K = (\<lambda>s' :: 'z fsys_scheme. put_inv cs p s' \<and> etag_of p s' = tag)"
    have lock: "wp (file_lock fl root) (\<lambda>e. K) (put_inv cs p) (ticked s)"
      using wp_file_lock[OF inv neq(1)[symmetric]] by (simp add: K_def tag1)
    have "K s' \<Longrightarrow> put_inv cs p s'" "K s' \<Longrightarrow> wp (unlockS (put_match p r want)) (put_result cs p tag r (Some want)) (put_crash cs p tag r (Some want)) s'" for s'
      using unlock by (simp_all add: K_def)
    then show ?thesis
      unfolding Some option.case wp_putS
      by (intro wp_mono[OF lock]) (auto simp: put_result_inv split: sum.splits)
  qed
  have fp: "file_path root key = Inr p" using assms(2) by (simp add: file_path_def p_def)
  show ?thesis
    unfolding file_Put_def fp sum.case p_def[symmetric] m_def[symmetric] tag_def[symmetric] cs_def[symmetric] wp_putS
    by (rule wp_nop) (use inv body put_result_inv[of cs p "ticked s"] in \<open>auto split: sum.splits\<close>)
qed

section \<open>What a get returns\<close>

definition same_files :: "'z fsys_scheme \<Rightarrow> 'z fsys_scheme \<Rightarrow> bool" where
  "same_files s s' \<longleftrightarrow> fs_name s' = fs_name s \<and> fs_node s' = fs_node s \<and> fs_next s' = fs_next s"

definition window :: "getOptions \<Rightarrow> bytes \<Rightarrow> bytes" where
  "window o' d = (if ranged o' then let t = drop (nat (Off o')) d in if Len o' > 0 then take (nat (Len o')) t else t else d)"

text \<open>
  A get answers with the object's bytes in the window asked for, or a part of them and a
  failing reader; it says "not modified" only for the tag it was given, and "not found" only
  when the object is not there.
\<close>

definition get_ok :: "bytes option \<Rightarrow> string \<Rightarrow> getOptions \<Rightarrow> serror + object \<Rightarrow> bool" where
  "get_ok v tag o' r \<longleftrightarrow> (case r of
     Inr obj \<Rightarrow> (\<exists>d. v = Some d \<and> ob_etag obj = tag \<and> (snd (ob_body obj) \<longrightarrow> fst (ob_body obj) = window o' d))
   | Inl NotModified \<Rightarrow> v \<noteq> None \<and> IfNoneMatch o' = tag \<and> tag \<noteq> []
   | Inl NotFound \<Rightarrow> v = None
   | Inl e \<Rightarrow> e \<noteq> PreconditionFailed)"

lemma same_files_ticked [simp]: "same_files s (ticked s') = same_files s s'"
  by (simp add: same_files_def)

lemma same_files_refl [simp]: "same_files s s"
  by (simp add: same_files_def)

lemma same_files_content: "same_files s s' \<Longrightarrow> content s' = content s"
  by (simp add: same_files_def content_def fun_eq_iff)

lemma same_files_wf: "same_files s s' \<Longrightarrow> fs_wf s' = fs_wf s"
  by (simp add: same_files_def fs_wf_def)

lemma same_files_etag: "same_files s s' \<Longrightarrow> etag_of p s' = etag_of p s"
  by (simp add: same_files_def etag_of_def split: option.splits)

lemma wp_read:
  assumes "C (ticked s)" "\<And>b. Q (b, False) (ticked s)"
    and "0 \<le> off \<Longrightarrow> Q (take (nat n) (drop (nat off) (i_data (fs_node s i))), True) (ticked s)"
  shows "wp (sys_read i off n) Q C s"
  using assms by (auto simp: wp_def sys_read_def ticked_def Let_def split: fault.splits)

lemma get_range_window:
  assumes "get_range o' (int (length d)) = (off, n)" "0 \<le> off"
  shows "take (nat n) (drop (nat off) d) = window o' d"
proof (cases "ranged o'")
  case True
  then have o: "off = min (Off o') (int (length d))" "n = (if Len o' > 0 then min (int (length d) - off) (Len o') else int (length d) - off)"
    using assms(1) by (auto simp: get_range_def Let_def)
  have "drop (nat off) d = drop (nat (Off o')) d" using o(1) assms(2) by (cases "Off o' \<le> int (length d)") auto
  moreover have "take (nat (int (length d) - off)) (drop (nat off) d) = drop (nat off) d" using assms(2) by simp
  moreover have "take (nat (min (int (length d) - off) (Len o'))) (drop (nat off) d) = take (nat (Len o')) (drop (nat off) d)"
    using assms(2) by (cases "int (length d) - off \<le> Len o'") auto
  ultimately show ?thesis using True o(2) by (simp add: window_def Let_def)
qed (use assms in \<open>auto simp: get_range_def window_def\<close>)

theorem wp_file_Get:
  fixes s :: "'z fsys_scheme"
  shows "wp (file_Get root key o')
    (\<lambda>r s'. same_files s s' \<and> (checkKey key \<longrightarrow> get_ok (content s (Join root key)) (etag_of (Join root key) s) o' r) \<and>
      (\<not> checkKey key \<longrightarrow> (\<exists>m. r = Inl (StoreErr m))))
    (same_files s) s"
proof (cases "checkKey key")
  case True
  define p where "p = Join root key"
  define Q where "Q = (\<lambda>r s'. same_files s s' \<and> get_ok (content s p) (etag_of p s) o' r)"
  have e: "same_files s s' \<Longrightarrow> Q (Inl (StoreErr m)) s'" for s' m by (simp add: Q_def get_ok_def)
  have nf: "fs_name s p = None \<Longrightarrow> same_files s s' \<Longrightarrow> Q (Inl NotFound) s'" for s' by (simp add: Q_def get_ok_def content_def)
  have nm: "fs_name s p = Some i \<Longrightarrow> IfNoneMatch o' \<noteq> [] \<and> IfNoneMatch o' = fileETag (i, fs_node s i) \<Longrightarrow> same_files s s' \<Longrightarrow>
      Q (Inl NotModified) s'" for s' i by (auto simp: Q_def get_ok_def content_def etag_of_def)
  have rd: "wp (sys_read i off n) (\<lambda>b. Q (Inr \<lparr>ob_body = b, ob_size = n, ob_etag = fileETag (i, fs_node s i)\<rparr>)) (same_files s) (ticked (ticked s))"
    if "fs_name s p = Some i" "get_range o' (int (length (i_data (fs_node s i)))) = (off, n)" for i off n
    by (rule wp_read) (use that get_range_window[OF that(2)] in \<open>auto simp: Q_def get_ok_def content_def etag_of_def\<close>)
  have st: "wp (sys_fstat i) (\<lambda>fi. wp (case fi of
         Inl e \<Rightarrow> retS (Inl (StoreErr ''get''))
       | Inr st \<Rightarrow>
           if IfNoneMatch o' \<noteq> [] \<and> IfNoneMatch o' = fileETag st then retS (Inl NotModified)
           else case get_range o' (int (length (i_data (snd st)))) of (off, n) \<Rightarrow>
             bindS (sys_read i off n) (\<lambda>b. retS (Inr \<lparr>ob_body = b, ob_size = n, ob_etag = fileETag st\<rparr>))) Q (same_files s)) (same_files s) (ticked s)"
    if "fs_name s p = Some i" for i
    unfolding sys_fstat_def
    by (rule wp_sysc) (use that rd[OF that] e nm[OF that] in \<open>auto split: prod.splits\<close>)
  have fp: "file_path root key = Inr p" using True by (simp add: file_path_def p_def)
  have "wp (file_Get root key o') Q (same_files s) s"
    unfolding file_Get_def fp sum.case wp_bind sys_open_def
    by (rule wp_sysc) (use e st nf in \<open>auto split: option.splits\<close>)
  then show ?thesis using True by (simp add: Q_def p_def)
next
  case False
  then show ?thesis by (simp add: file_Get_def file_path_def)
qed

section \<open>The contract\<close>

text \<open>
  A source of objects leaves the files of the target alone.  This is all the update loop
  needs of a store: what it installs is checked against the pointer's hashes.
\<close>

locale object_source =
  fixes get :: "string \<Rightarrow> getOptions \<Rightarrow> (serror + object, 'z) sys"
  assumes get_frame: "wp (get key o') (\<lambda>r. same_files s) (same_files s) s"
begin

lemma get_keeps:
  assumes "\<And>s'. same_files s s' \<Longrightarrow> C s'" "\<And>r s'. same_files s s' \<Longrightarrow> Q r s'"
  shows "wp (get key o') Q C s"
  by (rule wp_mono[OF get_frame]) (use assms in auto)

lemma GetAll_frame: "wp (GetAll get key) (\<lambda>r. same_files s) (same_files s) s"
  unfolding GetAll_def wp_try by (rule get_keeps) (auto split: sum.splits prod.splits)

end

text \<open>
  A store is a map from keys to objects with a tag for each version: a get answers from the
  map, and a put either replaces its own object whole or changes nothing, the latter whenever
  its precondition names another version.
\<close>

locale object_store = object_source get
  for get :: "string \<Rightarrow> getOptions \<Rightarrow> (serror + object, 'z) sys" +
  fixes put :: "string \<Rightarrow> reader \<Rightarrow> putOptions \<Rightarrow> (serror + unit, 'z) sys"
    and inv :: "'z fsys_scheme \<Rightarrow> bool"
    and view :: "'z fsys_scheme \<Rightarrow> string \<Rightarrow> bytes option"
    and tag :: "'z fsys_scheme \<Rightarrow> string \<Rightarrow> string"
  assumes view_files: "same_files s s' \<Longrightarrow> inv s' = inv s \<and> view s' = view s \<and> tag s' = tag s"
    and get_law: "inv s \<Longrightarrow> wp (get key o') (\<lambda>r s'. get_ok (view s key) (tag s key) o' r \<or> (\<exists>m. r = Inl (StoreErr m))) (\<lambda>_. True) s"
    and put_law: "inv s \<Longrightarrow> wp (put key r po)
      (\<lambda>e s'. inv s' \<and> (\<forall>k d. k \<noteq> key \<longrightarrow> view s k = Some d \<longrightarrow> view s' k = Some d) \<and>
        (view s' key = view s key \<or> snd r \<and> view s' key = Some (fst r)) \<and>
        (e = Inr () \<longrightarrow> snd r \<and> view s' key = Some (fst r)) \<and>
        (IfMatch po \<noteq> None \<and> IfMatch po \<noteq> Some (tag s key) \<longrightarrow> e \<noteq> Inr () \<and> view s' key = view s key))
      (\<lambda>s'. inv s' \<and> (\<forall>k d. k \<noteq> key \<longrightarrow> view s k = Some d \<longrightarrow> view s' k = Some d) \<and>
        (view s' key = view s key \<or> snd r \<and> view s' key = Some (fst r))) s"
begin

text \<open>Reading a whole object gives the object.\<close>

lemma GetAll_law:
  assumes "inv s"
  shows "wp (GetAll get key) (\<lambda>r s'. \<forall>b t. r = Inr (b, t) \<longrightarrow> view s key = Some b \<and> t = tag s key) (\<lambda>_. True) s"
  unfolding GetAll_def wp_try
  by (rule wp_mono[OF get_law[OF assms, of key wholeObject]])
     (auto simp: get_ok_def window_def ranged_def wholeObject_def split: sum.splits prod.splits)

text \<open>What was put is what is read next.\<close>

lemma put_GetAll:
  assumes "inv s"
  shows "wp (tryS (put key (d, True) o') (\<lambda>_. GetAll get key)) (\<lambda>r s'. \<forall>b t. r = Inr (b, t) \<longrightarrow> b = d) (\<lambda>_. True) s"
  unfolding wp_try
proof (rule wp_mono[OF put_law[OF assms, of key "(d, True)" o']])
  fix e s'
  assume a: "inv s' \<and> (\<forall>k d. k \<noteq> key \<longrightarrow> view s k = Some d \<longrightarrow> view s' k = Some d) \<and>
        (view s' key = view s key \<or> snd (d, True) \<and> view s' key = Some (fst (d, True))) \<and>
        (e = Inr () \<longrightarrow> snd (d, True) \<and> view s' key = Some (fst (d, True))) \<and>
        (IfMatch o' \<noteq> None \<and> IfMatch o' \<noteq> Some (tag s key) \<longrightarrow> e \<noteq> Inr () \<and> view s' key = view s key)"
  show "(case e of Inl e \<Rightarrow> \<lambda>s'. \<forall>b t. Inl e = Inr (b, t) \<longrightarrow> b = d
     | Inr x \<Rightarrow> wp (GetAll get key) (\<lambda>r s'. \<forall>b t. r = Inr (b, t) \<longrightarrow> b = d) (\<lambda>_. True)) s'"
  proof (cases e)
    case (Inr x)
    then have "view s' key = Some d" "inv s'" using a by auto
    then show ?thesis unfolding Inr sum.case by (intro wp_mono[OF GetAll_law]) auto
  qed simp
qed simp

end

section \<open>The directory store is a store\<close>

definition file_inv :: "string \<Rightarrow> 'z fsys_scheme \<Rightarrow> bool" where
  "file_inv root s \<longleftrightarrow> root \<noteq> [] \<and> fs_wf s"

definition file_view :: "string \<Rightarrow> 'z fsys_scheme \<Rightarrow> string \<Rightarrow> bytes option" where
  "file_view root s key = (if checkKey key then content s (Join root key) else None)"

definition file_tag :: "string \<Rightarrow> 'z fsys_scheme \<Rightarrow> string \<Rightarrow> string" where
  "file_tag root s key = etag_of (Join root key) s"

lemma put_post_view:
  assumes "root \<noteq> []" "checkKey key" "put_post (content s) (Join root key) r s'"
  shows "file_inv root s'" "k \<noteq> key \<Longrightarrow> file_view root s k = Some d \<Longrightarrow> file_view root s' k = Some d"
    "file_view root s' key = file_view root s key \<or> snd r \<and> file_view root s' key = Some (fst r)"
proof -
  have neq: "checkKey k \<Longrightarrow> k \<noteq> key \<Longrightarrow> Join root k \<noteq> Join root key" for k
    using Join_inj[OF assms(1)] assms(2) by (metis checkKey_elems)
  show "file_inv root s'" using assms by (auto simp: put_post_def put_inv_def put_done_def file_inv_def)
  show "k \<noteq> key \<Longrightarrow> file_view root s k = Some d \<Longrightarrow> file_view root s' k = Some d"
    using assms(3) neq by (auto simp: put_post_def put_inv_def put_done_def file_view_def split: if_splits)
  show "file_view root s' key = file_view root s key \<or> snd r \<and> file_view root s' key = Some (fst r)"
    using assms(2,3) by (auto simp: put_post_def put_inv_def put_done_def file_view_def)
qed

lemma file_source: "object_source (file_Get root)"
proof
  show "wp (file_Get root key o') (\<lambda>r. same_files s) (same_files s) s" for key o' and s :: "'a fsys_scheme"
    by (rule wp_mono[OF wp_file_Get]) auto
qed

interpretation dir: object_store "file_Get root" "file_Put fl root" "file_inv root" "file_view root" "file_tag root"
  for root fl
proof (intro object_store.intro object_store_axioms.intro file_source)
  fix s s' :: "'a fsys_scheme"
  assume "same_files s s'"
  then show "file_inv root s' = file_inv root s \<and> file_view root s' = file_view root s \<and> file_tag root s' = file_tag root s"
    by (auto simp: file_inv_def file_view_def file_tag_def fun_eq_iff same_files_wf same_files_content same_files_etag)
next
  fix s :: "'a fsys_scheme" and key o'
  assume "file_inv root s"
  show "wp (file_Get root key o') (\<lambda>r s'. get_ok (file_view root s key) (file_tag root s key) o' r \<or> (\<exists>m. r = Inl (StoreErr m))) (\<lambda>_. True) s"
    by (rule wp_mono[OF wp_file_Get]) (auto simp: file_view_def file_tag_def)
next
  fix s :: "'a fsys_scheme" and key r o'
  assume inv: "file_inv root s"
  show "wp (file_Put fl root key r o')
      (\<lambda>e s'. file_inv root s' \<and> (\<forall>k d. k \<noteq> key \<longrightarrow> file_view root s k = Some d \<longrightarrow> file_view root s' k = Some d) \<and>
        (file_view root s' key = file_view root s key \<or> snd r \<and> file_view root s' key = Some (fst r)) \<and>
        (e = Inr () \<longrightarrow> snd r \<and> file_view root s' key = Some (fst r)) \<and>
        (IfMatch o' \<noteq> None \<and> IfMatch o' \<noteq> Some (file_tag root s key) \<longrightarrow> e \<noteq> Inr () \<and> file_view root s' key = file_view root s key))
      (\<lambda>s'. file_inv root s' \<and> (\<forall>k d. k \<noteq> key \<longrightarrow> file_view root s k = Some d \<longrightarrow> file_view root s' k = Some d) \<and>
        (file_view root s' key = file_view root s key \<or> snd r \<and> file_view root s' key = Some (fst r))) s"
  proof (cases "checkKey key")
    case True
    then have c: "root \<noteq> []" "checkKey key" "fs_wf s" using inv by (simp_all add: file_inv_def)
    note v = put_post_view[OF c(1,2), of s r]
    show ?thesis
    proof (rule wp_mono[OF wp_file_Put[OF c, of fl r o']])
      fix e s'
      assume a: "put_result (content s) (Join root key) (etag_of (Join root key) s) r (IfMatch o') e s'"
      then have p: "put_post (content s) (Join root key) r s'" by (simp add: put_result_def)
      have "e = Inr () \<longrightarrow> snd r \<and> file_view root s' key = Some (fst r)" using a c(2) by (auto simp: put_result_def put_done_def file_view_def)
      moreover have "IfMatch o' \<noteq> None \<and> IfMatch o' \<noteq> Some (file_tag root s key) \<longrightarrow> e \<noteq> Inr () \<and> file_view root s' key = file_view root s key"
        using a c(2) by (auto simp: put_result_def put_inv_def file_view_def file_tag_def)
      ultimately show "file_inv root s' \<and> (\<forall>k d. k \<noteq> key \<longrightarrow> file_view root s k = Some d \<longrightarrow> file_view root s' k = Some d) \<and>
        (file_view root s' key = file_view root s key \<or> snd r \<and> file_view root s' key = Some (fst r)) \<and>
        (e = Inr () \<longrightarrow> snd r \<and> file_view root s' key = Some (fst r)) \<and>
        (IfMatch o' \<noteq> None \<and> IfMatch o' \<noteq> Some (file_tag root s key) \<longrightarrow> e \<noteq> Inr () \<and> file_view root s' key = file_view root s key)"
        using v[OF p] by blast
    next
      fix s'
      assume "put_crash (content s) (Join root key) (etag_of (Join root key) s) r (IfMatch o') s'"
      then have p: "put_post (content s) (Join root key) r s'" by (simp add: put_crash_def)
      show "file_inv root s' \<and> (\<forall>k d. k \<noteq> key \<longrightarrow> file_view root s k = Some d \<longrightarrow> file_view root s' k = Some d) \<and>
        (file_view root s' key = file_view root s key \<or> snd r \<and> file_view root s' key = Some (fst r))"
        using v[OF p] by blast
    qed
  next
    case False
    then show ?thesis using inv by (simp add: file_Put_def file_path_def)
  qed
qed

end
