(* ===== verification/Keep.thy ===== *)
theory Keep
  imports Store
begin

text \<open>
  Invariants of whole programs.  \<open>keeps I m\<close>: every run of \<open>m\<close> from a state in \<open>I\<close>, finished or cut
  short, ends in \<open>I\<close>.  The rules follow the programs' structure, and the target's own invariant
  is that its marker and cache files share no inode with any other name, so that writing one
  of them changes nothing else.
\<close>

section \<open>Programs that keep an invariant\<close>

definition keeps :: "('z fsys_scheme \<Rightarrow> bool) \<Rightarrow> ('a, 'z) sys \<Rightarrow> bool" where
  "keeps I m \<longleftrightarrow> (\<forall>s. I s \<longrightarrow> wp m (\<lambda>_. I) I s)"

named_theorems keep

lemma keepsI: "(\<And>s. I s \<Longrightarrow> wp m (\<lambda>_. I) I s) \<Longrightarrow> keeps I m"
  by (simp add: keeps_def)

lemma keepsD: "keeps I m \<Longrightarrow> I s \<Longrightarrow> wp m (\<lambda>_. I) I s"
  by (simp add: keeps_def)

lemma keeps_ret [keep]: "keeps I (retS x)"
  by (simp add: keeps_def)

lemma keeps_bind [keep]:
  assumes "keeps I m" "\<And>r. keeps I (f r)"
  shows "keeps I (bindS m f)"
proof (rule keepsI)
  fix s assume "I s"
  from keepsD[OF assms(1) this] show "wp (bindS m f) (\<lambda>_. I) I s"
    unfolding wp_bind by (rule wp_mono) (auto intro: keepsD[OF assms(2)])
qed

lemma keeps_seq [keep]: "keeps I m \<Longrightarrow> keeps I n \<Longrightarrow> keeps I (seqS m n)"
  unfolding seqS_def by (rule keeps_bind)

lemma keeps_try [keep]:
  assumes "keeps I m" "\<And>x. keeps I (f x)"
  shows "keeps I (tryS m f)"
  unfolding tryS_def by (rule keeps_bind[OF assms(1)]) (auto intro: keeps_ret assms(2) split: sum.split)

lemma keeps_close [keep]: "keeps I m \<Longrightarrow> keeps I sys_nop \<Longrightarrow> keeps I (closeS m)"
  unfolding closeS_def by (intro keeps_bind keeps_ret)

lemma keeps_errS [keep]: "keeps I m \<Longrightarrow> (\<And>x. keeps I (f x)) \<Longrightarrow> keeps I (errS msg m f)"
  unfolding errS_def by (rule keeps_bind) (auto intro: keeps_ret split: sum.split)

lemma keeps_errS_noent [keep]: "keeps I m \<Longrightarrow> keeps I k \<Longrightarrow> keeps I (errS_noent msg m k)"
  unfolding errS_noent_def by (rule keeps_bind) (auto intro: keeps_ret split: sum.split errno.split)

lemma keeps_if [keep]: "(b \<Longrightarrow> keeps I m) \<Longrightarrow> (\<not> b \<Longrightarrow> keeps I n) \<Longrightarrow> keeps I (if b then m else n)"
  by simp

text \<open>Two facts about one run.\<close>

lemma wp_conj: "wp m Q C s \<Longrightarrow> wp m Q' C' s \<Longrightarrow> wp m (\<lambda>r s. Q r s \<and> Q' r s) (\<lambda>s. C s \<and> C' s) s"
  by (auto simp: wp_def split: prod.splits out.splits)

lemma wp_any: "wp m (\<lambda>_ _. True) (\<lambda>_. True) s"
  by (simp add: wp_def split: prod.split out.split)

section \<open>Private names\<close>

definition priv :: "string set \<Rightarrow> 'z fsys_scheme \<Rightarrow> bool" where
  "priv N s \<longleftrightarrow> fs_wf s \<and> (\<forall>p \<in> N. own s p)"

lemma private_ticked [simp]: "priv N (ticked s) = priv N s"
  by (simp add: priv_def own_def)

lemma private_nodes: "fs_name s' = fs_name s \<Longrightarrow> fs_next s' = fs_next s \<Longrightarrow> priv N s' = priv N s"
  by (simp add: priv_def own_def fs_wf_def)

lemma private_node_write [simp]: "priv N (node_write i d s) = priv N s"
  by (rule private_nodes) simp_all

lemma private_remove: "priv N s \<Longrightarrow> priv N ((ticked s)\<lparr>fs_name := (fs_name s)(p := None)\<rparr>)"
  by (auto simp: priv_def own_def fs_wf_def)

lemma private_new: "priv N s \<Longrightarrow> priv N (new_inode p m s)"
proof -
  assume a: "priv N s"
  then have fresh: "fs_name s q \<noteq> Some (fs_next s)" for q by (auto simp: priv_def fs_wf_def)
  then have "own (new_inode p m s) q" if "own s q" for q using that unfolding own_def by auto
  then show ?thesis using a fs_wf_new_inode[of s p m] by (simp add: priv_def)
qed

lemma private_link:
  assumes "priv N s" "fs_name s a = Some i" "a \<notin> N" "b \<notin> N"
  shows "priv N ((ticked s)\<lparr>fs_name := (fs_name s)(b := Some i)\<rparr>)"
  using assms by (fastforce simp: priv_def own_def fs_wf_def)

lemma private_rename:
  assumes "priv N s" "fs_name s a = Some i" "a \<notin> N" "b \<notin> N"
  shows "priv N ((ticked s)\<lparr>fs_name := (fs_name s)(b := Some i, a := None)\<rparr>)"
  using assms by (fastforce simp: priv_def own_def fs_wf_def)

lemma keeps_private_nop [keep]: "keeps (priv N) sys_nop"
  by (rule keepsI, rule wp_nop) simp_all

lemma keeps_private_stat [keep]: "keeps (priv N) (sys_stat p)"
  by (rule keepsI, rule wp_stat) simp_all

lemma keeps_private_readFile [keep]: "keeps (priv N) (sys_readFile p)"
  by (rule keepsI, rule wp_readFile) simp_all

lemma keeps_private_remove [keep]: "keeps (priv N) (sys_remove p)"
  by (rule keepsI, rule wp_remove) (simp_all add: private_remove)

lemma keeps_private_link [keep]: "a \<notin> N \<Longrightarrow> b \<notin> N \<Longrightarrow> keeps (priv N) (sys_link a b)"
  by (rule keepsI, rule wp_link) (simp_all add: private_link)

lemma keeps_private_rename [keep]: "a \<notin> N \<Longrightarrow> b \<notin> N \<Longrightarrow> keeps (priv N) (sys_rename a b)"
  by (rule keepsI, rule wp_rename) (simp_all add: private_rename)

lemma keeps_private_createTemp [keep]: "keeps (priv N) (sys_createTemp p)"
  by (rule keepsI, rule wp_createTemp) (simp_all add: private_new)

lemma keeps_private_write [keep]: "keeps (priv N) (sys_write i d)"
  by (rule keepsI, rule wp_write) simp_all

lemma keeps_private_chmod [keep]: "keeps (priv N) (sys_chmod i m)"
  by (rule keepsI, rule wp_chmod) (simp_all add: private_nodes[of "ticked s\<lparr>fs_node := x\<rparr>" s for s x])

lemma keeps_private_openTrunc [keep]: "keeps (priv N) (sys_openTrunc p m)"
  by (rule keepsI, rule wp_openTrunc) (simp_all add: private_new private_nodes[of "ticked s\<lparr>fs_node := x\<rparr>" s for s x])

lemma keeps_sum [keep]:
  "(\<And>a. keeps I (f a)) \<Longrightarrow> (\<And>b. keeps I (g b)) \<Longrightarrow> keeps I (case x of Inl a \<Rightarrow> f a | Inr b \<Rightarrow> g b)"
  by (cases x) simp_all

lemma keeps_option [keep]:
  "keeps I m \<Longrightarrow> (\<And>b. keeps I (g b)) \<Longrightarrow> keeps I (case x of None \<Rightarrow> m | Some b \<Rightarrow> g b)"
  by (cases x) simp_all

lemma keeps_prod [keep]: "(\<And>a b. keeps I (f a b)) \<Longrightarrow> keeps I (case x of (a, b) \<Rightarrow> f a b)"
  by (cases x) simp

lemma keeps_errno [keep]:
  "keeps I a \<Longrightarrow> keeps I b \<Longrightarrow> keeps I c \<Longrightarrow> keeps I (case x of ENOENT \<Rightarrow> a | EEXIST \<Rightarrow> b | EIO \<Rightarrow> c)"
  by (cases x) simp_all

section \<open>The target's programs\<close>

definition mine :: "string \<Rightarrow> string set" where
  "mine path = {PendingPath path, hashPath path, failedPath path}"

lemma mine_names:
  "path \<notin> mine path" "OldPath path \<notin> mine path" "PendingPath path \<in> mine path" "hashPath path \<in> mine path"
  "failedPath path \<in> mine path" "OldPath path \<noteq> hashPath path" "OldPath path \<noteq> failedPath path"
  by (auto simp: mine_def hashPath_def failedPath_def StateDir_def OldPath_def PendingPath_def)

lemma tmp_not_mine:
  "tmpPrefix path @ x \<noteq> PendingPath path" "tmpPrefix path @ x \<noteq> hashPath path" "tmpPrefix path @ x \<noteq> failedPath path"
  by (simp_all add: tmpPrefix_def PendingPath_def hashPath_def failedPath_def StateDir_def)

lemmas installer_defs = Install_def inst_stage_def inst_check_def stage_file_def writeExec_def linkOld_def markPending_def
  writeSync_def syncDir_def Let_def

lemma wp_createTemp_prefix:
  assumes "I s" "\<And>s. I s \<Longrightarrow> I (ticked s)" "\<And>x. I (ticked s) \<Longrightarrow> I (new_inode (pre @ x) 384 (ticked s))"
  shows "wp (sys_createTemp pre) (\<lambda>r s'. I s' \<and> (\<forall>p i. r = Inr (p, i) \<longrightarrow> (\<exists>x. p = pre @ x))) I s"
  by (rule wp_createTemp) (use assms in auto)

lemma keeps_stage_file: "keeps (priv N) (stage_file P data want tmp i)"
  unfolding stage_file_def writeExec_def by (intro keep)

lemma keeps_linkOld: "keeps (priv (mine path)) (linkOld path)"
  unfolding linkOld_def by (intro keep mine_names)

lemma keeps_markPending: "keeps (priv N) (markPending path want)"
  unfolding markPending_def writeSync_def by (intro keep)

lemma keeps_inst_check: "keeps (priv N) (inst_check path)"
  unfolding inst_check_def Let_def by (intro keep)

lemma keeps_syncDir: "keeps (priv N) syncDir"
  unfolding syncDir_def by (intro keep)

lemma wp_stage_temp:
  assumes "priv N s"
  shows "wp (inst_stage P path data want) (\<lambda>r s'. priv N s' \<and> (\<forall>tmp. r = Inr tmp \<longrightarrow> (\<exists>x. tmp = tmpPrefix path @ x))) (priv N) s"
proof -
  have st: "wp (stage_file P data want tmp i) (\<lambda>r s'. priv N s' \<and> (\<forall>t. r = Inr t \<longrightarrow> t = tmp)) (priv N) s"
    if "priv N s" for tmp i s
  proof -
    have "wp (stage_file P data want tmp i) (\<lambda>r s'. \<forall>t. r = Inr t \<longrightarrow> t = tmp) (\<lambda>_. True) s"
      unfolding stage_file_def wp_bind
      by (rule wp_mono[OF wp_any]) (simp_all add: wp_any split: sum.split)
    from wp_conj[OF keepsD[OF keeps_stage_file that] this] show ?thesis by (rule wp_mono) auto
  qed
  have ct: "wp (sys_createTemp (tmpPrefix path)) (\<lambda>r s'. priv N s' \<and> (\<forall>p i. r = Inr (p, i) \<longrightarrow> (\<exists>x. p = tmpPrefix path @ x))) (priv N) s"
    if "priv N s" for s
    by (rule wp_createTemp_prefix) (use that in \<open>auto simp: private_new\<close>)
  show ?thesis
    unfolding inst_stage_def wp_try
    by (rule wp_mono[OF keepsD[OF keeps_inst_check assms]])
       (auto simp: errS_def split: sum.splits intro!: wp_mono[OF ct] wp_mono[OF st])
qed

lemma keeps_Install: "keeps (priv (mine path)) (Install P path data want)"
proof (rule keepsI)
  fix s :: "'a fsys_scheme" assume a: "priv (mine path) s"
  have rest: "keeps (priv (mine path)) (bindS (linkOld path) (\<lambda>r. case r of
       Inl e \<Rightarrow> seqS (sys_remove (tmpPrefix path @ x)) (retS (Inl e))
     | Inr _ \<Rightarrow> bindS (markPending path want) (\<lambda>r. case r of
         Inl e \<Rightarrow> seqS (sys_remove (tmpPrefix path @ x)) (retS (Inl e))
       | Inr _ \<Rightarrow> bindS (sys_rename (tmpPrefix path @ x) path) (\<lambda>r. case r of
           Inl e \<Rightarrow> seqS (sys_remove (tmpPrefix path @ x)) (seqS (sys_remove (PendingPath path)) (retS (Inl (RelErr ''install''))))
         | Inr _ \<Rightarrow> syncDir))))" for x
    by (intro keep keeps_linkOld keeps_markPending keeps_syncDir mine_names) (simp add: mine_def tmp_not_mine)
  show "wp (Install P path data want) (\<lambda>_. priv (mine path)) (priv (mine path)) s"
    unfolding Install_def wp_try
    by (rule wp_mono[OF wp_stage_temp[OF a]]) (auto split: sum.split intro: keepsD[OF rest] simp del: wp_bind)
qed

lemma keeps_Revert: "keeps (priv (mine path)) (Revert path)"
  unfolding Revert_def Let_def by (intro keep keeps_syncDir mine_names)

lemma keeps_MarkFailed: "keeps (priv N) (MarkFailed path h)"
  unfolding MarkFailed_def writeSync_def by (intro keep)

lemma keeps_Failed: "keeps (priv N) (Failed path)"
  unfolding Failed_def by (intro keep)

lemma keeps_ClearFailed: "keeps (priv N) (ClearFailed path)"
  unfolding ClearFailed_def by (intro keep)

lemma keeps_ClearPending: "keeps (priv N) (ClearPending path)"
  unfolding ClearPending_def by (intro keep keeps_syncDir)

lemma keeps_CachedHash: "keeps (priv N) (CachedHash P dev path)"
  unfolding CachedHash_def readHashCache_def HashFile_def writeHashCache_def by (intro keep)

lemmas keeps_target = keeps_Install keeps_Revert keeps_MarkFailed keeps_Failed keeps_ClearFailed keeps_ClearPending keeps_CachedHash

section \<open>What they leave at the other names\<close>

text \<open>Only the named file changes.\<close>

lemma priv_marker: "priv N s \<Longrightarrow> p \<in> N \<Longrightarrow> marker_at (content s) p None s"
  by (simp add: priv_def marker_at_def)

lemma wp_CachedHash_frame:
  fixes s :: "'z fsys_scheme"
  assumes "marker_at cs (hashPath path) None s"
  shows "wp (CachedHash P dev path) (\<lambda>_. marker_at cs (hashPath path) None) (marker_at cs (hashPath path) None) s"
proof -
  let ?I = "marker_at cs (hashPath path) None :: 'z fsys_scheme \<Rightarrow> bool"
  have rd: "keeps ?I (sys_stat p)" "keeps ?I (sys_readFile p)" "keeps ?I sys_nop" for p
    by (rule keepsI, rule wp_stat wp_readFile wp_nop; simp)+
  have op: "wp (tryS (sys_openTrunc (hashPath path) 420) (\<lambda>n. closeS (sys_write n b))) (\<lambda>_. ?I) ?I s" if "?I s" for b and s :: "'z fsys_scheme"
  proof -
    have w: "wp (closeS (sys_write i b)) (\<lambda>_. ?I) ?I s" if "marker_at cs (hashPath path) m s" "fs_name s (hashPath path) = Some i" for i m and s :: "'z fsys_scheme"
    proof -
      have "?I (node_write i d (ticked s))" for d
        using marker_at_weaken[OF marker_at_update[OF that refl, of "(fs_node s i)\<lparr>i_data := i_data (fs_node s i) @ d, i_mtime := fs_now (ticked s) (fs_tick (ticked s))\<rparr>"]]
        by (simp add: node_write_def)
      then show ?thesis by (intro wp_closeS wp_write) auto
    qed
    have n: "fs_name s (hashPath path) = None \<Longrightarrow> wp (closeS (sys_write (fs_next s) b)) (\<lambda>_. ?I) ?I (new_inode (hashPath path) 420 (ticked s))"
      by (rule w[OF marker_at_new[OF that]]) simp
    have o: "fs_name s (hashPath path) = Some i \<Longrightarrow> wp (closeS (sys_write i b)) (\<lambda>_. ?I) ?I
        ((ticked s)\<lparr>fs_node := (fs_node s)(i := (fs_node s i)\<lparr>i_data := [], i_mtime := x\<rparr>)\<rparr>)" for i x
      using marker_at_update[OF that _ refl, of i "(fs_node s i)\<lparr>i_data := [], i_mtime := x\<rparr>"] by (intro w) auto
    show ?thesis unfolding wp_try by (rule wp_openTrunc) (use that n o in auto)
  qed
  have "keeps ?I (CachedHash P dev path)"
    unfolding CachedHash_def readHashCache_def HashFile_def writeHashCache_def
    by (intro keep rd keepsI[OF op])
  then show ?thesis using assms by (rule keepsD)
qed

lemma keeps_content_ClearPending: "q \<noteq> PendingPath path \<Longrightarrow> keeps (\<lambda>s. content s q = c) (ClearPending path)"
  unfolding ClearPending_def syncDir_def
  by (intro keep; rule keepsI; rule wp_remove wp_nop; simp add: content_def)

lemma keeps_content_ClearFailed: "q \<noteq> failedPath path \<Longrightarrow> keeps (\<lambda>s. content s q = c) (ClearFailed path)"
  unfolding ClearFailed_def
  by (intro keep; rule keepsI; rule wp_remove; simp add: content_def)

lemma keeps_content_Failed: "keeps (\<lambda>s. content s q = c) (Failed path)"
  unfolding Failed_def by (intro keep; rule keepsI; rule wp_readFile; simp)

lemma priv_before: "priv (mine path) s \<Longrightarrow> before path (content s path) s"
  using mine_names(3)[of path] unfolding priv_def before_def own_def by (metis path_neqs(2))

end
