(* ===== verification/Remote.thy ===== *)
theory Remote
  imports Store
begin

text \<open>
  The stores that reach another host: \<^verbatim>\<open>store/https.go\<close>, \<^verbatim>\<open>store/ssh.go\<close> and \<^verbatim>\<open>store/s3/s3.go\<close>.  The web
  server, the remote shell and the bucket are arguments of the model; what is proved is what
  the code here does with their answers and sends to them.  Dialling, authentication and host
  keys, and the loading of a cloud configuration, are calls into libraries and not modelled.
\<close>

section \<open>https\<close>

record request =
  rq_key :: string
  rq_ifNoneMatch :: "string option"
  rq_range :: "string option"

record response =
  rs_status :: int
  rs_body :: reader
  rs_length :: int
  rs_etag :: string

definition rangeHeader :: "int \<Rightarrow> int \<Rightarrow> string" where
  "rangeHeader off len = ''bytes='' @ dec_int off @ ''-'' @ dec_int (wrap64 (off + len - 1))"

definition http_request :: "string \<Rightarrow> getOptions \<Rightarrow> request" where
  "http_request key o' = \<lparr>rq_key = key,
     rq_ifNoneMatch = (if IfNoneMatch o' \<noteq> [] then Some (IfNoneMatch o') else None),
     rq_range = (if Len o' > 0 then Some (rangeHeader (Off o') (Len o'))
                 else if ranged o' then Some (''bytes='' @ dec_int (Off o') @ ''-'') else None)\<rparr>"

text \<open>\<^verbatim>\<open>io.CopyN(io.Discard, body, n)\<close> and \<^verbatim>\<open>io.LimitReader(body, n)\<close>.\<close>

definition skip_bytes :: "int \<Rightarrow> reader \<Rightarrow> reader option" where
  "skip_bytes n r = (if int (length (fst r)) < n then None else Some (drop (nat n) (fst r), snd r))"

definition limit_reader :: "int \<Rightarrow> reader \<Rightarrow> reader" where
  "limit_reader n r = (take (nat n) (fst r), snd r \<or> n \<le> int (length (fst r)))"

text \<open>The window cut out of a whole object, when the server ignored the range.\<close>

definition http_cut :: "getOptions \<Rightarrow> response \<Rightarrow> serror + (reader \<times> int)" where
  "http_cut o' rs =
     (case (if Off o' > 0 then map_option (\<lambda>b. (b, if rs_length rs \<ge> 0 then max (rs_length rs - Off o') 0 else rs_length rs))
                                 (skip_bytes (Off o') (rs_body rs))
            else Some (rs_body rs, rs_length rs)) of
        None \<Rightarrow> Inl (StoreErr ''seeking'')
      | Some (b, n) \<Rightarrow> Inr (if Len o' > 0 then (limit_reader (Len o') b, min n (Len o')) else (b, n)))"

definition http_answer :: "getOptions \<Rightarrow> response \<Rightarrow> serror + object" where
  "http_answer o' rs =
     (if rs_status rs = 304 then Inl NotModified
      else if rs_status rs = 404 \<or> rs_status rs = 410 then Inl NotFound
      else if rs_status rs \<noteq> 200 \<and> rs_status rs \<noteq> 206 then Inl (StoreErr ''status'')
      else case (if ranged o' \<and> rs_status rs = 200 then http_cut o' rs else Inr (rs_body rs, rs_length rs)) of
        Inl e \<Rightarrow> Inl e
      | Inr (b, n) \<Rightarrow> Inr \<lparr>ob_body = b, ob_size = n, ob_etag = rs_etag rs\<rparr>)"

definition http_Get :: "(request \<Rightarrow> (response option, 'z) sys) \<Rightarrow> string \<Rightarrow> getOptions \<Rightarrow> (serror + object, 'z) sys" where
  "http_Get server key o' =
     (if \<not> checkKey key then retS (Inl (StoreErr ''want a clean relative path''))
      else bindS (server (http_request key o')) (\<lambda>a. case a of
        None \<Rightarrow> retS (Inl (StoreErr ''get''))
      | Some rs \<Rightarrow> retS (http_answer o' rs)))"

definition http_Put :: "string \<Rightarrow> reader \<Rightarrow> putOptions \<Rightarrow> (serror + unit, 'z) sys" where
  "http_Put key r po = retS (Inl ReadOnly)"

text \<open>\<^verbatim>\<open>CheckRedirect\<close>: a redirect is followed only to the scheme of the first request.\<close>

definition check_redirect :: "string list \<Rightarrow> string \<Rightarrow> bool" where
  "check_redirect via scheme \<longleftrightarrow> via \<noteq> [] \<and> scheme = hd via"

fun follow :: "string list \<Rightarrow> string list \<Rightarrow> string list option" where
  "follow via [] = Some via"
| "follow via (s # ss) = (if check_redirect via s then follow (via @ [s]) ss else None)"

section \<open>ssh\<close>

definition sshNotFoundExit :: int where "sshNotFoundExit = 66"

record ssh_url =
  su_user :: "string option"
  su_password :: bool
  su_host :: string
  su_port :: string
  su_path :: string

record sshTarget =
  tg_user :: string
  tg_addr :: string
  tg_dir :: string

definition JoinHostPort :: "string \<Rightarrow> string \<Rightarrow> string" where
  "JoinHostPort host port = (if CHR '':'' \<in> set host then ''['' @ host @ '']:'' @ port else host @ '':'' @ port)"

definition parseSSHURL :: "ssh_url \<Rightarrow> string \<Rightarrow> serror + sshTarget" where
  "parseSSHURL u defaultUser =
     (if su_user u \<noteq> None \<and> su_password u then Inl (StoreErr ''a password in the URL is not supported'')
      else let named = (case su_user u of None \<Rightarrow> [] | Some n \<Rightarrow> n); user = (if named = [] then defaultUser else named) in
      if user = [] then Inl (StoreErr ''no user in the URL and $USER is unset'')
      else if su_host u = [] then Inl (StoreErr ''no host'')
      else let dir = Clean (su_path u) in
      if dir = [] \<or> dir = ''.'' \<or> dir = ''/'' then Inl (StoreErr ''needs a directory to publish into'')
      else Inr \<lparr>tg_user = user, tg_addr = JoinHostPort (su_host u) (if su_port u = [] then ''22'' else su_port u), tg_dir = dir\<rparr>)"

definition ssh_char :: "char \<Rightarrow> bool" where
  "ssh_char c \<longleftrightarrow> (let n = of_char c :: nat in
     97 \<le> n \<and> n \<le> 122 \<or> 65 \<le> n \<and> n \<le> 90 \<or> 48 \<le> n \<and> n \<le> 57) \<or>
     c = CHR ''.'' \<or> c = CHR ''-'' \<or> c = CHR ''_'' \<or> c = CHR ''/''"

definition sshCheckKey :: "string \<Rightarrow> bool" where
  "sshCheckKey key \<longleftrightarrow> key \<noteq> [] \<and> hd key \<noteq> CHR ''/'' \<and>
     list_all (\<lambda>seg. seg \<noteq> [] \<and> seg \<noteq> ''.'' \<and> seg \<noteq> ''..'') (split_slash key) \<and> list_all ssh_char key"

definition sshPath :: "string \<Rightarrow> string \<Rightarrow> string" where
  "sshPath dir key = Join dir key"

definition sshQuote :: "string \<Rightarrow> string" where
  "sshQuote s = [CHR 0x27] @ concat (map (\<lambda>c. if c = CHR 0x27 then [CHR 0x27, CHR 0x5C, CHR 0x27, CHR 0x27] else [c]) s) @ [CHR 0x27]"

definition sshETag :: "prims \<Rightarrow> bytes \<Rightarrow> string" where
  "sshETag P b = ''b3:'' @ hex_encode (blake3 P b)"

definition sshTempKey :: "string \<Rightarrow> string \<Rightarrow> string" where
  "sshTempKey rnd key = Join (Dir key) (''.go-binsync.tmp.'' @ rnd)"

definition sshPutCmd :: "string \<Rightarrow> string \<Rightarrow> string \<Rightarrow> int \<Rightarrow> string" where
  "sshPutCmd dir key tmp sz =
     (let dst = sshQuote (sshPath dir key); t = sshQuote (sshPath dir tmp) in
      ''mkdir -p '' @ sshQuote (Dir (sshPath dir key)) @ '' && cat > '' @ t @
      (if sz > 0 then '' && [ '' @ [CHR 0x22] @ ''$(wc -c < '' @ t @ '')'' @ [CHR 0x22] @ '' -eq '' @ dec_int sz @ '' ]'' else []) @
      '' && mv -f '' @ t @ '' '' @ dst @ '' || (rm -f '' @ t @ ''; exit 1)'')"

definition sshGetCmd :: "string \<Rightarrow> string \<Rightarrow> string" where
  "sshGetCmd dir key =
     (let p = sshQuote (sshPath dir key) in
      ''if [ -f '' @ p @ '' ]; then cat '' @ p @ ''; else exit '' @ dec_int sshNotFoundExit @ ''; fi'')"

text \<open>A remote command's end: done with its output, a non-zero exit, or a failure to run it.\<close>

datatype ran = RunOk bytes | RunExit int | RunErr

type_synonym 'z runner = "string \<Rightarrow> reader \<Rightarrow> (ran, 'z) sys"

definition ssh_window :: "getOptions \<Rightarrow> bytes \<Rightarrow> bytes" where
  "ssh_window o' b =
     (if ranged o' then
        let off = max 0 (min (Off o') (int (length b)));
            e = (if Len o' > 0 then min (wrap64 (off + Len o')) (int (length b)) else int (length b)) in
        slice (nat off) (nat e) b
      else b)"

definition ssh_Get :: "prims \<Rightarrow> 'z runner \<Rightarrow> string \<Rightarrow> string \<Rightarrow> getOptions \<Rightarrow> (serror + object, 'z) sys" where
  "ssh_Get P run dir key o' =
     (if \<not> sshCheckKey key then retS (Inl (StoreErr ''key''))
      else bindS (run (sshGetCmd dir key) ([], True)) (\<lambda>a. case a of
        RunExit c \<Rightarrow> retS (Inl (if c = sshNotFoundExit then NotFound else StoreErr ''reading''))
      | RunErr \<Rightarrow> retS (Inl (StoreErr ''reading''))
      | RunOk b \<Rightarrow>
          if IfNoneMatch o' \<noteq> [] \<and> IfNoneMatch o' = sshETag P b then retS (Inl NotModified)
          else let w = ssh_window o' b in
          retS (Inr \<lparr>ob_body = (w, True), ob_size = int (length w), ob_etag = sshETag P b\<rparr>)))"

definition ssh_etagOf :: "prims \<Rightarrow> 'z runner \<Rightarrow> string \<Rightarrow> string \<Rightarrow> (serror + string, 'z) sys" where
  "ssh_etagOf P run dir key = bindS (ssh_Get P run dir key wholeObject) (\<lambda>r. case r of
     Inl NotFound \<Rightarrow> retS (Inr []) | Inl e \<Rightarrow> retS (Inl e) | Inr obj \<Rightarrow> retS (Inr (ob_etag obj)))"

definition ssh_Put :: "prims \<Rightarrow> 'z runner \<Rightarrow> string \<Rightarrow> string \<Rightarrow> string \<Rightarrow> reader \<Rightarrow> putOptions \<Rightarrow> (serror + unit, 'z) sys" where
  "ssh_Put P run rnd dir key r po =
     (let write = bindS (run (sshPutCmd dir key (sshTempKey rnd key) (PutSize po)) r) (\<lambda>a. case a of
            RunOk _ \<Rightarrow> retS (Inr ()) | _ \<Rightarrow> retS (Inl (StoreErr ''writing''))) in
      if \<not> sshCheckKey key then retS (Inl (StoreErr ''key''))
      else case IfMatch po of
        None \<Rightarrow> write
      | Some want \<Rightarrow> tryS (ssh_etagOf P run dir key) (\<lambda>cur.
          if cur \<noteq> want then retS (Inl PreconditionFailed) else write))"

section \<open>s3\<close>

record s3_err =
  se_status :: int
  se_code :: string

definition joinKey :: "string \<Rightarrow> string \<Rightarrow> string" where
  "joinKey pre key = (if pre = [] then key else pre @ ''/'' @ key)"

definition trim_slash :: "string \<Rightarrow> string" where
  "trim_slash s = rev (dropWhile (\<lambda>c. c = CHR ''/'') (rev (dropWhile (\<lambda>c. c = CHR ''/'') s)))"

definition s3_parseURL :: "string \<Rightarrow> string \<Rightarrow> (string \<times> string) option" where
  "s3_parseURL host upath = (if host = [] then None else Some (host, trim_slash upath))"

definition precondition :: "string option \<Rightarrow> string option \<times> string option" where
  "precondition m = (case m of None \<Rightarrow> (None, None) | Some t \<Rightarrow> if t = [] then (None, Some ''*'') else (Some t, None))"

definition mapErr :: "s3_err \<Rightarrow> serror" where
  "mapErr e =
     (if se_code e = ''NoSuchBucket'' then StoreErr ''s3''
      else if se_status e = 304 \<or> se_code e = ''NotModified'' then NotModified
      else if se_status e = 404 \<or> se_code e = ''NoSuchKey'' \<or> se_code e = ''NotFound'' then NotFound
      else if se_status e = 412 \<or> se_status e = 409 \<or> se_code e = ''PreconditionFailed'' then PreconditionFailed
      else StoreErr ''s3'')"

record s3_get_in =
  gi_key :: string
  gi_ifNoneMatch :: "string option"
  gi_range :: "string option"

record s3_get_out =
  go_body :: reader
  go_length :: "int option"
  go_etag :: "string option"

record s3_put_in =
  pi_key :: string
  pi_body :: reader
  pi_length :: int
  pi_contentType :: "string option"
  pi_cacheControl :: "string option"
  pi_ifMatch :: "string option"
  pi_ifNoneMatch :: "string option"

definition nonempty :: "string \<Rightarrow> string option" where
  "nonempty s = (if s = [] then None else Some s)"

definition s3_Get :: "(s3_get_in \<Rightarrow> (s3_err + s3_get_out, 'z) sys) \<Rightarrow> string \<Rightarrow> string \<Rightarrow> getOptions \<Rightarrow> (serror + object, 'z) sys" where
  "s3_Get getObject pre key o' =
     bindS (getObject \<lparr>gi_key = joinKey pre key, gi_ifNoneMatch = nonempty (IfNoneMatch o'),
         gi_range = (if Len o' > 0 then Some (rangeHeader (Off o') (Len o')) else None)\<rparr>) (\<lambda>a. case a of
       Inl e \<Rightarrow> retS (Inl (mapErr e))
     | Inr out \<Rightarrow> retS (Inr \<lparr>ob_body = go_body out, ob_size = (case go_length out of None \<Rightarrow> -1 | Some n \<Rightarrow> n),
         ob_etag = (case go_etag out of None \<Rightarrow> [] | Some t \<Rightarrow> t)\<rparr>))"

definition s3_Put :: "(s3_put_in \<Rightarrow> (s3_err option, 'z) sys) \<Rightarrow> string \<Rightarrow> string \<Rightarrow> reader \<Rightarrow> putOptions \<Rightarrow> (serror + unit, 'z) sys" where
  "s3_Put putObject pre key r po =
     (let send = (\<lambda>body n. case precondition (IfMatch po) of (ifm, ifnm) \<Rightarrow>
            bindS (putObject \<lparr>pi_key = joinKey pre key, pi_body = body, pi_length = n,
                pi_contentType = nonempty (ContentType po), pi_cacheControl = nonempty (CacheControl po),
                pi_ifMatch = ifm, pi_ifNoneMatch = ifnm\<rparr>) (\<lambda>a. case a of
              Some e \<Rightarrow> retS (Inl (mapErr e)) | None \<Rightarrow> retS (Inr ()))) in
      if PutSize po \<le> 0 then
        if \<not> snd r then retS (Inl (StoreErr ''reading body'')) else send r (int (length (fst r)))
      else send r (PutSize po))"

section \<open>What the web store returns\<close>

text \<open>What an HTTP server documents of a GET of \<open>d\<close>: all of it, or the range asked for.\<close>

definition http_serves :: "bytes \<Rightarrow> getOptions \<Rightarrow> response \<Rightarrow> bool" where
  "http_serves d o' rs \<longleftrightarrow> rs_status rs = 200 \<and> rs_body rs = (d, True) \<or>
     ranged o' \<and> rs_status rs = 206 \<and> rs_body rs = (window o' d, True)"

lemma http_window:
  assumes "http_serves d o' rs" "0 \<le> Off o'" "Off o' \<le> int (length d)"
  shows "\<exists>obj. http_answer o' rs = Inr obj \<and> ob_body obj = (window o' d, True) \<and> ob_etag obj = rs_etag rs"
proof (cases "rs_status rs = 200")
  case True
  then have b: "rs_body rs = (d, True)" using assms(1) by (simp add: http_serves_def)
  show ?thesis
    using True b assms(2,3)
    by (auto simp: http_answer_def http_cut_def skip_bytes_def limit_reader_def window_def ranged_def Let_def split: prod.splits)
next
  case False
  then show ?thesis using assms(1) by (auto simp: http_serves_def http_answer_def)
qed

lemma http_seek_past_end:
  assumes "rs_status rs = 200" "int (length (fst (rs_body rs))) < Off o'" "0 < Off o'"
  shows "http_answer o' rs = Inl (StoreErr ''seeking'')"
  using assms by (simp add: http_answer_def http_cut_def skip_bytes_def ranged_def)

lemma follow_scheme: "via \<noteq> [] \<Longrightarrow> list_all (\<lambda>s. s = hd via) via \<Longrightarrow> follow via ss = Some out \<Longrightarrow> list_all (\<lambda>s. s = hd via) out"
proof (induction ss arbitrary: via)
  case (Cons s ss)
  then have s: "s = hd via" "follow (via @ [s]) ss = Some out" by (auto simp: check_redirect_def split: if_splits)
  then show ?case using Cons.IH[of "via @ [s]"] Cons.prems by simp
qed simp

text \<open>Over a network whose answers depend on the time and the request only.\<close>

definition net_server :: "(nat \<Rightarrow> request \<Rightarrow> response option) \<Rightarrow> request \<Rightarrow> (response option, 'z) sys" where
  "net_server net rq s = (Ret (net (fs_tick s) rq), ticked s)"

lemma wp_net_server: "wp (net_server net rq) Q C s = Q (net (fs_tick s) rq) (ticked s)"
  by (simp add: wp_def net_server_def)

interpretation web: object_source "http_Get (net_server net)" for net
  by unfold_locales (auto simp: http_Get_def wp_net_server split: option.splits)

section \<open>What reaches the remote shell\<close>

text \<open>
  A word of a POSIX shell: outside quotes a backslash takes the next character as it is; inside
  single quotes every character up to the closing quote is itself.  The word ends at a blank.
\<close>

fun sh_word :: "bool \<Rightarrow> string \<Rightarrow> string \<times> string" where
  "sh_word q [] = ([], [])"
| "sh_word True (c # s) = (if c = CHR 0x27 then sh_word False s else case sh_word True s of (w, r) \<Rightarrow> (c # w, r))"
| "sh_word False (c # s) =
     (if c = CHR 0x27 then sh_word True s
      else if c = CHR 0x5C then (case s of [] \<Rightarrow> ([], []) | d # t \<Rightarrow> (case sh_word False t of (w, r) \<Rightarrow> (d # w, r)))
      else if c = CHR '' '' then ([], c # s)
      else case sh_word False s of (w, r) \<Rightarrow> (c # w, r))"

lemma sh_word_body:
  "sh_word True (concat (map (\<lambda>c. if c = CHR 0x27 then [CHR 0x27, CHR 0x5C, CHR 0x27, CHR 0x27] else [c]) s) @ CHR 0x27 # t) =
     (s @ fst (sh_word False t), snd (sh_word False t))"
  by (induction s) (auto split: prod.splits)

lemma sshQuote_word: "sh_word False (sshQuote s @ CHR '' '' # t) = (s, CHR '' '' # t)"
  using sh_word_body[of s "CHR '' '' # t"] by (simp add: sshQuote_def)

lemma sshCheckKey_safe:
  assumes "sshCheckKey key"
  shows "list_all good_elem (split_slash key)" "list_all ssh_char key"
proof -
  show "list_all good_elem (split_slash key)"
    using assms split_slash_elem[of key] unfolding sshCheckKey_def list_all_iff good_elem_def by blast
  show "list_all ssh_char key" using assms by (simp add: sshCheckKey_def)
qed

text \<open>The temporary file is beside the key, whatever the random text, so the rename stays in one directory.\<close>

lemma Dir_elems:
  assumes "list_all good_elem (es @ [b])"
  shows "Dir (join_slash (es @ [b])) = unsplit False es"
proof -
  have b: "elem b" using assms by (simp add: good_elem_def)
  have k: "kept_parts False es" using keptI[of es False 0] assms by simp
  show ?thesis
  proof (cases "es = []")
    case True
    then show ?thesis using upto_after_elem(1)[OF b] Clean_slash_only(2) by (simp add: Dir_def unsplit_def)
  next
    case False
    then have "join_slash (es @ [b]) = unsplit False es @ CHR ''/'' # b" by (simp add: join_append unsplit_def)
    then show ?thesis using upto_after(1)[OF b] Clean_slash[OF k False] by (simp add: Dir_def)
  qed
qed

lemma unsplit_nonempty: "kept_parts r out \<Longrightarrow> unsplit r out \<noteq> []"
  using kept_hd hd_join by (cases out) (auto simp: unsplit_def)

lemma sshTempKey_sibling:
  assumes "sshCheckKey key" "elem rnd"
  shows "split_slash (sshTempKey rnd key) = butlast (split_slash key) @ [''.go-binsync.tmp.'' @ rnd]"
proof -
  note g = sshCheckKey_safe(1)[OF assms(1)]
  obtain es b where e: "split_slash key = es @ [b]" by (cases "split_slash key" rule: rev_cases) auto
  have k: "kept_parts False es" using keptI[of es False 0] g unfolding e by simp
  have ge: "list_all good_elem (es @ [b])" using g by (simp only: e)
  have "join_slash (es @ [b]) = key" using join_split[of key] by (simp only: e)
  then have d: "Dir key = unsplit False es" using Dir_elems[OF ge] by simp
  define t where "t = ''.go-binsync.tmp.'' @ rnd"
  have t: "good_elem t" using assms(2) by (simp add: t_def good_elem_def elem_def)
  have el: "elem t" using t by (simp add: good_elem_def)
  have "sshTempKey rnd key = unsplit (is_rooted (unsplit False es)) (clean_parts (unsplit False es) @ split_slash t)"
    unfolding sshTempKey_def d t_def[symmetric]
    by (rule Join_elems[OF unsplit_nonempty[OF k]]) (simp add: split_elem[OF el] t)
  then have "sshTempKey rnd key = join_slash (es @ [t])"
    unfolding rooted_unsplit[OF k] parts_unsplit[OF k] split_elem[OF el] by (simp add: unsplit_def)
  moreover have "list_all elem (es @ [t])" using kept_elem[OF k] el by simp
  ultimately have "split_slash (sshTempKey rnd key) = es @ [t]" using split_join[of "es @ [t]"] by simp
  then show ?thesis by (simp only: e t_def butlast_snoc)
qed

lemma ssh_window_eq:
  assumes "0 \<le> Off o'" "Off o' + Len o' < 2 ^ 63" "int (length b) < 2 ^ 63"
  shows "ssh_window o' b = window o' b"
proof (cases "ranged o'")
  case True
  define off where "off = min (Off o') (int (length b))"
  have o: "0 \<le> off" "off \<le> int (length b)" "drop (nat off) b = drop (nat (Off o')) b"
    using assms(1) by (cases "Off o' \<le> int (length b)"; simp add: off_def)+
  have w: "Len o' > 0 \<Longrightarrow> wrap64 (off + Len o') = off + Len o'" using assms o(1) by (simp add: wrap64_def off_def)
  show ?thesis
  proof (cases "Len o' > 0")
    case True
    have "slice (nat off) (nat (min (off + Len o') (int (length b)))) b = take (nat (Len o')) (drop (nat off) b)"
      using o(1,2) True by (cases "off + Len o' \<le> int (length b)") (auto simp: slice_def nat_add_distrib drop_take)
    then show ?thesis using True \<open>ranged o'\<close> o w by (simp add: ssh_window_def window_def off_def[symmetric] max_def)
  next
    case False
    then show ?thesis using \<open>ranged o'\<close> o by (simp add: ssh_window_def window_def off_def[symmetric] max_def slice_def)
  qed
qed (simp add: ssh_window_def window_def)

text \<open>A precondition that names another version stops the write before anything is sent.\<close>

lemma ssh_Put_precondition:
  assumes "sshCheckKey key" "IfMatch po = Some want" "ssh_etagOf P run dir key s = (Ret (Inr cur), s')" "cur \<noteq> want"
  shows "ssh_Put P run rnd dir key r po s = (Ret (Inl PreconditionFailed), s')"
  using assms by (simp add: ssh_Put_def Let_def tryS_def bindS_def retS_def)

section \<open>What the bucket is asked\<close>

text \<open>
  What S3 documents of a conditional write: \<^verbatim>\<open>If-Match\<close> needs the object to have that tag,
  \<^verbatim>\<open>If-None-Match: *\<close> needs it to be absent.
\<close>

definition s3_allows :: "string option \<Rightarrow> string option \<times> string option \<Rightarrow> bool" where
  "s3_allows cur pre \<longleftrightarrow> (\<forall>t. fst pre = Some t \<longrightarrow> cur = Some t) \<and> (snd pre = Some ''*'' \<longrightarrow> cur = None)"

lemma precondition_cas:
  assumes "cur \<noteq> Some []"
  shows "s3_allows cur (precondition m) \<longleftrightarrow> (case m of None \<Rightarrow> True | Some t \<Rightarrow> t = (case cur of None \<Rightarrow> [] | Some c \<Rightarrow> c))"
  using assms by (auto simp: s3_allows_def precondition_def split: option.splits)

lemma joinKey_inj: "joinKey pre a = joinKey pre b \<Longrightarrow> a = b"
  by (auto simp: joinKey_def split: if_splits)

lemma mapErr_bucket: "se_code e = ''NoSuchBucket'' \<Longrightarrow> mapErr e \<notin> {NotFound, NotModified, PreconditionFailed}"
  by (simp add: mapErr_def)

lemma mapErr_notFound_iff:
  "mapErr e = NotFound \<longleftrightarrow> se_code e \<noteq> ''NoSuchBucket'' \<and> se_status e \<noteq> 304 \<and> se_code e \<noteq> ''NotModified'' \<and>
     (se_status e = 404 \<or> se_code e = ''NoSuchKey'' \<or> se_code e = ''NotFound'')"
  by (auto simp: mapErr_def)

end
