(* ===== verification/Lz.thy ===== *)
theory Lz
  imports Buf
begin

unbundle bit_operations_syntax

text \<open>
  The exact-match engine of \<^verbatim>\<open>delta/internal/lz\<close>: the content index over a source buffer,
  the nearest-candidate search \<open>Find\<close>, the op-stream encoder \<open>Emit\<close> and the checked
  decoder \<open>lz_apply\<close>.  The encoder, and the plain codec later, rely on the index only
  through the locale \<open>match_index\<close>: whatever \<open>Find\<close> returns is a real match.
\<close>

section \<open>The index\<close>

definition MinMatch :: nat where
  "MinMatch = 6"

definition hashMul :: nat where
  "hashMul = 0x9E3779B97F4A7C15"

definition defaultProbe :: nat where
  "defaultProbe = 5"

definition nearProbes :: "nat list" where
  "nearProbes = [1, 2, 3, 4, 5, 6, 7, 8]"

record lz_index =
  ix_src :: bytes
  ix_bucket :: "nat list"
  ix_pos :: "nat list"
  ix_shift :: nat
  ix_probe :: nat

text \<open>\<^verbatim>\<open>bits.Len\<close> and little-endian loads.\<close>

fun bits_len :: "nat \<Rightarrow> nat" where
  "bits_len n = (if n = 0 then 0 else Suc (bits_len (n div 2)))"

declare bits_len.simps [simp del]

fun le_nat :: "bytes \<Rightarrow> nat" where
  "le_nat [] = 0"
| "le_nat (b # bs) = unat b + 256 * le_nat bs"

definition le64 :: "bytes \<Rightarrow> nat" where
  "le64 b = le_nat (take 8 b)"

definition hashBitsFor :: "nat \<Rightarrow> nat" where
  "hashBitsFor n = min (max (bits_len n) 10) 22"

definition ix_hash :: "nat \<Rightarrow> bytes \<Rightarrow> nat" where
  "ix_hash shift b = ((le64 b mod 2 ^ 48) * hashMul mod 2 ^ 64) div 2 ^ shift mod 2 ^ 32"

text \<open>
  \<open>NewIndex\<close> in its three passes: count the entries of each bucket one place up, sum the
  counts, then place every position at its bucket's running offset.
\<close>

definition ix_count :: "(nat \<Rightarrow> nat) \<Rightarrow> nat \<Rightarrow> nat list \<Rightarrow> nat list" where
  "ix_count h n counts =
     fold (\<lambda>i c. c[h i + 1 := (c ! (h i + 1) + 1) mod 2 ^ 32]) [0..<n] counts"

definition ix_sum :: "nat list \<Rightarrow> nat list" where
  "ix_sum counts =
     fold (\<lambda>b c. c[b := (c ! b + c ! (b - 1)) mod 2 ^ 32]) [1..<length counts] counts"

definition ix_place :: "(nat \<Rightarrow> nat) \<Rightarrow> nat \<Rightarrow> nat list \<Rightarrow> nat list \<times> nat list" where
  "ix_place h n fill =
     fold (\<lambda>i (pos, fill). (pos[fill ! h i := i mod 2 ^ 32], fill[h i := (fill ! h i + 1) mod 2 ^ 32]))
       [0..<n] (replicate n 0, fill)"

definition NewIndex :: "bytes \<Rightarrow> lz_index" where
  "NewIndex src =
     (let hb = hashBitsFor (length src); sh = 64 - hb; n = length src - 7;
          h = (\<lambda>i. ix_hash sh (drop i src)) in
      if n = 0 then
        \<lparr>ix_src = src, ix_bucket = replicate (2 ^ hb + 1) 0, ix_pos = [], ix_shift = sh, ix_probe = defaultProbe\<rparr>
      else
        let counts = ix_sum (ix_count h n (replicate (2 ^ hb + 1) 0)) in
        \<lparr>ix_src = src, ix_bucket = counts, ix_pos = fst (ix_place h n (take (2 ^ hb) counts)),
         ix_shift = sh, ix_probe = defaultProbe\<rparr>)"

definition SetProbe :: "nat \<Rightarrow> lz_index \<Rightarrow> lz_index" where
  "SetProbe n ix = ix\<lparr>ix_probe := max n 1\<rparr>"

section \<open>Match length\<close>

text \<open>
  \<^verbatim>\<open>matchLen\<close> compares eight bytes at a time: the first differing byte of two words is the
  number of trailing zero bits of their xor, over 8.
\<close>

fun ctz :: "nat \<Rightarrow> nat" where
  "ctz x = (if x = 0 \<or> odd x then 0 else Suc (ctz (x div 2)))"

declare ctz.simps [simp del]

function match_tail :: "bytes \<Rightarrow> bytes \<Rightarrow> nat \<Rightarrow> nat \<Rightarrow> nat" where
  "match_tail a b n i = (if i < n \<and> a ! i = b ! i then match_tail a b n (i + 1) else i)"
  by pat_completeness auto
termination
  by (relation "measure (\<lambda>(a, b, n, i). n - i)") auto

function match_loop :: "bytes \<Rightarrow> bytes \<Rightarrow> nat \<Rightarrow> nat \<Rightarrow> nat" where
  "match_loop a b n i =
     (if i + 8 \<le> n then
        (let x = le64 (drop i a) XOR le64 (drop i b) in
         if x \<noteq> 0 then i + ctz x div 8 else match_loop a b n (i + 8))
      else match_tail a b n i)"
  by pat_completeness auto
termination
  by (relation "measure (\<lambda>(a, b, n, i). n - i)") auto

declare match_tail.simps [simp del] match_loop.simps [simp del]

definition matchLen :: "bytes \<Rightarrow> bytes \<Rightarrow> nat" where
  "matchLen a b = match_loop a b (min (length a) (length b)) 0"

section \<open>Find\<close>

definition lz_try :: "bytes \<Rightarrow> nat list \<Rightarrow> bytes \<Rightarrow> nat \<Rightarrow> nat \<times> nat \<Rightarrow> int \<Rightarrow> nat \<times> nat" where
  "lz_try src ents dst p best i =
     (if i < 0 \<or> int (length ents) \<le> i then best
      else let e = ents ! nat i; l = matchLen (drop e src) (drop p dst) in
           if l > snd best then (e, l) else best)"

text \<open>The candidates in the order they are tried, as offsets into the bucket's entries.\<close>

fun far_probes :: "int \<Rightarrow> nat \<Rightarrow> nat \<Rightarrow> int list" where
  "far_probes k step 0 = []"
| "far_probes k step (Suc n) = [k - int step, k + int step - 1] @ far_probes k (step * 4) n"

definition probe_order :: "int \<Rightarrow> nat \<Rightarrow> nat \<Rightarrow> int list" where
  "probe_order k probe len =
     concat (map (\<lambda>d. [k - int d, k + int d - 1]) nearProbes) @
     far_probes k (length nearProbes) probe @ [0, int len - 1]"

definition Find :: "lz_index \<Rightarrow> bytes \<Rightarrow> nat \<Rightarrow> int \<Rightarrow> nat \<times> nat" where
  "Find ix dst p hint =
     (if p + 8 > length dst \<or> ix_pos ix = [] then (0, 0)
      else
        let best0 =
              (if 0 \<le> hint \<and> hint < int (length (ix_src ix)) then
                 let l = matchLen (drop (nat hint) (ix_src ix)) (drop p dst) in
                 if l \<ge> MinMatch then (nat hint, l) else (0, 0)
               else (0, 0));
            b = ix_hash (ix_shift ix) (drop p dst);
            ents = slice (ix_bucket ix ! b) (ix_bucket ix ! (b + 1)) (ix_pos ix) in
        if ents = [] then (if snd best0 < MinMatch then (0, 0) else best0)
        else
          let want = (if hint < 0 then int p else hint);
              k = sort_Search (length ents) (\<lambda>i. int (ents ! i) \<ge> want);
              best = foldl (lz_try (ix_src ix) ents dst p) best0
                       (probe_order (int k) (ix_probe ix) (length ents)) in
          if snd best < MinMatch then (0, 0) else best)"

section \<open>Emit\<close>

text \<open>
  The encoder loop, over the \<open>Find\<close> of an index: literals from \<open>litStart\<close>, a copy of \<open>l\<close>
  bytes after a seek of the source cursor, and the one-byte-later match where that is
  longer by more than the literal it costs.
\<close>

definition lazy_match :: "(bytes \<Rightarrow> nat \<Rightarrow> int \<Rightarrow> nat \<times> nat) \<Rightarrow> bytes \<Rightarrow> nat \<Rightarrow> nat \<Rightarrow> nat \<Rightarrow> nat \<Rightarrow> nat \<times> nat \<times> nat" where
  "lazy_match fnd dst cursor p q l =
     (if p + 1 < length dst \<and> snd (fnd dst (p + 1) (int cursor)) > l + 1
      then (p + 1, fnd dst (p + 1) (int cursor)) else (p, q, l))"

lemma lazy_match_progress:
  "(p', q', l') = lazy_match fnd dst cursor p q l \<Longrightarrow> l \<noteq> 0 \<Longrightarrow> p \<le> p' \<and> 0 < l'"
  by (auto simp: lazy_match_def split: if_splits) (metis gr0I not_less0 snd_conv)

function emit_loop :: "(bytes \<Rightarrow> nat \<Rightarrow> int \<Rightarrow> nat \<times> nat) \<Rightarrow> bytes \<Rightarrow> nat \<Rightarrow> nat \<Rightarrow> nat \<Rightarrow> bytes \<Rightarrow> bytes \<Rightarrow> bytes \<times> bytes" where
  "emit_loop fnd dst cursor p litStart ctrl lit =
     (if p < length dst then
        (case fnd dst p (int cursor) of (q, l) \<Rightarrow>
           if l = 0 then emit_loop fnd dst cursor (p + 1) litStart ctrl lit
           else
             (case lazy_match fnd dst cursor p q l of (p', q', l') \<Rightarrow>
                emit_loop fnd dst (q' + l') (p' + l') (p' + l')
                  (ctrl @ put_uvarint (p' - litStart) @ put_uvarint l' @ put_varint (int q' - int cursor))
                  (lit @ slice litStart p' dst)))
      else if litStart < length dst then
        (ctrl @ put_uvarint (length dst - litStart) @ put_uvarint 0 @ put_varint 0,
         lit @ drop litStart dst)
      else (ctrl, lit))"
  by pat_completeness auto
termination
  by (relation "measure (\<lambda>(fnd, dst, cursor, p, litStart, ctrl, lit). length dst - p)")
     (auto dest: lazy_match_progress)

declare emit_loop.simps [simp del]

definition ix_Emit :: "lz_index \<Rightarrow> bytes \<Rightarrow> bytes \<Rightarrow> bytes \<Rightarrow> bytes \<times> bytes" where
  "ix_Emit ix dst ctrl lit = emit_loop (Find ix) dst 0 0 0 ctrl lit"

definition lz_Emit :: "bytes \<Rightarrow> bytes \<Rightarrow> bytes \<Rightarrow> bytes \<Rightarrow> bytes \<times> bytes" where
  "lz_Emit src dst ctrl lit = ix_Emit (NewIndex src) dst ctrl lit"

section \<open>Apply\<close>

text \<open>
  \<^verbatim>\<open>Reader.Apply\<close> rebuilding \<open>n\<close> bytes: \<open>out\<close> is what is written so far, \<open>ctrl\<close> and \<open>lit\<close>
  the reader's streams.  The cursor and the end of a copy are \<^verbatim>\<open>int64\<close>, so both wrap; a
  copy whose wrapped end lies before its start passes the range check and the slice
  expression that follows panics.
\<close>

lemma drop_uvarint_shorter:
  "(v, n) = uvarint c \<Longrightarrow> \<not> n \<le> 0 \<Longrightarrow> length (drop k (drop j (drop (nat n) c))) < length c"
  by (cases c) (auto simp: uvarint_def)

function lz_apply :: "bytes \<Rightarrow> nat \<Rightarrow> int \<Rightarrow> bytes \<Rightarrow> bytes \<Rightarrow> bytes \<Rightarrow> derror + (bytes \<times> bytes \<times> bytes)" where
  "lz_apply src n cursor out ctrl lit =
     (if length out < n then
        (case uvarint ctrl of (nlit, n1) \<Rightarrow>
         if n1 \<le> 0 then Inl (LzErr ''truncated literal count'') else
         case uvarint (drop (nat n1) ctrl) of (ncopy, n2) \<Rightarrow>
         if n2 \<le> 0 then Inl (LzErr ''truncated copy count'') else
         case varint (drop (nat n2) (drop (nat n1) ctrl)) of (seek, n3) \<Rightarrow>
         if n3 \<le> 0 then Inl (LzErr ''truncated seek'') else
         let ctrl' = drop (nat n3) (drop (nat n2) (drop (nat n1) ctrl)) in
         if nlit > n - length out \<or> nlit > length lit then Inl (LzErr ''literals'') else
         let out' = out @ take nlit lit; lit' = drop nlit lit in
         if ncopy = 0 then
           (if seek \<noteq> 0 then Inl (LzErr ''seek without a copy'')
            else if nlit = 0 then Inl (LzErr ''empty op would not terminate'')
            else lz_apply src n cursor out' ctrl' lit')
         else
           let cursor' = wrap64 (cursor + seek); hi = wrap64 (cursor' + int64_of ncopy) in
           if cursor' < 0 \<or> ncopy > n - length out' \<or> hi > int (length src) then Inl (LzErr ''copy'')
           else if hi < cursor' then Inl Panic
           else lz_apply src n hi (out' @ slice (nat cursor') (nat hi) src) ctrl' lit')
      else Inr (out, ctrl, lit))"
  by pat_completeness auto
termination
proof (relation "measure (\<lambda>(src, n, cursor, out, ctrl, lit). length ctrl)", goal_cases)
  case 1
  show ?case by simp
next
  case 2
  show ?case using drop_uvarint_shorter[OF 2(2,3)] 2(8) by simp
next
  case 3
  show ?case using drop_uvarint_shorter[OF 3(2,3)] 3(8) by simp
qed

declare lz_apply.simps [simp del]

section \<open>The word-at-a-time comparison finds the common prefix\<close>

fun common_prefix :: "'a list \<Rightarrow> 'a list \<Rightarrow> nat" where
  "common_prefix (x # xs) (y # ys) = (if x = y then Suc (common_prefix xs ys) else 0)"
| "common_prefix _ _ = 0"

lemma common_prefix_le: "common_prefix a b \<le> length a" "common_prefix a b \<le> length b"
  by (induction a b rule: common_prefix.induct) auto

lemma take_common_prefix: "l \<le> common_prefix a b \<Longrightarrow> take l a = take l b"
proof (induction a b arbitrary: l rule: common_prefix.induct)
  case (1 x xs y ys)
  then show ?case by (cases l) (auto split: if_splits)
qed auto

lemma common_prefix_differ:
  "common_prefix a b < length a \<Longrightarrow> common_prefix a b < length b \<Longrightarrow>
   a ! common_prefix a b \<noteq> b ! common_prefix a b"
  by (induction a b rule: common_prefix.induct) auto

lemma common_prefix_eqI:
  assumes "k \<le> length a" "k \<le> length b" "take k a = take k b"
    and "k < length a \<Longrightarrow> k < length b \<Longrightarrow> a ! k \<noteq> b ! k"
  shows "common_prefix a b = k"
  using assms
proof (induction a b arbitrary: k rule: common_prefix.induct)
  case (1 x xs y ys)
  then show ?case by (cases k) auto
qed auto

lemma common_prefix_drop:
  assumes "take k a = take k b" "k \<le> length a" "k \<le> length b"
  shows "common_prefix a b = k + common_prefix (drop k a) (drop k b)"
  using assms
proof (induction k arbitrary: a b)
  case (Suc k)
  then show ?case by (cases a; cases b) auto
qed simp

lemma bit_add_high:
  fixes x m :: nat
  assumes "x < 2 ^ n"
  shows "bit (x + 2 ^ n * m) k \<longleftrightarrow> (if k < n then bit x k else bit m (k - n))"
proof (cases "k < n")
  case True
  then have "(2::nat) ^ n = 2 ^ k * 2 ^ (n - k)" by (simp flip: power_add)
  then have "(x + 2 ^ n * m) div 2 ^ k = (x + 2 ^ (n - k) * m * 2 ^ k) div 2 ^ k"
    by (simp add: ac_simps)
  then have "(x + 2 ^ n * m) div 2 ^ k = x div 2 ^ k + 2 ^ (n - k) * m"
    by simp
  moreover have "even ((2::nat) ^ (n - k) * m)" using True by simp
  ultimately show ?thesis using True by (simp add: bit_iff_odd)
next
  case False
  then have "(2::nat) ^ k = 2 ^ n * 2 ^ (k - n)" by (simp flip: power_add)
  then have "(x + 2 ^ n * m) div 2 ^ k = (x + 2 ^ n * m) div 2 ^ n div 2 ^ (k - n)"
    by (simp only: div_mult2_eq)
  also have "\<dots> = m div 2 ^ (k - n)" using assms by simp
  finally show ?thesis using False by (simp add: bit_iff_odd)
qed

lemma bit_le_nat: "bit (le_nat bs) k \<longleftrightarrow> k div 8 < length bs \<and> bit (bs ! (k div 8)) (k mod 8)"
proof (induction bs arbitrary: k)
  case Nil
  then show ?case by simp
next
  case (Cons b bs)
  have "unat b < 2 ^ 8" using byte_less[of b] by simp
  then have *: "bit (le_nat (b # bs)) k \<longleftrightarrow> (if k < 8 then bit (unat b) k else bit (le_nat bs) (k - 8))"
    using bit_add_high[of "unat b" 8 "le_nat bs" k] by simp
  show ?case
  proof (cases "k < 8")
    case True
    then show ?thesis using * by (simp add: bit_unsigned_iff)
  next
    case False
    then obtain j where "k = j + 8" by (metis add.commute le_Suc_ex not_less)
    moreover have "(j + 8) div 8 = Suc (j div 8)" by simp
    ultimately show ?thesis using * Cons.IH[of j] by simp
  qed
qed

lemma ctz_bits: "x \<noteq> 0 \<Longrightarrow> bit x (ctz x) \<and> (\<forall>j < ctz x. \<not> bit x j)"
proof (induction x rule: ctz.induct)
  case (1 x)
  show ?case
  proof (cases "odd x")
    case True
    then show ?thesis by (simp add: ctz.simps[of x] bit_0)
  next
    case False
    then have half: "x div 2 \<noteq> 0" using "1.prems" by auto
    note IH = "1.IH"[OF _ half]
    have z: "ctz x = Suc (ctz (x div 2))" using False "1.prems" by (simp add: ctz.simps[of x])
    have "\<not> bit x j" if "j < ctz x" for j
      using that z IH False "1.prems" by (cases j) (auto simp: bit_0 bit_Suc)
    then show ?thesis using z IH False "1.prems" by (simp add: bit_Suc)
  qed
qed

lemma byte_neq_bit:
  fixes a b :: byte
  assumes "a \<noteq> b"
  obtains j where "j < 8" "bit a j \<noteq> bit b j"
  using assms bit_word_eqI[of a b] by auto

lemma ctz_xor_le:
  assumes len: "length u = length v" and ne: "u \<noteq> v"
  shows "ctz (le_nat u XOR le_nat v) div 8 = common_prefix u v"
proof -
  define x where "x = le_nat u XOR le_nat v"
  define k where "k = common_prefix u v"
  have bx: "bit x j \<longleftrightarrow> j div 8 < length u \<and> bit (u ! (j div 8)) (j mod 8) \<noteq> bit (v ! (j div 8)) (j mod 8)" for j
    using len by (auto simp: x_def bit_xor_iff bit_le_nat)
  have k: "k < length u"
  proof (rule ccontr)
    assume "\<not> k < length u"
    then have "k = length u" "k = length v" using common_prefix_le[of u v] len k_def by auto
    then show False using take_common_prefix[of k u v] ne by (simp add: k_def)
  qed
  then have "u ! k \<noteq> v ! k" using common_prefix_differ[of u v] len k_def by simp
  then obtain j where j: "j < 8" "bit (u ! k) j \<noteq> bit (v ! k) j" by (rule byte_neq_bit)
  then have bk: "bit x (8 * k + j)" using k by (simp add: bx)
  then have x0: "x \<noteq> 0" by (metis bit_0_eq bot_apply bot_bool_def)
  have "ctz x \<le> 8 * k + j" using ctz_bits[OF x0] bk by (meson not_le)
  moreover have "k \<le> ctz x div 8"
  proof (rule ccontr)
    assume "\<not> k \<le> ctz x div 8"
    then have "u ! (ctz x div 8) = v ! (ctz x div 8)"
      using take_common_prefix[of k u v] by (metis k_def le_refl not_le nth_take)
    then show False using ctz_bits[OF x0] bx by auto
  qed
  ultimately show ?thesis using j(1) by (simp add: x_def k_def)
qed

lemma le_nat_inj: "length u = length v \<Longrightarrow> le_nat u = le_nat v \<Longrightarrow> u = v"
proof (induction u v rule: list_induct2)
  case (Cons b bs c cs)
  have eq: "unat b + 256 * le_nat bs = unat c + 256 * le_nat cs" using Cons.prems by simp
  have "unat b = (unat b + 256 * le_nat bs) mod 256" using byte_less[of b] by simp
  also have "\<dots> = unat c" unfolding eq using byte_less[of c] by simp
  finally have "unat b = unat c" .
  moreover from this eq have "le_nat bs = le_nat cs" by simp
  ultimately show ?case using Cons.IH by (simp add: word_unat_eq_iff)
qed simp

lemma nat_xor_0: "x XOR y = 0 \<Longrightarrow> x = (y::nat)"
  by (rule bit_eqI) (metis bit_0_eq bit_xor_iff bot_apply bot_bool_def)

lemma match_tail_eq:
  assumes "n = min (length a) (length b)" "i \<le> n"
  shows "match_tail a b n i = i + common_prefix (drop i a) (drop i b)"
  using assms
proof (induction a b n i rule: match_tail.induct)
  case (1 a b n i)
  note unfold = match_tail.simps[of a b n i]
  show ?case
  proof (cases "i < n")
    case True
    then have "drop i a = a ! i # drop (Suc i) a" "drop i b = b ! i # drop (Suc i) b"
      using "1.prems" by (simp_all add: Cons_nth_drop_Suc)
    then show ?thesis using True 1 unfold by auto
  next
    case False
    then have "drop i a = [] \<or> drop i b = []" using "1.prems" by (auto simp: min_def split: if_splits)
    then show ?thesis using False unfold by auto
  qed
qed

lemma match_loop_eq:
  assumes "n = min (length a) (length b)" "i \<le> n"
  shows "match_loop a b n i = i + common_prefix (drop i a) (drop i b)"
  using assms
proof (induction a b n i rule: match_loop.induct)
  case (1 a b n i)
  note unfold = match_loop.simps[of a b n i]
  show ?case
  proof (cases "i + 8 \<le> n")
    case False
    then show ?thesis using match_tail_eq[OF "1.prems"] unfold by simp
  next
    case True
    define u v where "u = take 8 (drop i a)" and "v = take 8 (drop i b)"
    have len: "length u = 8" "length v = 8" using True "1.prems" by (auto simp: u_def v_def)
    have x: "le64 (drop i a) XOR le64 (drop i b) = le_nat u XOR le_nat v"
      by (simp add: le64_def u_def v_def)
    show ?thesis
    proof (cases "u = v")
      case eq: True
      then have "match_loop a b n i = match_loop a b n (i + 8)"
        using True x unfold by simp
      moreover have "common_prefix (drop i a) (drop i b) = 8 + common_prefix (drop (i + 8) a) (drop (i + 8) b)"
        using common_prefix_drop[of 8 "drop i a" "drop i b"] eq True "1.prems"
        by (auto simp: u_def v_def add.commute)
      ultimately show ?thesis using "1.IH"[OF True refl] x eq "1.prems" True by simp
    next
      case ne: False
      have lt: "common_prefix u v < 8"
        using ne len take_common_prefix[of 8 u v] by (metis common_prefix_le(1) le_neq_implies_less le_refl take_all)
      have "common_prefix (drop i a) (drop i b) = common_prefix u v"
      proof (rule common_prefix_eqI)
        show "take (common_prefix u v) (drop i a) = take (common_prefix u v) (drop i b)"
          using take_common_prefix[of "common_prefix u v" u v] lt by (simp add: u_def v_def)
        show "drop i a ! common_prefix u v \<noteq> drop i b ! common_prefix u v"
          using common_prefix_differ[of u v] lt len by (simp add: u_def v_def)
      qed (use lt len in \<open>auto simp: u_def v_def\<close>)
      moreover have "le_nat u XOR le_nat v \<noteq> 0" using le_nat_inj[of u v] len ne nat_xor_0 by auto
      ultimately show ?thesis using ctz_xor_le[of u v] len ne True x unfold by simp
    qed
  qed
qed

lemma matchLen_common_prefix: "matchLen a b = common_prefix a b"
  using match_loop_eq[of "min (length a) (length b)" a b 0] by (simp add: matchLen_def)

section \<open>Every match found is a match\<close>

text \<open>
  The interface the encoders use: \<open>fnd dst p hint\<close> is either no match (length 0) or a
  position and a length of at least \<open>MinMatch\<close> at which the source and \<open>dst\<close> agree, within
  both buffers.
\<close>

definition match_at :: "bytes \<Rightarrow> bytes \<Rightarrow> nat \<Rightarrow> nat \<times> nat \<Rightarrow> bool" where
  "match_at src dst p m \<longleftrightarrow>
     (case m of (q, l) \<Rightarrow> q + l \<le> length src \<and>
        (l = 0 \<or> p + l \<le> length dst \<and> slice q (q + l) src = slice p (p + l) dst))"

lemma match_at_matchLen:
  assumes "q \<le> length src" "p \<le> length dst"
  shows "match_at src dst p (q, matchLen (drop q src) (drop p dst))"
proof -
  define l where "l = matchLen (drop q src) (drop p dst)"
  have "l \<le> length (drop q src)" "l \<le> length (drop p dst)"
    using common_prefix_le[of "drop q src" "drop p dst"] by (simp_all add: l_def matchLen_common_prefix)
  moreover have "take l (drop q src) = take l (drop p dst)"
    by (rule take_common_prefix) (simp add: l_def matchLen_common_prefix)
  ultimately show ?thesis using assms by (auto simp: match_at_def slice_def simp flip: l_def)
qed

lemma match_at_zero [simp]: "match_at src dst p (q, 0) \<longleftrightarrow> q \<le> length src"
  by (simp add: match_at_def)

lemma lz_try_match:
  assumes "match_at src dst p best" "p \<le> length dst"
  shows "match_at src dst p (lz_try src ents dst p best i)"
proof (cases "ents ! nat i \<le> length src")
  case True
  then show ?thesis using assms match_at_matchLen by (simp add: lz_try_def Let_def)
next
  case False
  then have "matchLen (drop (ents ! nat i) src) (drop p dst) = 0"
    using common_prefix_le(1)[of "drop (ents ! nat i) src"] by (simp add: matchLen_common_prefix)
  then show ?thesis using assms by (simp add: lz_try_def Let_def)
qed

lemma foldl_lz_try_match:
  "match_at src dst p best \<Longrightarrow> p \<le> length dst \<Longrightarrow>
   match_at src dst p (foldl (lz_try src ents dst p) best is)"
  by (induction "is" arbitrary: best) (simp_all add: lz_try_match)

lemma Find_match: "match_at (ix_src ix) dst p (Find ix dst p hint)"
proof (cases "p + 8 > length dst \<or> ix_pos ix = []")
  case True
  then show ?thesis by (auto simp: Find_def)
next
  case False
  then have p: "p \<le> length dst" by simp
  have "0 \<le> hint \<Longrightarrow> hint < int (length (ix_src ix)) \<Longrightarrow>
      match_at (ix_src ix) dst p (nat hint, matchLen (drop (nat hint) (ix_src ix)) (drop p dst))"
    by (rule match_at_matchLen[OF _ p]) simp
  then show ?thesis using False p by (simp add: Find_def Let_def foldl_lz_try_match)
qed

lemma Find_length: "snd (Find ix dst p hint) = 0 \<or> MinMatch \<le> snd (Find ix dst p hint)"
  by (simp add: Find_def Let_def)

lemma ix_src_NewIndex [simp]: "ix_src (NewIndex src) = src"
  by (simp add: NewIndex_def Let_def)

lemma ix_src_SetProbe [simp]: "ix_src (SetProbe n ix) = ix_src ix"
  by (simp add: SetProbe_def)

section \<open>What is emitted rebuilds the destination\<close>

locale match_index =
  fixes fnd :: "bytes \<Rightarrow> nat \<Rightarrow> int \<Rightarrow> nat \<times> nat" and src :: bytes
  assumes fnd_match: "match_at src dst p (fnd dst p hint)"
begin

lemma fnd_bounds:
  assumes "fnd dst p hint = (q, l)" "l \<noteq> 0"
  shows "q + l \<le> length src" "p + l \<le> length dst" "slice q (q + l) src = slice p (p + l) dst"
  using fnd_match[of dst p hint] assms by (auto simp: match_at_def)

lemma fnd_pos: "fst (fnd dst p hint) + snd (fnd dst p hint) \<le> length src"
  using fnd_match[of dst p hint] by (auto simp: match_at_def)

lemma lazy_match_bounds:
  assumes "fnd dst p (int cursor) = (q, l)" "l \<noteq> 0" "lazy_match fnd dst cursor p q l = (p', q', l')"
  shows "p \<le> p' \<and> 0 < l' \<and> q' + l' \<le> length src \<and> p' + l' \<le> length dst \<and>
    slice q' (q' + l') src = slice p' (p' + l') dst"
proof (cases "p + 1 < length dst \<and> snd (fnd dst (p + 1) (int cursor)) > l + 1")
  case True
  then have "fnd dst (p + 1) (int cursor) = (q', l')" "p' = p + 1"
    using assms(3) by (auto simp: lazy_match_def)
  then show ?thesis using True fnd_bounds[of dst "p + 1" "int cursor" q' l'] by auto
next
  case False
  then have "lazy_match fnd dst cursor p q l = (p, q, l)" unfolding lazy_match_def by argo
  then show ?thesis using assms fnd_bounds[OF assms(1,2)] by auto
qed

text \<open>One decoded op: the literals from \<open>litStart\<close> and a copy that is a match.\<close>

lemma lz_apply_op:
  assumes "litStart \<le> p" "0 < l" "q + l \<le> length src" "p + l \<le> length dst"
    and "slice q (q + l) src = slice p (p + l) dst"
    and "cursor \<le> length src" "length src < 2 ^ 63" "length dst < 2 ^ 63"
  shows "lz_apply src (length dst) (int cursor) (take litStart dst)
      (put_uvarint (p - litStart) @ put_uvarint l @ put_varint (int q - int cursor) @ c) (slice litStart p dst @ t)
    = lz_apply src (length dst) (int (q + l)) (take (p + l) dst) c t"
proof -
  have lt: "p - litStart < 2 ^ 64" "l < 2 ^ 64" "in_int64 (int q - int cursor)"
    using assms by (auto simp: in_int64_def)
  have w: "wrap64 (int q) = int q" "int64_of l = int l" "wrap64 (int q + int l) = int q + int l"
    using assms by (auto simp: int64_of_def wrap64_id in_int64_def)
  have out: "take litStart dst @ slice litStart p dst @ slice q (q + l) src = take (p + l) dst"
    using take_slice[of litStart p dst] take_slice[of p "p + l" dst] assms(1,5)
    by (metis append.assoc le_add1)
  have ar: "nat (int q + int l) = q + l" "\<not> length dst - p < l" "p - litStart \<le> length dst - litStart"
    "\<not> p + length t - litStart < p - litStart" using assms by auto
  then show ?thesis
    using assms w out
    by (subst lz_apply.simps)
       (simp add: uvarint_put[OF lt(1)] uvarint_put[OF lt(2)] varint_put[OF lt(3)] Let_def min_def)
qed

lemma lz_apply_tail:
  assumes "litStart < length dst" "length dst < 2 ^ 63"
  shows "lz_apply src (length dst) cursor (take litStart dst)
      (put_uvarint (length dst - litStart) @ put_uvarint 0 @ put_varint 0 @ c) (drop litStart dst @ t)
    = Inr (dst, c, t)"
proof -
  have lt: "length dst - litStart < 2 ^ 64" "(0::nat) < 2 ^ 64" "in_int64 0"
    using assms by (auto simp: in_int64_def)
  show ?thesis using assms
    by (subst lz_apply.simps)
       (simp add: uvarint_put[OF lt(1)] uvarint_put[OF lt(2)] varint_put[OF lt(3)] Let_def
          lz_apply.simps[of _ _ _ dst] diff_le_mono)
qed

lemma emit_apply:
  assumes "litStart \<le> p" "litStart \<le> length dst" "cursor \<le> length src"
    and "length src < 2 ^ 63" "length dst < 2 ^ 63"
  shows "\<exists>c l. emit_loop fnd dst cursor p litStart ctrl lit = (ctrl @ c, lit @ l) \<and>
    (\<forall>c' l'. lz_apply src (length dst) (int cursor) (take litStart dst) (c @ c') (l @ l') = Inr (dst, c', l'))"
  using assms
proof (induction "length dst - p" arbitrary: p cursor litStart ctrl lit rule: less_induct)
  case less
  note unfold = emit_loop.simps[of fnd dst cursor p litStart ctrl lit]
  consider (fin) "\<not> p < length dst" "litStart = length dst" | (tail) "\<not> p < length dst" "litStart < length dst"
    | (step) "p < length dst" using less.prems(2) by linarith
  then show ?case
  proof cases
    case fin
    then show ?thesis using unfold by (simp add: lz_apply.simps[of _ _ _ dst])
  next
    case tail
    then show ?thesis using unfold lz_apply_tail[OF tail(2) less.prems(5)] by simp
  next
    case step
    obtain q l where f: "fnd dst p (int cursor) = (q, l)" by force
    show ?thesis
    proof (cases "l = 0")
      case True
      then show ?thesis using less.hyps[of "p + 1" litStart cursor ctrl lit] less.prems step unfold f by simp
    next
      case False
      obtain p' q' l' where m: "lazy_match fnd dst cursor p q l = (p', q', l')"
        by (cases "lazy_match fnd dst cursor p q l") auto
      note b = lazy_match_bounds[OF f False m]
      have "length dst - (p' + l') < length dst - p" using b step by auto
      note rec = less.hyps[of "p' + l'" "p' + l'" "q' + l'"
          "ctrl @ put_uvarint (p' - litStart) @ put_uvarint l' @ put_varint (int q' - int cursor)"
          "lit @ slice litStart p' dst", OF this]
      have "q' + l' \<le> length src" "p' + l' \<le> length dst" using b by auto
      note rec = rec[OF le_refl this(2,1) less.prems(4,5)]
      obtain c t where ct: "emit_loop fnd dst (q' + l') (p' + l') (p' + l')
          (ctrl @ put_uvarint (p' - litStart) @ put_uvarint l' @ put_varint (int q' - int cursor))
          (lit @ slice litStart p' dst)
        = ((ctrl @ put_uvarint (p' - litStart) @ put_uvarint l' @ put_varint (int q' - int cursor)) @ c,
           (lit @ slice litStart p' dst) @ t)"
        and dec: "\<And>c' t'. lz_apply src (length dst) (int (q' + l')) (take (p' + l') dst) (c @ c') (t @ t') = Inr (dst, c', t')"
        using rec by blast
      show ?thesis
        using lz_apply_op[of litStart p' l' q' dst cursor] b less.prems step unfold f False m ct dec
        by simp
    qed
  qed
qed

end

interpretation lzi: match_index "Find (NewIndex src)" src for src
  by unfold_locales (metis Find_match ix_src_NewIndex)

interpretation lzp: match_index "Find (SetProbe n (NewIndex src))" src for n src
  by unfold_locales (metis Find_match ix_src_NewIndex ix_src_SetProbe)

lemma lz_Emit_apply:
  assumes "length src < 2 ^ 63" "length dst < 2 ^ 63"
  shows "\<exists>c l. lz_Emit src dst ctrl lit = (ctrl @ c, lit @ l) \<and>
    (\<forall>c' l'. lz_apply src (length dst) 0 [] (c @ c') (l @ l') = Inr (dst, c', l'))"
  using lzi.emit_apply[of 0 0 dst 0 src ctrl lit] assms by (simp add: lz_Emit_def ix_Emit_def)

section \<open>The buckets of the index\<close>

text \<open>
  \<open>NewIndex\<close> is a counting sort: bucket \<open>b\<close> of the finished index is exactly the ascending
  list of the source positions whose six leading bytes hash to \<open>b\<close>.
\<close>

definition cnt :: "(nat \<Rightarrow> nat) \<Rightarrow> nat \<Rightarrow> nat \<Rightarrow> nat" where
  "cnt h n b = length (filter (\<lambda>i. h i = b) [0..<n])"

definition below :: "(nat \<Rightarrow> nat) \<Rightarrow> nat \<Rightarrow> nat \<Rightarrow> nat" where
  "below h n b = length (filter (\<lambda>i. h i < b) [0..<n])"

lemma cnt_Suc: "cnt h (Suc n) b = cnt h n b + (if h n = b then 1 else 0)"
  by (simp add: cnt_def)

lemma below_Suc_bucket: "below h n (Suc b) = below h n b + cnt h n b"
  by (induction n) (auto simp: below_def cnt_def less_Suc_eq)

lemma below_0 [simp]: "below h n 0 = 0"
  by (simp add: below_def)

lemma below_le: "below h n b \<le> n"
  using length_filter_le[of "\<lambda>i. h i < b" "[0..<n]"] by (simp add: below_def)

lemma cnt_mono: "m \<le> n \<Longrightarrow> cnt h m b \<le> cnt h n b"
  by (induction rule: dec_induct) (simp_all add: cnt_Suc)

lemma below_mono: "b \<le> c \<Longrightarrow> below h n b \<le> below h n c"
  by (induction rule: dec_induct) (simp_all add: below_Suc_bucket)

lemma ix_count_Suc:
  "ix_count h (Suc n) c = (let c' = ix_count h n c in c'[h n + 1 := (c' ! (h n + 1) + 1) mod 2 ^ 32])"
  by (simp add: ix_count_def Let_def)

lemma length_ix_count [simp]: "length (ix_count h n c) = length c"
  by (induction n) (simp_all add: ix_count_Suc Let_def, simp add: ix_count_def)

lemma nth_ix_count:
  assumes "\<And>i. i < n \<Longrightarrow> h i < B" "n < 2 ^ 32" "b \<le> B"
  shows "ix_count h n (replicate (B + 1) 0) ! b = (case b of 0 \<Rightarrow> 0 | Suc b' \<Rightarrow> cnt h n b')"
  using assms
proof (induction n)
  case 0
  then show ?case by (simp add: ix_count_def cnt_def split: nat.splits)
next
  case (Suc n)
  have "cnt h n (h n) \<le> n" using length_filter_le[of "\<lambda>i. h i = h n" "[0..<n]"] by (simp add: cnt_def)
  then have "cnt h n (h n) + 1 < 2 ^ 32" using Suc.prems(2) by linarith
  then have "(cnt h n (h n) + 1) mod 2 ^ 32 = cnt h n (h n) + 1" by (rule mod_less)
  then show ?case
    using Suc by (auto simp: ix_count_Suc Let_def nth_list_update cnt_Suc split: nat.splits)
qed

lemma ix_sum_prefix:
  assumes "\<And>b. b < length c \<Longrightarrow> c ! b = (case b of 0 \<Rightarrow> 0 | Suc b' \<Rightarrow> cnt h n b')"
    and "n < 2 ^ 32" "0 < m" "m \<le> length c"
  defines "acc \<equiv> \<lambda>m. fold (\<lambda>b c. c[b := (c ! b + c ! (b - 1)) mod 2 ^ 32]) [1..<m] c"
  shows "length (acc m) = length c \<and> (\<forall>b < length c. acc m ! b = (if b < m then below h n b else c ! b))"
proof -
  have acc_1: "acc (Suc 0) = c" by (simp add: acc_def)
  have acc_Suc: "acc (Suc (Suc k)) = (acc (Suc k))[Suc k := (acc (Suc k) ! Suc k + acc (Suc k) ! k) mod 2 ^ 32]" for k
    by (simp add: acc_def)
  have "m = Suc (m - 1)" using assms(3) by simp
  moreover have "length (acc (Suc k)) = length c \<and>
      (\<forall>b < length c. acc (Suc k) ! b = (if b < Suc k then below h n b else c ! b))"
    if "Suc k \<le> length c" for k
    using that
  proof (induction k)
    case 0
    have "c ! 0 = 0" using assms(1)[of 0] 0 by (cases c) auto
    then show ?case by (auto simp: acc_1 less_Suc_eq)
  next
    case (Suc k)
    then have IH: "length (acc (Suc k)) = length c"
      "b < length c \<Longrightarrow> acc (Suc k) ! b = (if b < Suc k then below h n b else c ! b)" for b by auto
    have "below h n (Suc k) < 2 ^ 32" using below_le[of h n "Suc k"] assms(2) by linarith
    moreover have "c ! Suc k + below h n k = below h n (Suc k)"
      using assms(1)[of "Suc k"] Suc.prems by (simp add: below_Suc_bucket)
    ultimately have "(acc (Suc k) ! Suc k + acc (Suc k) ! k) mod 2 ^ 32 = below h n (Suc k)"
      using IH(2)[of k] IH(2)[of "Suc k"] Suc.prems by simp
    then show ?case using IH by (auto simp: acc_Suc nth_list_update less_Suc_eq)
  qed
  ultimately show ?thesis using assms(4) by metis
qed

lemma nth_ix_sum_count:
  assumes "\<And>i. i < n \<Longrightarrow> h i < B" "n < 2 ^ 32"
  shows "length (ix_sum (ix_count h n (replicate (B + 1) 0))) = B + 1"
    and "b \<le> B \<Longrightarrow> ix_sum (ix_count h n (replicate (B + 1) 0)) ! b = below h n b"
  using ix_sum_prefix[of "ix_count h n (replicate (B + 1) 0)" h n "B + 1"]
    nth_ix_count[OF assms] assms(2)
  by (auto simp: ix_sum_def less_Suc_eq_le)

definition placed :: "(nat \<Rightarrow> nat) \<Rightarrow> nat \<Rightarrow> nat \<Rightarrow> nat \<Rightarrow> nat list \<times> nat list \<Rightarrow> bool" where
  "placed h B n m st \<longleftrightarrow> (case st of (pos, fill) \<Rightarrow>
     length pos = n \<and> length fill = B \<and> (\<forall>b < B. fill ! b = below h n b + cnt h m b \<and>
       (\<forall>j < cnt h m b. pos ! (below h n b + j) = filter (\<lambda>i. h i = b) [0..<m] ! j)))"

lemma bucket_disjoint:
  assumes "m < n" "j < cnt h m b" "b \<noteq> h m"
  shows "below h n b + j \<noteq> below h n (h m) + cnt h m (h m)"
proof (cases "b < h m")
  case True
  have "below h n b + j < below h n (Suc b)" using assms cnt_mono[of m n h b] by (simp add: below_Suc_bucket)
  also have "\<dots> \<le> below h n (h m)" using True by (intro below_mono) simp
  finally show ?thesis by simp
next
  case False
  have "cnt h m (h m) < cnt h n (h m)" using cnt_mono[of "Suc m" n h "h m"] assms(1) by (simp add: cnt_Suc)
  then have "below h n (h m) + cnt h m (h m) < below h n (Suc (h m))" by (simp add: below_Suc_bucket)
  also have "\<dots> \<le> below h n b" using False assms(3) by (intro below_mono) simp
  finally show ?thesis by simp
qed

lemma cnt_slot: "m < n \<Longrightarrow> below h n (h m) + cnt h m (h m) < n"
  using cnt_mono[of "Suc m" n h "h m"] below_le[of h n "Suc (h m)"]
  by (simp add: cnt_Suc below_Suc_bucket)

lemma nth_filter_Suc:
  "j < cnt h (Suc m) b \<Longrightarrow> filter (\<lambda>i. h i = b) [0..<Suc m] ! j =
     (if j < cnt h m b then filter (\<lambda>i. h i = b) [0..<m] ! j else m)"
  by (auto simp: cnt_def nth_append split: if_splits)

lemma placed_step:
  assumes "placed h B n m (pos, fill)" "m < n" "\<And>i. i < n \<Longrightarrow> h i < B" "n < 2 ^ 32"
  shows "placed h B n (Suc m) (pos[fill ! h m := m mod 2 ^ 32], fill[h m := (fill ! h m + 1) mod 2 ^ 32])"
proof -
  have hm: "h m < B" using assms by simp
  have inv: "length pos = n" "length fill = B" "b < B \<Longrightarrow> fill ! b = below h n b + cnt h m b"
    "b < B \<Longrightarrow> j < cnt h m b \<Longrightarrow> pos ! (below h n b + j) = filter (\<lambda>i. h i = b) [0..<m] ! j" for b j
    using assms(1) by (auto simp: placed_def)
  define w where "w = below h n (h m) + cnt h m (h m)"
  have fw: "fill ! h m = w" using inv(3)[OF hm] by (simp add: w_def)
  have w: "w < n" using cnt_slot[OF assms(2)] by (simp add: w_def)
  have modw: "(w + 1) mod 2 ^ 32 = w + 1" "m mod 2 ^ 32 = m"
    by (rule mod_less, use w assms in linarith)+
  have fill': "fill[h m := w + 1] ! b = below h n b + cnt h (Suc m) b" if "b < B" for b
    using that inv hm by (auto simp: nth_list_update cnt_Suc w_def)
  have pos': "pos[w := m] ! (below h n b + j) = filter (\<lambda>i. h i = b) [0..<Suc m] ! j"
    if "b < B" "j < cnt h (Suc m) b" for b j
  proof (cases "j < cnt h m b")
    case True
    have "below h n b + j \<noteq> w"
      using bucket_disjoint[OF assms(2) True] True by (cases "b = h m") (auto simp: w_def)
    then show ?thesis using inv(4)[OF that(1) True] True that nth_filter_Suc[OF that(2)] by simp
  next
    case False
    then have "b = h m" "j = cnt h m b" using that(2) by (auto simp: cnt_Suc split: if_splits)
    then show ?thesis using w inv(1) False nth_filter_Suc[OF that(2)] by (simp add: w_def)
  qed
  show ?thesis using inv(1,2) fill' pos' modw fw by (simp add: placed_def)
qed

lemma ix_place_bucket:
  assumes "\<And>i. i < n \<Longrightarrow> h i < B" "n < 2 ^ 32" "length fill = B" "\<And>b. b < B \<Longrightarrow> fill ! b = below h n b"
  shows "placed h B n n (ix_place h n fill)"
proof -
  have "placed h B n m (fold (\<lambda>i (pos, fill). (pos[fill ! h i := i mod 2 ^ 32], fill[h i := (fill ! h i + 1) mod 2 ^ 32]))
       [0..<m] (replicate n 0, fill))" if "m \<le> n" for m
    using that
  proof (induction m)
    case 0
    then show ?case using assms(3,4) by (simp add: placed_def cnt_def)
  next
    case (Suc m)
    then show ?case using placed_step[of h B n m, OF _ _ assms(1,2)]
      by (auto simp del: One_nat_def split: prod.splits)
  qed
  then show ?thesis by (simp add: ix_place_def)
qed

lemma placed_slice:
  assumes "placed h B n n st" "b < B"
  shows "slice (below h n b) (below h n (Suc b)) (fst st) = filter (\<lambda>i. h i = b) [0..<n]"
proof (rule nth_equalityI)
  have "below h n (Suc b) \<le> length (fst st)" using assms below_le[of h n "Suc b"] by (auto simp: placed_def)
  then show len: "length (slice (below h n b) (below h n (Suc b)) (fst st)) = length (filter (\<lambda>i. h i = b) [0..<n])"
    by (auto simp: below_Suc_bucket simp flip: cnt_def)
  show "slice (below h n b) (below h n (Suc b)) (fst st) ! j = filter (\<lambda>i. h i = b) [0..<n] ! j"
    if "j < length (slice (below h n b) (below h n (Suc b)) (fst st))" for j
    using assms that len by (auto simp: placed_def below_Suc_bucket simp flip: cnt_def)
qed

lemma ix_hash_less:
  assumes "hb \<le> 64"
  shows "ix_hash (64 - hb) b < 2 ^ hb"
proof -
  have "le64 b mod 2 ^ 48 * hashMul mod 2 ^ 64 < 2 ^ hb * 2 ^ (64 - hb)"
    using assms by (simp flip: power_add)
  then have "le64 b mod 2 ^ 48 * hashMul mod 2 ^ 64 div 2 ^ (64 - hb) < 2 ^ hb"
    by (rule less_mult_imp_div_less)
  moreover have "ix_hash (64 - hb) b \<le> le64 b mod 2 ^ 48 * hashMul mod 2 ^ 64 div 2 ^ (64 - hb)"
    unfolding ix_hash_def by (rule mod_less_eq_dividend)
  ultimately show ?thesis by (rule le_less_trans[rotated])
qed

lemma hashBitsFor_le: "hashBitsFor n \<le> 64"
  by (simp add: hashBitsFor_def)

lemma NewIndex_bucket:
  assumes "length src < 2 ^ 32" "b < 2 ^ hashBitsFor (length src)"
  shows "slice (ix_bucket (NewIndex src) ! b) (ix_bucket (NewIndex src) ! (b + 1)) (ix_pos (NewIndex src)) =
    filter (\<lambda>i. ix_hash (ix_shift (NewIndex src)) (drop i src) = b) [0..<length src - 7]"
proof -
  define hb where "hb = hashBitsFor (length src)"
  define n where "n = length src - 7"
  define h where "h = (\<lambda>i. ix_hash (64 - hb) (drop i src))"
  define c where "c = ix_sum (ix_count h n (replicate (2 ^ hb + 1) 0))"
  have h: "h i < 2 ^ hb" for i
    unfolding h_def by (rule ix_hash_less) (simp add: hb_def hashBitsFor_le)
  have n: "n < 2 ^ 32" using assms(1) by (simp add: n_def)
  have ix: "NewIndex src = (if n = 0 then
      \<lparr>ix_src = src, ix_bucket = replicate (2 ^ hb + 1) 0, ix_pos = [], ix_shift = 64 - hb, ix_probe = defaultProbe\<rparr>
    else \<lparr>ix_src = src, ix_bucket = c, ix_pos = fst (ix_place h n (take (2 ^ hb) c)),
         ix_shift = 64 - hb, ix_probe = defaultProbe\<rparr>)"
    unfolding NewIndex_def Let_def hb_def n_def c_def h_def by (rule refl)
  show ?thesis
  proof (cases "n = 0")
    case True
    then show ?thesis using ix n_def by (simp add: slice_def)
  next
    case False
    note c = nth_ix_sum_count[OF h n]
    have "placed h (2 ^ hb) n n (ix_place h n (take (2 ^ hb) c))"
      using c(1) c(2) by (intro ix_place_bucket h n) (auto simp: c_def)
    then have "slice (below h n b) (below h n (Suc b)) (fst (ix_place h n (take (2 ^ hb) c))) =
        filter (\<lambda>i. h i = b) [0..<n]"
      using assms(2) by (intro placed_slice) (auto simp: hb_def)
    moreover have "c ! b = below h n b" "c ! (b + 1) = below h n (Suc b)"
      using assms(2) c(2) by (auto simp: c_def hb_def)
    ultimately show ?thesis using False by (simp add: ix) (simp add: h_def n_def)
  qed
qed

section \<open>A copy whose end wraps\<close>

text \<open>
  The range check of a copy is computed in \<^verbatim>\<open>int64\<close>: at the largest cursor a copy of one
  byte ends at the smallest integer, passes the check and the slice panics.
\<close>

lemma lz_apply_wraps: "lz_apply [7] 1 0 [] (put_uvarint 0 @ put_uvarint 1 @ put_varint (2 ^ 63 - 1)) [] = Inl Panic"
proof -
  have u: "uvarint (put_uvarint 0 @ put_uvarint 1 @ put_varint (2 ^ 63 - 1)) = (0, int (length (put_uvarint 0)))"
    "uvarint (put_uvarint 1 @ put_varint (2 ^ 63 - 1)) = (1, int (length (put_uvarint 1)))"
    "varint (put_varint (2 ^ 63 - 1)) = (2 ^ 63 - 1, int (length (put_varint (2 ^ 63 - 1))))"
    using uvarint_put[of 0] uvarint_put[of 1] varint_put[of "2 ^ 63 - 1" "[]"] by (simp_all add: in_int64_def)
  show ?thesis
    by (subst lz_apply.simps) (simp add: u[simplified] wrap64_def int64_of_def Let_def)
qed

end
