(* ===== verification/Runs.thy ===== *)
theory Runs
  imports Prelude
begin

text \<open>
  The scan for differing regions that the plain codec's difference writer and the
  correction encoder both run: from the first differing element a region grows over
  stretches of fewer than \<open>gap\<close> equal elements.  The two callers in \<^verbatim>\<open>delta/plain.go\<close> and
  \<^verbatim>\<open>delta/correct.go\<close> contain the same two nested loops.
\<close>

function gap_scan :: "nat \<Rightarrow> 'a list \<Rightarrow> 'a list \<Rightarrow> nat \<Rightarrow> nat \<Rightarrow> nat" where
  "gap_scan gap a b e k =
     (if k < length a \<and> k - e < gap \<and> a ! k = b ! k then gap_scan gap a b e (k + 1) else k)"
  by pat_completeness auto
termination
  by (relation "measure (\<lambda>(gap, a, b, e, k). length a - k)") auto

declare gap_scan.simps [simp del]

lemma gap_scan_ge: "k \<le> gap_scan gap a b e k"
proof (induction gap a b e k rule: gap_scan.induct)
  case (1 gap a b e k)
  then show ?case by (subst gap_scan.simps) (auto dest: Suc_leD)
qed

function region_end :: "nat \<Rightarrow> 'a list \<Rightarrow> 'a list \<Rightarrow> nat \<Rightarrow> nat" where
  "region_end gap a b e =
     (if e < length a then
        let k = gap_scan gap a b e e in
        if k - e < gap \<and> k < length a then region_end gap a b (k + 1) else e
      else e)"
  by pat_completeness auto
termination
proof (relation "measure (\<lambda>(gap, a, b, e). length a - e)", goal_cases)
  case (2 gap a b e k)
  then show ?case using gap_scan_ge[of e gap a b e] by auto
qed simp

declare region_end.simps [simp del]

lemma region_end_bounds: "e \<le> length a \<Longrightarrow> e \<le> region_end gap a b e \<and> region_end gap a b e \<le> length a"
proof (induction gap a b e rule: region_end.induct)
  case (1 gap a b e)
  define k where "k = gap_scan gap a b e e"
  have "e \<le> k" by (simp add: k_def gap_scan_ge)
  then show ?case using "1.IH"[OF _ k_def] "1.prems"
    by (subst region_end.simps, subst (2) region_end.simps) (auto simp: Let_def simp flip: k_def)
qed

text \<open>Past the end of a region the next \<open>gap\<close> elements agree, or the input ends.\<close>

lemma gap_scan_stop:
  "gap_scan gap a b e k = k' \<Longrightarrow> \<forall>j. k \<le> j \<and> j < k' \<longrightarrow> a ! j = b ! j"
proof (induction gap a b e k rule: gap_scan.induct)
  case (1 gap a b e k)
  show ?case
  proof (cases "k < length a \<and> k - e < gap \<and> a ! k = b ! k")
    case True
    then have "gap_scan gap a b e (k + 1) = k'" using "1.prems" by (simp add: gap_scan.simps[of gap a b e k])
    then show ?thesis using "1.IH"[OF True] True by (metis Suc_eq_plus1 le_eq_less_or_eq not_less_eq_eq less_eq_Suc_le)
  next
    case False
    then show ?thesis using "1.prems" by (auto simp: gap_scan.simps[of gap a b e k])
  qed
qed

lemma region_end_gap:
  "region_end gap a b e = r \<Longrightarrow> j < gap \<Longrightarrow> r + j < length a \<Longrightarrow> a ! (r + j) = b ! (r + j)"
proof (induction gap a b e rule: region_end.induct)
  case (1 gap a b e)
  define k where "k = gap_scan gap a b e e"
  show ?case
  proof (cases "e < length a \<and> k - e < gap \<and> k < length a")
    case True
    then show ?thesis using "1.IH"[OF _ k_def] "1.prems" by (simp add: region_end.simps[of gap a b e] Let_def flip: k_def)
  next
    case False
    then have r: "r = e" using "1.prems"(1) by (auto simp: region_end.simps[of gap a b e] Let_def simp flip: k_def split: if_splits)
    have "r + j < k" using False r "1.prems" by auto
    then show ?thesis using gap_scan_stop[of gap a b e e k] r by (simp add: k_def)
  qed
qed

end
