(* ===== verification/Plain.thy ===== *)
theory Plain
  imports Lz Runs Container
begin

text \<open>
  \<^verbatim>\<open>delta/plain.go\<close>, the plain codec: the difference writer and reader, the bsdiff-shaped
  encoder \<open>plainDiff\<close> and the checked decoder \<open>plainPatch\<close>.
\<close>

definition MaxPlainSize :: nat where "MaxPlainSize = 256 * 2 ^ 20"
definition plainProbe :: nat where "plainProbe = 5"
definition diffMergeGap :: nat where "diffMergeGap = 6"

section \<open>The difference writer\<close>

record diffWriter =
  dw_w :: bytes
  dw_logical :: nat
  dw_lastEnd :: nat

function dw_loop :: "diffWriter \<Rightarrow> bytes \<Rightarrow> bytes \<Rightarrow> nat \<Rightarrow> diffWriter" where
  "dw_loop d new old i =
     (if i < length new then
        if new ! i = old ! i then dw_loop d new old (i + 1)
        else
          let s = i; e = region_end diffMergeGap new old (i + 1);
              w = w_u (e - s) (w_u (dw_logical d + s - dw_lastEnd d) (dw_w d));
              w = w @ map (\<lambda>k. new ! k - old ! k) [s..<e] in
          dw_loop (d\<lparr>dw_w := w, dw_lastEnd := dw_logical d + e\<rparr>) new old e
      else d\<lparr>dw_logical := dw_logical d + length new\<rparr>)"
  by pat_completeness auto
termination
proof (relation "measure (\<lambda>(d, new, old, i). length new - i)", goal_cases)
  case (3 d new old i s e w w')
  then show ?case using region_end_bounds[of "i + 1" new diffMergeGap old] by auto
qed auto

declare dw_loop.simps [simp del]

definition dw_write :: "diffWriter \<Rightarrow> bytes \<Rightarrow> bytes \<Rightarrow> diffWriter" where
  "dw_write d new old = dw_loop d new old 0"

section \<open>The difference reader\<close>

text \<open>
  \<open>dr_next\<close> is \<open>noRun\<close> (the source's \<^verbatim>\<open>1<<62\<close>) when no run is left.  No slice is that long, so
  a region's end is below it and taking the smaller of the two in the loop's test changes
  nothing; it makes the recursion end for every argument.
\<close>

record diffReader =
  dr_r :: rbuf
  dr_logical :: nat
  dr_next :: nat
  dr_pend :: bytes
  dr_max :: nat

definition noRun :: nat where
  "noRun = 2 ^ 62"

definition dr_advance :: "diffReader \<Rightarrow> diffReader" where
  "dr_advance d =
     (if rb (dr_r d) = [] then d\<lparr>dr_pend := [], dr_next := noRun\<rparr>
      else
        case r_un (dr_max d) ''difference run gap'' (dr_r d) of (gap, r) \<Rightarrow>
        case r_un (dr_max d) ''difference run length'' r of (n, r) \<Rightarrow>
        case r_take n r of (pend, r) \<Rightarrow>
        if rerr r \<noteq> None then d\<lparr>dr_r := r, dr_pend := [], dr_next := noRun\<rparr>
        else d\<lparr>dr_r := r, dr_pend := pend, dr_next := dr_next d + gap\<rparr>)"

definition newDiffReader :: "bytes \<Rightarrow> nat \<Rightarrow> diffReader" where
  "newDiffReader b mx = dr_advance \<lparr>dr_r = rbuf_of b, dr_logical = 0, dr_next = 0, dr_pend = [], dr_max = mx\<rparr>"

lemma r_un_shorter: "rb r \<noteq> [] \<Longrightarrow> length (rb (snd (r_un mx what r))) < length (rb r)"
  by (auto simp: r_un_def r_u_def r_fail_def split: prod.splits)

lemma r_un_le: "length (rb (snd (r_un mx what r))) \<le> length (rb r)"
  by (auto simp: r_un_def r_u_def r_fail_def split: prod.splits)

lemma r_take_le: "length (rb (snd (r_take n r))) \<le> length (rb r)"
  by (simp add: r_take_def r_fail_def)

lemma dr_advance_shorter:
  "rb (dr_r d) \<noteq> [] \<Longrightarrow> length (rb (dr_r (dr_advance d))) < length (rb (dr_r d))"
proof -
  assume ne: "rb (dr_r d) \<noteq> []"
  obtain gap r1 where 1: "r_un (dr_max d) ''difference run gap'' (dr_r d) = (gap, r1)" by fastforce
  obtain n r2 where 2: "r_un (dr_max d) ''difference run length'' r1 = (n, r2)" by fastforce
  obtain p r3 where 3: "r_take n r2 = (p, r3)" by fastforce
  have "length (rb r3) \<le> length (rb r2)" "length (rb r2) \<le> length (rb r1)" "length (rb r1) < length (rb (dr_r d))"
    using r_take_le[of n r2] r_un_le[of "dr_max d" "''difference run length''" r1]
      r_un_shorter[OF ne, of "dr_max d" "''difference run gap''"] 1 2 3 by auto
  then show ?thesis using ne by (simp add: dr_advance_def 1 2 3)
qed

function dr_add_loop :: "diffReader \<Rightarrow> bytes \<Rightarrow> nat \<Rightarrow> derror + (diffReader \<times> bytes)" where
  "dr_add_loop d dst e =
     (if dr_next d < min e noRun then
        case rerr (dr_r d) of Some err \<Rightarrow> Inl err
        | None \<Rightarrow>
          if dr_next d < dr_logical d then Inl (Corrupt ''difference run behind the cursor'')
          else
            let n = min (length (dr_pend d)) (e - dr_next d);
                base = dr_next d - dr_logical d;
                dst' = overwrite base (map2 (+) (slice base (base + n) dst) (take n (dr_pend d))) dst in
            if n < length (dr_pend d) then
              Inr (d\<lparr>dr_pend := drop n (dr_pend d), dr_next := dr_next d + n, dr_logical := e\<rparr>, dst')
            else dr_add_loop (dr_advance (d\<lparr>dr_next := dr_next d + length (dr_pend d)\<rparr>)) dst' e
      else Inr (d\<lparr>dr_logical := e\<rparr>, dst))"
  by pat_completeness auto
termination
proof (relation "measure (\<lambda>(d, dst, e). length (rb (dr_r d)) + (if dr_next d < noRun then 1 else 0))", goal_cases)
  case (2 d dst e n base dst')
  define d1 where "d1 = d\<lparr>dr_next := dr_next d + length (dr_pend d)\<rparr>"
  show ?case
  proof (cases "rb (dr_r d) = []")
    case True
    then show ?thesis using 2(1) by (simp add: dr_advance_def)
  next
    case False
    then have "length (rb (dr_r (dr_advance d1))) < length (rb (dr_r d))"
      using dr_advance_shorter[of d1] by (simp add: d1_def)
    then show ?thesis using 2(1) by (simp add: d1_def)
  qed
qed simp

declare dr_add_loop.simps [simp del]

definition dr_add :: "diffReader \<Rightarrow> bytes \<Rightarrow> derror + (diffReader \<times> bytes)" where
  "dr_add d dst = dr_add_loop d dst (dr_logical d + length dst)"

definition dr_done :: "diffReader \<Rightarrow> derror + unit" where
  "dr_done d = (case rerr (dr_r d) of Some e \<Rightarrow> Inl e
     | None \<Rightarrow> if rb (dr_r d) \<noteq> [] \<or> dr_pend d \<noteq> [] then Inl (Corrupt ''difference stream has bytes after the last region'')
               else Inr ())"

section \<open>The encoder\<close>

definition packPlain :: "nat \<Rightarrow> bytes \<Rightarrow> bytes \<Rightarrow> bytes \<Rightarrow> bytes" where
  "packPlain ntriples ctrl diff extra =
     w_raw extra (w_raw diff (w_raw ctrl
       (w_u (length extra) (w_u (length diff) (w_u (length ctrl) (w_u ntriples []))))))"

definition at_off :: "bytes \<Rightarrow> bytes \<Rightarrow> int \<Rightarrow> nat \<Rightarrow> bool" where
  "at_off old new off i \<longleftrightarrow>
     0 \<le> int i + off \<and> int i + off < int (length old) \<and> old ! nat (int i + off) = new ! i"

text \<open>The score of the previous offset over \<open>[scsc, hi)\<close>.\<close>

definition off_score :: "bytes \<Rightarrow> bytes \<Rightarrow> int \<Rightarrow> nat \<Rightarrow> nat \<Rightarrow> int" where
  "off_score old new off scsc hi = int (length (filter (at_off old new off) [scsc..<hi]))"

text \<open>
  The inner loop: from \<open>scan\<close>, the first position whose fresh match explains the bytes ahead
  better than the previous offset does.  It returns \<open>scan\<close>, the match and the score.
\<close>

function pd_scan_loop ::
    "(bytes \<Rightarrow> nat \<Rightarrow> int \<Rightarrow> nat \<times> nat) \<Rightarrow> bytes \<Rightarrow> bytes \<Rightarrow> int \<Rightarrow> nat \<Rightarrow> nat \<Rightarrow> nat \<Rightarrow> nat \<Rightarrow> int \<Rightarrow> nat \<times> nat \<times> nat \<times> int" where
  "pd_scan_loop fnd old new off scan scsc pos mlen oldscore =
     (if scan < length new then
        case fnd new scan (int scan + off) of (pos, mlen) \<Rightarrow>
        let oldscore = oldscore + off_score old new off scsc (scan + mlen); scsc = max scsc (scan + mlen) in
        if int mlen = oldscore \<and> mlen \<noteq> 0 \<or> int mlen > oldscore + 8 then (scan, pos, mlen, oldscore)
        else pd_scan_loop fnd old new off (scan + 1) scsc pos mlen
               (if at_off old new off scan then oldscore - 1 else oldscore)
      else (scan, pos, mlen, oldscore))"
  by pat_completeness auto
termination
  by (relation "measure (\<lambda>(fnd, old, new, off, scan, scsc, pos, mlen, oldscore). length new - scan)") auto

declare pd_scan_loop.simps [simp del]

text \<open>
  The two extensions and the split of their overlap.  Each keeps the running score \<open>s\<close>, the
  best score and the length that reached it.
\<close>

definition ext_forward :: "bytes \<Rightarrow> bytes \<Rightarrow> nat \<Rightarrow> nat \<Rightarrow> nat \<Rightarrow> nat" where
  "ext_forward old new lastscan lastpos scan =
     snd (snd (foldl
       (\<lambda>(s, best, lenf) i.
          let s = (if old ! (lastpos + i) = new ! (lastscan + i) then s + 1 else s) in
          if s * 2 - (int i + 1) > best * 2 - int lenf then (s, s, i + 1) else (s, best, lenf))
       (0 :: int, 0 :: int, 0) [0..<min (scan - lastscan) (length old - lastpos)]))"

definition ext_backward :: "bytes \<Rightarrow> bytes \<Rightarrow> nat \<Rightarrow> nat \<Rightarrow> nat \<Rightarrow> nat" where
  "ext_backward old new lastscan pos scan =
     snd (snd (foldl
       (\<lambda>(s, best, lenb) i.
          let s = (if old ! (pos - i) = new ! (scan - i) then s + 1 else s) in
          if s * 2 - int i > best * 2 - int lenb then (s, s, i) else (s, best, lenb))
       (0 :: int, 0 :: int, 0) [1..<Suc (min (scan - lastscan) pos)]))"

definition split_overlap :: "bytes \<Rightarrow> bytes \<Rightarrow> nat \<Rightarrow> nat \<Rightarrow> nat \<Rightarrow> nat \<Rightarrow> nat \<Rightarrow> nat" where
  "split_overlap old new nf fo nb bo overlap =
     snd (snd (foldl
       (\<lambda>(s, best, lens) i.
          let s = (if new ! (nf + i) = old ! (fo + i) then s + 1 else s);
              s = (if new ! (nb + i) = old ! (bo + i) then s - 1 else s) in
          if s > best then (s, s, i + 1) else (s, best, lens))
       (0 :: int, 0 :: int, 0) [0..<overlap]))"

record pd_state =
  pd_scan :: nat
  pd_mlen :: nat
  pd_pos :: nat
  pd_lastscan :: nat
  pd_lastpos :: nat
  pd_lastoffset :: int
  pd_ntriples :: nat
  pd_ctrl :: bytes
  pd_d :: diffWriter
  pd_extra :: bytes

text \<open>The lengths of the two extensions, after the overlap is split.\<close>

definition pd_extend :: "bytes \<Rightarrow> bytes \<Rightarrow> nat \<Rightarrow> nat \<Rightarrow> nat \<Rightarrow> nat \<Rightarrow> nat \<times> nat" where
  "pd_extend old new lastscan lastpos scan pos =
     (let lenf = ext_forward old new lastscan lastpos scan;
          lenb = (if scan < length new then ext_backward old new lastscan pos scan else 0) in
      if lastscan + lenf > scan - lenb then
        let overlap = lastscan + lenf - (scan - lenb);
            lens = split_overlap old new (lastscan + lenf - overlap) (lastpos + lenf - overlap)
                     (scan - lenb) (pos - lenb) overlap in
        (lenf + lens - overlap, lenb - lens)
      else (lenf, lenb))"

definition pd_emit :: "bytes \<Rightarrow> bytes \<Rightarrow> pd_state \<Rightarrow> pd_state" where
  "pd_emit old new st =
     (let scan = pd_scan st; pos = pd_pos st; lastscan = pd_lastscan st; lastpos = pd_lastpos st in
      case pd_extend old new lastscan lastpos scan pos of (lenf, lenb) \<Rightarrow>
      let nextra = (scan - lenb) - (lastscan + lenf) in
      st\<lparr>pd_d := dw_write (pd_d st) (slice lastscan (lastscan + lenf) new) (slice lastpos (lastpos + lenf) old),
         pd_extra := w_raw (slice (lastscan + lenf) (lastscan + lenf + nextra) new) (pd_extra st),
         pd_ctrl := w_s ((int pos - int lenb) - (int lastpos + int lenf)) (w_u nextra (w_u lenf (pd_ctrl st))),
         pd_ntriples := pd_ntriples st + 1,
         pd_lastscan := scan - lenb, pd_lastpos := pos - lenb, pd_lastoffset := int pos - int scan\<rparr>)"

definition pd_step :: "(bytes \<Rightarrow> nat \<Rightarrow> int \<Rightarrow> nat \<times> nat) \<Rightarrow> bytes \<Rightarrow> bytes \<Rightarrow> pd_state \<Rightarrow> pd_state" where
  "pd_step fnd old new st =
     (let scan = pd_scan st + pd_mlen st in
      case pd_scan_loop fnd old new (pd_lastoffset st) scan scan (pd_pos st) (pd_mlen st) 0 of
        (scan, pos, mlen, oldscore) \<Rightarrow>
      let st = st\<lparr>pd_scan := scan, pd_pos := pos, pd_mlen := mlen\<rparr> in
      if int mlen \<noteq> oldscore \<or> scan = length new then pd_emit old new st else st)"

section \<open>The encoder's loop ends\<close>

lemma off_score_split:
  "a \<le> b \<Longrightarrow> b \<le> c \<Longrightarrow> off_score old new off a c = off_score old new off a b + off_score old new off b c"
  using upt_add_eq_append[of a b "c - b"] by (simp add: off_score_def)

lemma off_score_0: "off_score old new off 0 b - off_score old new off 0 a = off_score old new off a b" if "a \<le> b"
  using that off_score_split[of 0 a b old new off] by simp

lemma off_score_nonneg: "0 \<le> off_score old new off a b"
  by (simp add: off_score_def)

lemma off_score_empty [simp]: "b \<le> a \<Longrightarrow> off_score old new off a b = 0"
  by (simp add: off_score_def)

text \<open>The score at the stopping test counts the bytes ahead, so it is never negative, and the
  loop stops only at a match of positive length.\<close>

lemma pd_scan_loop_break:
  assumes "oldscore = off_score old new off 0 scsc - off_score old new off 0 scan"
    and "pd_scan_loop fnd old new off scan scsc pos mlen oldscore = (scan', pos', mlen', os')"
  shows "scan \<le> scan' \<and> (scan' < length new \<longrightarrow> 0 < mlen' \<and> (pos', mlen') = fnd new scan' (int scan' + off)) \<and>
    (scan \<le> length new \<longrightarrow> scan' \<le> length new)"
  using assms
proof (induction fnd old new off scan scsc pos mlen oldscore rule: pd_scan_loop.induct)
  case (1 fnd old new off scan scsc pos mlen oldscore)
  show ?case
  proof (cases "scan < length new")
    case False
    then show ?thesis using "1.prems"(2) by (auto simp: pd_scan_loop.simps[of fnd old new off scan])
  next
    case True
    obtain p m where f: "fnd new scan (int scan + off) = (p, m)" by fastforce
    define os where "os = oldscore + off_score old new off scsc (scan + m)"
    define sc where "sc = max scsc (scan + m)"
    have os: "os = off_score old new off 0 sc - off_score old new off 0 scan"
      using "1.prems"(1) off_score_0[of scsc "scan + m" old new off] by (auto simp: os_def sc_def max_def)
    have "scan \<le> sc" by (simp add: sc_def)
    then have nonneg: "0 \<le> os" using os off_score_0 off_score_nonneg by metis
    have unfold: "pd_scan_loop fnd old new off scan scsc pos mlen oldscore =
        (if int m = os \<and> m \<noteq> 0 \<or> int m > os + 8 then (scan, p, m, os)
         else pd_scan_loop fnd old new off (scan + 1) sc p m (if at_off old new off scan then os - 1 else os))"
      using True f by (subst pd_scan_loop.simps) (simp add: Let_def os_def sc_def)
    show ?thesis
    proof (cases "int m = os \<and> m \<noteq> 0 \<or> int m > os + 8")
      case stop: True
      then show ?thesis using "1.prems"(2) unfold f nonneg True by auto
    next
      case go: False
      have "(if at_off old new off scan then os - 1 else os) =
          off_score old new off 0 sc - off_score old new off 0 (scan + 1)"
        using os off_score_split[of 0 scan "scan + 1" old new off] by (simp add: off_score_def)
      from "1.IH"[OF True f[symmetric] os_def sc_def go this] show ?thesis
        using "1.prems"(2) unfold go True by auto
    qed
  qed
qed

lemma pd_emit_scan [simp]: "pd_scan (pd_emit old new st) = pd_scan st" "pd_mlen (pd_emit old new st) = pd_mlen st"
  "pd_pos (pd_emit old new st) = pd_pos st"
  by (simp_all add: pd_emit_def Let_def split: prod.splits)

definition pd_measure :: "bytes \<Rightarrow> pd_state \<Rightarrow> nat" where
  "pd_measure new st = 2 * (length new - pd_scan st) + (if pd_mlen st = 0 then 1 else 0)"

lemma pd_step_progress:
  assumes "pd_scan st < length new"
  shows "pd_measure new (pd_step fnd old new st) < pd_measure new st"
proof -
  define scan where "scan = pd_scan st + pd_mlen st"
  obtain scan' pos' mlen' os' where
    r: "pd_scan_loop fnd old new (pd_lastoffset st) scan scan (pd_pos st) (pd_mlen st) 0 = (scan', pos', mlen', os')"
    by (metis prod_cases4)
  note b = pd_scan_loop_break[OF _ r, simplified]
  have "pd_scan (pd_step fnd old new st) = scan'" "pd_mlen (pd_step fnd old new st) = mlen'"
    using r by (simp_all add: pd_step_def Let_def scan_def)
  then show ?thesis using b assms by (auto simp: pd_measure_def scan_def)
qed

function pd_loop :: "(bytes \<Rightarrow> nat \<Rightarrow> int \<Rightarrow> nat \<times> nat) \<Rightarrow> bytes \<Rightarrow> bytes \<Rightarrow> pd_state \<Rightarrow> pd_state" where
  "pd_loop fnd old new st =
     (if pd_scan st < length new then pd_loop fnd old new (pd_step fnd old new st) else st)"
  by pat_completeness auto
termination
  by (relation "measure (\<lambda>(fnd, old, new, st). pd_measure new st)") (simp_all add: pd_step_progress)

declare pd_loop.simps [simp del]

definition plainDiff :: "bytes \<Rightarrow> bytes \<Rightarrow> bytes" where
  "plainDiff old new =
     (if old = [] then packPlain 1 (w_s 0 (w_u (length new) (w_u 0 []))) [] (w_raw new [])
      else
        let ix = SetProbe plainProbe (NewIndex old);
            st = pd_loop (Find ix) old new
              \<lparr>pd_scan = 0, pd_mlen = 0, pd_pos = 0, pd_lastscan = 0, pd_lastpos = 0, pd_lastoffset = 0,
               pd_ntriples = 0, pd_ctrl = [], pd_d = \<lparr>dw_w = [], dw_logical = 0, dw_lastEnd = 0\<rparr>, pd_extra = []\<rparr> in
        packPlain (pd_ntriples st) (pd_ctrl st) (dw_w (pd_d st)) (pd_extra st))"

definition encodePlain :: "bytes \<Rightarrow> bytes \<Rightarrow> derror + bytes" where
  "encodePlain old new = (if length old > MaxPlainSize then Inl PlainTooLarge else Inr (plainDiff old new))"

section \<open>The decoder\<close>

text \<open>
  \<open>out\<close> is the part of the output written so far, so \<^verbatim>\<open>npos\<close> is its length.  The old cursor
  is an \<^verbatim>\<open>int64\<close> moved by untrusted seeks: its end wraps, and where the wrapped end lies
  before the start the slice expression panics.
\<close>

fun plain_loop :: "bytes \<Rightarrow> nat \<Rightarrow> nat \<Rightarrow> rbuf \<Rightarrow> diffReader \<Rightarrow> bytes \<Rightarrow> int \<Rightarrow> bytes
    \<Rightarrow> derror + (rbuf \<times> diffReader \<times> bytes \<times> bytes)" where
  "plain_loop old newLen 0 ctrl d extra opos out = Inr (ctrl, d, extra, out)"
| "plain_loop old newLen (Suc n) ctrl d extra opos out =
     (case r_un newLen ''difference length'' ctrl of (nd, ctrl) \<Rightarrow>
      case r_un newLen ''literal length'' ctrl of (ne, ctrl) \<Rightarrow>
      case r_s ctrl of (seek, ctrl) \<Rightarrow>
      case rerr ctrl of Some e \<Rightarrow> Inl e
      | None \<Rightarrow>
        let oend = wrap64 (opos + int nd) in
        if length out + nd > newLen \<or> opos < 0 \<or> oend > int (length old) then Inl (Corrupt ''matched bytes'')
        else if oend < opos then Inl Panic
        else bindR (dr_add d (slice (nat opos) (nat oend) old)) (\<lambda>(d, seg).
          let out = out @ seg in
          if ne > length extra \<or> length out + ne > newLen then Inl (Corrupt ''literal bytes'')
          else plain_loop old newLen n ctrl d (drop ne extra) (wrap64 (oend + seek)) (out @ take ne extra)))"

definition plainPatch :: "bytes \<Rightarrow> bytes \<Rightarrow> nat \<Rightarrow> derror + bytes" where
  "plainPatch old body newLen =
     (case r_un (length body) ''triple count'' (rbuf_of body) of (ntriples, r) \<Rightarrow>
      case r_un (length body) ''control stream length'' r of (ctrlLen, r) \<Rightarrow>
      case r_un (length body) ''difference stream length'' r of (diffLen, r) \<Rightarrow>
      case r_un newLen ''literal stream length'' r of (extraLen, r) \<Rightarrow>
      case r_take ctrlLen r of (ctrl, r) \<Rightarrow>
      case r_take diffLen r of (diff, r) \<Rightarrow>
      case r_take extraLen r of (extra, r) \<Rightarrow>
      bindR (r_done r) (\<lambda>_.
      bindR (plain_loop old newLen ntriples (rbuf_of ctrl) (newDiffReader diff newLen) extra 0 []) (\<lambda>(ctrl, d, extra, out).
      bindR (r_done ctrl) (\<lambda>_.
      bindR (dr_done d) (\<lambda>_.
      if length out \<noteq> newLen \<or> extra \<noteq> [] then Inl (Corrupt ''plain patch produced too little'')
      else Inr out)))))"

definition applyPlain :: "bytes \<Rightarrow> bytes \<Rightarrow> header \<Rightarrow> derror + bytes" where
  "applyPlain old body h = plainPatch old body (h_newsize h)"

end
