(* ===== verification/PlainProof.thy ===== *)
theory PlainProof
  imports Plain
begin

text \<open>
  The plain codec round-trips: what \<open>plainDiff\<close> writes, \<open>plainPatch\<close> replays.  The difference
  stream is related to a list of runs in one logical space, the control stream to a list
  of triples that cover the new file.
\<close>

section \<open>Runs of differences\<close>

type_synonym run = "nat \<times> bytes"

fun enc_runs :: "nat \<Rightarrow> run list \<Rightarrow> bytes" where
  "enc_runs pe [] = []"
| "enc_runs pe ((s, bs) # rs) = put_uvarint (s - pe) @ put_uvarint (length bs) @ bs @ enc_runs (s + length bs) rs"

fun runs_in :: "nat \<Rightarrow> nat \<Rightarrow> run list \<Rightarrow> bool" where
  "runs_in lo hi [] \<longleftrightarrow> lo \<le> hi"
| "runs_in lo hi ((s, bs) # rs) \<longleftrightarrow> lo \<le> s \<and> bs \<noteq> [] \<and> runs_in (s + length bs) hi rs"

fun runs_end :: "nat \<Rightarrow> run list \<Rightarrow> nat" where
  "runs_end pe [] = pe"
| "runs_end pe ((s, bs) # rs) = runs_end (s + length bs) rs"

definition add_at :: "nat \<Rightarrow> bytes \<Rightarrow> bytes \<Rightarrow> bytes" where
  "add_at p bs dst = overwrite p (map2 (+) (slice p (p + length bs) dst) bs) dst"

fun apply_runs :: "nat \<Rightarrow> run list \<Rightarrow> bytes \<Rightarrow> bytes" where
  "apply_runs base [] dst = dst"
| "apply_runs base ((s, bs) # rs) dst = apply_runs base rs (add_at (s - base) bs dst)"

lemma runs_in_le: "runs_in lo hi rs \<Longrightarrow> lo \<le> hi"
  by (induction lo hi rs rule: runs_in.induct) auto

lemma runs_in_mono: "runs_in lo hi rs \<Longrightarrow> lo' \<le> lo \<Longrightarrow> hi \<le> hi' \<Longrightarrow> runs_in lo' hi' rs"
  by (induction lo hi rs arbitrary: lo' rule: runs_in.induct) auto

lemma runs_in_append: "runs_in lo mid rs \<Longrightarrow> runs_in mid hi rs' \<Longrightarrow> runs_in lo hi (rs @ rs')"
proof (induction lo mid rs rule: runs_in.induct)
  case (1 lo mid)
  then show ?case by (auto intro: runs_in_mono)
qed auto

lemma runs_end_le: "runs_in lo hi rs \<Longrightarrow> pe \<le> hi \<Longrightarrow> runs_end pe rs \<le> hi"
proof (induction rs arbitrary: lo pe)
  case (Cons r rs)
  then show ?case by (cases r) (auto dest: runs_in_le)
qed simp

lemma enc_runs_append: "enc_runs pe (rs @ rs') = enc_runs pe rs @ enc_runs (runs_end pe rs) rs'"
  by (induction pe rs rule: enc_runs.induct) simp_all

lemma runs_end_append: "runs_end pe (rs @ rs') = runs_end (runs_end pe rs) rs'"
  by (induction pe rs rule: runs_end.induct) simp_all

lemma length_add_at [simp]: "p \<le> length dst \<Longrightarrow> length (add_at p bs dst) = length dst"
  by (simp add: add_at_def)

lemma add_at_region:
  assumes "length old = length new" "i < e" "e \<le> length new"
  shows "add_at i (map (\<lambda>k. new ! k - old ! k) [i..<e]) (take i new @ drop i old) = take e new @ drop e old"
proof (rule nth_equalityI)
  let ?bs = "map (\<lambda>k. new ! k - old ! k) [i..<e]"
  let ?dst = "take i new @ drop i old"
  have len: "length ?dst = length new" using assms by simp
  then show "length (add_at i ?bs ?dst) = length (take e new @ drop e old)" using assms by simp
  fix j
  assume "j < length (add_at i ?bs ?dst)"
  then have j: "j < length new" using len assms by simp
  show "add_at i ?bs ?dst ! j = (take e new @ drop e old) ! j"
    using assms j len
    by (auto simp: add_at_def nth_overwrite nth_append min_def)
qed

lemma dw_loop_runs:
  assumes "length old = length new" "i \<le> length new" "dw_lastEnd d \<le> dw_logical d + i"
  shows "\<exists>rs. runs_in (dw_logical d + i) (dw_logical d + length new) rs \<and>
    dw_loop d new old i = \<lparr>dw_w = dw_w d @ enc_runs (dw_lastEnd d) rs, dw_logical = dw_logical d + length new,
      dw_lastEnd = runs_end (dw_lastEnd d) rs\<rparr> \<and>
    apply_runs (dw_logical d) rs (take i new @ drop i old) = new"
  using assms
proof (induction d new old i rule: dw_loop.induct)
  case (1 d new old i)
  note unfold = dw_loop.simps[of d new old i]
  consider (stop) "i = length new" | (same) "i < length new" "new ! i = old ! i" | (diff) "i < length new" "new ! i \<noteq> old ! i"
    using "1.prems"(2) by linarith
  then show ?case
  proof cases
    case stop
    then show ?thesis using unfold "1.prems" by (intro exI[of _ "[]"]) simp
  next
    case same
    have "take i new @ drop i old = take (i + 1) new @ drop (i + 1) old"
      using same "1.prems"(1) by (simp add: take_Suc_conv_app_nth Cons_nth_drop_Suc)
    moreover have "runs_in (dw_logical d + (i + 1)) h rs \<Longrightarrow> runs_in (dw_logical d + i) h rs" for h rs
      by (erule runs_in_mono) auto
    ultimately show ?thesis using "1.IH"(1)[OF same] "1.prems" same unfold by force
  next
    case diff
    define e where "e = region_end diffMergeGap new old (i + 1)"
    have e: "i < e" "e \<le> length new"
      using region_end_bounds[of "i + 1" new diffMergeGap old] diff(1) by (auto simp: e_def)
    define bs where "bs = map (\<lambda>k. new ! k - old ! k) [i..<e]"
    have lb: "length bs = e - i" "bs \<noteq> []" using e by (simp_all add: bs_def)
    define w where "w = w_u (e - i) (w_u (dw_logical d + i - dw_lastEnd d) (dw_w d))"
    define d' where "d' = d\<lparr>dw_w := w @ bs, dw_lastEnd := dw_logical d + e\<rparr>"
    have d': "dw_loop d new old i = dw_loop d' new old e"
      using diff unfold by (simp add: d'_def w_def bs_def e_def Let_def)
    obtain rs where rs: "runs_in (dw_logical d + e) (dw_logical d + length new) rs"
      "dw_loop d' new old e = \<lparr>dw_w = dw_w d' @ enc_runs (dw_logical d + e) rs, dw_logical = dw_logical d + length new,
        dw_lastEnd = runs_end (dw_logical d + e) rs\<rparr>"
      "apply_runs (dw_logical d) rs (take e new @ drop e old) = new"
      using "1.IH"(2)[OF diff refl e_def w_def refl] "1.prems"(1) e
      by (auto simp: d'_def bs_def)
    show ?thesis
      using rs d' add_at_region[OF "1.prems"(1) e] lb e
      by (intro exI[of _ "(dw_logical d + i, bs) # rs"])
         (simp add: d'_def w_def writer_defs flip: bs_def)
  qed
qed

section \<open>The reader replays the runs\<close>

definition reader_at :: "nat \<Rightarrow> nat \<Rightarrow> run list \<Rightarrow> diffReader" where
  "reader_at mx L rs = \<lparr>
     dr_r = rbuf_of (case rs of [] \<Rightarrow> [] | (s, bs) # rs' \<Rightarrow> enc_runs (s + length bs) rs'),
     dr_logical = L,
     dr_next = (case rs of [] \<Rightarrow> noRun | (s, bs) # rs' \<Rightarrow> s),
     dr_pend = (case rs of [] \<Rightarrow> [] | (s, bs) # rs' \<Rightarrow> bs),
     dr_max = mx\<rparr>"

lemma dr_advance_runs:
  assumes "runs_in pe mx rs" "mx < noRun"
  shows "dr_advance \<lparr>dr_r = rbuf_of (enc_runs pe rs), dr_logical = L, dr_next = pe, dr_pend = p, dr_max = mx\<rparr> =
    reader_at mx L rs"
proof (cases rs)
  case Nil
  then show ?thesis by (simp add: dr_advance_def reader_at_def)
next
  case (Cons r rs')
  obtain s bs where r: "r = (s, bs)" by fastforce
  have "s + length bs \<le> mx" "pe \<le> s" using assms(1) Cons r by (auto dest: runs_in_le)
  then have "s - pe \<le> mx" "length bs \<le> mx" "s - pe < 2 ^ 64" "length bs < 2 ^ 64"
    using assms(2) by (auto simp: noRun_def)
  then show ?thesis using \<open>pe \<le> s\<close>
    by (simp add: dr_advance_def reader_at_def Cons r r_un_put[simplified] r_take_put)
qed

lemma newDiffReader_runs:
  "runs_in 0 mx rs \<Longrightarrow> mx < noRun \<Longrightarrow> newDiffReader (enc_runs 0 rs) mx = reader_at mx 0 rs"
  by (simp add: newDiffReader_def dr_advance_runs)

lemma dr_add_loop_runs:
  assumes "runs_in lo e rs" "L \<le> lo" "runs_in e mx rs'" "mx < noRun" "length dst = e - L"
  shows "dr_add_loop (reader_at mx L (rs @ rs')) dst e = Inr (reader_at mx e rs', apply_runs L rs dst)"
  using assms
proof (induction rs arbitrary: lo dst)
  case Nil
  have stop: "\<not> dr_next (reader_at mx L rs') < min e noRun"
    using Nil.prems(3) by (auto simp: reader_at_def split: list.splits)
  show ?case
    unfolding append_Nil apply_runs.simps dr_add_loop.simps[of "reader_at mx L rs'"] if_not_P[OF stop]
    by (simp add: reader_at_def)
next
  case (Cons r rs)
  obtain s bs where r: "r = (s, bs)" by fastforce
  have b: "lo \<le> s" "s + length bs \<le> e" "runs_in (s + length bs) e rs" using Cons.prems(1) r by (auto dest: runs_in_le)
  have rest: "runs_in (s + length bs) mx (rs @ rs')" using runs_in_append[OF b(3) Cons.prems(3)] .
  have mx: "e \<le> mx" using runs_in_le[OF Cons.prems(3)] .
  define d where "d = reader_at mx L ((r # rs) @ rs')"
  have d: "rerr (dr_r d) = None" "dr_next d = s" "dr_logical d = L" "dr_pend d = bs"
    "dr_advance (d\<lparr>dr_next := s + length bs\<rparr>) = reader_at mx L (rs @ rs')"
    using dr_advance_runs[OF rest Cons.prems(4), of L bs] by (simp_all add: d_def reader_at_def r)
  have "s < e" "length bs \<le> e - s" using b(2) Cons.prems(1) r by (cases bs; auto)+
  then have "dr_add_loop d dst e = dr_add_loop (reader_at mx L (rs @ rs')) (add_at (s - L) bs dst) e"
    using d b mx Cons.prems(2,4) by (subst dr_add_loop.simps) (simp add: Let_def add_at_def min_def)
  also have "\<dots> = Inr (reader_at mx e rs', apply_runs L rs (add_at (s - L) bs dst))"
    using Cons.IH[OF b(3)] b Cons.prems by simp
  finally show ?case by (simp add: d_def r)
qed

section \<open>Triples\<close>

text \<open>
  A triple as written: the length of the matched region, the number of literals, and the
  old position after the seek.  A list of triples covers the new file from \<open>ls\<close> on when the
  old cursor is at \<open>lp\<close>.
\<close>

type_synonym triple = "nat \<times> nat \<times> nat"

fun covers :: "bytes \<Rightarrow> bytes \<Rightarrow> nat \<Rightarrow> nat \<Rightarrow> triple list \<Rightarrow> bool" where
  "covers old new ls lp [] \<longleftrightarrow> ls = length new"
| "covers old new ls lp ((f, x, lp') # ts) \<longleftrightarrow>
     ls + f + x \<le> length new \<and> lp + f \<le> length old \<and> lp' \<le> length old \<and> covers old new (ls + f + x) lp' ts"

fun pt_ctrl :: "nat \<Rightarrow> triple list \<Rightarrow> bytes" where
  "pt_ctrl lp [] = []"
| "pt_ctrl lp ((f, x, lp') # ts) =
     put_uvarint f @ put_uvarint x @ put_varint (int lp' - (int lp + int f)) @ pt_ctrl lp' ts"

fun pt_extra :: "bytes \<Rightarrow> nat \<Rightarrow> triple list \<Rightarrow> bytes" where
  "pt_extra new ls [] = []"
| "pt_extra new ls ((f, x, lp') # ts) = slice (ls + f) (ls + f + x) new @ pt_extra new (ls + f + x) ts"

fun pt_write :: "bytes \<Rightarrow> bytes \<Rightarrow> diffWriter \<Rightarrow> nat \<Rightarrow> nat \<Rightarrow> triple list \<Rightarrow> diffWriter" where
  "pt_write old new d ls lp [] = d"
| "pt_write old new d ls lp ((f, x, lp') # ts) =
     pt_write old new (dw_write d (slice ls (ls + f) new) (slice lp (lp + f) old)) (ls + f + x) lp' ts"

lemma length_pt_ctrl: "length ts \<le> length (pt_ctrl lp ts)"
proof (induction ts arbitrary: lp)
  case (Cons t ts)
  obtain f x lp' where "t = (f, x, lp')" by (metis prod_cases3)
  moreover have "0 < length (put_uvarint f)" by simp
  ultimately show ?case using Cons[of lp'] by (simp del: length_greater_0_conv)
qed simp

lemma length_pt_extra: "covers old new ls lp ts \<Longrightarrow> ls + length (pt_extra new ls ts) \<le> length new"
proof (induction ts arbitrary: ls lp)
  case (Cons t ts)
  obtain f x lp' where "t = (f, x, lp')" by (metis prod_cases3)
  then show ?case using Cons.prems Cons.IH[of "ls + f + x" lp'] by simp
qed simp

lemma plain_loop_triple:
  assumes "ls + f + x \<le> length new" "lp + f \<le> length old" "lp' \<le> length old"
    and "length new < noRun" "length old < noRun" "ls \<le> length new"
    and "dr_add d (slice lp (lp + f) old) = Inr (d', slice ls (ls + f) new)"
  shows "plain_loop old (length new) (Suc n)
      (rbuf_of (put_uvarint f @ put_uvarint x @ put_varint (int lp' - (int lp + int f)) @ c)) d
      (slice (ls + f) (ls + f + x) new @ e) (int lp) (take ls new) =
    plain_loop old (length new) n (rbuf_of c) d' e (int lp') (take (ls + f + x) new)"
proof -
  have small: "f < 2 ^ 64" "x < 2 ^ 64" "in_int64 (int lp' - (int lp + int f))" "f \<le> length new" "x \<le> length new"
    using assms(1-6) by (auto simp: noRun_def in_int64_def)
  have w: "wrap64 (int lp + int f) = int lp + int f" "wrap64 (int lp') = int lp'"
    using assms(1-6) by (auto simp: noRun_def in_int64_def intro!: wrap64_id)
  have out: "take ls new @ slice ls (ls + f) new = take (ls + f) new"
    "take (ls + f) new @ slice (ls + f) (ls + f + x) new = take (ls + f + x) new" by (simp_all add: take_slice)
  have n: "nat (int lp + int f) = lp + f" by simp
  have ar: "f \<le> length new - ls" "x \<le> length new - (ls + f)" "x \<le> length new - ls" using assms(1) by auto
  show ?thesis
    using assms small(4,5) ar
    by (simp add: r_un_put[OF _ small(1)] r_un_put[OF _ small(2)] r_s_put[OF small(3)] w n Let_def min_def
        flip: out)
qed

lemma dr_add_runs:
  assumes "runs_in L (L + length dst) rs" "runs_in (L + length dst) mx rs'" "mx < noRun"
  shows "dr_add (reader_at mx L (rs @ rs')) dst = Inr (reader_at mx (L + length dst) rs', apply_runs L rs dst)"
  using dr_add_loop_runs[OF assms(1) le_refl assms(2,3)] by (simp add: dr_add_def reader_at_def)

lemma triples_roundtrip:
  assumes "covers old new ls lp ts" "ls \<le> length new" "lp \<le> length old"
    and "dw_lastEnd d \<le> dw_logical d" "dw_logical d \<le> ls" "length new < noRun" "length old < noRun"
  shows "\<exists>rs. runs_in (dw_logical d) (length new) rs \<and>
    dw_w (pt_write old new d ls lp ts) = dw_w d @ enc_runs (dw_lastEnd d) rs \<and>
    (\<exists>L. plain_loop old (length new) (length ts) (rbuf_of (pt_ctrl lp ts)) (reader_at (length new) (dw_logical d) rs)
       (pt_extra new ls ts) (int lp) (take ls new) = Inr (rbuf_of [], reader_at (length new) L [], [], new))"
  using assms
proof (induction ts arbitrary: ls lp d)
  case Nil
  then show ?case by (intro exI[of _ "[]"]) auto
next
  case (Cons t ts)
  obtain f x lp' where t: "t = (f, x, lp')" by (metis prod_cases3)
  have c: "ls + f + x \<le> length new" "lp + f \<le> length old" "lp' \<le> length old" "covers old new (ls + f + x) lp' ts"
    using Cons.prems(1) t by auto
  define a o' where "a = slice ls (ls + f) new" and "o' = slice lp (lp + f) old"
  have len: "length a = f" "length o' = f" using c by (auto simp: a_def o'_def)
  obtain rs where rs: "runs_in (dw_logical d) (dw_logical d + f) rs"
    "dw_write d a o' = \<lparr>dw_w = dw_w d @ enc_runs (dw_lastEnd d) rs, dw_logical = dw_logical d + f,
      dw_lastEnd = runs_end (dw_lastEnd d) rs\<rparr>"
    "apply_runs (dw_logical d) rs o' = a"
    using dw_loop_runs[of o' a 0 d] len Cons.prems(4) by (auto simp: dw_write_def)
  define d' where "d' = dw_write d a o'"
  have d': "dw_lastEnd d' \<le> dw_logical d'" "dw_logical d' \<le> ls + f + x" "dw_logical d' = dw_logical d + f"
    using runs_end_le[OF rs(1)] Cons.prems(4,5) by (auto simp: d'_def rs(2))
  obtain rs' L where rs': "runs_in (dw_logical d') (length new) rs'"
    "dw_w (pt_write old new d' (ls + f + x) lp' ts) = dw_w d' @ enc_runs (dw_lastEnd d') rs'"
    "plain_loop old (length new) (length ts) (rbuf_of (pt_ctrl lp' ts)) (reader_at (length new) (dw_logical d') rs')
       (pt_extra new (ls + f + x) ts) (int lp') (take (ls + f + x) new) = Inr (rbuf_of [], reader_at (length new) L [], [], new)"
    using Cons.IH[OF c(4,1,3) d'(1,2) Cons.prems(6,7)] by blast
  have add: "dr_add (reader_at (length new) (dw_logical d) (rs @ rs')) (slice lp (lp + f) old) =
      Inr (reader_at (length new) (dw_logical d') rs', slice ls (ls + f) new)"
    using dr_add_runs[of "dw_logical d" o' rs "length new" rs'] rs rs'(1) d'(3) len Cons.prems(6)
    by (simp add: a_def o'_def)
  have "runs_in (dw_logical d) (length new) (rs @ rs')" using runs_in_append[OF rs(1)] rs'(1) d'(3) by simp
  moreover have "dw_w (pt_write old new d ls lp (t # ts)) = dw_w d @ enc_runs (dw_lastEnd d) (rs @ rs')"
    using rs'(2) by (simp add: t enc_runs_append d'_def rs(2) flip: a_def o'_def)
  ultimately show ?case
    using plain_loop_triple[OF c(1,2,3) Cons.prems(6,7,2) add, of "length ts" "pt_ctrl lp' ts" "pt_extra new (ls + f + x) ts"]
      rs'(3) by (intro exI[of _ "rs @ rs'"]) (auto simp: t)
qed

section \<open>The encoder writes triples that cover the new file\<close>

lemma foldl_bound:
  assumes "\<And>s x. x \<in> set xs \<Longrightarrow> P s \<Longrightarrow> P (g s x)" "P s"
  shows "P (foldl g s xs)"
  using assms by (induction xs arbitrary: s) simp_all

lemma ext_forward_le: "ext_forward old new ls lp scan \<le> min (scan - ls) (length old - lp)"
  unfolding ext_forward_def by (rule foldl_bound[where P = "\<lambda>st. snd (snd st) \<le> _"]) (auto simp: Let_def)

lemma ext_backward_le: "ext_backward old new ls pos scan \<le> min (scan - ls) pos"
  unfolding ext_backward_def by (rule foldl_bound[where P = "\<lambda>st. snd (snd st) \<le> _"]) (auto simp: Let_def)

lemma split_overlap_le: "split_overlap old new nf f nb b overlap \<le> overlap"
  unfolding split_overlap_def by (rule foldl_bound[where P = "\<lambda>st. snd (snd st) \<le> _"]) (auto simp: Let_def)

lemma pd_extend_bounds:
  assumes "pd_extend old new ls lp scan pos = (lenf, lenb)" "ls \<le> scan" "lp \<le> length old"
  shows "ls + lenf \<le> scan - lenb \<and> lenb \<le> scan - ls \<and> lenb \<le> pos \<and> lp + lenf \<le> length old \<and>
    (scan = length new \<longrightarrow> lenb = 0)"
proof -
  define f where "f = ext_forward old new ls lp scan"
  define b where "b = (if scan < length new then ext_backward old new ls pos scan else 0)"
  have fb: "ls + f \<le> scan" "lp + f \<le> length old" "b \<le> scan - ls" "b \<le> pos" "scan = length new \<Longrightarrow> b = 0"
    using ext_forward_le[of old new ls lp scan] ext_backward_le[of old new ls pos scan] assms(2,3)
    by (auto simp: f_def b_def)
  show ?thesis
  proof (cases "ls + f > scan - b")
    case True
    define ov where "ov = ls + f - (scan - b)"
    define l where "l = split_overlap old new (ls + f - ov) (lp + f - ov) (scan - b) (pos - b) ov"
    have l: "l \<le> ov" by (simp add: l_def split_overlap_le)
    have "lenf = f + l - ov" "lenb = b - l"
      using assms(1) True by (auto simp: pd_extend_def Let_def f_def b_def ov_def l_def)
    then show ?thesis using fb l True assms(2) by (auto simp: ov_def)
  next
    case False
    then show ?thesis using assms(1) fb by (auto simp: pd_extend_def Let_def simp flip: f_def b_def)
  qed
qed

definition pd_inv :: "bytes \<Rightarrow> bytes \<Rightarrow> pd_state \<Rightarrow> bool" where
  "pd_inv old new st \<longleftrightarrow>
     pd_scan st \<le> length new \<and> (pd_scan st < length new \<longrightarrow> pd_scan st + pd_mlen st \<le> length new) \<and>
     pd_lastscan st \<le> pd_scan st \<and> pd_lastpos st \<le> length old \<and> pd_pos st \<le> length old \<and>
     (pd_scan st = length new \<longrightarrow> pd_lastscan st = length new)"

definition pd_adds :: "bytes \<Rightarrow> bytes \<Rightarrow> pd_state \<Rightarrow> triple list \<Rightarrow> pd_state \<Rightarrow> bool" where
  "pd_adds old new st ts st' \<longleftrightarrow>
     pd_ntriples st' = pd_ntriples st + length ts \<and>
     pd_ctrl st' = pd_ctrl st @ pt_ctrl (pd_lastpos st) ts \<and>
     pd_extra st' = pd_extra st @ pt_extra new (pd_lastscan st) ts \<and>
     pd_d st' = pt_write old new (pd_d st) (pd_lastscan st) (pd_lastpos st) ts"

text \<open>One emitted triple.\<close>

lemma pd_emit_triple:
  assumes "pd_lastscan st \<le> pd_scan st" "pd_scan st \<le> length new" "pd_lastpos st \<le> length old" "pd_pos st \<le> length old"
  shows "\<exists>f x. pd_adds old new st [(f, x, pd_lastpos (pd_emit old new st))] (pd_emit old new st) \<and>
    pd_lastscan (pd_emit old new st) = pd_lastscan st + f + x \<and> pd_lastpos st + f \<le> length old \<and>
    pd_lastpos (pd_emit old new st) \<le> length old \<and> pd_lastscan (pd_emit old new st) \<le> pd_scan st \<and>
    (pd_scan st = length new \<longrightarrow> pd_lastscan (pd_emit old new st) = length new)"
proof -
  obtain lenf lenb where e: "pd_extend old new (pd_lastscan st) (pd_lastpos st) (pd_scan st) (pd_pos st) = (lenf, lenb)"
    by fastforce
  note b = pd_extend_bounds[OF e assms(1,3)]
  have "int (pd_pos st) - int lenb = int (pd_pos st - lenb)" using b by simp
  then show ?thesis
    using b e assms by (intro exI[of _ lenf] exI[of _ "pd_scan st - lenb - (pd_lastscan st + lenf)"])
      (auto simp: pd_emit_def pd_adds_def Let_def writer_defs)
qed

context match_index
begin

lemma pd_scan_loop_pos:
  "pd_scan_loop fnd old new off scan scsc pos mlen oldscore = (scan', pos', mlen', os') \<Longrightarrow>
   pos \<le> length src \<Longrightarrow> pos' \<le> length src"
proof (induction "length new - scan" arbitrary: scan scsc pos mlen oldscore rule: less_induct)
  case less
  obtain p m where f: "fnd new scan (int scan + off) = (p, m)" by fastforce
  have p: "p \<le> length src" using fnd_pos[of new scan "int scan + off"] f by simp
  have "pd_scan_loop fnd old new off scan scsc pos mlen oldscore = (scan', pos', mlen', os')" using less.prems(1) .
  then show ?case
    using less.hyps[of "scan + 1"] p f less.prems(2)
    by (subst (asm) pd_scan_loop.simps) (auto simp: Let_def split: if_splits)
qed

lemma pd_step_adds:
  assumes "pd_inv src new st" "pd_scan st < length new"
  shows "pd_inv src new (pd_step fnd src new st) \<and>
    (\<exists>ts. pd_adds src new st ts (pd_step fnd src new st) \<and>
      (\<forall>us. covers src new (pd_lastscan (pd_step fnd src new st)) (pd_lastpos (pd_step fnd src new st)) us \<longrightarrow>
            covers src new (pd_lastscan st) (pd_lastpos st) (ts @ us)) \<and>
      length ts \<le> 1 \<and> (ts = [] \<longrightarrow> pd_lastpos (pd_step fnd src new st) = pd_lastpos st \<and>
         pd_lastscan (pd_step fnd src new st) = pd_lastscan st) \<and>
      (\<forall>f x lp. ts = [(f, x, lp)] \<longrightarrow> lp = pd_lastpos (pd_step fnd src new st) \<and>
         pd_lastscan (pd_step fnd src new st) = pd_lastscan st + f + x))"
proof -
  define scan where "scan = pd_scan st + pd_mlen st"
  obtain scan' pos' mlen' os' where
    r: "pd_scan_loop fnd src new (pd_lastoffset st) scan scan (pd_pos st) (pd_mlen st) 0 = (scan', pos', mlen', os')"
    by (metis prod_cases4)
  have inv: "scan \<le> length new" "pd_lastscan st \<le> scan" "pd_lastpos st \<le> length src" "pd_pos st \<le> length src"
    using assms by (auto simp: pd_inv_def scan_def)
  have b: "scan \<le> scan'" "scan' \<le> length new" "scan' < length new \<Longrightarrow> 0 < mlen' \<and> (pos', mlen') = fnd new scan' (int scan' + pd_lastoffset st)"
    using pd_scan_loop_break[OF _ r] inv(1) by auto
  have pos': "pos' \<le> length src" using pd_scan_loop_pos[OF r inv(4)] .
  have m: "scan' < length new \<Longrightarrow> scan' + mlen' \<le> length new"
    using b(3) fnd_bounds(2)[of new scan' _ pos' mlen'] by (metis not_gr_zero)
  define s1 where "s1 = st\<lparr>pd_scan := scan', pd_pos := pos', pd_mlen := mlen'\<rparr>"
  have step: "pd_step fnd src new st = (if int mlen' \<noteq> os' \<or> scan' = length new then pd_emit src new s1 else s1)"
    using r by (simp add: pd_step_def Let_def scan_def s1_def)
  show ?thesis
  proof (cases "int mlen' \<noteq> os' \<or> scan' = length new")
    case True
    then have st': "pd_step fnd src new st = pd_emit src new s1" using step by simp
    obtain f x where fx: "pd_adds src new s1 [(f, x, pd_lastpos (pd_emit src new s1))] (pd_emit src new s1)"
      "pd_lastscan (pd_emit src new s1) = pd_lastscan st + f + x" "pd_lastpos st + f \<le> length src"
      "pd_lastpos (pd_emit src new s1) \<le> length src" "pd_lastscan (pd_emit src new s1) \<le> scan'"
      "scan' = length new \<longrightarrow> pd_lastscan (pd_emit src new s1) = length new"
      using pd_emit_triple[of s1 new src] inv b pos' by (auto simp: s1_def)
    have "pd_inv src new (pd_emit src new s1)"
      using fx b(2) m pos' by (auto simp: pd_inv_def s1_def)
    moreover have "pd_adds src new st [(f, x, pd_lastpos (pd_emit src new s1))] (pd_emit src new s1)"
      using fx(1) by (simp add: pd_adds_def s1_def)
    ultimately show ?thesis unfolding st' using fx b(2)
      by (intro conjI exI[of _ "[(f, x, pd_lastpos (pd_emit src new s1))]"]) auto
  next
    case False
    then have st': "pd_step fnd src new st = s1" using step by simp
    have "pd_inv src new s1" using False inv b m pos' by (auto simp: pd_inv_def s1_def)
    then show ?thesis unfolding st'
      by (intro conjI exI[of _ "[]"]) (auto simp: pd_adds_def s1_def)
  qed
qed

lemma pd_loop_adds:
  assumes "pd_inv src new st"
  shows "\<exists>ts. covers src new (pd_lastscan st) (pd_lastpos st) ts \<and> pd_adds src new st ts (pd_loop fnd src new st) \<and>
    length ts \<le> pd_measure new st"
  using assms
proof (induction "pd_measure new st" arbitrary: st rule: less_induct)
  case less
  show ?case
  proof (cases "pd_scan st < length new")
    case False
    then have "pd_loop fnd src new st = st" by (simp add: pd_loop.simps)
    then show ?thesis using less.prems False by (intro exI[of _ "[]"]) (auto simp: pd_inv_def pd_adds_def)
  next
    case True
    define st' where "st' = pd_step fnd src new st"
    obtain ts where st': "pd_inv src new st'" "pd_adds src new st ts st'"
      "\<And>us. covers src new (pd_lastscan st') (pd_lastpos st') us \<Longrightarrow> covers src new (pd_lastscan st) (pd_lastpos st) (ts @ us)"
      "length ts \<le> 1" "ts = [] \<Longrightarrow> pd_lastpos st' = pd_lastpos st \<and> pd_lastscan st' = pd_lastscan st"
      "\<And>f x lp. ts = [(f, x, lp)] \<Longrightarrow> lp = pd_lastpos st' \<and> pd_lastscan st' = pd_lastscan st + f + x"
      using pd_step_adds[OF less.prems True] unfolding st'_def by blast
    have "pd_measure new st' < pd_measure new st" using pd_step_progress[OF True] by (simp add: st'_def)
    from less.hyps[OF this st'(1)] obtain us where
      us: "covers src new (pd_lastscan st') (pd_lastpos st') us" "pd_adds src new st' us (pd_loop fnd src new st')"
        "length us \<le> pd_measure new st'" by blast
    have "length (ts @ us) \<le> pd_measure new st" using us(3) st'(4) \<open>pd_measure new st' < pd_measure new st\<close> by simp
    moreover have "pd_loop fnd src new st = pd_loop fnd src new st'" using True by (simp add: pd_loop.simps[of fnd src new st] st'_def)
    moreover have "pd_adds src new st (ts @ us) (pd_loop fnd src new st')"
    proof (cases ts)
      case Nil
      then show ?thesis using us(2) st'(2,5) by (simp add: pd_adds_def)
    next
      case (Cons t ts')
      then obtain f x lp where ts: "ts = [(f, x, lp)]" using st'(4) by (cases t) auto
      then show ?thesis using us(2) st'(2) st'(6)[OF ts] by (simp add: pd_adds_def)
    qed
    ultimately show ?thesis using st'(3)[OF us(1)] by metis
  qed
qed

end

section \<open>The round trip\<close>

text \<open>The streams are linear in the new file.\<close>

lemma length_enc_runs: "runs_in pe' hi rs \<Longrightarrow> pe \<le> pe' \<Longrightarrow> hi < 2 ^ 64 \<Longrightarrow> length (enc_runs pe rs) \<le> 21 * (hi - pe')"
proof (induction rs arbitrary: pe pe')
  case (Cons r rs)
  obtain p bs where r: "r = (p, bs)" by fastforce
  have b: "pe' \<le> p" "bs \<noteq> []" "runs_in (p + length bs) hi rs" "p + length bs \<le> hi"
    using Cons.prems(1) r by (auto dest: runs_in_le)
  have "length (put_uvarint (p - pe)) \<le> 10" "length (put_uvarint (length bs)) \<le> 10"
    by (rule length_put_uvarint, use b Cons.prems in linarith)+
  moreover have "length (enc_runs (p + length bs) rs) \<le> 21 * (hi - (p + length bs))"
    using Cons.IH[OF b(3) le_refl Cons.prems(3)] .
  moreover have "1 \<le> length bs" using b(2) by (cases bs) auto
  ultimately show ?case using r b by simp
qed simp

lemma length_pt_ctrl_le:
  assumes "covers old new ls lp ts" "length old < 2 ^ 62" "length new < 2 ^ 62" "lp \<le> length old"
  shows "length (pt_ctrl lp ts) \<le> 30 * length ts"
  using assms
proof (induction ts arbitrary: ls lp)
  case (Cons t ts)
  obtain f x lp' where t: "t = (f, x, lp')" by (metis prod_cases3)
  have "f < 2 ^ 64" "x < 2 ^ 64" "zigzag (int lp' - (int lp + int f)) < 2 ^ 64"
    using Cons.prems t by (auto intro!: zigzag_less[simplified] simp: in_int64_def)
  then have "length (put_uvarint f) \<le> 10" "length (put_uvarint x) \<le> 10" "length (put_varint (int lp' - (int lp + int f))) \<le> 10"
    unfolding put_varint_def by (blast intro: length_put_uvarint)+
  moreover have "length (pt_ctrl lp' ts) \<le> 30 * length ts" using Cons.IH[of "ls + f + x" lp'] Cons.prems t by simp
  ultimately show ?case by (simp add: t)
qed simp

lemma length_packPlain:
  assumes "covers old new 0 0 ts" "length new < 2 ^ 56" "length old < 2 ^ 61" "length ts \<le> 2 * length new + 1"
    and "ctrl = pt_ctrl 0 ts" "extra = pt_extra new 0 ts"
    and "diff = dw_w (pt_write old new \<lparr>dw_w = [], dw_logical = 0, dw_lastEnd = 0\<rparr> 0 0 ts)"
  shows "length (packPlain (length ts) ctrl diff extra) \<le> 82 * length new + 120"
proof -
  have N: "length new < noRun" "length old < noRun" using assms(2,3) by (auto simp: noRun_def)
  obtain rs where rs: "runs_in 0 (length new) rs" "diff = enc_runs 0 rs"
    using triples_roundtrip[OF assms(1), of "\<lparr>dw_w = [], dw_logical = 0, dw_lastEnd = 0\<rparr>"] N assms(7) by auto
  have d: "length diff \<le> 21 * length new" using length_enc_runs[OF rs(1), of 0] rs(2) assms(2) by simp
  have c: "length ctrl \<le> 30 * length ts" using length_pt_ctrl_le[OF assms(1)] assms(2,3,5) by simp
  have e: "length extra \<le> length new" using length_pt_extra[OF assms(1)] assms(6) by simp
  have "length ts < 2 ^ 64" "length ctrl < 2 ^ 64" "length diff < 2 ^ 64" "length extra < 2 ^ 64"
    using c d e assms(2,4) by auto
  then have "length (put_uvarint (length ts)) \<le> 10" "length (put_uvarint (length ctrl)) \<le> 10"
    "length (put_uvarint (length diff)) \<le> 10" "length (put_uvarint (length extra)) \<le> 10"
    by (blast intro: length_put_uvarint)+
  then show ?thesis using c d e assms(4) by (simp add: packPlain_def writer_defs)
qed

lemma plainPatch_pack:
  assumes "covers old new 0 0 ts" "length new < 2 ^ 61" "length old < 2 ^ 61"
    and "ctrl = pt_ctrl 0 ts" "extra = pt_extra new 0 ts"
    and "diff = dw_w (pt_write old new \<lparr>dw_w = [], dw_logical = 0, dw_lastEnd = 0\<rparr> 0 0 ts)"
    and "length (packPlain (length ts) ctrl diff extra) < 2 ^ 64"
  shows "plainPatch old (packPlain (length ts) ctrl diff extra) (length new) = Inr new"
proof -
  define body where "body = packPlain (length ts) ctrl diff extra"
  have bd: "body = put_uvarint (length ts) @ put_uvarint (length ctrl) @ put_uvarint (length diff) @
      put_uvarint (length extra) @ ctrl @ diff @ extra"
    by (simp add: body_def packPlain_def writer_defs)
  have le: "length ts \<le> length body" "length ctrl \<le> length body" "length diff \<le> length body" "length extra \<le> length body"
    using length_pt_ctrl[of ts 0] assms(4) by (auto simp: bd)
  have lt: "length ts < 2 ^ 64" "length ctrl < 2 ^ 64" "length diff < 2 ^ 64" "length extra < 2 ^ 64"
    using le assms(7) by (auto simp flip: body_def)
  have ex: "length extra \<le> length new" using length_pt_extra[OF assms(1)] assms(5) by simp
  have N: "length new < noRun" "length old < noRun" using assms(2,3) by (auto simp: noRun_def)
  obtain rs L where rs: "runs_in 0 (length new) rs" "diff = enc_runs 0 rs"
    "plain_loop old (length new) (length ts) (rbuf_of ctrl) (reader_at (length new) 0 rs) extra 0 [] =
      Inr (rbuf_of [], reader_at (length new) L [], [], new)"
    using triples_roundtrip[OF assms(1), of "\<lparr>dw_w = [], dw_logical = 0, dw_lastEnd = 0\<rparr>"] N assms(4-6) by auto
  have "dr_done (reader_at (length new) L []) = Inr ()" by (simp add: dr_done_def reader_at_def)
  moreover have "r_take (length extra) (rbuf_of extra) = (extra, rbuf_of [])" using r_take_put[of "length extra" extra "[]"] by simp
  moreover have "newDiffReader diff (length new) = reader_at (length new) 0 rs"
    using newDiffReader_runs[OF rs(1) N(1)] rs(2) by simp
  ultimately show ?thesis
    unfolding body_def[symmetric]
    by (simp add: plainPatch_def arg_cong[OF bd, of rbuf_of] r_un_put[OF le(1) lt(1)] r_un_put[OF le(2) lt(2)]
        r_un_put[OF le(3) lt(3)] r_un_put[OF ex lt(4)] r_take_put rs(3))
qed

text \<open>What \<open>plainDiff\<close> writes, as triples.\<close>

lemma plainDiff_triples:
  obtains ts where "covers old new 0 0 ts" "length ts \<le> 2 * length new + 1"
    "plainDiff old new = packPlain (length ts) (pt_ctrl 0 ts)
       (dw_w (pt_write old new \<lparr>dw_w = [], dw_logical = 0, dw_lastEnd = 0\<rparr> 0 0 ts)) (pt_extra new 0 ts)"
proof (cases "old = []")
  case True
  define ts where "ts = [(0::nat, length new, 0::nat)]"
  have "covers old new 0 0 ts" "length ts = 1" by (simp_all add: ts_def)
  moreover have "dw_w (pt_write old new \<lparr>dw_w = [], dw_logical = 0, dw_lastEnd = 0\<rparr> 0 0 ts) = []"
    by (simp add: ts_def dw_write_def dw_loop.simps)
  moreover have "plainDiff old new = packPlain 1 (pt_ctrl 0 ts) [] (pt_extra new 0 ts)"
    by (simp add: plainDiff_def True ts_def writer_defs)
  ultimately show thesis using that[of ts] by simp
next
  case False
  define st where "st = \<lparr>pd_scan = 0, pd_mlen = 0, pd_pos = 0, pd_lastscan = 0, pd_lastpos = 0, pd_lastoffset = 0,
    pd_ntriples = 0, pd_ctrl = [], pd_d = \<lparr>dw_w = [], dw_logical = 0, dw_lastEnd = 0\<rparr>, pd_extra = []\<rparr>"
  define st' where "st' = pd_loop (Find (SetProbe plainProbe (NewIndex old))) old new st"
  have "pd_inv old new st" by (simp add: pd_inv_def st_def)
  from lzp.pd_loop_adds[OF this, of plainProbe] obtain ts where
    ts: "covers old new 0 0 ts" "pd_adds old new st ts st'" "length ts \<le> 2 * length new + 1"
    by (auto simp: st_def st'_def pd_measure_def)
  have "plainDiff old new = packPlain (pd_ntriples st') (pd_ctrl st') (dw_w (pd_d st')) (pd_extra st')"
    using False by (simp add: plainDiff_def Let_def st_def st'_def)
  then have "plainDiff old new = packPlain (length ts) (pt_ctrl 0 ts)
      (dw_w (pt_write old new \<lparr>dw_w = [], dw_logical = 0, dw_lastEnd = 0\<rparr> 0 0 ts)) (pt_extra new 0 ts)"
    using ts(2) by (simp add: pd_adds_def st_def)
  with ts show thesis using that by blast
qed

lemma length_plainDiff:
  assumes "length old < 2 ^ 61" "length new < 2 ^ 56"
  shows "length (plainDiff old new) \<le> 82 * length new + 120"
  by (rule plainDiff_triples[of old new]) (use length_packPlain[OF _ assms(2,1) _ refl refl refl] in simp)

lemma plainPatch_plainDiff:
  assumes "length old < 2 ^ 61" "length new < 2 ^ 56"
  shows "plainPatch old (plainDiff old new) (length new) = Inr new"
proof (rule plainDiff_triples[of old new])
  fix ts
  assume ts: "covers old new 0 0 ts" "plainDiff old new = packPlain (length ts) (pt_ctrl 0 ts)
       (dw_w (pt_write old new \<lparr>dw_w = [], dw_logical = 0, dw_lastEnd = 0\<rparr> 0 0 ts)) (pt_extra new 0 ts)"
  have "length (plainDiff old new) < 2 ^ 64" using length_plainDiff[OF assms] assms(2) by simp
  moreover have "length new < 2 ^ 61" using assms(2) by simp
  ultimately show ?thesis using plainPatch_pack[OF ts(1) _ assms(1) refl refl refl] ts(2) by simp
qed

text \<open>
  The end of a matched region is computed in \<^verbatim>\<open>int64\<close>: after a seek to the largest position a
  triple that matches one byte passes the range check, and the slice panics.
\<close>

lemma plainPatch_wraps:
  "plain_loop [7] 1 2 (rbuf_of (put_uvarint 0 @ put_uvarint 0 @ put_varint (2 ^ 63 - 1) @ put_uvarint 1 @ put_uvarint 0 @ put_varint 0))
     (newDiffReader [] 1) [] 0 [] = Inl Panic"
proof -
  have lt: "(0::nat) < 2 ^ 64" "Suc 0 < 2 ^ 64" "in_int64 (2 ^ 63 - 1)" "in_int64 0" by (auto simp: in_int64_def)
  have 2: "(2::nat) = Suc (Suc 0)" "(1::nat) = Suc 0" by simp_all
  have n: "newDiffReader [] (Suc 0) = reader_at (Suc 0) 0 []" using newDiffReader_runs[of "Suc 0" "[]"] by (simp add: noRun_def)
  have a: "dr_add (reader_at (Suc 0) 0 []) [] = Inr (reader_at (Suc 0) 0 [], [])"
    using dr_add_runs[of 0 "[]" "[]" "Suc 0" "[]"] by (simp add: noRun_def)
  have r: "r_s (rbuf_of (put_varint 0)) = (0, rbuf_of [])" using r_s_put[OF lt(4), of "[]"] by simp
  show ?thesis
    unfolding 2 n
    by (simp add: r_un_put[OF _ lt(1)] r_un_put[OF _ lt(2)] r_s_put[OF lt(3), simplified] r Let_def a wrap64_def slice_def)
qed

end
