(* ===== verification/Correct.thy ===== *)
theory Correct
  imports Lz Runs
begin

text \<open>
  \<^verbatim>\<open>delta/correct.go\<close>: the positional correction that turns a prediction into the target.
\<close>

definition mergeGap :: nat where "mergeGap = 6"
definition srcSlack :: nat where "srcSlack = 256"

definition slackAt :: "nat \<Rightarrow> nat \<Rightarrow> nat" where
  "slackAt e n = min srcSlack (n - e)"

section \<open>Encoding\<close>

text \<open>
  One region \<open>[s, e)\<close>, written as an lz stream over the prediction's bytes there or, when that
  is not smaller, as literals; the low bit of the span says which.
\<close>

definition put_region :: "bytes \<Rightarrow> bytes \<Rightarrow> nat \<Rightarrow> nat \<Rightarrow> nat \<Rightarrow> bytes \<times> bytes \<Rightarrow> bytes \<times> bytes" where
  "put_region pred want s e prevEnd st =
     (case st of (ctrl, lit) \<Rightarrow>
      let slack = slackAt e (length pred);
          ctrl = ctrl @ put_uvarint (s - prevEnd);
          mark = length ctrl;
          ctrl1 = ctrl @ put_uvarint ((e - s) * 2 + 1) in
      case lz_Emit (slice s (e + slack) pred) (slice s e want) ctrl1 lit of (c2, l2) \<Rightarrow>
      if int (length c2) - int mark + int (length l2) - int (length lit) < int (e - s) then (c2, l2)
      else (take mark ctrl1 @ put_uvarint ((e - s) * 2), lit @ slice s e want))"

function correct_loop :: "bytes \<Rightarrow> bytes \<Rightarrow> nat \<Rightarrow> nat \<Rightarrow> nat \<Rightarrow> bytes \<times> bytes \<Rightarrow> nat \<times> bytes \<times> bytes" where
  "correct_loop pred want s prevEnd nregions st =
     (if s < length want then
        if pred ! s = want ! s then correct_loop pred want (s + 1) prevEnd nregions st
        else
          let e = region_end mergeGap want pred (s + 1) in
          correct_loop pred want e e (nregions + 1) (put_region pred want s e prevEnd st)
      else (nregions, st))"
  by pat_completeness auto
termination
proof (relation "measure (\<lambda>(pred, want, s, prevEnd, nregions, st). length want - s)", goal_cases)
  case (3 pred want s prevEnd nregions st e)
  then show ?case using region_end_bounds[of "s + 1" want mergeGap pred] by auto
qed auto

declare correct_loop.simps [simp del]

definition encodeCorrection :: "bytes \<Rightarrow> bytes \<Rightarrow> derror + bytes" where
  "encodeCorrection pred want =
     (if length pred \<noteq> length want then Inl PredictionLength
      else case correct_loop pred want 0 0 0 ([], []) of (nregions, ctrl, lit) \<Rightarrow>
        Inr (w_raw lit (w_raw ctrl (w_u (length lit) (w_u (length ctrl) (w_u nregions (w_u (length want) [])))))))"

section \<open>Applying\<close>

text \<open>
  \<open>buf\<close> holds the output up to \<open>pos\<close> and the prediction from there; \<open>c\<close> and \<open>lit\<close> are the control
  reader and the literals left.
\<close>

fun region_loop :: "nat \<Rightarrow> bytes \<Rightarrow> nat \<Rightarrow> rbuf \<Rightarrow> bytes \<Rightarrow> derror + (bytes \<times> rbuf \<times> bytes)" where
  "region_loop 0 buf pos c lit = Inr (buf, c, lit)"
| "region_loop (Suc n) buf pos c lit =
     (case r_un (length buf) ''region gap'' c of (gap, c) \<Rightarrow>
      case r_un (length buf * 2 + 1) ''region span'' c of (v, c) \<Rightarrow>
      case rerr c of Some e \<Rightarrow> Inl e
      | None \<Rightarrow>
        let span = v div 2; isLZ = odd v in
        if gap > length buf - pos then Inl (Corrupt ''region starts past the end of the file'')
        else
          let pos = pos + gap in
          if span > length buf - pos then Inl (Corrupt ''region spans past the end of the file'')
          else if \<not> isLZ then
            if span > length lit then Inl (Corrupt ''region literals'')
            else region_loop n (overwrite pos (take span lit) buf) (pos + span) c (drop span lit)
          else
            let slack = slackAt (pos + span) (length buf);
                src = slice pos (pos + span + slack) buf in
            (case lz_apply src span 0 [] (rb c) lit of
               Inl e \<Rightarrow> Inl (if e = Panic then Panic else Corrupt ''region'')
             | Inr (out, ctrl, lit) \<Rightarrow>
                 region_loop n (overwrite pos out buf) (pos + span) (c\<lparr>rb := ctrl\<rparr>) lit))"

definition applyCorrection :: "bytes \<Rightarrow> bytes \<Rightarrow> derror + bytes" where
  "applyCorrection buf stream =
     (case r_u (rbuf_of stream) of (n, r) \<Rightarrow>
      case r_un (length buf + 1) ''region count'' r of (nregions, r) \<Rightarrow>
      case r_un (length stream) ''control stream length'' r of (ctrlLen, r) \<Rightarrow>
      case r_un (length stream) ''literal stream length'' r of (litLen, r) \<Rightarrow>
      case r_take ctrlLen r of (ctrl, r) \<Rightarrow>
      case r_take litLen r of (lit, r) \<Rightarrow>
      bindR (r_done r) (\<lambda>_.
      if n \<noteq> length buf then Inl (Corrupt ''correction is for another length'')
      else bindR (region_loop nregions buf 0 (rbuf_of ctrl) lit) (\<lambda>(buf, c, lit).
        if rb c \<noteq> [] then Inl (Corrupt ''control bytes after the last region'')
        else if lit \<noteq> [] then Inl (Corrupt ''literal bytes after the last region'')
        else Inr buf)))"

section \<open>The correction reproduces the target\<close>

text \<open>
  The buffer after the regions up to \<open>pos\<close>: the target there, the prediction after it.  The
  source window of the next region starts at \<open>pos\<close>, so the decoder sees the encoder's source.
\<close>

definition half :: "bytes \<Rightarrow> bytes \<Rightarrow> nat \<Rightarrow> bytes" where
  "half pred want pos = take pos want @ drop pos pred"

lemma length_half [simp]: "length pred = length want \<Longrightarrow> length (half pred want pos) = length want"
  by (simp add: half_def)

lemma slice_half: "length pred = length want \<Longrightarrow> pos \<le> s \<Longrightarrow> s \<le> length want \<Longrightarrow> slice s e (half pred want pos) = slice s e pred"
  by (simp add: half_def slice_def)

lemma overwrite_half:
  assumes "length pred = length want" "s \<le> e" "e \<le> length want"
  shows "overwrite s (slice s e want) (half pred want s) = half pred want e"
proof (rule nth_equalityI)
  show "length (overwrite s (slice s e want) (half pred want s)) = length (half pred want e)" using assms by simp
  fix i assume "i < length (overwrite s (slice s e want) (half pred want s))"
  then have i: "i < length want" using assms by simp
  show "overwrite s (slice s e want) (half pred want s) ! i = half pred want e ! i"
    using assms i by (auto simp: nth_overwrite half_def nth_append min_def)
qed

lemma half_step: "length pred = length want \<Longrightarrow> s < length want \<Longrightarrow> pred ! s = want ! s \<Longrightarrow> half pred want s = half pred want (s + 1)"
  using Cons_nth_drop_Suc[of s pred] by (simp add: half_def take_Suc_conv_app_nth)

lemma half_end: "length pred = length want \<Longrightarrow> half pred want (length want) = want"
  by (simp add: half_def)

lemma put_region_apply:
  assumes "length pred = length want" "prevEnd \<le> s" "s < e" "e \<le> length want" "length want < 2 ^ 61"
  shows "\<exists>c l. put_region pred want s e prevEnd (ctrl, lit) = (ctrl @ c, lit @ l) \<and> length c + length l \<le> 20 + (e - s) \<and>
    (\<forall>n c' l'. region_loop (Suc n) (half pred want s) prevEnd (rbuf_of (c @ c')) (l @ l') =
       region_loop n (half pred want e) e (rbuf_of c') l')"
proof -
  define src dst where "src = slice s (e + slackAt e (length pred)) pred" and "dst = slice s e want"
  have dst: "length dst = e - s" using assms(4) by (simp add: dst_def)
  define h where "h = put_uvarint (s - prevEnd)"
  have small: "s - prevEnd < 2 ^ 64" "(e - s) * 2 + 1 < 2 ^ 64" "(e - s) * 2 < 2 ^ 64"
    "s - prevEnd \<le> length want" "(e - s) * 2 + 1 \<le> length want * 2 + 1" "(e - s) * 2 \<le> length want * 2 + 1"
    using assms by auto
  have fits: "\<not> s - prevEnd > length want - prevEnd" "\<not> e - s > length want - s" "prevEnd + (s - prevEnd) = s" "s + (e - s) = e"
    using assms by auto
  have buf: "overwrite s dst (half pred want s) = half pred want e"
    using overwrite_half[OF assms(1) _ assms(4), of s] assms(3) by (simp add: dst_def)
  have win: "slice s (e + slackAt e (length want)) (half pred want s) = src"
    using slice_half[OF assms(1), of s s] assms by (simp add: src_def)
  have "length src < 2 ^ 63" "length dst < 2 ^ 63" using assms by (auto simp: src_def dst_def)
  from lz_Emit_apply[OF this] obtain c1 l1 where
    emit: "lz_Emit src dst (ctrl @ h @ put_uvarint ((e - s) * 2 + 1)) lit = ((ctrl @ h @ put_uvarint ((e - s) * 2 + 1)) @ c1, lit @ l1)"
    and app: "\<And>c' l'. lz_apply src (e - s) 0 [] (c1 @ c') (l1 @ l') = Inr (dst, c', l')"
    unfolding dst by metis
  have lz: "region_loop (Suc n) (half pred want s) prevEnd (rbuf_of ((h @ put_uvarint ((e - s) * 2 + 1) @ c1) @ c')) (l1 @ l') =
      region_loop n (half pred want e) e (rbuf_of c') l'" for n c' l'
    using assms(1) fits small(4,5) win buf app
    by (simp add: h_def r_un_put[OF _ small(1)] r_un_put[OF _ small(2)] Let_def del: One_nat_def) (simp add: rbuf_of_def)
  have enough: "\<not> e + length l' - s < e - s" for l' :: bytes using assms(3) by simp
  have raw: "region_loop (Suc n) (half pred want s) prevEnd (rbuf_of ((h @ put_uvarint ((e - s) * 2)) @ c')) (dst @ l') =
      region_loop n (half pred want e) e (rbuf_of c') l'" for n c' l'
    using assms(1) fits small(4,6) buf dst
    by (simp add: h_def r_un_put[OF _ small(1)] r_un_put[OF _ small(3)] Let_def enough)
  have h: "length h \<le> 10" "length (put_uvarint ((e - s) * 2)) \<le> 10"
    unfolding h_def by (rule length_put_uvarint, rule small)+
  have "put_region pred want s e prevEnd (ctrl, lit) = (ctrl @ (h @ put_uvarint ((e - s) * 2 + 1) @ c1), lit @ l1) \<and>
        length (h @ put_uvarint ((e - s) * 2 + 1) @ c1) + length l1 \<le> 20 + (e - s) \<or>
      put_region pred want s e prevEnd (ctrl, lit) = (ctrl @ (h @ put_uvarint ((e - s) * 2)), lit @ dst) \<and>
        length (h @ put_uvarint ((e - s) * 2)) + length dst \<le> 20 + (e - s)"
    using emit h dst by (auto simp: put_region_def Let_def simp flip: h_def src_def dst_def)
  then show ?thesis using lz raw by metis
qed

lemma correct_loop_apply:
  assumes "length pred = length want" "length want < 2 ^ 61" "prevEnd \<le> s" "s \<le> length want"
    and "half pred want prevEnd = half pred want s"
  shows "\<exists>k c l. correct_loop pred want s prevEnd n (ctrl, lit) = (n + k, ctrl @ c, lit @ l) \<and>
    region_loop k (half pred want s) prevEnd (rbuf_of c) l = Inr (want, rbuf_of [], []) \<and> k \<le> length want - s \<and>
    length c + length l \<le> 21 * (length want - s)"
  using assms(3-)
proof (induction "length want - s" arbitrary: s prevEnd n ctrl lit rule: less_induct)
  case less
  note unfold = correct_loop.simps[of pred want s prevEnd n "(ctrl, lit)"]
  consider (stop) "s = length want" | (same) "s < length want" "pred ! s = want ! s" | (diff) "s < length want" "pred ! s \<noteq> want ! s"
    using less.prems(2) by linarith
  then show ?case
  proof cases
    case stop
    then show ?thesis using unfold half_end[OF assms(1)] by (intro exI[of _ 0] exI[of _ "[]"]) simp
  next
    case same
    have "length want - (s + 1) < length want - s" using same by simp
    from less.hyps[OF this, of prevEnd n ctrl lit] less.prems same half_step[OF assms(1) same]
    obtain k c l where "correct_loop pred want (s + 1) prevEnd n (ctrl, lit) = (n + k, ctrl @ c, lit @ l)"
      "region_loop k (half pred want s) prevEnd (rbuf_of c) l = Inr (want, rbuf_of [], [])" "k \<le> length want - (s + 1)"
        "length c + length l \<le> 21 * (length want - (s + 1))"
      by (metis Suc_eq_plus1 Suc_leI le_SucI)
    then show ?thesis using unfold same by (intro exI[of _ k] exI[of _ c] exI[of _ l]) auto
  next
    case diff
    define e where "e = region_end mergeGap want pred (s + 1)"
    have e: "s < e" "e \<le> length want"
      using region_end_bounds[of "s + 1" want mergeGap pred] diff(1) by (auto simp: e_def)
    obtain c1 l1 where reg: "put_region pred want s e prevEnd (ctrl, lit) = (ctrl @ c1, lit @ l1)"
      "length c1 + length l1 \<le> 20 + (e - s)"
      "\<And>n c' l'. region_loop (Suc n) (half pred want s) prevEnd (rbuf_of (c1 @ c')) (l1 @ l') =
         region_loop n (half pred want e) e (rbuf_of c') l'"
      using put_region_apply[OF assms(1) less.prems(1) e assms(2)] by metis
    have "length want - e < length want - s" using e by auto
    from less.hyps[OF this, of e "n + 1" "ctrl @ c1" "lit @ l1"] e obtain k c l where
      IH: "correct_loop pred want e e (n + 1) (ctrl @ c1, lit @ l1) = (n + 1 + k, (ctrl @ c1) @ c, (lit @ l1) @ l)"
        "region_loop k (half pred want e) e (rbuf_of c) l = Inr (want, rbuf_of [], [])" "k \<le> length want - e"
        "length c + length l \<le> 21 * (length want - e)" by auto
    have "correct_loop pred want s prevEnd n (ctrl, lit) = correct_loop pred want e e (n + 1) (ctrl @ c1, lit @ l1)"
      using unfold diff reg(1) by (simp add: e_def Let_def)
    then have "correct_loop pred want s prevEnd n (ctrl, lit) = (n + Suc k, ctrl @ c1 @ c, lit @ l1 @ l)"
      using IH(1) by simp
    moreover have "region_loop (Suc k) (half pred want s) prevEnd (rbuf_of (c1 @ c)) (l1 @ l) = Inr (want, rbuf_of [], [])"
      unfolding reg(3) by (rule IH(2))
    moreover have "Suc k \<le> length want - s" "length (c1 @ c) + length (l1 @ l) \<le> 21 * (length want - s)"
      using IH(3,4) reg(2) e by auto
    ultimately show ?thesis by blast
  qed
qed

lemma applyCorrection_encode:
  assumes "length want < 2 ^ 59" "encodeCorrection pred want = Inr stream"
  shows "applyCorrection pred stream = Inr want"
proof -
  have len: "length pred = length want" using assms(2) by (simp add: encodeCorrection_def split: if_splits)
  obtain k c l where k: "correct_loop pred want 0 0 0 ([], []) = (k, c, l)"
    "region_loop k (half pred want 0) 0 (rbuf_of c) l = Inr (want, rbuf_of [], [])" "k \<le> length want" "length c + length l \<le> 21 * length want"
    using correct_loop_apply[OF len, of 0 0 0 "[]" "[]"] assms(1) by auto
  have st: "stream = put_uvarint (length want) @ put_uvarint k @ put_uvarint (length c) @ put_uvarint (length l) @ c @ l"
    using assms(2) k(1) len by (simp add: encodeCorrection_def writer_defs)
  have le: "length c \<le> length stream" "length l \<le> length stream" "k \<le> length want + 1" using k(3) by (auto simp: st)
  have lt: "length want < 2 ^ 64" "k < 2 ^ 64" "length c < 2 ^ 64" "length l < 2 ^ 64"
    using assms(1) k(3,4) by auto
  have "half pred want 0 = pred" by (simp add: half_def)
  moreover have "r_take (length l) (rbuf_of l) = (l, rbuf_of [])" using r_take_put[of "length l" l "[]"] by simp
  ultimately show ?thesis using k(2) len
    by (simp add: applyCorrection_def arg_cong[OF st, of rbuf_of] r_u_put[OF lt(1)] r_un_put[OF le(3) lt(2), simplified]
        r_un_put[OF le(1) lt(3)] r_un_put[OF le(2) lt(4)] r_take_put)
qed

end
