(* ===== verification/Delta.thy ===== *)
theory Delta
  imports PlainProof Correct
begin

text \<open>
  \<^verbatim>\<open>delta/delta.go\<close>: the codec's two entry points.  The Go-aware transform
  (\<^verbatim>\<open>encodeGoAMD64\<close>, \<^verbatim>\<open>applyGoAMD64\<close>) is an argument of both, so that what holds here holds
  whatever it does: \<open>Apply\<close> hands out only bytes that hash to the release, and a patch made by
  the plain codec reproduces the new file.
\<close>

section \<open>Options and the Go-aware transform\<close>

record options =
  MaxTransform :: int
  PlainOnly :: bool

record gocodec =
  encodeGo :: "bytes \<Rightarrow> bytes \<Rightarrow> derror + bytes"
  applyGo :: "bytes \<Rightarrow> bytes \<Rightarrow> header \<Rightarrow> derror + bytes"

definition transformCap :: "options \<Rightarrow> int" where
  "transformCap o' =
     (if MaxTransform o' \<le> 0 then int (unat maxTransform) else min (MaxTransform o') (int (unat maxTransform)))"

fun isUnsupported :: "derror \<Rightarrow> bool" where
  "isUnsupported (Unsupported _) = True"
| "isUnsupported _ = False"

section \<open>Encode\<close>

text \<open>The transform and the body \<open>Encode\<close> settles on.\<close>

definition encode_body :: "gocodec \<Rightarrow> bytes \<Rightarrow> bytes \<Rightarrow> options \<Rightarrow> derror + (byte \<times> bytes)" where
  "encode_body G old new o' =
     (let plain = bindR (encodePlain old new) (\<lambda>body. Inr (TransformPlain, body)) in
      if \<not> PlainOnly o' \<and> transformCap o' \<ge> int (unat TransformGoAMD64) then
        case encodeGo G old new of
          Inr body \<Rightarrow> Inr (TransformGoAMD64, body)
        | Inl e \<Rightarrow> if \<not> isUnsupported e then Inl e else plain
      else plain)"

definition Encode :: "prims \<Rightarrow> gocodec \<Rightarrow> bytes \<Rightarrow> bytes \<Rightarrow> options \<Rightarrow> derror + bytes" where
  "Encode P G old new o' =
     bindR (encode_body G old new o') (\<lambda>(transform, body).
       case frameBody P body of (frames, z) \<Rightarrow>
       Inr (marshalHeader
         \<lparr>h_transform = transform, h_flags = 0, h_from = hashOf P old, h_to = hashOf P new,
          h_oldsize = length old, h_newsize = length new, h_frames = frames, h_bodyoff = 0\<rparr> z))"

section \<open>Apply\<close>

text \<open>The result is the bytes of the one \<^verbatim>\<open>w.Write\<close> call, which happens last.\<close>

definition Apply :: "prims \<Rightarrow> gocodec \<Rightarrow> bytes \<Rightarrow> bytes \<Rightarrow> derror + bytes" where
  "Apply P G old patch =
     bindR (ParseHeader patch) (\<lambda>h.
       if length old \<noteq> h_oldsize h then Inl OldSizeMismatch
       else if hashOf P old \<noteq> h_from h then Inl OldHashMismatch
       else bindR (readBody P h patch) (\<lambda>body.
         bindR
           (if h_transform h = TransformPlain then applyPlain old body h
            else if h_transform h = TransformGoAMD64 then applyGo G old body h
            else Inl (UnsupportedTransform (h_transform h)))
           (\<lambda>out.
             if length out \<noteq> h_newsize h then Inl (Corrupt ''output size'')
             else if hashOf P out \<noteq> h_to h then Inl OutHashMismatch
             else Inr out)))"

section \<open>What Apply hands out\<close>

lemma Apply_checked:
  assumes "Apply P G old patch = Inr out"
  obtains h where "ParseHeader patch = Inr h" "hashOf P old = h_from h" "hashOf P out = h_to h"
    "length old = h_oldsize h" "length out = h_newsize h" "length patch = Size h"
  using assms by (auto simp: Apply_def readBody_def result_simps split: if_splits)

text \<open>A seal-and-open lemma for either transform.\<close>

lemma Encode_Apply_body:
  assumes "prims_ok P" "encode_body G old new o' = Inr (tr, body)" "length body \<le> maxPatchSize"
    and "length old \<le> maxPatchSize" "length new \<le> maxPatchSize"
    and "\<And>h. h_newsize h = length new \<Longrightarrow> tr = TransformPlain \<Longrightarrow> applyPlain old body h = Inr new"
    and "\<And>h. h_newsize h = length new \<Longrightarrow> tr = TransformGoAMD64 \<Longrightarrow> applyGo G old body h = Inr new"
  shows "\<exists>patch. Encode P G old new o' = Inr patch \<and> Apply P G old patch = Inr new"
proof -
  obtain fs z where fz: "frameBody P body = (fs, z)" by fastforce
  define h where "h = \<lparr>h_transform = tr, h_flags = 0, h_from = hashOf P old, h_to = hashOf P new,
    h_oldsize = length old, h_newsize = length new, h_frames = fs, h_bodyoff = 0\<rparr>"
  have "length (hashOf P old) = 32" "length (hashOf P new) = 32" using assms(1) by (auto simp: hashOf_def prims_ok_def)
  with patch_roundtrip[OF assms(1,3) fz, of h] assms(4,5) obtain h' where
    h': "ParseHeader (marshalHeader h z) = Inr h'" "readBody P h' (marshalHeader h z) = Inr body"
      "h' = h\<lparr>h_bodyoff := h_bodyoff h'\<rparr>" by (auto simp: h_def)
  have eq: "h_transform h' = tr" "h_from h' = hashOf P old" "h_to h' = hashOf P new"
    "h_oldsize h' = length old" "h_newsize h' = length new"
    by (subst h'(3), simp add: h_def)+
  have enc: "Encode P G old new o' = Inr (marshalHeader h z)" using assms(2) fz by (simp add: Encode_def h_def)
  have tr: "tr = TransformPlain \<or> tr = TransformGoAMD64"
    using assms(2) by (auto simp: encode_body_def result_simps Let_def split: if_splits sum.splits)
  have out: "(if tr = TransformPlain then applyPlain old body h'
      else if tr = TransformGoAMD64 then applyGo G old body h' else Inl (UnsupportedTransform tr)) = Inr new"
    using tr assms(6,7)[OF eq(5)] by auto
  have "Apply P G old (marshalHeader h z) = Inr new"
    by (simp only: Apply_def h'(1,2) eq bindR_Inr out simp_thms if_False)
  with enc show ?thesis by blast
qed

lemma encode_body_plain:
  assumes "encode_body G old new o' = Inr (TransformPlain, body)"
  shows "body = plainDiff old new \<and> length old \<le> MaxPlainSize"
  using assms
  by (auto simp: encode_body_def encodePlain_def result_simps Let_def TransformPlain_def TransformGoAMD64_def
      split: if_splits sum.splits)

lemma encode_body_go:
  "encode_body G old new o' = Inr (TransformGoAMD64, body) \<Longrightarrow> encodeGo G old new = Inr body"
  by (auto simp: encode_body_def result_simps Let_def TransformPlain_def TransformGoAMD64_def
      split: if_splits sum.splits)

lemma applyPlain_plainDiff:
  assumes "length old \<le> maxPatchSize" "length new \<le> maxPatchSize" "h_newsize h = length new"
  shows "applyPlain old (plainDiff old new) h = Inr new"
proof -
  have "length old < 2 ^ 61" "length new < 2 ^ 56"
    using assms by (auto simp: maxPatchSize_def)
  then show ?thesis using plainPatch_plainDiff assms(3) by (simp add: applyPlain_def)
qed

text \<open>Whenever the plain codec is chosen the patch reproduces the new file.\<close>

lemma encode_body_chooses_plain:
  assumes "PlainOnly o' \<or> (\<exists>e. encodeGo G old new = Inl e \<and> isUnsupported e)" "length old \<le> MaxPlainSize"
  shows "encode_body G old new o' = Inr (TransformPlain, plainDiff old new)"
  using assms by (auto simp: encode_body_def encodePlain_def Let_def split: sum.splits)

lemma Encode_Apply_plain:
  assumes "prims_ok P" "PlainOnly o' \<or> (\<exists>e. encodeGo G old new = Inl e \<and> isUnsupported e)"
    and "length old \<le> MaxPlainSize" "length new \<le> 2 ^ 27"
  shows "\<exists>patch. Encode P G old new o' = Inr patch \<and> Apply P G old patch = Inr new"
proof (rule Encode_Apply_body[OF assms(1) encode_body_chooses_plain[OF assms(2,3)]])
  have "length (plainDiff old new) \<le> 82 * length new + 120"
    by (rule length_plainDiff) (use assms(3,4) in \<open>auto simp: MaxPlainSize_def\<close>)
  then show "length (plainDiff old new) \<le> maxPatchSize" using assms(4) by (simp add: maxPatchSize_def)
  show o: "length old \<le> maxPatchSize" and n: "length new \<le> maxPatchSize" using assms(3,4) by (auto simp: maxPatchSize_def MaxPlainSize_def)
  show "applyPlain old (plainDiff old new) h = Inr new" if "h_newsize h = length new" for h :: header
    by (rule applyPlain_plainDiff[OF o n that])
qed (simp add: TransformPlain_def TransformGoAMD64_def)

text \<open>\<open>Encode\<close> declines only an input over the plain codec's size, or on an error of the Go-aware
  transform that is not a refusal.\<close>

lemma encode_body_error:
  assumes "encode_body G old new o' = Inl e"
  shows "e = PlainTooLarge \<and> length old > MaxPlainSize \<or> encodeGo G old new = Inl e \<and> \<not> isUnsupported e"
  using assms
  by (auto simp: encode_body_def encodePlain_def result_simps Let_def split: if_splits sum.splits)

end
