(* ===== verification/Agent.thy ===== *)
theory Agent
  imports Keep Remote Delta
begin

text \<open>
  \<^verbatim>\<open>agent/agent.go\<close> and \<^verbatim>\<open>agent/fetch.go\<close>: the update loop.  The record \<open>target\<close> holds what one agent is
  built with.  The store, the hooks, the timer and the context are programs: \<open>t_get\<close> reads an
  object, \<open>t_sleep\<close> says whether the wait ended before the context, \<open>t_done\<close> whether the context is
  over.  The two deadlines are the number of rounds the clock allows (\<open>t_checks\<close>, \<open>t_waits\<close>), so each
  loop is a recursion on what is left.  Logging is not modelled.
\<close>

section \<open>Outcomes\<close>

datatype outcome = OutcomeAtHead | OutcomeUpdated | OutcomeError | OutcomeVerifyFailed | OutcomeNoPath | OutcomeRolledBack

fun ExitCode :: "outcome \<Rightarrow> int" where
  "ExitCode OutcomeAtHead = 0"
| "ExitCode OutcomeUpdated = 0"
| "ExitCode OutcomeVerifyFailed = 3"
| "ExitCode OutcomeNoPath = 4"
| "ExitCode OutcomeRolledBack = 5"
| "ExitCode OutcomeError = 1"

fun Outcome_String :: "outcome \<Rightarrow> string" where
  "Outcome_String OutcomeAtHead = ''at-head''"
| "Outcome_String OutcomeUpdated = ''updated''"
| "Outcome_String OutcomeVerifyFailed = ''verify-failed''"
| "Outcome_String OutcomeNoPath = ''no-path''"
| "Outcome_String OutcomeRolledBack = ''rolled-back''"
| "Outcome_String OutcomeError = ''error''"

definition retryable :: "outcome \<Rightarrow> bool" where
  "retryable o' \<longleftrightarrow> o' = OutcomeError \<or> o' = OutcomeVerifyFailed"

section \<open>Errors and state\<close>

text \<open>An error is the list of errors joined or wrapped in it; \<open>[]\<close> is \<^verbatim>\<open>nil\<close>.\<close>

datatype aerror =
    AStore serror
  | AVerify string
  | AUnsupportedTransform byte
  | ARelease rerror
  | AErr string

type_synonym err = "aerror list"

definition is_verify :: "err \<Rightarrow> bool" where
  "is_verify e \<longleftrightarrow> list_ex (\<lambda>x. case x of AVerify _ \<Rightarrow> True | _ \<Rightarrow> False) e"

definition is_notFound :: "err \<Rightarrow> bool" where
  "is_notFound e \<longleftrightarrow> AStore NotFound \<in> set e"

definition outcomeFor :: "err \<Rightarrow> outcome" where
  "outcomeFor e = (if is_verify e then OutcomeVerifyFailed else OutcomeError)"

definition unsupportedTransform :: "err \<Rightarrow> bool" where
  "unsupportedTransform e \<longleftrightarrow> list_ex (\<lambda>x. case x of AUnsupportedTransform _ \<Rightarrow> True | _ \<Rightarrow> False) e"

record agent =
  ag_etag :: string
  ag_seq :: int
  ag_skipped :: hash

record 'z target =
  t_path :: string
  t_max :: int
  t_dev :: nat
  t_prims :: prims
  t_go :: gocodec
  t_unmarshal :: "bytes \<Rightarrow> pointer option"
  t_get :: "string \<Rightarrow> getOptions \<Rightarrow> (serror + object, 'z) sys"
  t_sleep :: "int \<Rightarrow> (bool, 'z) sys"
  t_done :: "(bool, 'z) sys"
  t_restart :: "(err, 'z) sys option"
  t_check :: "(err, 'z) sys option"
  t_checks :: nat
  t_waits :: nat
  t_race :: "nat \<Rightarrow> bool"

text \<open>Times in nanoseconds.\<close>

definition DefaultMaxSize :: int where "DefaultMaxSize = 2147483648"
definition second :: int where "second = 1000000000"
definition maxPoll :: int where "maxPoll = 300 * second"
definition checkEvery :: int where "checkEvery = second"
definition blobRetry :: int where "blobRetry = second"
definition retryWait :: int where "retryWait = 200000000"
definition fetchTries :: nat where "fetchTries = 5"

section \<open>Fetching\<close>

definition ag_get :: "'z target \<Rightarrow> string \<Rightarrow> getOptions \<Rightarrow> int \<Rightarrow> (err + bytes, 'z) sys" where
  "ag_get T key o' want = bindS (t_get T key o') (\<lambda>r. case r of
     Inl e \<Rightarrow> retS (Inl [AStore e])
   | Inr obj \<Rightarrow> let b = fst (ob_body obj) in
       retS (if int (length b) < want then Inl [AErr ''short read'']
             else if int (length b) > want then Inl [AErr ''longer than the pointer names'']
             else Inr b))"

definition readObject :: "object \<Rightarrow> int \<Rightarrow> err + (bytes \<times> string)" where
  "readObject obj mx = (case limit_reader (wrap64 (mx + 1)) (ob_body obj) of (b, ok) \<Rightarrow>
     if \<not> ok then Inl [AErr ''read'']
     else if int (length b) > mx then Inl [AErr ''longer than the limit'']
     else Inr (b, ob_etag obj))"

text \<open>One request, repeated while it fails and the timer allows: \<open>k\<close> attempts are left, \<open>wait\<close> is next.\<close>

fun get_tries :: "'z target \<Rightarrow> string \<Rightarrow> getOptions \<Rightarrow> int \<Rightarrow> nat \<Rightarrow> int \<Rightarrow> (err + bytes, 'z) sys" where
  "get_tries T key o' want 0 wait = retS (Inl [AErr ''no tries''])"
| "get_tries T key o' want (Suc k) wait = bindS (ag_get T key o' want) (\<lambda>r. case r of
     Inr b \<Rightarrow> retS (Inr b)
   | Inl e \<Rightarrow> if k = 0 \<or> is_notFound e then retS (Inl e)
             else bindS (t_sleep T wait) (\<lambda>ok. if ok then get_tries T key o' want k (2 * wait) else retS (Inl e)))"

definition ag_object :: "'z target \<Rightarrow> string \<Rightarrow> int \<Rightarrow> (err + bytes, 'z) sys" where
  "ag_object T key want =
     (if want < 0 \<or> want > t_max T then retS (Inl [AErr ''over the limit''])
      else get_tries T key wholeObject want fetchTries retryWait)"

definition copy_at :: "nat \<Rightarrow> bytes \<Rightarrow> bytes \<Rightarrow> bytes" where
  "copy_at off b out = take off out @ take (length out - off) b @ drop (off + length b) out"

definition frame_fetch :: "'z target \<Rightarrow> blob \<Rightarrow> nat \<Rightarrow> bytes \<Rightarrow> (err + bytes, 'z) sys" where
  "frame_fetch T b i out =
     (let f = bl_frames b ! i in
      tryS (get_tries T (bl_key b) \<lparr>IfNoneMatch = [], Off = bf_zoff f, Len = bf_zlen f\<rparr> (bf_zlen f) fetchTries retryWait) (\<lambda>z.
        case DecodeFrame (t_prims T) f z of
          Inl e \<Rightarrow> retS (Inl [AVerify ''frame'', ARelease e])
        | Inr plain \<Rightarrow> retS (Inr (copy_at (nat (bf_off f)) plain out))))"

text \<open>
  The workers of one pass.  Frames are dispatched in order and each writes its own part, so a
  pass is a walk over the frames still missing.  A frame is left out when its worker finds the
  context over: the agent's own, or the one an earlier failure cancelled, if the worker sees it.
\<close>

fun frames_pass :: "'z target \<Rightarrow> blob \<Rightarrow> nat list \<Rightarrow> bool \<Rightarrow> bytes \<Rightarrow> bool list \<Rightarrow> err \<Rightarrow> (bytes \<times> bool list \<times> err, 'z) sys" where
  "frames_pass T b [] cancelled out hv errs = retS (out, hv, errs)"
| "frames_pass T b (i # is) cancelled out hv errs = bindS (t_done T) (\<lambda>d.
     if d \<or> cancelled \<and> t_race T i then frames_pass T b is cancelled out hv errs
     else bindS (frame_fetch T b i out) (\<lambda>r. case r of
       Inl e \<Rightarrow> frames_pass T b is True out hv (errs @ e)
     | Inr out' \<Rightarrow> frames_pass T b is cancelled out' (hv[i := True]) errs))"

definition fetchFrames :: "'z target \<Rightarrow> blob \<Rightarrow> bytes \<Rightarrow> bool list \<Rightarrow> (bytes \<times> bool list \<times> err, 'z) sys" where
  "fetchFrames T b out hv = frames_pass T b (filter (\<lambda>i. \<not> hv ! i) [0..<length (bl_frames b)]) False out hv []"

fun blob_passes :: "'z target \<Rightarrow> blob \<Rightarrow> nat \<Rightarrow> int \<Rightarrow> bytes \<Rightarrow> bool list \<Rightarrow> (err + bytes, 'z) sys" where
  "blob_passes T b n wait out hv = bindS (fetchFrames T b out hv) (\<lambda>(out', hv', e).
     if e = [] then retS (Inr out')
     else if \<not> is_notFound e then retS (Inl e)
     else case n of 0 \<Rightarrow> retS (Inl e)
     | Suc m \<Rightarrow> bindS (t_sleep T wait) (\<lambda>ok.
         if ok then blob_passes T b m (min (2 * wait) (60 * second)) out' hv' else retS (Inl e)))"

text \<open>A panic ends the process: a nil blob's frames, or the patch codec on corrupt input.\<close>

definition dieS :: "('a, 'z) sys" where
  "dieS s = (Crash, s)"

definition fetchBlob :: "'z target \<Rightarrow> release \<Rightarrow> (err + bytes, 'z) sys" where
  "fetchBlob T head = (case rel_blob head of
     None \<Rightarrow> dieS
   | Some b \<Rightarrow> (case Blob_Check b of
       Inl e \<Rightarrow> retS (Inl [ARelease e])
     | Inr _ \<Rightarrow> if PlainSize b \<noteq> rel_size head then retS (Inl [AErr ''describes another size''])
         else blob_passes T b (t_waits T) blobRetry (replicate (nat (rel_size head)) 0) (replicate (length (bl_frames b)) False)))"

fun apply_edges :: "'z target \<Rightarrow> edge list \<Rightarrow> bytes \<Rightarrow> (err + bytes, 'z) sys" where
  "apply_edges T [] cur = retS (Inr cur)"
| "apply_edges T (e # es) cur = tryS (ag_object T (ed_key e) (ed_size e)) (\<lambda>patch.
     if HashBytes (t_prims T) patch \<noteq> ed_b3 e then retS (Inl [AVerify ''patch''])
     else case Apply (t_prims T) (t_go T) cur patch of
       Inl (UnsupportedTransform t) \<Rightarrow> retS (Inl [AUnsupportedTransform t])
     | Inl Panic \<Rightarrow> dieS
     | Inl _ \<Rightarrow> retS (Inl [AVerify ''applying''])
     | Inr out \<Rightarrow> apply_edges T es out)"

definition applyChain :: "'z target \<Rightarrow> plan \<Rightarrow> (err + bytes, 'z) sys" where
  "applyChain T pl = bindS (sys_readFile (t_path T)) (\<lambda>r. case r of
     Inl e \<Rightarrow> retS (Inl [AErr ''reading'']) | Inr cur \<Rightarrow> apply_edges T (pl_edges pl) cur)"

definition build :: "'z target \<Rightarrow> pointer \<Rightarrow> plan \<Rightarrow> ((outcome \<times> err) + bytes, 'z) sys" where
  "build T p pl =
     (let blob = bindS (fetchBlob T (pt_head p)) (\<lambda>r. case r of
            Inl e \<Rightarrow> retS (Inl (outcomeFor e, e)) | Inr d \<Rightarrow> retS (Inr d)) in
      if pl_kind pl = PlanChain then
        bindS (applyChain T pl) (\<lambda>r. case r of
          Inr d \<Rightarrow> retS (Inr d)
        | Inl e \<Rightarrow>
            if \<not> unsupportedTransform e then retS (Inl (outcomeFor e, e))
            else if rel_blob (pt_head p) = None then retS (Inl (OutcomeNoPath, e))
            else blob)
      else blob)"

section \<open>One cycle\<close>

definition currentHash :: "'z target \<Rightarrow> (err + hash, 'z) sys" where
  "currentHash T = bindS (CachedHash (t_prims T) (t_dev T) (t_path T)) (\<lambda>r. case r of
     Inl ENOENT \<Rightarrow> retS (Inr zeroHash) | Inl e \<Rightarrow> retS (Inl [AErr ''hash'']) | Inr h \<Rightarrow> retS (Inr h))"

definition ag_pointer :: "'z target \<Rightarrow> agent \<Rightarrow> ((err + pointer option) \<times> agent, 'z) sys" where
  "ag_pointer T a = bindS (t_get T PointerKey \<lparr>IfNoneMatch = ag_etag a, Off = 0, Len = 0\<rparr>) (\<lambda>r. case r of
     Inl NotModified \<Rightarrow> retS (Inr None, a)
   | Inl e \<Rightarrow> retS (Inl [AStore e], a)
   | Inr obj \<Rightarrow> (case readObject obj (t_max T) of
       Inl e \<Rightarrow> retS (Inl e, a)
     | Inr (raw, etag) \<Rightarrow> (case ParsePointer (t_unmarshal T) raw of
         Inl (UnknownFormat x y) \<Rightarrow> retS (Inr None, a\<lparr>ag_etag := etag\<rparr>)
       | Inl e \<Rightarrow> retS (Inl [ARelease e], a)
       | Inr p \<Rightarrow>
           if pt_seq p < ag_seq a then retS (Inr None, a\<lparr>ag_etag := etag\<rparr>)
           else retS (Inr (Some (p\<lparr>pt_etag := etag\<rparr>)), a\<lparr>ag_etag := etag, ag_seq := pt_seq p\<rparr>))))"

definition ag_skip :: "'z target \<Rightarrow> agent \<Rightarrow> hash \<Rightarrow> (bool \<times> err \<times> agent, 'z) sys" where
  "ag_skip T a head = bindS (Failed (t_path T)) (\<lambda>f. case f of
     None \<Rightarrow> retS (False, [], a)
   | Some failed \<Rightarrow>
       if failed = head then retS (True, [AErr ''was rolled back on this target''], a\<lparr>ag_skipped := head\<rparr>)
       else bindS (ClearFailed (t_path T)) (\<lambda>_. retS (False, [], a\<lparr>ag_skipped := zeroHash\<rparr>)))"

fun check_rounds :: "'z target \<Rightarrow> (err, 'z) sys \<Rightarrow> nat \<Rightarrow> (err, 'z) sys" where
  "check_rounds T check n = bindS check (\<lambda>e.
     if e = [] then retS []
     else bindS (t_sleep T checkEvery) (\<lambda>ok.
       if \<not> ok then retS (AErr ''was not healthy'' # e)
       else case n of 0 \<Rightarrow> retS (AErr ''was not healthy'' # e) | Suc m \<Rightarrow> check_rounds T check m))"

definition healthy :: "'z target \<Rightarrow> (err, 'z) sys" where
  "healthy T = (case t_check T of None \<Rightarrow> retS [] | Some check \<Rightarrow> check_rounds T check (t_checks T))"

definition rollback :: "'z target \<Rightarrow> hash \<Rightarrow> err \<Rightarrow> (outcome \<times> err, 'z) sys" where
  "rollback T head why =
     seqS (MarkFailed (t_path T) head)
     (bindS (sys_stat (OldPath (t_path T))) (\<lambda>st. case st of
       Inl e \<Rightarrow> retS (OutcomeRolledBack, why)
     | Inr _ \<Rightarrow> bindS (Revert (t_path T)) (\<lambda>r. case r of
         Inl e \<Rightarrow> retS (OutcomeRolledBack, why @ [ARelease e])
       | Inr _ \<Rightarrow> (case t_restart T of
           None \<Rightarrow> retS (OutcomeRolledBack, why)
         | Some restart \<Rightarrow> bindS restart (\<lambda>e. retS (OutcomeRolledBack, why @ e))))))"

text \<open>From the last check on the bytes to the end of the cycle.\<close>

definition activate :: "'z target \<Rightarrow> hash \<Rightarrow> (outcome \<times> err, 'z) sys" where
  "activate T head =
     (let check = bindS (healthy T) (\<lambda>e.
            if e \<noteq> [] then rollback T head e
            else seqS (ClearPending (t_path T)) (retS (OutcomeUpdated, []))) in
      case t_restart T of
        None \<Rightarrow> check
      | Some restart \<Rightarrow> bindS restart (\<lambda>e. if e \<noteq> [] then rollback T head (AErr ''restart'' # e) else check))"

definition deploy :: "'z target \<Rightarrow> hash \<Rightarrow> bytes \<Rightarrow> (outcome \<times> err, 'z) sys" where
  "deploy T head d =
     (if HashBytes (t_prims T) d \<noteq> head then retS (OutcomeVerifyFailed, [AVerify ''the assembled release''])
      else bindS (Install (t_prims T) (t_path T) d head) (\<lambda>r. case r of
        Inl e \<Rightarrow> retS (OutcomeError, [ARelease e])
      | Inr _ \<Rightarrow> activate T head))"

definition advance :: "'z target \<Rightarrow> agent \<Rightarrow> hash \<Rightarrow> pointer \<Rightarrow> ((outcome \<times> err) \<times> agent, 'z) sys" where
  "advance T a current p =
     (let head = rel_hash (pt_head p) in
      if rel_size (pt_head p) > t_max T then retS ((OutcomeError, [AErr ''over the limit'']), a)
      else bindS (ag_skip T a head) (\<lambda>(skip, e, a').
        if skip then retS ((OutcomeAtHead, e), a')
        else let pl = MakePlan p current in
          if pl_atHead pl then retS ((OutcomeAtHead, []), a')
          else if pl_kind pl = PlanNone then retS ((OutcomeNoPath, [AErr ''nothing published reaches'']), a')
          else bindS (build T p pl) (\<lambda>r. case r of
            Inl oe \<Rightarrow> retS (oe, a')
          | Inr d \<Rightarrow> bindS (deploy T head d) (\<lambda>oe. retS (oe, a')))))"

definition update :: "'z target \<Rightarrow> agent \<Rightarrow> ((outcome \<times> err) \<times> agent, 'z) sys" where
  "update T a = bindS (currentHash T) (\<lambda>c. case c of
     Inl e \<Rightarrow> retS ((OutcomeError, e), a)
   | Inr current \<Rightarrow> bindS (ag_pointer T a) (\<lambda>(r, a'). case r of
       Inl e \<Rightarrow> retS ((OutcomeError, e), a')
     | Inr None \<Rightarrow> retS ((OutcomeAtHead, []), a')
     | Inr (Some p) \<Rightarrow> advance T a' current p))"

definition cycle :: "'z target \<Rightarrow> agent \<Rightarrow> ((outcome \<times> err) \<times> agent, 'z) sys" where
  "cycle T a = bindS (update T a) (\<lambda>((o', e), a').
     retS ((o', e), if retryable o' then a'\<lparr>ag_etag := []\<rparr> else a'))"

section \<open>The loop\<close>

text \<open>
  \<^verbatim>\<open>newAgent\<close>: the path, the size limit and the poll interval a configuration stands for.  \<open>full\<close> is
  the absolute path, \<open>opened\<close> the error of opening the store, \<open>scheme\<close> that of a store URL that parses.
\<close>

definition defaultPoll :: "string option \<Rightarrow> int" where
  "defaultPoll scheme = (if scheme = Some ''file'' then second else 5 * second)"

definition newAgent :: "string \<Rightarrow> string option \<Rightarrow> err \<Rightarrow> int \<Rightarrow> int \<Rightarrow> string option \<Rightarrow> err + (string \<times> int \<times> int)" where
  "newAgent path full opened maxSize poll scheme =
     (if path = [] then Inl [AErr ''no path to keep up to date'']
      else case full of None \<Rightarrow> Inl [AErr ''path'']
      | Some p \<Rightarrow> if opened \<noteq> [] then Inl opened
          else Inr (p, if maxSize \<le> 0 then DefaultMaxSize else maxSize, if poll \<le> 0 then defaultPoll scheme else poll))"

fun doubled :: "nat \<Rightarrow> int \<Rightarrow> int" where
  "doubled 0 wait = wait"
| "doubled (Suc k) wait = (if wait < maxPoll then doubled k (2 * wait) else wait)"

definition poll_wait :: "int \<Rightarrow> nat \<Rightarrow> int" where
  "poll_wait poll fails = min (doubled fails poll) maxPoll"

text \<open>At most \<open>n\<close> cycles; \<open>True\<close> when the context ended the loop.\<close>

fun run :: "'z target \<Rightarrow> int \<Rightarrow> nat \<Rightarrow> nat \<Rightarrow> agent \<Rightarrow> (bool \<times> agent, 'z) sys" where
  "run T poll 0 fails a = retS (False, a)"
| "run T poll (Suc n) fails a = bindS (cycle T a) (\<lambda>((o', e), a').
     bindS (t_done T) (\<lambda>d.
       if d then retS (True, a')
       else let fails' = (if retryable o' then fails + 1 else 0) in
         bindS (t_sleep T (poll_wait poll fails')) (\<lambda>ok.
           if ok then run T poll n fails' a' else retS (True, a'))))"

end
