(* ===== verification/AgentProof.thy ===== *)
theory AgentProof
  imports Agent
begin

text \<open>
  What the update loop guarantees.  Inside the locale \<open>target_env\<close>, for every store, timer and
  health check that leave the target's files alone and every restart hook that at most puts
  the kept binary back: whatever fails and wherever the process dies, the path holds the binary
  it had or one with the hash of the head a parsed pointer names.
\<close>

section \<open>Programs that touch no file\<close>

lemma same_files_trans: "same_files a b \<Longrightarrow> same_files b c \<Longrightarrow> same_files a c"
  by (simp add: same_files_def)

lemma quietI:
  assumes "\<And>s. wp m (\<lambda>_. same_files s) (same_files s) s"
  shows "keeps (same_files s0) m"
  by (rule keepsI, rule wp_mono[OF assms]) (auto intro: same_files_trans)

lemma keeps_same_nop [keep]: "keeps (same_files s0) sys_nop"
  by (rule keepsI, rule wp_nop) simp_all

lemma keeps_same_stat [keep]: "keeps (same_files s0) (sys_stat p)"
  by (rule keepsI, rule wp_stat) simp_all

lemma keeps_same_readFile [keep]: "keeps (same_files s0) (sys_readFile p)"
  by (rule keepsI, rule wp_readFile) simp_all

lemma keeps_die [keep]: "keeps I dieS"
  by (simp add: keeps_def wp_def dieS_def)

lemma keeps_derror [keep]:
  assumes "\<And>t. keeps I (a t)" "keeps I b" "keeps I c"
  shows "keeps I (case x of UnsupportedTransform t \<Rightarrow> a t | Panic \<Rightarrow> b | _ \<Rightarrow> c)"
  using assms by (cases x) simp_all

lemma priv_same: "same_files s s' \<Longrightarrow> priv N s' = priv N s"
  by (rule private_nodes) (simp_all add: same_files_def)

section \<open>What may be at the path\<close>

definition runs :: "'z target \<Rightarrow> hash \<Rightarrow> 'z fsys_scheme \<Rightarrow> bool" where
  "runs T h s \<longleftrightarrow> (\<exists>d. content s (t_path T) = Some d \<and> HashBytes (t_prims T) d = h)"

text \<open>\<open>c0\<close> was there when the cycle began, \<open>h\<close> is the head; \<open>.old\<close> is \<open>c0\<close> or gone.\<close>

definition between :: "'z target \<Rightarrow> bytes option \<Rightarrow> hash \<Rightarrow> 'z fsys_scheme \<Rightarrow> bool" where
  "between T c0 h s \<longleftrightarrow> priv (mine (t_path T)) s \<and> (content s (t_path T) = c0 \<or> runs T h s) \<and>
     (content s (OldPath (t_path T)) = c0 \<or> content s (OldPath (t_path T)) = None)"

definition hook_step :: "string \<Rightarrow> 'z fsys_scheme \<Rightarrow> 'z fsys_scheme \<Rightarrow> bool" where
  "hook_step path s s' \<longleftrightarrow>
     (content s' path = content s path \<or> content s' path = content s (OldPath path) \<and> content s (OldPath path) \<noteq> None) \<and>
     (content s' (OldPath path) = content s (OldPath path) \<or> content s' (OldPath path) = None)"

lemma between_same: "same_files s s' \<Longrightarrow> between T c0 h s' = between T c0 h s"
  by (simp add: between_def runs_def priv_same same_files_content)

lemma runs_same: "same_files s s' \<Longrightarrow> runs T h s' = runs T h s"
  by (simp add: runs_def same_files_content)

lemma between_marker:
  assumes "between T c0 h s" "marker_at (content s) p m s'" "priv (mine (t_path T)) s'" "p \<noteq> t_path T" "p \<noteq> OldPath (t_path T)"
  shows "between T c0 h s'"
  using assms by (auto simp: between_def marker_at_def runs_def)

lemma keeps_between_MarkFailed: "keeps (between T c0 h) (MarkFailed (t_path T) head)"
proof (rule keepsI)
  fix s :: "'a fsys_scheme" assume b: "between T c0 h s"
  then have p: "priv (mine (t_path T)) s" by (simp add: between_def)
  note m = wp_MarkFailed[OF priv_marker[OF p mine_names(5)], of head]
  show "wp (MarkFailed (t_path T) head) (\<lambda>_. between T c0 h) (between T c0 h) s"
    by (rule wp_mono[OF wp_conj[OF keepsD[OF keeps_MarkFailed p] m]])
       (use between_marker[OF b] mine_names(7)[of "t_path T"] in \<open>auto split: if_splits\<close>)
qed

lemma keeps_stat_any: "(\<And>s. I (ticked s) = I s) \<Longrightarrow> keeps I (sys_stat p)"
  by (rule keepsI, rule wp_stat) simp_all

lemma between_ticked [simp]: "between T c0 h (ticked s) = between T c0 h s"
  by (rule between_same) simp

text \<open>A revert moves \<open>.old\<close> to the path, or does nothing to either.\<close>

lemma keeps_Revert_old:
  "keeps (\<lambda>s. content s (OldPath path) = c \<or> content s (OldPath path) = None) (Revert path)"
proof -
  let ?I = "\<lambda>s :: 'a fsys_scheme. content s (OldPath path) = c \<or> content s (OldPath path) = None"
  have "keeps ?I (sys_rename (OldPath path) path)"
    by (rule keepsI, rule wp_rename) (auto simp: content_def)
  moreover have "keeps ?I (sys_remove (PendingPath path))" "keeps ?I (sys_stat (PendingPath path))" "keeps ?I sys_nop"
    by (rule keepsI, rule wp_remove wp_stat wp_nop; auto simp: content_def)+
  ultimately show ?thesis unfolding Revert_def Let_def syncDir_def by (intro keep)
qed

lemma keeps_Revert_gone:
  "keeps (\<lambda>s. content s (OldPath path) = None \<and> content s path = c) (Revert path)"
proof -
  let ?I = "\<lambda>s :: 'a fsys_scheme. content s (OldPath path) = None \<and> content s path = c"
  have "keeps ?I (sys_rename (OldPath path) path)"
    by (rule keepsI, rule wp_rename) (auto simp: content_def)
  moreover have "keeps ?I (sys_remove (PendingPath path))" "keeps ?I (sys_stat (PendingPath path))" "keeps ?I sys_nop"
    by (rule keepsI, rule wp_remove wp_stat wp_nop; auto simp: content_def)+
  ultimately show ?thesis unfolding Revert_def Let_def syncDir_def by (intro keep)
qed

lemma wp_Revert_hook:
  fixes s :: "'z fsys_scheme"
  assumes "priv (mine path) s"
  shows "wp (Revert path) (\<lambda>_ s'. priv (mine path) s' \<and> hook_step path s s') (\<lambda>s'. priv (mine path) s' \<and> hook_step path s s') s"
proof (cases "content s (OldPath path)")
  case None
  have g: "wp (Revert path) (\<lambda>_ s'. content s' (OldPath path) = None \<and> content s' path = content s path)
      (\<lambda>s'. content s' (OldPath path) = None \<and> content s' path = content s path) s"
    by (rule keepsD[OF keeps_Revert_gone]) (simp add: None)
  show ?thesis
    by (rule wp_mono[OF wp_conj[OF keepsD[OF keeps_Revert assms] g]]) (auto simp: hook_step_def)
next
  case (Some c1)
  have o: "wp (Revert path) (\<lambda>_ s'. content s' (OldPath path) = Some c1 \<or> content s' (OldPath path) = None)
      (\<lambda>s'. content s' (OldPath path) = Some c1 \<or> content s' (OldPath path) = None) s"
    by (rule keepsD[OF keeps_Revert_old]) (simp add: Some)
  show ?thesis
    by (rule wp_mono[OF wp_conj[OF keepsD[OF keeps_Revert assms] wp_conj[OF wp_Revert[OF refl Some] o]]])
       (auto simp: hook_step_def Some)
qed

lemma between_hook:
  "between T c0 h s \<Longrightarrow> hook_step (t_path T) s s' \<Longrightarrow> priv (mine (t_path T)) s' \<Longrightarrow> between T c0 h s'"
  by (auto simp: between_def hook_step_def runs_def)

lemma keeps_between_Revert: "keeps (between T c0 h) (Revert (t_path T))"
proof (rule keepsI)
  fix s :: "'a fsys_scheme" assume b: "between T c0 h s"
  then have "priv (mine (t_path T)) s" by (simp add: between_def)
  from wp_Revert_hook[OF this] show "wp (Revert (t_path T)) (\<lambda>_. between T c0 h) (between T c0 h) s"
    by (rule wp_mono) (auto intro: between_hook[OF b])
qed

definition ended :: "'z target \<Rightarrow> bytes option \<Rightarrow> hash \<Rightarrow> outcome \<times> err \<Rightarrow> 'z fsys_scheme \<Rightarrow> bool" where
  "ended T c0 h oe s \<longleftrightarrow> priv (mine (t_path T)) s \<and> (content s (t_path T) = c0 \<or> runs T h s) \<and>
     (fst oe = OutcomeUpdated \<longrightarrow> runs T h s) \<and>
     (fst oe \<in> {OutcomeAtHead, OutcomeNoPath, OutcomeVerifyFailed} \<longrightarrow> content s (t_path T) = c0)"

definition halfway :: "'z target \<Rightarrow> bytes option \<Rightarrow> hash \<Rightarrow> 'z fsys_scheme \<Rightarrow> bool" where
  "halfway T c0 h s \<longleftrightarrow> priv (mine (t_path T)) s \<and> (content s (t_path T) = c0 \<or> runs T h s)"

text \<open>
  Between cycles: the binary there at the start, or one that the head of a pointer names which
  the store answered with and which parsed.
\<close>

definition sent :: "'z target \<Rightarrow> bytes \<Rightarrow> pointer \<Rightarrow> bool" where
  "sent T raw p \<longleftrightarrow> ParsePointer (t_unmarshal T) raw = Inr p \<and>
     (\<exists>etag s obj s'. t_get T PointerKey \<lparr>IfNoneMatch = etag, Off = 0, Len = 0\<rparr> s = (Ret (Inr obj), s') \<and>
        readObject obj (t_max T) = Inr (raw, ob_etag obj))"

definition published :: "'z target \<Rightarrow> int \<Rightarrow> int \<Rightarrow> 'z fsys_scheme \<Rightarrow> bool" where
  "published T lo hi s \<longleftrightarrow> (\<exists>raw p. sent T raw p \<and> lo \<le> pt_seq p \<and> pt_seq p \<le> hi \<and> runs T (rel_hash (pt_head p)) s)"

definition settled :: "'z target \<Rightarrow> bytes option \<Rightarrow> int \<Rightarrow> int \<Rightarrow> 'z fsys_scheme \<Rightarrow> bool" where
  "settled T c0 lo hi s \<longleftrightarrow> priv (mine (t_path T)) s \<and> (content s (t_path T) = c0 \<or> published T lo hi s)"

definition anytime :: "'z target \<Rightarrow> bytes option \<Rightarrow> int \<Rightarrow> 'z fsys_scheme \<Rightarrow> bool" where
  "anytime T c0 lo s \<longleftrightarrow> (\<exists>hi. settled T c0 lo hi s)"

lemma publishedI:
  "sent T raw p \<Longrightarrow> lo \<le> pt_seq p \<Longrightarrow> pt_seq p \<le> hi \<Longrightarrow> runs T (rel_hash (pt_head p)) s \<Longrightarrow> published T lo hi s"
  unfolding published_def by blast

lemma published_mono: "published T lo hi s \<Longrightarrow> lo' \<le> lo \<Longrightarrow> hi \<le> hi' \<Longrightarrow> published T lo' hi' s"
  unfolding published_def by (meson order_trans)

section \<open>The environment\<close>

locale target_env = object_source "t_get T" for T :: "'z target" +
  assumes sleep_files: "wp (t_sleep T d) (\<lambda>_. same_files s) (same_files s) s"
    and done_files: "wp (t_done T) (\<lambda>_. same_files s) (same_files s) s"
    and check_files: "t_check T = Some c \<Longrightarrow> wp c (\<lambda>_. same_files s) (same_files s) s"
    and restart_files: "t_restart T = Some r \<Longrightarrow> priv (mine (t_path T)) s \<Longrightarrow>
      wp r (\<lambda>e s'. priv (mine (t_path T)) s' \<and> hook_step (t_path T) s s' \<and> (e = [] \<longrightarrow> content s' (t_path T) = content s (t_path T)))
        (\<lambda>s'. priv (mine (t_path T)) s' \<and> hook_step (t_path T) s s') s"
begin

lemmas quiet_get = quietI[OF get_frame]
lemmas quiet_sleep = quietI[OF sleep_files]
lemmas quiet_done = quietI[OF done_files]

text \<open>Nothing up to the install touches a file.\<close>

lemma quiet_ag_get: "keeps (same_files s0) (ag_get T key o' want)"
  unfolding ag_get_def Let_def by (intro keep quiet_get)

lemma quiet_get_tries: "keeps (same_files s0) (get_tries T key o' want k wait)"
proof (induction k arbitrary: wait)
  case (Suc k)
  then show ?case unfolding get_tries.simps by (intro keep quiet_ag_get quiet_sleep) auto
qed (simp add: keeps_ret)

lemma quiet_frame: "keeps (same_files s0) (frame_fetch T b i out)"
  unfolding frame_fetch_def Let_def by (intro keep quiet_get_tries)

lemma quiet_pass: "keeps (same_files s0) (frames_pass T b is c out hv errs)"
proof (induction "is" arbitrary: c out hv errs)
  case (Cons i "is")
  then show ?case unfolding frames_pass.simps by (intro keep quiet_done quiet_frame) auto
qed (simp add: keeps_ret)

lemma quiet_passes: "keeps (same_files s0) (blob_passes T b n wait out hv)"
proof (induction n arbitrary: wait out hv)
  case 0
  then show ?case unfolding blob_passes.simps[of T b 0] fetchFrames_def by (intro keep quiet_pass quiet_sleep) (simp add: keeps_ret)
next
  case (Suc n)
  then show ?case unfolding blob_passes.simps[of T b "Suc n"] fetchFrames_def nat.case by (intro keep quiet_pass quiet_sleep) auto
qed

lemma quiet_fetchBlob: "keeps (same_files s0) (fetchBlob T head)"
  unfolding fetchBlob_def by (intro keep quiet_passes)

lemma quiet_edges: "keeps (same_files s0) (apply_edges T es cur)"
proof (induction es arbitrary: cur)
  case (Cons e es)
  have "keeps (same_files s0) (ag_object T key want)" for key want
    unfolding ag_object_def by (intro keep quiet_get_tries)
  with Cons show ?case unfolding apply_edges.simps by (intro keep) auto
qed (simp add: keeps_ret)

lemma quiet_build: "keeps (same_files s0) (build T p pl)"
  unfolding build_def applyChain_def Let_def by (intro keep quiet_fetchBlob quiet_edges)

lemma quiet_rounds:
  assumes "\<And>s. wp check (\<lambda>_. same_files s) (same_files s) s"
  shows "keeps (same_files s0) (check_rounds T check n)"
proof (induction n)
  case 0
  then show ?case unfolding check_rounds.simps[of T check 0] by (intro keep quiet_sleep quietI[OF assms]) (simp add: keeps_ret)
next
  case (Suc n)
  then show ?case unfolding check_rounds.simps[of T check "Suc n"] nat.case by (intro keep quiet_sleep quietI[OF assms]) auto
qed

lemma quiet_healthy: "keeps (same_files s0) (healthy T)"
proof (cases "t_check T")
  case (Some c)
  then show ?thesis using quiet_rounds[OF check_files[OF Some]] by (simp add: healthy_def)
qed (simp add: healthy_def keeps_ret)

lemma wp_quiet: "(\<And>s0. keeps (same_files s0) m) \<Longrightarrow> wp m (\<lambda>_. same_files s) (same_files s) s"
  by (rule keepsD) auto

text \<open>Rolling back keeps to the two binaries.\<close>

lemma keeps_between_restart: "t_restart T = Some r \<Longrightarrow> keeps (between T c0 h) r"
proof (rule keepsI)
  fix s assume r: "t_restart T = Some r" and b: "between T c0 h s"
  then have "priv (mine (t_path T)) s" by (simp add: between_def)
  from restart_files[OF r this] show "wp r (\<lambda>_. between T c0 h) (between T c0 h) s"
    by (rule wp_mono) (auto intro: between_hook[OF b])
qed

lemma keeps_between_rollback: "keeps (between T c0 h) (rollback T head why)"
proof (cases "t_restart T")
  case None
  show ?thesis unfolding rollback_def None option.case
    by (intro keep keeps_between_MarkFailed keeps_between_Revert keeps_stat_any) simp
next
  case (Some r)
  show ?thesis unfolding rollback_def Some option.case
    by (intro keep keeps_between_MarkFailed keeps_between_Revert keeps_stat_any keeps_between_restart[OF Some]) simp
qed

lemma rollback_outcome: "wp (rollback T head why) (\<lambda>oe _. fst oe = OutcomeRolledBack) (\<lambda>_. True) s"
proof -
  have rev: "wp (case r of Inl e \<Rightarrow> retS (OutcomeRolledBack, why @ [ARelease e])
       | Inr _ \<Rightarrow> (case t_restart T of None \<Rightarrow> retS (OutcomeRolledBack, why)
         | Some restart \<Rightarrow> bindS restart (\<lambda>e. retS (OutcomeRolledBack, why @ e)))) (\<lambda>oe _. fst oe = OutcomeRolledBack) (\<lambda>_. True) s"
    for s and r :: "rerror + unit"
    by (cases r; cases "t_restart T") (simp_all add: wp_any)
  have st: "wp (case st of Inl e \<Rightarrow> retS (OutcomeRolledBack, why)
     | Inr _ \<Rightarrow> bindS (Revert (t_path T)) (\<lambda>r. case r of
         Inl e \<Rightarrow> retS (OutcomeRolledBack, why @ [ARelease e])
       | Inr _ \<Rightarrow> (case t_restart T of None \<Rightarrow> retS (OutcomeRolledBack, why)
         | Some restart \<Rightarrow> bindS restart (\<lambda>e. retS (OutcomeRolledBack, why @ e))))) (\<lambda>oe _. fst oe = OutcomeRolledBack) (\<lambda>_. True) s"
    for s and st :: "errno + (nat \<times> inode)"
    by (cases st) (use rev in \<open>auto intro: wp_mono[OF wp_any]\<close>)
  show ?thesis
    unfolding rollback_def wp_seq wp_bind[of "sys_stat (OldPath (t_path T))"]
    by (intro wp_mono[OF wp_any] st TrueI)
qed

lemma wp_rollback:
  "between T c0 h s \<Longrightarrow> wp (rollback T head why) (\<lambda>oe s'. between T c0 h s' \<and> fst oe = OutcomeRolledBack) (between T c0 h) s"
  by (rule wp_mono[OF wp_conj[OF keepsD[OF keeps_between_rollback] rollback_outcome]]) auto

text \<open>After the install: updated means the new binary is there.\<close>

lemma keeps_runs_ClearPending: "keeps (\<lambda>s. between T c0 h s \<and> runs T h s) (ClearPending (t_path T))"
proof (rule keepsI)
  fix s assume a: "between T c0 h s \<and> runs T h s"
  then have p: "priv (mine (t_path T)) s" by (simp add: between_def)
  have "wp (ClearPending (t_path T)) (\<lambda>_ s'. content s' q = content s q) (\<lambda>s'. content s' q = content s q) s"
    if "q \<noteq> PendingPath (t_path T)" for q
    by (rule keepsD[OF keeps_content_ClearPending[OF that]]) simp
  note c = wp_conj[OF keepsD[OF keeps_ClearPending p] wp_conj[OF this[of "t_path T"] this[of "OldPath (t_path T)"]]]
  show "wp (ClearPending (t_path T)) (\<lambda>_ s. between T c0 h s \<and> runs T h s) (\<lambda>s. between T c0 h s \<and> runs T h s) s"
    by (rule wp_mono[OF c]) (use a in \<open>auto simp: between_def runs_def\<close>)
qed

lemma between_halfway: "between T c0 h s \<Longrightarrow> halfway T c0 h s"
  by (simp add: between_def halfway_def)

lemma ended_halfway: "ended T c0 h oe s \<Longrightarrow> halfway T c0 h s"
  by (simp add: ended_def halfway_def)

lemma ended_rolled: "between T c0 h s \<Longrightarrow> fst oe = OutcomeRolledBack \<Longrightarrow> ended T c0 h oe s"
  by (simp add: between_def ended_def)

lemma wp_rolled: "between T c0 h s \<Longrightarrow> wp (rollback T head why) (ended T c0 h) (halfway T c0 h) s"
  by (rule wp_mono[OF wp_rollback]) (auto simp: ended_rolled between_halfway)

lemma wp_check_part:
  assumes "between T c0 h s" "runs T h s"
  shows "wp (bindS (healthy T) (\<lambda>e. if e \<noteq> [] then rollback T head e
      else seqS (ClearPending (t_path T)) (retS (OutcomeUpdated, [])))) (ended T c0 h) (halfway T c0 h) s"
  unfolding wp_bind
proof (rule wp_mono[OF wp_quiet[OF quiet_healthy]])
  fix e s' assume f: "same_files s s'"
  then have b: "between T c0 h s'" "runs T h s'" using assms by (simp_all add: between_same runs_same)
  show "wp (if e \<noteq> [] then rollback T head e else seqS (ClearPending (t_path T)) (retS (OutcomeUpdated, []))) (ended T c0 h) (halfway T c0 h) s'"
  proof (cases "e = []")
    case True
    have "wp (ClearPending (t_path T)) (\<lambda>_. ended T c0 h (OutcomeUpdated, [])) (halfway T c0 h) s'"
      by (rule wp_mono[OF keepsD[OF keeps_runs_ClearPending, of c0 h]]) (use b in \<open>auto simp: ended_def between_def between_halfway\<close>)
    with True show ?thesis by simp
  next
    case False
    then show ?thesis using wp_rolled[OF b(1), of head e] by simp
  qed
qed (use assms in \<open>auto simp: between_same between_halfway\<close>)

lemma wp_activate:
  assumes "between T c0 h s" "runs T h s"
  shows "wp (activate T head) (ended T c0 h) (halfway T c0 h) s"
proof (cases "t_restart T")
  case None
  then show ?thesis using wp_check_part[OF assms] by (simp add: activate_def del: wp_bind)
next
  case (Some r)
  have p: "priv (mine (t_path T)) s" using assms(1) by (simp add: between_def)
  show ?thesis
    unfolding activate_def Let_def Some option.case wp_bind[of r]
  proof (rule wp_mono[OF restart_files[OF Some p]])
    fix e :: err and s'
    assume a: "priv (mine (t_path T)) s' \<and> hook_step (t_path T) s s' \<and> (e = [] \<longrightarrow> content s' (t_path T) = content s (t_path T))"
    then have b: "between T c0 h s'" using between_hook[OF assms(1)] by blast
    have "runs T h s'" if "e = []" using a assms(2) that by (simp add: runs_def)
    then show "wp (if e \<noteq> [] then rollback T head (AErr ''restart'' # e)
        else bindS (healthy T) (\<lambda>e. if e \<noteq> [] then rollback T head e else seqS (ClearPending (t_path T)) (retS (OutcomeUpdated, []))))
        (ended T c0 h) (halfway T c0 h) s'"
      using wp_check_part[OF b] wp_rolled[OF b, of head "AErr ''restart'' # e"]
      by (cases "e = []") (auto simp del: wp_bind)
  qed (use between_hook[OF assms(1)] in \<open>auto intro: between_halfway\<close>)
qed

lemma wp_deploy:
  assumes "priv (mine (t_path T)) s" "content s (t_path T) = c0"
  shows "wp (deploy T h d) (ended T c0 h) (halfway T c0 h) s"
proof (cases "HashBytes (t_prims T) d = h")
  case False
  then show ?thesis using assms by (simp add: deploy_def ended_def)
next
  case True
  have bf: "before (t_path T) c0 s" using priv_before[OF assms(1)] assms(2) by simp
  note w = wp_conj[OF keepsD[OF keeps_Install assms(1)] wp_Install[OF bf, of "t_prims T" d h]]
  have act: "wp (activate T h) (ended T c0 h) (halfway T c0 h) s'"
    if "priv (mine (t_path T)) s'" "installed (t_prims T) (t_path T) c0 d h s'" for s'
    by (rule wp_activate) (use that in \<open>auto simp: between_def installed_def runs_def\<close>)
  have err: "ended T c0 h (OutcomeError, e) s'" "halfway T c0 h s'"
    if "priv (mine (t_path T)) s'" "atomic (t_prims T) (t_path T) c0 d h s'" for s' e
    using that by (auto simp: ended_def halfway_def atomic_def runs_def)
  have rw: "deploy T h d = bindS (Install (t_prims T) (t_path T) d h) (\<lambda>r. case r of
        Inl e \<Rightarrow> retS (OutcomeError, [ARelease e]) | Inr _ \<Rightarrow> activate T h)" using True by (simp add: deploy_def)
  show ?thesis unfolding rw wp_bind[of "Install (t_prims T) (t_path T) d h"]
    by (rule wp_mono[OF w]) (use act err in \<open>auto split: sum.split\<close>)
qed

lemma outcomeFor_cases: "outcomeFor e = OutcomeVerifyFailed \<or> outcomeFor e = OutcomeError"
  by (simp add: outcomeFor_def)

lemma build_outcome: "wp (build T p pl) (\<lambda>r _. \<forall>oe. r = Inl oe \<longrightarrow> fst oe \<noteq> OutcomeUpdated) (\<lambda>_. True) s"
proof -
  have nu: "outcomeFor e \<noteq> OutcomeUpdated" for e using outcomeFor_cases[of e] by auto
  have bl: "wp (bindS (fetchBlob T (pt_head p)) (\<lambda>r. case r of Inl e \<Rightarrow> retS (Inl (outcomeFor e, e)) | Inr d \<Rightarrow> retS (Inr d)))
      (\<lambda>r _. \<forall>oe. r = Inl oe \<longrightarrow> fst oe \<noteq> OutcomeUpdated) (\<lambda>_. True) s" for s
    unfolding wp_bind by (rule wp_mono[OF wp_any]) (auto simp: nu split: sum.split)
  have ch: "wp (case r of Inr d \<Rightarrow> retS (Inr d)
        | Inl e \<Rightarrow> if \<not> unsupportedTransform e then retS (Inl (outcomeFor e, e))
            else if rel_blob (pt_head p) = None then retS (Inl (OutcomeNoPath, e))
            else bindS (fetchBlob T (pt_head p)) (\<lambda>r. case r of Inl e \<Rightarrow> retS (Inl (outcomeFor e, e)) | Inr d \<Rightarrow> retS (Inr d)))
      (\<lambda>r _. \<forall>oe. r = Inl oe \<longrightarrow> fst oe \<noteq> OutcomeUpdated) (\<lambda>_. True) s" for s and r :: "err + bytes"
    using bl[of s] by (cases r) (auto simp: nu simp del: wp_bind)
  show ?thesis
  proof (cases "pl_kind pl = PlanChain")
    case True
    show ?thesis unfolding build_def Let_def if_P[OF True] wp_bind[of "applyChain T pl"] by (rule wp_mono[OF wp_any], rule ch) simp
  next
    case False
    show ?thesis unfolding build_def Let_def if_not_P[OF False] by (rule bl)
  qed
qed

lemma wp_skip:
  assumes "priv (mine (t_path T)) s"
  shows "wp (ag_skip T a head) (\<lambda>(sk, e, a') s'. priv (mine (t_path T)) s' \<and> content s' (t_path T) = content s (t_path T) \<and>
      ag_seq a' = ag_seq a) (\<lambda>s'. priv (mine (t_path T)) s' \<and> content s' (t_path T) = content s (t_path T)) s"
proof -
  let ?I = "\<lambda>s'. priv (mine (t_path T)) s' \<and> content s' (t_path T) = content s (t_path T)"
  have f: "wp (Failed (t_path T)) (\<lambda>_. ?I) ?I s"
    by (rule wp_mono[OF wp_conj[OF keepsD[OF keeps_Failed assms] keepsD[OF keeps_content_Failed[where q = "t_path T" and c = "content s (t_path T)"]]]]) auto
  have c: "wp (ClearFailed (t_path T)) (\<lambda>_. ?I) ?I s'" if "?I s'" for s'
    by (rule wp_mono[OF wp_conj[OF keepsD[OF keeps_ClearFailed] keepsD[OF keeps_content_ClearFailed[where q = "t_path T" and c = "content s (t_path T)"]]]])
       (use that in auto)
  show ?thesis unfolding ag_skip_def wp_bind
    by (rule wp_mono[OF f]) (auto split: option.split intro!: wp_mono[OF c])
qed

lemma wp_advance:
  assumes "priv (mine (t_path T)) s" "content s (t_path T) = c0" "h = rel_hash (pt_head p)"
  shows "wp (advance T a cur p) (\<lambda>(oe, a') s'. ended T c0 h oe s' \<and> ag_seq a' = ag_seq a) (halfway T c0 h) s"
proof -
  have same: "ended T c0 h oe s'" "halfway T c0 h s'"
    if "priv (mine (t_path T)) s'" "content s' (t_path T) = c0" "fst oe \<noteq> OutcomeUpdated" for s' oe
    using that by (auto simp: ended_def halfway_def)
  have bd: "wp (build T p pl) (\<lambda>r s''. same_files s' s'' \<and> (\<forall>oe. r = Inl oe \<longrightarrow> fst oe \<noteq> OutcomeUpdated)) (same_files s') s'" for pl s'
    by (rule wp_mono[OF wp_conj[OF wp_quiet[OF quiet_build] build_outcome]]) auto
  have rest: "wp (bindS (build T p pl) (\<lambda>r. case r of Inl oe \<Rightarrow> retS (oe, a') | Inr d \<Rightarrow> bindS (deploy T h d) (\<lambda>oe. retS (oe, a'))))
      (\<lambda>(oe, a') s'. ended T c0 h oe s' \<and> ag_seq a' = ag_seq a) (halfway T c0 h) s'"
    if i: "priv (mine (t_path T)) s'" "content s' (t_path T) = c0" "ag_seq a' = ag_seq a" for pl a' s'
    unfolding wp_bind[of "build T p pl"]
  proof (rule wp_mono[OF bd])
    fix r :: "(outcome \<times> err) + bytes" and s'' assume b: "same_files s' s'' \<and> (\<forall>oe. r = Inl oe \<longrightarrow> fst oe \<noteq> OutcomeUpdated)"
    then have f: "same_files s' s''" by simp
    have i2: "priv (mine (t_path T)) s''" "content s'' (t_path T) = c0" using i priv_same[OF f] same_files_content[OF f] by simp_all
    show "wp (case r of Inl oe \<Rightarrow> retS (oe, a') | Inr d \<Rightarrow> bindS (deploy T h d) (\<lambda>oe. retS (oe, a')))
        (\<lambda>(oe, a') s'. ended T c0 h oe s' \<and> ag_seq a' = ag_seq a) (halfway T c0 h) s''"
    proof (cases r)
      case (Inl oe)
      then show ?thesis using same(1)[OF i2] b i(3) by simp
    next
      case (Inr d)
      then show ?thesis using i(3) by (auto intro: wp_mono[OF wp_deploy[OF i2]])
    qed
  qed (use i in \<open>auto simp: halfway_def priv_same same_files_content\<close>)
  show ?thesis
  proof (cases "rel_size (pt_head p) > t_max T")
    case True
    then show ?thesis using assms same(1) by (simp add: advance_def)
  next
    case False
    show ?thesis
      unfolding advance_def Let_def assms(3)[symmetric] using False
      by (simp only: if_False wp_bind[of "ag_skip T a h"])
         (rule wp_mono[OF wp_skip[OF assms(1)]],
          use rest same assms(2) in \<open>auto simp: halfway_def simp del: wp_bind split: prod.split\<close>)
  qed
qed

text \<open>A pointer acted on is one that parsed and is not older than the last.\<close>

lemma wp_pointer:
  "wp (ag_pointer T a) (\<lambda>(r, a') s'. same_files s s' \<and> ag_seq a \<le> ag_seq a' \<and>
     (\<forall>p. r = Inr (Some p) \<longrightarrow> (\<exists>raw q. sent T raw q \<and> pt_head p = pt_head q \<and> pt_seq q = ag_seq a')))
   (same_files s) s"
proof -
  let ?o = "\<lparr>IfNoneMatch = ag_etag a, Off = 0, Len = 0\<rparr>"
  have src: "wp (t_get T PointerKey ?o) (\<lambda>r _. \<forall>obj. r = Inr obj \<longrightarrow> (\<exists>s s'. t_get T PointerKey ?o s = (Ret (Inr obj), s'))) (\<lambda>_. True) s"
    by (auto simp: wp_def split: prod.split out.split)
  have etag: "t = ob_etag obj" if "readObject obj mx = Inr (raw, t)" for obj mx raw t
    using that by (auto simp: readObject_def split: prod.splits if_splits)
  have sentI: "sent T raw q" if "readObject obj (t_max T) = Inr (raw, t)" "ParsePointer (t_unmarshal T) raw = Inr q"
    "t_get T PointerKey ?o s0 = (Ret (Inr obj), s1)" for obj raw t q s0 s1
    using that etag[OF that(1)] unfolding sent_def by blast
  show ?thesis
    unfolding ag_pointer_def wp_bind
  proof (rule wp_mono[OF wp_conj[OF get_frame src]], goal_cases)
    case (1 r s')
    then show ?case
      by (auto split: sum.splits serror.splits rerror.splits) (blast intro: sentI)+
  qed simp
qed

lemma wp_current:
  assumes "priv (mine (t_path T)) s"
  shows "wp (currentHash T) (\<lambda>_ s'. priv (mine (t_path T)) s' \<and> content s' (t_path T) = content s (t_path T))
    (\<lambda>s'. priv (mine (t_path T)) s' \<and> content s' (t_path T) = content s (t_path T)) s"
proof -
  note m = wp_CachedHash_frame[OF priv_marker[OF assms mine_names(4)], of "t_prims T" "t_dev T"]
  show ?thesis unfolding currentHash_def wp_bind
    by (rule wp_mono[OF wp_conj[OF keepsD[OF keeps_CachedHash assms] m]])
       (auto simp: marker_at_def hashPath_neq[symmetric] split: sum.split errno.split)
qed

lemma ended_settled:
  assumes "halfway T c0 (rel_hash (pt_head p)) s" "sent T raw q" "pt_head p = pt_head q"
    "lo \<le> pt_seq q" "pt_seq q \<le> hi"
  shows "settled T c0 lo hi s"
  using assms unfolding halfway_def settled_def published_def by auto

lemma wp_update:
  assumes "priv (mine (t_path T)) s" "content s (t_path T) = c0"
  shows "wp (update T a) (\<lambda>((o', e), a') s'. settled T c0 (ag_seq a) (ag_seq a') s' \<and> ag_seq a \<le> ag_seq a' \<and>
      (o' = OutcomeUpdated \<longrightarrow> published T (ag_seq a) (ag_seq a') s') \<and>
      (o' \<in> {OutcomeAtHead, OutcomeNoPath, OutcomeVerifyFailed} \<longrightarrow> content s' (t_path T) = c0))
    (anytime T c0 (ag_seq a)) s"
proof -
  define Q where "Q = (\<lambda>((o', e :: err), a' :: agent) s'. settled T c0 (ag_seq a) (ag_seq a') s' \<and> ag_seq a \<le> ag_seq a' \<and>
      (o' = OutcomeUpdated \<longrightarrow> published T (ag_seq a) (ag_seq a') s') \<and>
      (o' \<in> {OutcomeAtHead, OutcomeNoPath, OutcomeVerifyFailed} \<longrightarrow> content s' (t_path T) = c0))"
  have same: "Q ((x, e), a') s'" if "priv (mine (t_path T)) s'" "content s' (t_path T) = c0" "x \<noteq> OutcomeUpdated" "ag_seq a \<le> ag_seq a'" for x e a' s'
    using that by (auto simp: Q_def settled_def)
  have any: "anytime T c0 (ag_seq a) s'" if "priv (mine (t_path T)) s'" "content s' (t_path T) = c0" for s'
    using that by (auto simp: anytime_def settled_def)
  have adv: "wp (advance T a' cur p) Q (anytime T c0 (ag_seq a)) s'"
    if i: "priv (mine (t_path T)) s'" "content s' (t_path T) = c0" "ag_seq a \<le> ag_seq a'"
      and p: "sent T raw q" "pt_head p = pt_head q" "pt_seq q = ag_seq a'" for a' cur p s' raw q
  proof -
    have fin: "Q (oe, b) s''" if "ended T c0 (rel_hash (pt_head p)) oe s''" "ag_seq b = ag_seq a'" for oe b s''
    proof -
      have "settled T c0 (ag_seq a) (ag_seq b) s''"
        by (rule ended_settled[OF ended_halfway[OF that(1)] p(1,2)]) (use that(2) i(3) p(3) in auto)
      moreover have "fst oe = OutcomeUpdated \<Longrightarrow> published T (ag_seq a) (ag_seq b) s''"
        by (rule publishedI[OF p(1)]) (use that i(3) p in \<open>auto simp: ended_def\<close>)
      ultimately show ?thesis using that i(3) by (cases oe) (auto simp: Q_def ended_def)
    qed
    have cr: "anytime T c0 (ag_seq a) s''" if "halfway T c0 (rel_hash (pt_head p)) s''" for s''
      using ended_settled[OF that p(1,2), of "ag_seq a" "pt_seq q"] i(3) p(3) by (auto simp: anytime_def)
    show ?thesis by (rule wp_mono[OF wp_advance[OF i(1,2) refl, of a' cur p]]) (use fin cr in auto)
  qed
  have ptr: "wp (ag_pointer T a) (\<lambda>(r, a'). wp (case r of
       Inl e \<Rightarrow> retS ((OutcomeError, e), a')
     | Inr None \<Rightarrow> retS ((OutcomeAtHead, []), a')
     | Inr (Some p) \<Rightarrow> advance T a' cur p) Q (anytime T c0 (ag_seq a))) (anytime T c0 (ag_seq a)) s'"
    if i: "priv (mine (t_path T)) s'" "content s' (t_path T) = c0" for cur s'
  proof -
    have keep: "priv (mine (t_path T)) s''" "content s'' (t_path T) = c0" if "same_files s' s''" for s''
      using i priv_same[OF that] same_files_content[OF that] by simp_all
    have post: "wp (case r of Inl e \<Rightarrow> retS ((OutcomeError, e), a') | Inr None \<Rightarrow> retS ((OutcomeAtHead, []), a')
        | Inr (Some p) \<Rightarrow> advance T a' cur p) Q (anytime T c0 (ag_seq a)) s''"
      if f: "same_files s' s''" and q: "ag_seq a \<le> ag_seq a'"
        "\<forall>p. r = Inr (Some p) \<longrightarrow> (\<exists>raw q. sent T raw q \<and> pt_head p = pt_head q \<and> pt_seq q = ag_seq a')"
      for s'' and r :: "err + pointer option" and a'
      using adv[OF keep[OF f] q(1)] same[OF keep[OF f]] q by (auto split: sum.split option.split)
    show ?thesis by (rule wp_mono[OF wp_pointer]) (use post any keep in \<open>auto split: prod.split\<close>)
  qed
  show ?thesis
    unfolding update_def Q_def[symmetric] wp_bind[of "currentHash T"]
  proof (rule wp_mono[OF wp_current[OF assms(1)]])
    fix c :: "err + hash" and s' :: "'z fsys_scheme"
    assume i: "priv (mine (t_path T)) s' \<and> content s' (t_path T) = content s (t_path T)"
    show "wp (case c of Inl e \<Rightarrow> retS ((OutcomeError, e), a)
       | Inr current \<Rightarrow> bindS (ag_pointer T a) (\<lambda>(r, a'). case r of Inl e \<Rightarrow> retS ((OutcomeError, e), a')
         | Inr None \<Rightarrow> retS ((OutcomeAtHead, []), a') | Inr (Some p) \<Rightarrow> advance T a' current p)) Q (anytime T c0 (ag_seq a)) s'"
    proof (cases c)
      case (Inl e)
      then show ?thesis using same i assms(2) by simp
    next
      case (Inr cur)
      have "wp (ag_pointer T a) (\<lambda>(r, a'). wp (case r of Inl e \<Rightarrow> retS ((OutcomeError, e), a')
         | Inr None \<Rightarrow> retS ((OutcomeAtHead, []), a') | Inr (Some p) \<Rightarrow> advance T a' cur p) Q (anytime T c0 (ag_seq a))) (anytime T c0 (ag_seq a)) s'"
        using ptr i assms(2) by simp
      then show ?thesis unfolding Inr sum.case wp_bind by (rule wp_mono) auto
    qed
  qed (use any assms(2) in auto)
qed

text \<open>A cycle, and any number of them.\<close>

lemma wp_cycle:
  assumes "priv (mine (t_path T)) s" "content s (t_path T) = c0"
  shows "wp (cycle T a) (\<lambda>((o', e), a') s'. settled T c0 (ag_seq a) (ag_seq a') s' \<and> ag_seq a \<le> ag_seq a' \<and>
      (o' = OutcomeUpdated \<longrightarrow> published T (ag_seq a) (ag_seq a') s') \<and>
      (o' \<in> {OutcomeAtHead, OutcomeNoPath, OutcomeVerifyFailed} \<longrightarrow> content s' (t_path T) = c0) \<and>
      (retryable o' \<longrightarrow> ag_etag a' = []))
    (anytime T c0 (ag_seq a)) s"
  unfolding cycle_def wp_bind by (rule wp_mono[OF wp_update[OF assms]]) auto

lemma settled_same: "same_files s s' \<Longrightarrow> settled T c0 lo hi s' = settled T c0 lo hi s"
  by (simp add: settled_def published_def priv_same same_files_content runs_same)

lemma settled_trans:
  assumes "settled T c0 lo mid s" "settled T (content s (t_path T)) mid hi s'" "lo \<le> mid" "mid \<le> hi"
  shows "settled T c0 lo hi s'"
proof -
  have "published T lo mid s \<Longrightarrow> content s' (t_path T) = content s (t_path T) \<Longrightarrow> published T lo hi s'"
    using published_mono[of T lo mid s' lo hi] assms(4) by (simp add: published_def runs_def)
  then show ?thesis using assms published_mono[of T mid hi s' lo hi] by (auto simp: settled_def)
qed

lemma wp_run:
  assumes "settled T c0 lo (ag_seq a) s" "lo \<le> ag_seq a"
  shows "wp (run T poll n fails a) (\<lambda>(d, a') s'. settled T c0 lo (ag_seq a') s' \<and> ag_seq a \<le> ag_seq a') (anytime T c0 lo) s"
  using assms
proof (induction n arbitrary: fails a s)
  case (Suc n)
  have p: "priv (mine (t_path T)) s" using Suc.prems(1) by (simp add: settled_def)
  have cr: "anytime T c0 lo s'" if at: "anytime T (content s (t_path T)) (ag_seq a) s'" for s'
  proof -
    obtain hi where "settled T (content s (t_path T)) (ag_seq a) hi s'" using at unfolding anytime_def by blast
    then have "settled T (content s (t_path T)) (ag_seq a) (max hi (ag_seq a)) s'"
      using published_mono[of T "ag_seq a" hi s' "ag_seq a" "max hi (ag_seq a)"] by (auto simp: settled_def)
    from settled_trans[OF Suc.prems(1) this Suc.prems(2)] show ?thesis by (auto simp: anytime_def)
  qed
  have any: "anytime T c0 lo s'" if "settled T c0 lo hi s'" for hi s' using that by (auto simp: anytime_def)
  have next_round: "wp (bindS (t_done T) (\<lambda>d. if d then retS (True, a')
       else bindS (t_sleep T w) (\<lambda>ok. if ok then run T poll n f a' else retS (True, a'))))
      (\<lambda>(d, a') s'. settled T c0 lo (ag_seq a') s' \<and> ag_seq a \<le> ag_seq a') (anytime T c0 lo) s'"
    if st: "settled T c0 lo (ag_seq a') s'" and le: "ag_seq a \<le> ag_seq a'" for a' s' w f
  proof -
    have lo: "lo \<le> ag_seq a'" using le Suc.prems(2) by simp
    have go: "wp (if ok then run T poll n f a' else retS (True, a')) (\<lambda>(d, a') s'. settled T c0 lo (ag_seq a') s' \<and> ag_seq a \<le> ag_seq a') (anytime T c0 lo) s''"
      if "settled T c0 lo (ag_seq a') s''" for ok s''
      using that le by (cases ok) (auto intro!: wp_mono[OF Suc.IH[OF that lo]])
    have sl: "wp (if d then retS (True, a') else bindS (t_sleep T w) (\<lambda>ok. if ok then run T poll n f a' else retS (True, a')))
        (\<lambda>(d, a') s'. settled T c0 lo (ag_seq a') s' \<and> ag_seq a \<le> ag_seq a') (anytime T c0 lo) s''"
      if "settled T c0 lo (ag_seq a') s''" for d s''
    proof (cases d)
      case True
      then show ?thesis using that le by simp
    next
      case False
      have "wp (t_sleep T w) (\<lambda>ok. wp (if ok then run T poll n f a' else retS (True, a'))
          (\<lambda>(d, a') s'. settled T c0 lo (ag_seq a') s' \<and> ag_seq a \<le> ag_seq a') (anytime T c0 lo)) (anytime T c0 lo) s''"
        by (rule wp_mono[OF sleep_files]) (use that go any in \<open>auto simp: settled_same simp del: if_split\<close>)
      with False show ?thesis by (simp only: if_False wp_bind)
    qed
    show ?thesis unfolding wp_bind[of "t_done T"]
      by (rule wp_mono[OF done_files]) (use st sl any in \<open>auto simp: settled_same simp del: if_split wp_bind\<close>)
  qed
  have "wp (cycle T a) (\<lambda>((o', e), a') s'. settled T c0 lo (ag_seq a') s' \<and> ag_seq a \<le> ag_seq a') (anytime T c0 lo) s"
    by (rule wp_mono[OF wp_cycle[OF p refl]]) (use cr settled_trans[OF Suc.prems(1) _ Suc.prems(2)] in auto)
  then show ?case
    unfolding run.simps Let_def wp_bind[of "cycle T a"]
    by (rule wp_mono) (use next_round in \<open>auto simp del: wp_bind split: prod.split\<close>)
qed simp

end

end
