(* ===== verification/AgentFetch.thy ===== *)
theory AgentFetch
  imports AgentProof
begin

text \<open>
  The loop on the stores of this repository, and what it does when nothing fails: the target
  environment is interpreted on the directory and the web store with hooks that are commands
  of the host, the fetch of a published blob gives the release, a release marked failed is
  skipped, and the poll interval backs off within its bound.
\<close>

section \<open>The command line agent\<close>

text \<open>A timer, a context or a command of the host: an answer that depends on the time only.\<close>

definition clockS :: "(nat \<Rightarrow> 'a) \<Rightarrow> ('a, 'z) sys" where
  "clockS f s = (Ret (f (fs_tick s)), ticked s)"

lemma wp_clockS: "wp (clockS f) Q C s = Q (f (fs_tick s)) (ticked s)"
  by (simp add: wp_def clockS_def)

definition cliTarget :: "(string \<Rightarrow> getOptions \<Rightarrow> (serror + object, 'z) sys) \<Rightarrow> (bytes \<Rightarrow> pointer option) \<Rightarrow> prims \<Rightarrow> gocodec \<Rightarrow>
    string \<Rightarrow> int \<Rightarrow> nat \<Rightarrow> (nat \<Rightarrow> bool) \<Rightarrow> (nat \<Rightarrow> bool) \<Rightarrow> (nat \<Rightarrow> err) option \<Rightarrow> (nat \<Rightarrow> err) option \<Rightarrow> 'z target" where
  "cliTarget get unmarshal P G path mx dev sleep over restart check =
     \<lparr>t_path = path, t_max = mx, t_dev = dev, t_prims = P, t_go = G, t_unmarshal = unmarshal, t_get = get,
      t_sleep = (\<lambda>d. clockS sleep), t_done = clockS over, t_restart = map_option clockS restart, t_check = map_option clockS check,
      t_checks = 60, t_waits = 40, t_race = (\<lambda>i. True)\<rparr>"

lemma target_cli:
  assumes "object_source get"
  shows "target_env (cliTarget get unmarshal P G path mx dev sleep over restart check)"
  by (intro target_env.intro target_env_axioms.intro)
     (use assms in \<open>auto simp: cliTarget_def wp_clockS hook_step_def\<close>)

interpretation dirAgent: target_env "cliTarget (file_Get root) unmarshal P G path mx dev sleep over restart check"
  for root unmarshal P G path mx dev sleep over restart check
  by (rule target_cli[OF file_source])

interpretation webAgent: target_env "cliTarget (http_Get (net_server net)) unmarshal P G path mx dev sleep over restart check"
  for net unmarshal P G path mx dev sleep over restart check
  by (rule target_cli[OF web.object_source_axioms])

text \<open>Over the web, a pointer the store answered with is the body of a response.\<close>

lemma web_sent:
  assumes "sent (cliTarget (http_Get (net_server net)) unmarshal P G path mx dev sleep over restart check :: 'z target) raw p"
    and "0 \<le> mx" "mx < 2 ^ 63 - 1"
  shows "\<exists>t rq rs. net t rq = Some rs \<and> rq_key rq = PointerKey \<and> rs_status rs \<in> {200, 206} \<and> rs_body rs = (raw, True) \<and> ParsePointer unmarshal raw = Inr p"
proof -
  obtain etag obj and s s' :: "'z fsys_scheme" where
    g: "http_Get (net_server net) PointerKey \<lparr>IfNoneMatch = etag, Off = 0, Len = 0\<rparr> s = (Ret (Inr obj), s')"
      "readObject obj mx = Inr (raw, ob_etag obj)" "ParsePointer unmarshal raw = Inr p"
    using assms(1) by (auto simp: sent_def cliTarget_def)
  let ?o = "\<lparr>IfNoneMatch = etag, Off = 0, Len = 0\<rparr>"
  obtain rs where rs: "net (fs_tick s) (http_request PointerKey ?o) = Some rs" "http_answer ?o rs = Inr obj"
    using g(1) by (auto simp: http_Get_def bindS_def net_server_def retS_def split: option.splits if_splits)
  have a: "rs_status rs \<in> {200, 206}" "ob_body obj = rs_body rs"
    using rs(2) by (auto simp: http_answer_def ranged_def split: if_splits)
  have w: "wrap64 (mx + 1) = mx + 1" using assms(2,3) by (simp add: wrap64_def)
  obtain b ok where b: "rs_body rs = (b, ok)" by fastforce
  have "rs_body rs = (raw, True)" using g(2) b assms(2) by (auto simp: readObject_def a(2) b limit_reader_def w nat_le_iff not_le split: if_splits)
  moreover have "rq_key (http_request PointerKey ?o) = PointerKey" by (simp add: http_request_def)
  ultimately show ?thesis using rs(1) a(1) g(3) by blast
qed

section \<open>Fetching what was published\<close>

lemma bind_ret [simp]: "bindS (retS x) f = f x"
  by (simp add: bindS_def retS_def fun_eq_iff)

lemma try_ret [simp]: "tryS (retS (Inr x)) f = f x" "tryS (retS (Inl e)) f = retS (Inl e)"
  by (simp_all add: tryS_def)

text \<open>A store that answers: the object's window, or not found.\<close>

definition calm_get :: "(string \<Rightarrow> bytes option) \<Rightarrow> string \<Rightarrow> getOptions \<Rightarrow> (serror + object, 'z) sys" where
  "calm_get m key o' = retS (case m key of None \<Rightarrow> Inl NotFound
     | Some d \<Rightarrow> Inr \<lparr>ob_body = (window o' d, True), ob_size = int (length (window o' d)), ob_etag = []\<rparr>)"

definition calm :: "'z target \<Rightarrow> (string \<Rightarrow> bytes option) \<Rightarrow> bool" where
  "calm T m \<longleftrightarrow> t_get T = calm_get m \<and> t_done T = retS False"

lemma get_tries_calm:
  assumes "calm T m" "m key = Some d" "int (length (window o' d)) = want" "0 < k"
  shows "get_tries T key o' want k wait = retS (Inr (window o' d))"
  using assms by (cases k) (simp_all add: calm_def calm_get_def ag_get_def Let_def)

lemma frame_calm:
  assumes "calm T m" "m (bl_key b) = Some obj" "blob_serves (t_prims T) data obj f" "0 < bf_zlen f" "bl_frames b ! i = f"
  shows "frame_fetch T b i out = retS (Inr (copy_at (nat (bf_off f)) (slice (nat (bf_off f)) (nat (bf_off f + bf_len f)) data) out))"
proof -
  let ?o = "\<lparr>IfNoneMatch = [], Off = bf_zoff f, Len = bf_zlen f\<rparr>"
  have z: "0 \<le> bf_zoff f" "bf_zoff f + bf_zlen f \<le> int (length obj)"
    "DecodeFrame (t_prims T) f (slice (nat (bf_zoff f)) (nat (bf_zoff f + bf_zlen f)) obj) = Inr (slice (nat (bf_off f)) (nat (bf_off f + bf_len f)) data)"
    using assms(3) by (auto simp: blob_serves_def)
  have w: "window ?o obj = slice (nat (bf_zoff f)) (nat (bf_zoff f + bf_zlen f)) obj"
    using z(1) assms(4) by (simp add: window_def ranged_def slice_def nat_add_distrib drop_take)
  have "int (length (window ?o obj)) = bf_zlen f" using z(1,2) assms(4) by (simp add: w slice_def)
  from get_tries_calm[OF assms(1,2) this, of fetchTries] show ?thesis
    using z(3) by (simp add: frame_fetch_def assms(5) w fetchTries_def)
qed

lemma copy_at_extend:
  assumes "take off out = take off data" "length out = length data" "off + l \<le> length data"
  shows "take (off + l) (copy_at off (slice off (off + l) data) out) = take (off + l) data"
    "length (copy_at off (slice off (off + l) data) out) = length data"
proof -
  have s: "length (slice off (off + l) data) = l" using assms(3) by (simp add: slice_def)
  have c: "copy_at off (slice off (off + l) data) out = take off data @ slice off (off + l) data @ drop (off + l) out"
    using assms by (simp add: copy_at_def s)
  show "length (copy_at off (slice off (off + l) data) out) = length data" using assms by (simp add: c s)
  have "take off data @ slice off (off + l) data = take (off + l) data" using assms(3) by (simp add: slice_def take_add)
  then show "take (off + l) (copy_at off (slice off (off + l) data) out) = take (off + l) data"
    using assms(3) c s by (simp add: c take_add)
qed

lemma pass_calm:
  assumes "calm T m" "m (bl_key b) = Some obj" "length data < 2 ^ 61"
    and "\<forall>f \<in> set gs. blob_serves (t_prims T) data obj f \<and> 0 < bf_zlen f"
    and "drop i (bl_frames b) = gs" "check_frames (int off) zo gs = Inr z" "foldl (\<lambda>n f. wrap64 (n + bf_len f)) (int off) gs = int (length data)"
    and "take off out = take off data" "length out = length data"
  shows "\<exists>hv'. frames_pass T b [i..<length (bl_frames b)] False out hv [] = retS (data, hv', [])"
  using assms(4-9)
proof (induction gs arbitrary: i off zo out hv)
  case Nil
  then have "frames_pass T b [i..<length (bl_frames b)] False out hv [] = retS (data, hv, [])" by (simp add: drop_eq_Nil)
  then show ?case by blast
next
  case (Cons f gs)
  have i: "i < length (bl_frames b)" "bl_frames b ! i = f" "drop (Suc i) (bl_frames b) = gs"
  proof -
    show a: "i < length (bl_frames b)" using Cons.prems(2) by (metis drop_all list.distinct(1) not_less)
    show "bl_frames b ! i = f" "drop (Suc i) (bl_frames b) = gs" using Cons.prems(2) Cons_nth_drop_Suc[OF a] by (metis list.inject)+
  qed
  have c: "bf_off f = int off" "0 \<le> bf_len f" "\<exists>zo. check_frames (wrap64 (int off + bf_len f)) zo gs = Inr z"
    using Cons.prems(3) by (auto split: if_splits)
  have sv: "blob_serves (t_prims T) data obj f" "0 < bf_zlen f" using Cons.prems(1) by auto
  define l where "l = nat (bf_len f)"
  have l: "bf_len f = int l" using c(2) by (simp add: l_def)
  have le: "off + l \<le> length data" using sv(1) c(1) l by (auto simp: blob_serves_def)
  have w: "wrap64 (int off + bf_len f) = int (off + l)" using le assms(3) l by (simp add: wrap64_def)
  define out' where "out' = copy_at off (slice off (off + l) data) out"
  have fr: "frame_fetch T b i out = retS (Inr out')"
    using frame_calm[OF assms(1,2) sv i(2), of out] c(1) l by (simp add: out'_def nat_int_add)
  obtain zo' where ck: "check_frames (int (off + l)) zo' gs = Inr z" using c(3) w by auto
  have "\<exists>hv'. frames_pass T b [Suc i..<length (bl_frames b)] False out' (hv[i := True]) [] = retS (data, hv', [])"
    by (rule Cons.IH[OF _ i(3) ck])
       (use Cons.prems(1,4,5,6) copy_at_extend[OF Cons.prems(5,6) le] l w in \<open>auto simp: out'_def\<close>)
  moreover have "[i..<length (bl_frames b)] = i # [Suc i..<length (bl_frames b)]" using i(1) by (rule upt_conv_Cons)
  ultimately show ?case using fr assms(1) by (simp add: calm_def)
qed

theorem fetchBlob_calm:
  assumes "calm T m" "prims_ok (t_prims T)" "0 < frame" "int frame \<le> blobFrameSize" "length data < 2 ^ 61"
    and "encodeBlob (t_prims T) h data frame = (obj, b)" "\<forall>f \<in> set (bl_frames b). 0 < bf_zlen f" "m (bl_key b) = Some obj"
    and "rel_blob head = Some b" "rel_size head = int (length data)"
  shows "fetchBlob T head = retS (Inr data)"
proof -
  note e = encodeBlob_serves[OF assms(2-6)]
  then obtain z where z: "check_frames 0 0 (bl_frames b) = Inr z" by (auto simp: Blob_Check_def bindR_def split: sum.splits)
  have "PlainSize b = int (length data)" using e by simp
  have "\<exists>hv'. frames_pass T b [0..<length (bl_frames b)] False (replicate (length data) 0) (replicate (length (bl_frames b)) False) [] = retS (data, hv', [])"
    by (rule pass_calm[OF assms(1,8,5), where off = 0 and gs = "bl_frames b" and zo = 0 and z = z])
       (use e assms(7) z in \<open>auto simp: PlainSize_def\<close>)
  moreover have "filter (\<lambda>i. \<not> replicate (length (bl_frames b)) False ! i) [0..<length (bl_frames b)] = [0..<length (bl_frames b)]"
    by (rule filter_True) simp
  ultimately show ?thesis using e assms(9,10) by (auto simp: fetchBlob_def fetchFrames_def blob_passes.simps[of T b "t_waits T"])
qed

text \<open>
  With the context over before the first frame, no frame is fetched and no error is reported:
  the fetch returns the zeros it started from.
\<close>

lemma pass_over: "t_done T = retS True \<Longrightarrow> frames_pass T b is c out hv errs = retS (out, hv, errs)"
  by (induction "is") simp_all

lemma fetchBlob_over:
  assumes "t_done T = retS True" "rel_blob head = Some b" "Blob_Check b = Inr ()" "PlainSize b = rel_size head"
  shows "fetchBlob T head = retS (Inr (replicate (nat (rel_size head)) 0))"
  using assms by (simp add: fetchBlob_def fetchFrames_def pass_over blob_passes.simps[of T b "t_waits T"])

text \<open>A chain of published patches, each applying to what the one before it gave.\<close>

fun chain_serves :: "'z target \<Rightarrow> (string \<Rightarrow> bytes option) \<Rightarrow> edge list \<Rightarrow> bytes \<Rightarrow> bytes \<Rightarrow> bool" where
  "chain_serves T m [] cur out \<longleftrightarrow> cur = out"
| "chain_serves T m (e # es) cur out \<longleftrightarrow> (case m (ed_key e) of None \<Rightarrow> False
     | Some patch \<Rightarrow> int (length patch) = ed_size e \<and> ed_size e \<le> t_max T \<and> HashBytes (t_prims T) patch = ed_b3 e \<and>
         (case Apply (t_prims T) (t_go T) cur patch of Inl _ \<Rightarrow> False | Inr next_ \<Rightarrow> chain_serves T m es next_ out))"

lemma window_whole: "window wholeObject d = d"
  by (simp add: window_def ranged_def wholeObject_def)

lemma edges_calm:
  "calm T m \<Longrightarrow> chain_serves T m es cur out \<Longrightarrow> apply_edges T es cur = retS (Inr out)"
proof (induction es arbitrary: cur)
  case (Cons e es)
  then obtain patch nxt where p: "m (ed_key e) = Some patch" "int (length patch) = ed_size e" "ed_size e \<le> t_max T"
    "HashBytes (t_prims T) patch = ed_b3 e" "Apply (t_prims T) (t_go T) cur patch = Inr nxt" "chain_serves T m es nxt out"
    by (auto split: option.splits sum.splits)
  have "ag_object T (ed_key e) (ed_size e) = retS (Inr patch)"
    using get_tries_calm[OF Cons.prems(1) p(1), of wholeObject "ed_size e" fetchTries retryWait] p(2,3)
    by (simp add: ag_object_def window_whole fetchTries_def)
  then show ?case using p Cons by simp
qed simp

section \<open>A release that failed\<close>

lemma Failed_marked:
  assumes "fs_fault s (fs_tick s) = Good" "content s (failedPath path) = Some (to_bytes (Hash_String h))" "length h = 32" "\<not> IsZero h"
  shows "Failed path s = (Ret (Some h), ticked s)"
proof -
  obtain i where i: "fs_name s (failedPath path) = Some i" "i_data (fs_node s i) = to_bytes (Hash_String h)"
    using assms(2) by (auto simp: content_def)
  then have "sys_readFile (failedPath path) s = (Ret (Inr (to_bytes (Hash_String h))), ticked s)"
    using assms(1) by (simp add: sys_readFile_def sysc_def ticked_def)
  then show ?thesis using assms(3,4) by (simp add: Failed_def bindS_def ParseHash_marker retS_def)
qed

lemma advance_skips:
  assumes "fs_fault s (fs_tick s) = Good" "content s (failedPath (t_path T)) = Some (to_bytes (Hash_String h))"
    and "length h = 32" "\<not> IsZero h" "rel_hash (pt_head p) = h" "rel_size (pt_head p) \<le> t_max T"
  shows "advance T a cur p s = (Ret ((OutcomeAtHead, [AErr ''was rolled back on this target'']), a\<lparr>ag_skipped := h\<rparr>), ticked s)"
  using Failed_marked[OF assms(1-4)] assms(5,6) by (simp add: advance_def ag_skip_def Let_def bindS_def retS_def)

section \<open>The poll interval\<close>

lemma doubled_closed:
  assumes "0 < wait"
  shows "min (doubled k wait) maxPoll = min (wait * 2 ^ k) maxPoll"
  using assms
proof (induction k arbitrary: wait)
  case (Suc k)
  show ?case
  proof (cases "wait < maxPoll")
    case True
    then show ?thesis using Suc.IH[of "2 * wait"] Suc.prems by (simp add: mult.assoc mult.commute mult.left_commute)
  next
    case False
    have "wait * 1 \<le> wait * 2 ^ Suc k" using Suc.prems by (intro mult_left_mono one_le_power) simp_all
    then show ?thesis using False by simp
  qed
qed simp

lemma poll_wait_closed: "0 < poll \<Longrightarrow> poll_wait poll fails = min (poll * 2 ^ fails) maxPoll"
  by (simp add: poll_wait_def doubled_closed)

end
