(* ===== verification/SelfUpdate.thy ===== *)
theory SelfUpdate
  imports AgentFetch
begin

text \<open>
  \<^verbatim>\<open>selfupdate/selfupdate.go\<close>, \<^verbatim>\<open>handoff.go\<close>, \<^verbatim>\<open>fds.go\<close>, \<^verbatim>\<open>source.go\<close>, and the start-up check of the command
  line agent (\<^verbatim>\<open>cmd/go-binsync/agent.go\<close>).  An updater is a record; the child process is what it
  does within the time it is given; what a superseded process does outside the file system is a
  list of actions.  The JSON of the descriptor table, the duplication of sockets and the exec
  itself are calls into the system and the libraries.
\<close>

section \<open>The descriptor table\<close>

record fdSpec =
  sp_fd :: int
  sp_network :: string
  sp_addr :: string

record inheritedFile =
  in_spec :: fdSpec
  in_used :: bool

definition parseFDs :: "(string \<Rightarrow> fdSpec list option) \<Rightarrow> string \<Rightarrow> fdSpec list option" where
  "parseFDs unmarshal s = (case unmarshal s of None \<Rightarrow> None
     | Some specs \<Rightarrow> if list_ex (\<lambda>sp. sp_fd sp < 3 \<or> sp_network sp = []) specs then None else Some specs)"

text \<open>A listener: the pair it was asked for, whether it is a unix socket, and the socket it accepts on.\<close>

record listener =
  ln_network :: string
  ln_addr :: string
  ln_unix :: bool
  ln_socket :: nat

definition listenerSpecs :: "listener list \<Rightarrow> fdSpec list" where
  "listenerSpecs serving = map (\<lambda>(i, l). \<lparr>sp_fd = 3 + int i, sp_network = ln_network l, sp_addr = ln_addr l\<rparr>) (enumerate 0 serving)"

text \<open>\<^verbatim>\<open>listenerFiles\<close>: every listener is duplicated in order, and the first failure gives up.\<close>

fun dup_all :: "(listener \<Rightarrow> bool) \<Rightarrow> listener list \<Rightarrow> nat list option" where
  "dup_all dup [] = Some []"
| "dup_all dup (l # ls) = (if dup l then map_option (\<lambda>fs. ln_socket l # fs) (dup_all dup ls) else None)"

definition listenerFiles :: "(listener \<Rightarrow> bool) \<Rightarrow> listener list \<Rightarrow> (nat list \<times> fdSpec list) option" where
  "listenerFiles dup serving = map_option (\<lambda>files. (files, listenerSpecs serving)) (dup_all dup serving)"

section \<open>The updater\<close>

record updater =
  up_path :: string
  up_inherited :: "inheritedFile list"
  up_serving :: "listener list"
  up_callbacks :: "nat list"
  up_readyPipe :: "int option"
  up_ready :: bool
  up_upgrading :: bool
  up_superseded :: bool

text \<open>
  \<^verbatim>\<open>Listen\<close>: the first unclaimed inherited descriptor of the pair, or a fresh socket.  \<open>fdsock\<close> is
  the socket behind a descriptor, \<open>None\<close> when it is not a listener; \<open>fresh\<close> is what binding gives.
\<close>

fun claim :: "string \<Rightarrow> string \<Rightarrow> inheritedFile list \<Rightarrow> (fdSpec \<times> inheritedFile list) option" where
  "claim net addr [] = None"
| "claim net addr (f # fs) =
     (if in_used f \<or> sp_network (in_spec f) \<noteq> net \<or> sp_addr (in_spec f) \<noteq> addr
      then map_option (\<lambda>(sp, gs). (sp, f # gs)) (claim net addr fs)
      else Some (in_spec f, f\<lparr>in_used := True\<rparr> # fs))"

definition mk_listener :: "string \<Rightarrow> string \<Rightarrow> nat \<Rightarrow> listener" where
  "mk_listener net addr k = \<lparr>ln_network = net, ln_addr = addr, ln_unix = (net = ''unix''), ln_socket = k\<rparr>"

definition Listen :: "(int \<Rightarrow> nat option) \<Rightarrow> nat option \<Rightarrow> string \<Rightarrow> string \<Rightarrow> updater \<Rightarrow> listener option \<times> updater" where
  "Listen fdsock fresh net addr u = (case claim net addr (up_inherited u) of
     Some (sp, ins) \<Rightarrow> (case fdsock (sp_fd sp) of
        None \<Rightarrow> (None, u)
      | Some k \<Rightarrow> let l = mk_listener net addr k in (Some l, u\<lparr>up_inherited := ins, up_serving := up_serving u @ [l]\<rparr>))
   | None \<Rightarrow> (case fresh of
        None \<Rightarrow> (None, u)
      | Some k \<Rightarrow> let l = mk_listener net addr k in (Some l, u\<lparr>up_serving := up_serving u @ [l]\<rparr>)))"

definition OnShutdown :: "nat \<Rightarrow> updater \<Rightarrow> updater" where
  "OnShutdown fn u = u\<lparr>up_callbacks := up_callbacks u @ [fn]\<rparr>"

definition Ready :: "updater \<Rightarrow> (updater \<times> bool, 'z) sys" where
  "Ready u =
     (if up_ready u then retS (u, False)
      else seqS (ClearPending (up_path u))
        (retS (u\<lparr>up_inherited := [], up_readyPipe := None, up_ready := True\<rparr>, up_readyPipe u \<noteq> None)))"

text \<open>\<^verbatim>\<open>start\<close> after the self-check: the descriptors named in the environment, and the ready pipe.\<close>

definition up_start :: "(string \<Rightarrow> fdSpec list option) \<Rightarrow> (string \<Rightarrow> int option) \<Rightarrow> string \<Rightarrow> string \<Rightarrow> updater \<Rightarrow> updater" where
  "up_start unmarshal atoi fdsEnv readyEnv u =
     (let ins = (if fdsEnv = [] then [] else case parseFDs unmarshal fdsEnv of None \<Rightarrow> []
            | Some specs \<Rightarrow> map (\<lambda>sp. \<lparr>in_spec = sp, in_used = False\<rparr>) specs);
          pipe = (if readyEnv = [] then None else atoi readyEnv) in
      u\<lparr>up_inherited := up_inherited u @ ins, up_readyPipe := (case pipe of None \<Rightarrow> up_readyPipe u | Some fd \<Rightarrow> Some fd)\<rparr>)"

section \<open>The start-up checks\<close>

text \<open>The errors of the two checks are only logged; what matters is what they leave behind.\<close>

definition selfCheck :: "string \<Rightarrow> bool \<Rightarrow> (err, 'z) sys \<Rightarrow> (err, 'z) sys" where
  "selfCheck path inherited execve =
     (if inherited then retS []
      else bindS (Pending path) (\<lambda>(h, pending, e). let pe = (case e of None \<Rightarrow> [] | Some x \<Rightarrow> [ARelease x]) in
        if \<not> pending then retS pe
        else bindS (sys_stat (OldPath path)) (\<lambda>st. case st of
          Inl _ \<Rightarrow> bindS (ClearPending path) (\<lambda>r. retS (pe @ (case r of Inl x \<Rightarrow> [ARelease x] | Inr _ \<Rightarrow> [])))
        | Inr _ \<Rightarrow> seqS (MarkFailed path h)
            (bindS (Revert path) (\<lambda>r. case r of
              Inl x \<Rightarrow> retS (pe @ [ARelease x])
            | Inr _ \<Rightarrow> bindS execve (\<lambda>x. retS (pe @ x)))))))"

text \<open>The command line agent's \<^verbatim>\<open>recover\<close> does the same and ends with the restart command.\<close>

definition hooks_recover :: "string \<Rightarrow> (err, 'z) sys \<Rightarrow> (err, 'z) sys" where
  "hooks_recover path runRestart =
     bindS (Pending path) (\<lambda>(h, pending, e). let pe = (case e of None \<Rightarrow> [] | Some x \<Rightarrow> [ARelease x]) in
        if \<not> pending then retS pe
        else bindS (sys_stat (OldPath path)) (\<lambda>st. case st of
          Inl _ \<Rightarrow> bindS (ClearPending path) (\<lambda>r. retS (pe @ (case r of Inl x \<Rightarrow> [ARelease x] | Inr _ \<Rightarrow> [])))
        | Inr _ \<Rightarrow> seqS (MarkFailed path h)
            (bindS (Revert path) (\<lambda>r. case r of
              Inl x \<Rightarrow> retS (pe @ [ARelease x])
            | Inr _ \<Rightarrow> bindS runRestart (\<lambda>x. retS (pe @ x))))))"

section \<open>The handoff\<close>

text \<open>What happens first; for a closed pipe also the exit, if it follows in time.  \<open>True\<close> is exit status 0.\<close>

datatype child = ReportsReady | ClosesPipe "bool option" | Exits bool | StaysSilent | ContextOver

definition exit_verdict :: "bool \<Rightarrow> err" where
  "exit_verdict ok = (if ok then [AErr ''the new process exited before reporting ready''] else [AErr ''the new process failed''])"

fun child_verdict :: "child \<Rightarrow> err" where
  "child_verdict ReportsReady = []"
| "child_verdict (ClosesPipe (Some ok)) = exit_verdict ok"
| "child_verdict (ClosesPipe None) = [AErr ''the new process closed the ready pipe without reporting ready'']"
| "child_verdict (Exits ok) = exit_verdict ok"
| "child_verdict StaysSilent = [AErr ''the new process did not report ready'']"
| "child_verdict ContextOver = [AErr ''context'']"

text \<open>\<^verbatim>\<open>startExec\<close>: an attempt per wait of 1, 4, 16 and 64 ms, and a last one, while the file is busy.\<close>

datatype spawn = Started | TextBusy | SpawnErr

function start_attempts :: "(nat \<Rightarrow> spawn) \<Rightarrow> nat \<Rightarrow> nat \<Rightarrow> nat \<times> spawn" where
  "start_attempts sp k wait = (if wait = 0 then (k, SpawnErr)
     else if sp k \<noteq> TextBusy \<or> wait > 64 then (k + 1, sp k) else start_attempts sp (k + 1) (wait * 4))"
  by pat_completeness auto
termination by (relation "measure (\<lambda>(sp, k, wait). 65 - wait)") auto

declare start_attempts.simps [simp del]

definition startExec :: "(nat \<Rightarrow> spawn) \<Rightarrow> nat \<times> spawn" where
  "startExec sp = start_attempts sp 0 1"

record world =
  wo_dup :: "listener \<Rightarrow> bool"
  wo_pipe :: bool
  wo_spawn :: "nat \<Rightarrow> spawn"
  wo_child :: child

definition handoff :: "world \<Rightarrow> updater \<Rightarrow> err" where
  "handoff W u = (case listenerFiles (wo_dup W) (up_serving u) of
     None \<Rightarrow> [AErr ''handing over a listener'']
   | Some (files, specs) \<Rightarrow>
       if \<not> wo_pipe W then [AErr ''ready pipe'']
       else if snd (startExec (wo_spawn W)) \<noteq> Started then [AErr ''starting'']
       else child_verdict (wo_child W))"

definition up_rollback :: "string \<Rightarrow> hash \<Rightarrow> err \<Rightarrow> (err, 'z) sys" where
  "up_rollback path h why = seqS (MarkFailed path h) (bindS (Revert path) (\<lambda>r. case r of
     Inl e \<Rightarrow> retS (AErr ''upgrade failed and the revert failed'' # why @ [ARelease e])
   | Inr _ \<Rightarrow> retS (AErr ''upgrade rolled back'' # why)))"

text \<open>What a superseded process does, in order, until it is gone.\<close>

datatype action = NoUnlink nat | CloseListener nat | Settle | Callback nat | DrainTimeout | CloseDone | Exit int

definition close_actions :: "listener \<Rightarrow> action list" where
  "close_actions l = (if ln_unix l then [NoUnlink (ln_socket l)] else []) @ [CloseListener (ln_socket l)]"

definition supersede :: "nat \<Rightarrow> updater \<Rightarrow> action list" where
  "supersede drained u =
     concat (map close_actions (up_serving u)) @ [Settle] @
     (if drained < length (up_callbacks u) then map Callback (take drained (up_callbacks u)) @ [DrainTimeout]
      else map Callback (up_callbacks u)) @ [CloseDone, Exit 0]"

text \<open>
  \<^verbatim>\<open>restart\<close>: returns only with an error; a handoff that worked ends the process.  \<open>over\<close> is the
  updater's context.
\<close>

definition up_restart :: "world \<Rightarrow> bool \<Rightarrow> updater \<Rightarrow> hash \<Rightarrow> (err, 'z) sys" where
  "up_restart W over u h =
     (if up_superseded u \<or> up_upgrading u then retS [AErr ''an upgrade is already in flight'']
      else if over then retS [AErr ''not upgrading'']
      else let e = handoff W u in if e \<noteq> [] then up_rollback (up_path u) h e else dieS)"

text \<open>\<^verbatim>\<open>agentSource\<close>: the hook reads the release it is asked to activate from the pending marker.\<close>

definition source_restart :: "world \<Rightarrow> bool \<Rightarrow> updater \<Rightarrow> (err, 'z) sys" where
  "source_restart W over u = bindS (Pending (up_path u)) (\<lambda>(h, p, e). case e of
     Some x \<Rightarrow> retS [ARelease x] | None \<Rightarrow> up_restart W over u h)"

section \<open>The sockets reach the next process\<close>

fun listen_all :: "(int \<Rightarrow> nat option) \<Rightarrow> nat option \<Rightarrow> (string \<times> string) list \<Rightarrow> updater \<Rightarrow> updater" where
  "listen_all fdsock fresh [] u = u"
| "listen_all fdsock fresh ((net, addr) # ps) u = listen_all fdsock fresh ps (snd (Listen fdsock fresh net addr u))"

definition pair_of :: "listener \<Rightarrow> string \<times> string" where
  "pair_of l = (ln_network l, ln_addr l)"

definition wait_for :: "fdSpec \<Rightarrow> inheritedFile" where
  "wait_for sp = \<lparr>in_spec = sp, in_used = False\<rparr>"

definition spec_of :: "nat \<Rightarrow> listener \<Rightarrow> fdSpec" where
  "spec_of i l = \<lparr>sp_fd = 3 + int i, sp_network = ln_network l, sp_addr = ln_addr l\<rparr>"

fun specs_from :: "nat \<Rightarrow> listener list \<Rightarrow> fdSpec list" where
  "specs_from i [] = []"
| "specs_from i (l # ls) = spec_of i l # specs_from (i + 1) ls"

lemma listenerSpecs_from: "listenerSpecs ls = specs_from 0 ls"
proof -
  have "map (\<lambda>(i, l). \<lparr>sp_fd = 3 + int i, sp_network = ln_network l, sp_addr = ln_addr l\<rparr>) (enumerate i ls) = specs_from i ls" for i
    by (induction ls arbitrary: i) (simp_all add: spec_of_def)
  then show ?thesis by (simp add: listenerSpecs_def)
qed

lemma claim_used: "list_all in_used us \<Longrightarrow> claim net addr (us @ fs) = map_option (\<lambda>(sp, gs). (sp, us @ gs)) (claim net addr fs)"
  by (induction us) (auto simp: option.map_comp o_def split_def option.map_ident)

lemma listen_inherits:
  assumes "up_inherited u = us @ map wait_for (specs_from i ls)" "list_all in_used us"
    and "\<forall>j < length ls. fdsock (3 + int (i + j)) = Some (ln_socket (ls ! j))"
  shows "map ln_socket (up_serving (listen_all fdsock fresh (map pair_of ls) u)) = map ln_socket (up_serving u) @ map ln_socket ls \<and>
    map pair_of (up_serving (listen_all fdsock fresh (map pair_of ls) u)) = map pair_of (up_serving u) @ map pair_of ls"
  using assms
proof (induction ls arbitrary: u us i)
  case (Cons l ls)
  let ?sp = "spec_of i l"
  have "claim (ln_network l) (ln_addr l) (up_inherited u) = Some (?sp, us @ (wait_for ?sp)\<lparr>in_used := True\<rparr> # map wait_for (specs_from (i + 1) ls))"
    using Cons.prems(1,2) by (simp add: claim_used wait_for_def spec_of_def)
  moreover have "fdsock (sp_fd ?sp) = Some (ln_socket l)" using Cons.prems(3) by (auto simp: spec_of_def)
  ultimately have L: "snd (Listen fdsock fresh (ln_network l) (ln_addr l) u) =
      u\<lparr>up_inherited := (us @ [(wait_for ?sp)\<lparr>in_used := True\<rparr>]) @ map wait_for (specs_from (i + 1) ls),
        up_serving := up_serving u @ [mk_listener (ln_network l) (ln_addr l) (ln_socket l)]\<rparr>"
    by (simp add: Listen_def Let_def)
  have f: "\<forall>j < length ls. fdsock (3 + int (i + 1 + j)) = Some (ln_socket (ls ! j))"
    using Cons.prems(3) by (auto dest: spec[of _ "Suc j" for j] simp: add.assoc)
  show ?case
    using Cons.IH[of "snd (Listen fdsock fresh (ln_network l) (ln_addr l) u)" "us @ [(wait_for ?sp)\<lparr>in_used := True\<rparr>]" "i + 1"] Cons.prems(2) f
    by (simp add: L pair_of_def mk_listener_def)
qed simp

lemma parse_specs:
  assumes "unmarshal (marshal (listenerSpecs ls)) = Some (listenerSpecs ls)" "list_all (\<lambda>l. ln_network l \<noteq> []) ls"
  shows "parseFDs unmarshal (marshal (listenerSpecs ls)) = Some (specs_from 0 ls)"
proof -
  have "\<not> list_ex (\<lambda>sp. sp_fd sp < 3 \<or> sp_network sp = []) (specs_from i ls)" for i
    using assms(2) by (induction ls arbitrary: i) (auto simp: spec_of_def)
  then show ?thesis using assms(1) by (simp add: parseFDs_def listenerSpecs_from)
qed

section \<open>The order of a drain\<close>

lemma supersede_order:
  "\<exists>pre post. supersede drained u = pre @ Settle # post @ [CloseDone, Exit 0] \<and>
     (\<forall>l \<in> set (up_serving u). CloseListener (ln_socket l) \<in> set pre) \<and> (\<forall>fn. Callback fn \<notin> set pre) \<and>
     (\<forall>k. CloseListener k \<notin> set post) \<and> Exit 0 \<notin> set pre \<union> set post"
proof -
  define pre where "pre = concat (map close_actions (up_serving u))"
  define post where "post = (if drained < length (up_callbacks u) then map Callback (take drained (up_callbacks u)) @ [DrainTimeout] else map Callback (up_callbacks u))"
  have "supersede drained u = pre @ Settle # post @ [CloseDone, Exit 0]" by (simp add: supersede_def pre_def post_def)
  moreover have "\<forall>l \<in> set (up_serving u). CloseListener (ln_socket l) \<in> set pre" by (auto simp: pre_def close_actions_def)
  moreover have "\<forall>fn. Callback fn \<notin> set pre" "Exit 0 \<notin> set pre" by (auto simp: pre_def close_actions_def split: if_splits)
  moreover have "\<forall>k. CloseListener k \<notin> set post" "Exit 0 \<notin> set post" by (auto simp: post_def)
  ultimately show ?thesis by blast
qed

lemma start_attempts_step:
  "start_attempts sp k 1 = (if sp k \<noteq> TextBusy then (Suc k, sp k) else start_attempts sp (Suc k) 4)"
  "start_attempts sp k 4 = (if sp k \<noteq> TextBusy then (Suc k, sp k) else start_attempts sp (Suc k) 16)"
  "start_attempts sp k 16 = (if sp k \<noteq> TextBusy then (Suc k, sp k) else start_attempts sp (Suc k) 64)"
  "start_attempts sp k 64 = (if sp k \<noteq> TextBusy then (Suc k, sp k) else start_attempts sp (Suc k) 256)"
  "start_attempts sp k 256 = (Suc k, sp k)"
  by (simp_all add: start_attempts.simps[of sp k])

lemma startExec_tries: "fst (startExec sp) \<le> 5 \<and> (\<forall>j < fst (startExec sp) - 1. sp j = TextBusy) \<and> snd (startExec sp) = sp (fst (startExec sp) - 1)"
proof -
  have "startExec sp = (if sp 0 \<noteq> TextBusy then (Suc 0, sp 0) else if sp (Suc 0) \<noteq> TextBusy then (Suc (Suc 0), sp (Suc 0))
    else if sp (Suc (Suc 0)) \<noteq> TextBusy then (Suc (Suc (Suc 0)), sp (Suc (Suc 0)))
    else if sp (Suc (Suc (Suc 0))) \<noteq> TextBusy then (Suc (Suc (Suc (Suc 0))), sp (Suc (Suc (Suc 0))))
    else (Suc (Suc (Suc (Suc (Suc 0)))), sp (Suc (Suc (Suc (Suc 0))))))"
    unfolding startExec_def by (simp only: start_attempts_step)
  then show ?thesis by (auto simp: less_Suc_eq)
qed

section \<open>The embedded target\<close>

lemma Pending_quiet: "keeps (same_files s0) (Pending path)"
  unfolding Pending_def by (intro keep)

lemma keeps_priv_Pending: "keeps (priv N) (Pending path)"
  unfolding Pending_def by (intro keep)

lemma hook_same: "content s' = content s \<Longrightarrow> hook_step path s s'"
  by (simp add: hook_step_def)

lemma hook_step_from:
  "content t path = content s path \<Longrightarrow> content t (OldPath path) = content s (OldPath path) \<Longrightarrow> hook_step path t s' \<Longrightarrow> hook_step path s s'"
  by (simp add: hook_step_def)

lemma wp_MarkFailed_old:
  assumes "priv (mine path) s"
  shows "wp (MarkFailed path h) (\<lambda>_ s'. priv (mine path) s' \<and> content s' path = content s path \<and> content s' (OldPath path) = content s (OldPath path))
    (\<lambda>s'. priv (mine path) s' \<and> content s' path = content s path \<and> content s' (OldPath path) = content s (OldPath path)) s"
proof -
  note m = wp_MarkFailed[OF priv_marker[OF assms mine_names(5)], of h]
  have f: "path \<noteq> failedPath path" by simp
  show ?thesis
    by (rule wp_mono[OF wp_conj[OF keepsD[OF keeps_MarkFailed assms] m]])
       (use mine_names(7)[of path] f in \<open>auto simp: marker_at_def split: if_splits\<close>)
qed

text \<open>Marking a release failed and putting the kept binary back is what a hook may do.\<close>

lemma wp_mark_revert:
  fixes s :: "'z fsys_scheme"
  assumes "priv (mine path) s"
    and "\<And>r s'. priv (mine path) s' \<Longrightarrow> hook_step path s s' \<Longrightarrow> wp (k r) Q (\<lambda>s'. priv (mine path) s' \<and> hook_step path s s') s'"
  shows "wp (seqS (MarkFailed path h) (bindS (Revert path) k)) Q (\<lambda>s'. priv (mine path) s' \<and> hook_step path s s') s"
  unfolding wp_seq wp_bind
proof (rule wp_mono[OF wp_MarkFailed_old[OF assms(1)]])
  fix r :: "rerror + unit" and t :: "'z fsys_scheme"
  assume t: "priv (mine path) t \<and> content t path = content s path \<and> content t (OldPath path) = content s (OldPath path)"
  have "wp (Revert path) (\<lambda>_ s'. priv (mine path) s' \<and> hook_step path s s') (\<lambda>s'. priv (mine path) s' \<and> hook_step path s s') t"
    by (rule wp_mono[OF wp_Revert_hook]) (use t in \<open>auto intro: hook_step_from\<close>)
  then show "wp (Revert path) (\<lambda>r. wp (k r) Q (\<lambda>s'. priv (mine path) s' \<and> hook_step path s s')) (\<lambda>s'. priv (mine path) s' \<and> hook_step path s s') t"
    by (rule wp_mono) (use assms(2) in auto)
qed (auto simp: hook_step_def)

lemma child_verdict_ready: "child_verdict c = [] \<longleftrightarrow> c = ReportsReady"
  by (cases c rule: child_verdict.cases) (auto simp: exit_verdict_def)

lemma wp_source_restart:
  assumes "priv (mine (up_path u)) s"
  shows "wp (source_restart W over u) (\<lambda>e s'. priv (mine (up_path u)) s' \<and> hook_step (up_path u) s s' \<and> e \<noteq> [])
    (\<lambda>s'. priv (mine (up_path u)) s' \<and> hook_step (up_path u) s s') s"
proof -
  let ?Q = "\<lambda>e s'. priv (mine (up_path u)) s' \<and> hook_step (up_path u) s s' \<and> e \<noteq> []"
  let ?C = "\<lambda>s'. priv (mine (up_path u)) s' \<and> hook_step (up_path u) s s'"
  have rs: "wp (up_restart W over u h) ?Q ?C t" if f: "same_files s t" for h t
  proof -
    have p: "priv (mine (up_path u)) t" using assms priv_same[OF f] by simp
    have c: "content t = content s" by (rule same_files_content[OF f])
    have "wp (up_rollback (up_path u) h why) (\<lambda>e s'. priv (mine (up_path u)) s' \<and> hook_step (up_path u) t s' \<and> e \<noteq> [])
        (\<lambda>s'. priv (mine (up_path u)) s' \<and> hook_step (up_path u) t s') t" for why
      unfolding up_rollback_def by (rule wp_mark_revert[OF p]) (auto split: sum.split)
    then have rb: "wp (up_rollback (up_path u) h why) ?Q ?C t" for why
      by (rule wp_mono) (use hook_step_from[of t "up_path u" s] c in auto)
    have here: "?C t" using p c by (simp add: hook_same)
    show ?thesis using rb here by (auto simp: up_restart_def Let_def wp_def[of dieS] dieS_def)
  qed
  show ?thesis
    unfolding source_restart_def wp_bind
  proof (rule wp_mono[OF keepsD[OF Pending_quiet same_files_refl]])
    fix r :: "hash \<times> bool \<times> rerror option" and t
    assume f: "same_files s t"
    have "?C t" using assms priv_same[OF f] same_files_content[OF f] by (simp add: hook_same)
    then show "wp (case r of (h, p, e) \<Rightarrow> (case e of Some x \<Rightarrow> retS [ARelease x] | None \<Rightarrow> up_restart W over u h)) ?Q ?C t"
      using rs[OF f] by (auto split: prod.split option.split)
  qed (use assms in \<open>auto simp: priv_same same_files_content hook_same\<close>)
qed

definition embTarget :: "(string \<Rightarrow> getOptions \<Rightarrow> (serror + object, 'z) sys) \<Rightarrow> (bytes \<Rightarrow> pointer option) \<Rightarrow> prims \<Rightarrow> gocodec \<Rightarrow>
    int \<Rightarrow> nat \<Rightarrow> (nat \<Rightarrow> bool) \<Rightarrow> (nat \<Rightarrow> bool) \<Rightarrow> world \<Rightarrow> bool \<Rightarrow> updater \<Rightarrow> 'z target" where
  "embTarget get unmarshal P G mx dev sleep over W ctx u =
     (cliTarget get unmarshal P G (up_path u) mx dev sleep over None None)\<lparr>t_restart := Some (source_restart W ctx u)\<rparr>"

interpretation embedded: target_env "embTarget (http_Get (net_server net)) unmarshal P G mx dev sleep over W ctx u"
  for net unmarshal P G mx dev sleep over W ctx u
proof (intro target_env.intro target_env_axioms.intro, goal_cases)
  case 1
  show ?case using web.object_source_axioms[of net] by (simp add: embTarget_def cliTarget_def)
next
  case (5 r s)
  then have "r = source_restart W ctx u" "priv (mine (up_path u)) s" by (auto simp: embTarget_def cliTarget_def)
  then show ?case
    using wp_mono[OF wp_source_restart[of u s W ctx]] by (auto simp: embTarget_def cliTarget_def intro!: wp_mono[OF wp_source_restart])
qed (auto simp: embTarget_def cliTarget_def wp_clockS)

text \<open>The start-up checks do no more than a hook may, whatever fails in them.\<close>

definition hooked :: "string \<Rightarrow> 'z fsys_scheme \<Rightarrow> 'z fsys_scheme \<Rightarrow> bool" where
  "hooked path s s' \<longleftrightarrow> priv (mine path) s' \<and> hook_step path s s'"

lemma hooked_same: "hooked path s t \<Longrightarrow> same_files t s' \<Longrightarrow> hooked path s s'"
  by (simp add: hooked_def hook_step_def priv_same same_files_content)

lemma hooked_start: "priv (mine path) s \<Longrightarrow> same_files s t \<Longrightarrow> hooked path s t"
  by (simp add: hooked_def hook_step_def priv_same same_files_content)

lemma hooked_from: "same_files s t \<Longrightarrow> hooked path t s' \<Longrightarrow> hooked path s s'"
  by (simp add: hooked_def hook_step_def same_files_content)

lemma wp_ClearPending_hooked:
  assumes "priv (mine path) s"
  shows "wp (ClearPending path) (\<lambda>_. hooked path s) (hooked path s) s"
proof -
  have c: "wp (ClearPending path) (\<lambda>_ s'. content s' q = content s q) (\<lambda>s'. content s' q = content s q) s"
    if "q \<noteq> PendingPath path" for q
    by (rule keepsD[OF keeps_content_ClearPending[OF that]]) simp
  have "OldPath path \<noteq> PendingPath path" "path \<noteq> PendingPath path" using mine_names(1-3)[of path] by auto
  note n = wp_conj[OF keepsD[OF keeps_ClearPending assms] wp_conj[OF c[OF this(1)] c[OF this(2)]]]
  show ?thesis by (rule wp_mono[OF n]) (auto simp: hooked_def hook_step_def)
qed

lemma wp_hooks_recover:
  fixes s :: "'z fsys_scheme"
  assumes "priv (mine path) s" "\<And>t. wp act (\<lambda>_. same_files t) (same_files t) t"
  shows "wp (hooks_recover path act) (\<lambda>_. hooked path s) (hooked path s) s"
proof -
  have clear: "wp (bindS (ClearPending path) (\<lambda>r. retS (f r))) (\<lambda>_. hooked path s) (hooked path s) t" if t: "same_files s t" for f :: "_ \<Rightarrow> err" and t
    unfolding wp_bind by (rule wp_mono[OF wp_ClearPending_hooked]) (use assms(1) t hooked_from[OF t] in \<open>auto simp: priv_same[OF t]\<close>)
  have act: "wp (bindS act (\<lambda>x. retS (f x))) (\<lambda>_. hooked path s) (hooked path s) t" if "hooked path s t" for f :: "_ \<Rightarrow> err" and t
    unfolding wp_bind by (rule wp_mono[OF assms(2)]) (use hooked_same[OF that] in auto)
  have revert: "wp (seqS (MarkFailed path h) (bindS (Revert path) (\<lambda>r. case r of Inl x \<Rightarrow> retS (pe @ [ARelease x]) | Inr _ \<Rightarrow> bindS act (\<lambda>x. retS (pe @ x)))))
      (\<lambda>_. hooked path s) (hooked path s) t" if t: "same_files s t" for h and pe :: err and t
  proof (rule wp_mono)
    have p: "priv (mine path) t" using assms(1) by (simp add: priv_same[OF t])
    have k: "wp (case r of Inl x \<Rightarrow> retS (pe @ [ARelease x]) | Inr _ \<Rightarrow> bindS act (\<lambda>x. retS (pe @ x)))
        (\<lambda>_. hooked path s) (\<lambda>s'. priv (mine path) s' \<and> hook_step path t s') t'"
      if "priv (mine path) t'" "hook_step path t t'" for r :: "rerror + unit" and t'
    proof -
      have h: "hooked path t t'" using that by (simp add: hooked_def)
      show ?thesis
      proof (cases r)
        case (Inr x)
        show ?thesis
          using wp_mono[OF assms(2)[of t'], of _ "\<lambda>s'. priv (mine path) s' \<and> hook_step path t s'"] hooked_same[OF h] hooked_from[OF t]
          by (auto simp: Inr wp_bind hooked_def intro!: wp_mono[OF assms(2)[of t']])
      qed (use hooked_from[OF t h] in auto)
    qed
    show "wp (seqS (MarkFailed path h) (bindS (Revert path) (\<lambda>r. case r of Inl x \<Rightarrow> retS (pe @ [ARelease x]) | Inr _ \<Rightarrow> bindS act (\<lambda>x. retS (pe @ x)))))
      (\<lambda>_. hooked path s) (\<lambda>s'. priv (mine path) s' \<and> hook_step path t s') t"
      by (rule wp_mark_revert[OF p]) (rule k)
  qed (use hooked_from[OF t] in \<open>auto simp: hooked_def\<close>)
  show ?thesis
    unfolding hooks_recover_def wp_bind
  proof (rule wp_mono[OF keepsD[OF Pending_quiet same_files_refl]])
    fix r :: "hash \<times> bool \<times> rerror option" and t :: "'z fsys_scheme"
    assume t: "same_files s t"
    have "wp (sys_stat (OldPath path)) (\<lambda>_. same_files s) (same_files s) t" by (rule keepsD[OF keeps_same_stat t])
    then have "wp (bindS (sys_stat (OldPath path)) (\<lambda>st. case st of Inl _ \<Rightarrow> bindS (ClearPending path) (\<lambda>r. retS (pe @ (case r of Inl x \<Rightarrow> [ARelease x] | Inr _ \<Rightarrow> [])))
        | Inr _ \<Rightarrow> seqS (MarkFailed path h) (bindS (Revert path) (\<lambda>r. case r of Inl x \<Rightarrow> retS (pe @ [ARelease x]) | Inr _ \<Rightarrow> bindS act (\<lambda>x. retS (pe @ x))))))
        (\<lambda>_. hooked path s) (hooked path s) t" for h and pe :: err
      unfolding wp_bind[of "sys_stat (OldPath path)"]
      by (rule wp_mono) (use clear revert hooked_start[OF assms(1)] in \<open>auto split: sum.split\<close>)
    then show "wp (case r of (h, pending, e) \<Rightarrow> let pe = (case e of None \<Rightarrow> [] | Some x \<Rightarrow> [ARelease x]) in
        if \<not> pending then retS pe
        else bindS (sys_stat (OldPath path)) (\<lambda>st. case st of Inl _ \<Rightarrow> bindS (ClearPending path) (\<lambda>r. retS (pe @ (case r of Inl x \<Rightarrow> [ARelease x] | Inr _ \<Rightarrow> [])))
        | Inr _ \<Rightarrow> seqS (MarkFailed path h) (bindS (Revert path) (\<lambda>r. case r of Inl x \<Rightarrow> retS (pe @ [ARelease x]) | Inr _ \<Rightarrow> bindS act (\<lambda>x. retS (pe @ x))))))
        (\<lambda>_. hooked path s) (hooked path s) t"
      using hooked_start[OF assms(1) t] by (simp add: Let_def split: prod.split)
  qed (use hooked_start[OF assms(1)] in auto)
qed

lemma wp_selfCheck:
  assumes "priv (mine path) s" "\<And>t. wp execve (\<lambda>_. same_files t) (same_files t) t"
  shows "wp (selfCheck path inherited execve) (\<lambda>_. hooked path s) (hooked path s) s"
proof (cases inherited)
  case True then show ?thesis using hooked_start[OF assms(1) same_files_refl] by (simp add: selfCheck_def)
next
  case False
  then have "selfCheck path inherited execve = hooks_recover path execve" by (simp add: selfCheck_def hooks_recover_def)
  then show ?thesis using wp_hooks_recover[OF assms] by simp
qed

end
