(* ===== verification/Publish.thy ===== *)
theory Publish
  imports SelfUpdate
begin

text \<open>
  \<^verbatim>\<open>cmd/go-binsync/publish.go\<close>, \<^verbatim>\<open>blob.go\<close> and \<^verbatim>\<open>cache.go\<close>: one publish.  The record \<open>publisher\<close> holds what
  it is built with; the store, the release cache and the clock are programs, and the cache of
  this repository is one of them.  Directory listings and the order of equal times in a sort
  are arguments.  Logging is not modelled.
\<close>

section \<open>The release cache\<close>

definition cacheLimit :: nat where "cacheLimit = 10"

definition cache_path :: "string \<Rightarrow> hash \<Rightarrow> string" where
  "cache_path dir h = Join dir (hex_encode h)"

definition sys_chtimes :: "string \<Rightarrow> (errno + unit, 'z) sys" where
  "sys_chtimes p = sysc (\<lambda>s. case fs_name s p of
     None \<Rightarrow> (Inl ENOENT, s)
   | Some i \<Rightarrow> (Inr (), s\<lparr>fs_node := (fs_node s)(i := (fs_node s i)\<lparr>i_mtime := fs_now s (fs_tick s)\<rparr>)\<rparr>))"

definition cache_get :: "prims \<Rightarrow> string \<Rightarrow> hash \<Rightarrow> (bytes option, 'z) sys" where
  "cache_get P dir h = bindS (sys_readFile (cache_path dir h)) (\<lambda>r. case r of
     Inl e \<Rightarrow> retS None
   | Inr b \<Rightarrow> if HashBytes P b \<noteq> h then seqS (sys_remove (cache_path dir h)) (retS None)
             else seqS (sys_chtimes (cache_path dir h)) (retS (Some b)))"

text \<open>\<^verbatim>\<open>evict\<close>: the files of the listing, newest first, beyond the limit.\<close>

definition evicted :: "((string \<times> int) list \<Rightarrow> (string \<times> int) list) \<Rightarrow> (string \<times> int) list \<Rightarrow> string list" where
  "evicted srt all = map fst (drop (min cacheLimit (length all)) (srt all))"

fun stat_all :: "string \<Rightarrow> string list \<Rightarrow> ((string \<times> int) list, 'z) sys" where
  "stat_all dir [] = retS []"
| "stat_all dir (n # ns) = bindS (sys_stat (Join dir n)) (\<lambda>r. bindS (stat_all dir ns) (\<lambda>all.
     retS (case r of Inl e \<Rightarrow> all | Inr (i, nd) \<Rightarrow> (n, i_mtime nd) # all)))"

fun remove_all :: "string \<Rightarrow> string list \<Rightarrow> (unit, 'z) sys" where
  "remove_all dir [] = retS ()"
| "remove_all dir (n # ns) = seqS (sys_remove (Join dir n)) (remove_all dir ns)"

definition cache_evict :: "((string \<times> int) list \<Rightarrow> (string \<times> int) list) \<Rightarrow> (string \<Rightarrow> (errno + string list, 'z) sys) \<Rightarrow> string \<Rightarrow> (unit, 'z) sys" where
  "cache_evict srt readDir dir = bindS (readDir dir) (\<lambda>r. case r of
     Inl e \<Rightarrow> retS ()
   | Inr ents \<Rightarrow> if length ents \<le> cacheLimit then retS ()
                else bindS (stat_all dir ents) (\<lambda>all. remove_all dir (evicted srt all)))"

definition sys_writeFile :: "string \<Rightarrow> bytes \<Rightarrow> nat \<Rightarrow> (errno + unit, 'z) sys" where
  "sys_writeFile p data mode = tryS (sys_openTrunc p mode) (\<lambda>i. closeS (sys_write i data))"

definition cache_put :: "((string \<times> int) list \<Rightarrow> (string \<times> int) list) \<Rightarrow> (string \<Rightarrow> (errno + string list, 'z) sys) \<Rightarrow> string \<Rightarrow> hash \<Rightarrow> bytes \<Rightarrow> (errno + unit, 'z) sys" where
  "cache_put srt readDir dir h data =
     (let p = cache_path dir h; tmp = p @ ''.tmp'' in
      tryS (sys_writeFile tmp data 420) (\<lambda>_.
        bindS (sys_rename tmp p) (\<lambda>r. case r of
          Inl e \<Rightarrow> seqS (sys_remove tmp) (retS (Inl e))
        | Inr _ \<Rightarrow> seqS (cache_evict srt readDir dir) (retS (Inr ())))))"

section \<open>The publisher\<close>

definition casAttempts :: nat where "casAttempts = 3"

record 'z publisher =
  pb_prims :: prims
  pb_go :: gocodec
  pb_unmarshal :: "bytes \<Rightarrow> pointer option"
  pb_marshal :: "pointer \<Rightarrow> bytes option"
  pb_get :: "string \<Rightarrow> getOptions \<Rightarrow> (serror + object, 'z) sys"
  pb_put :: "string \<Rightarrow> reader \<Rightarrow> putOptions \<Rightarrow> (serror + unit, 'z) sys"
  pb_cacheGet :: "hash \<Rightarrow> (bytes option, 'z) sys"
  pb_cachePut :: "hash \<Rightarrow> bytes \<Rightarrow> (errno + unit, 'z) sys"
  pb_done :: "(bool, 'z) sys"
  pb_newSeq :: "(int, 'z) sys"
  pb_bin :: bytes
  pb_hash :: hash
  pb_version :: string
  pb_blobObj :: bytes
  pb_blob :: blob

definition immutable :: putOptions where
  "immutable = \<lparr>IfMatch = None, ContentType = ''application/octet-stream'', CacheControl = ''public, max-age=31536000, immutable'', PutSize = 0\<rparr>"

definition putObject :: "'z publisher \<Rightarrow> string \<Rightarrow> bytes \<Rightarrow> putOptions \<Rightarrow> (err, 'z) sys" where
  "putObject pb key b po = bindS (pb_put pb key (b, True) (po\<lparr>PutSize := int (length b)\<rparr>)) (\<lambda>r. case r of
     Inl e \<Rightarrow> retS [AStore e] | Inr _ \<Rightarrow> retS [])"

definition readPointer :: "'z publisher \<Rightarrow> (err + pointer option, 'z) sys" where
  "readPointer pb = bindS (GetAll (pb_get pb) PointerKey) (\<lambda>r. case r of
     Inl NotFound \<Rightarrow> retS (Inr None)
   | Inl e \<Rightarrow> retS (Inl [AStore e])
   | Inr (b, etag) \<Rightarrow> (case ParsePointer (pb_unmarshal pb) b of
       Inl e \<Rightarrow> retS (Inl [ARelease e])
     | Inr p \<Rightarrow> retS (Inr (Some (p\<lparr>pt_etag := etag\<rparr>)))))"

definition pub_exists :: "'z publisher \<Rightarrow> string \<Rightarrow> (err + bool, 'z) sys" where
  "pub_exists pb key = bindS (pb_get pb key \<lparr>IfNoneMatch = [], Off = 0, Len = 1\<rparr>) (\<lambda>r. case r of
     Inl NotFound \<Rightarrow> retS (Inr False) | Inl e \<Rightarrow> retS (Inl [AStore e]) | Inr _ \<Rightarrow> retS (Inr True))"

definition sameFrames :: "blobFrame list \<Rightarrow> blobFrame list \<Rightarrow> bool" where
  "sameFrames a b \<longleftrightarrow> length a = length b \<and> list_all (\<lambda>i. a ! i = b ! i) [0..<length a]"

definition fetchFrame :: "'z publisher \<Rightarrow> string \<Rightarrow> blobFrame \<Rightarrow> (err + bytes, 'z) sys" where
  "fetchFrame pb key f = bindS (pb_get pb key \<lparr>IfNoneMatch = [], Off = bf_zoff f, Len = bf_zlen f\<rparr>) (\<lambda>r. case r of
     Inl e \<Rightarrow> retS (Inl [AStore e])
   | Inr obj \<Rightarrow> (case limit_reader (wrap64 (bf_zlen f + 1)) (ob_body obj) of (z, ok) \<Rightarrow>
       if \<not> ok then retS (Inl [AErr ''fetching''])
       else case DecodeFrame (pb_prims pb) f z of Inl e \<Rightarrow> retS (Inl [ARelease e]) | Inr plain \<Rightarrow> retS (Inr plain)))"

text \<open>
  The workers' frames in the order they are handed out: the first error ends the fetch, and a
  frame is not handed out once the context is over.
\<close>

fun pub_frames :: "'z publisher \<Rightarrow> string \<Rightarrow> blobFrame list \<Rightarrow> bytes \<Rightarrow> (err + bytes, 'z) sys" where
  "pub_frames pb key [] out = retS (Inr out)"
| "pub_frames pb key (f # fs) out = bindS (pb_done pb) (\<lambda>d.
     if d then pub_frames pb key fs out
     else tryS (fetchFrame pb key f) (\<lambda>plain. pub_frames pb key fs (copy_at (nat (bf_off f)) plain out)))"

definition pub_fetchBlob :: "'z publisher \<Rightarrow> hash \<Rightarrow> blob \<Rightarrow> (err + bytes, 'z) sys" where
  "pub_fetchBlob pb want b = (case Blob_Check b of
     Inl e \<Rightarrow> retS (Inl [ARelease e])
   | Inr _ \<Rightarrow> tryS (pub_frames pb (bl_key b) (bl_frames b) (replicate (nat (PlainSize b)) 0)) (\<lambda>out.
       retS (if HashBytes (pb_prims pb) out \<noteq> want then Inl [AErr ''hashes to another release''] else Inr out)))"

definition finishBlob :: "'z publisher \<Rightarrow> pointer option \<Rightarrow> (err, 'z) sys" where
  "finishBlob pb prev = (case prev of None \<Rightarrow> retS [] | Some q \<Rightarrow> (case rel_blob (pt_head q) of None \<Rightarrow> retS [] | Some b \<Rightarrow>
     bindS (pub_exists pb (bl_key b)) (\<lambda>r. case r of
       Inl e \<Rightarrow> retS e
     | Inr True \<Rightarrow> retS []
     | Inr False \<Rightarrow>
         let head = rel_hash (pt_head q) in
         bindS (if head \<noteq> pb_hash pb then pb_cacheGet pb head else retS (Some (pb_bin pb))) (\<lambda>data. case data of
           None \<Rightarrow> retS []
         | Some d \<Rightarrow> (case EncodeBlob (pb_prims pb) head d of (obj, nb) \<Rightarrow>
             if bl_size nb \<noteq> bl_size b \<or> \<not> sameFrames (bl_frames nb) (bl_frames b) then retS []
             else putObject pb (bl_key b) obj immutable)))))"

definition oldBytes :: "'z publisher \<Rightarrow> pointer \<Rightarrow> (bytes option, 'z) sys" where
  "oldBytes pb q =
     (let head = rel_hash (pt_head q) in
      bindS (pb_cacheGet pb head) (\<lambda>c. case c of
        Some b \<Rightarrow> retS (Some b)
      | None \<Rightarrow> (case rel_blob (pt_head q) of
          None \<Rightarrow> retS None
        | Some bl \<Rightarrow> bindS (pub_fetchBlob pb head bl) (\<lambda>r. case r of
            Inl e \<Rightarrow> retS None
          | Inr b \<Rightarrow> seqS (pb_cachePut pb head b) (retS (Some b))))))"

definition newEdge :: "prims \<Rightarrow> hash \<Rightarrow> hash \<Rightarrow> bytes \<Rightarrow> edge" where
  "newEdge P from to patch = \<lparr>ed_from = from, ed_to = to, ed_key = PatchKey from to, ed_size = int (length patch), ed_b3 = HashBytes P patch\<rparr>"

definition putPatch :: "'z publisher \<Rightarrow> pointer option \<Rightarrow> (err + edge option, 'z) sys" where
  "putPatch pb prev = (case prev of None \<Rightarrow> retS (Inr None) | Some q \<Rightarrow>
     bindS (oldBytes pb q) (\<lambda>old. case old of None \<Rightarrow> retS (Inr None) | Some d \<Rightarrow>
       (case Encode (pb_prims pb) (pb_go pb) d (pb_bin pb) \<lparr>MaxTransform = 0, PlainOnly = False\<rparr> of
          Inl e \<Rightarrow> retS (Inl [AErr ''encoding the patch''])
        | Inr patch \<Rightarrow>
            if int (length patch) \<ge> bl_size (pb_blob pb) then retS (Inr None)
            else let e = newEdge (pb_prims pb) (rel_hash (pt_head q)) (pb_hash pb) patch in
              bindS (putObject pb (ed_key e) patch immutable) (\<lambda>pe. retS (if pe = [] then Inr (Some e) else Inl pe)))))"

text \<open>The pointer \<^verbatim>\<open>putPointer\<close> writes; \<open>now\<close> is the clock's sequence number.\<close>

definition new_pointer :: "'z publisher \<Rightarrow> int \<Rightarrow> pointer option \<Rightarrow> edge option \<Rightarrow> pointer" where
  "new_pointer pb now prev edge =
     \<lparr>pt_format = Format,
      pt_seq = (case prev of None \<Rightarrow> now | Some q \<Rightarrow> if now \<le> pt_seq q then wrap64 (pt_seq q + 1) else now),
      pt_head = \<lparr>rel_hash = pb_hash pb, rel_version = pb_version pb, rel_size = int (length (pb_bin pb)), rel_blob = Some (pb_blob pb)\<rparr>,
      pt_chain = (case prev of None \<Rightarrow> [] | Some q \<Rightarrow> (case edge of None \<Rightarrow> []
        | Some e \<Rightarrow> let c = e # pt_chain q in take (min (length c) MaxChain) c)),
      pt_etag = []\<rparr>"

definition putPointer :: "'z publisher \<Rightarrow> pointer option \<Rightarrow> edge option \<Rightarrow> (err, 'z) sys" where
  "putPointer pb prev edge = bindS (pb_newSeq pb) (\<lambda>now. case pb_marshal pb (new_pointer pb now prev edge) of
     None \<Rightarrow> retS [AErr ''marshal'']
   | Some b \<Rightarrow> putObject pb PointerKey b
       \<lparr>IfMatch = Some (case prev of None \<Rightarrow> [] | Some q \<Rightarrow> pt_etag q), ContentType = ''application/json'', CacheControl = ''no-store'', PutSize = 0\<rparr>)"

text \<open>The compare-and-swap loop: \<open>True\<close> when this publish replaced the pointer, \<open>False\<close> when there was nothing to do.\<close>

fun pub_loop :: "'z publisher \<Rightarrow> nat \<Rightarrow> (err + bool, 'z) sys" where
  "pub_loop pb 0 = retS (Inl [AErr ''no attempt''])"
| "pub_loop pb (Suc k) = tryS (readPointer pb) (\<lambda>prev.
     bindS (finishBlob pb prev) (\<lambda>fe.
       if fe \<noteq> [] then retS (Inl fe)
       else if (case prev of None \<Rightarrow> False | Some q \<Rightarrow> rel_hash (pt_head q) = pb_hash pb) then retS (Inr False)
       else tryS (putPatch pb prev) (\<lambda>edge.
         bindS (putPointer pb prev edge) (\<lambda>pe.
           if pe = [] then retS (Inr True)
           else if AStore PreconditionFailed \<notin> set pe \<or> k = 0 then retS (Inl pe)
           else pub_loop pb k))))"

definition withBlob :: "'z publisher \<Rightarrow> 'z publisher" where
  "withBlob pb = (case EncodeBlob (pb_prims pb) (pb_hash pb) (pb_bin pb) of (obj, bl) \<Rightarrow> pb\<lparr>pb_blobObj := obj, pb_blob := bl\<rparr>)"

definition pub_run :: "'z publisher \<Rightarrow> (err, 'z) sys" where
  "pub_run pb0 = (let pb = withBlob pb0 in
     bindS (pub_loop pb casAttempts) (\<lambda>r. case r of
       Inl e \<Rightarrow> retS e
     | Inr False \<Rightarrow> retS []
     | Inr True \<Rightarrow> bindS (putObject pb (bl_key (pb_blob pb)) (pb_blobObj pb) immutable) (\<lambda>e.
         if e \<noteq> [] then retS e else seqS (pb_cachePut pb (pb_hash pb) (pb_bin pb)) (retS []))))"

section \<open>The command\<close>

record elf_file =
  ef_sections :: "string list"
  ef_dyn :: bool

record build_info =
  bi_settings :: "(string \<times> string) list"
  bi_version :: string

definition inspect_elf :: "elf_file option \<Rightarrow> string list" where
  "inspect_elf elf = (case elf of None \<Rightarrow> [] | Some f \<Rightarrow>
     (if ''.symtab'' \<in> set (ef_sections f) then [''this binary carries a symbol table''] else []) @
     (if list_ex (\<lambda>s. take 7 s = ''.debug_'' \<or> take 8 s = ''.zdebug_'') (ef_sections f) then [''this binary carries DWARF debug info''] else []) @
     (if ef_dyn f then [''this binary is position-independent''] else []))"

fun inspect_settings :: "(string \<times> string) list \<Rightarrow> string \<Rightarrow> string list \<Rightarrow> string \<times> string list" where
  "inspect_settings [] vcs ws = (vcs, ws)"
| "inspect_settings ((k, v) # kvs) vcs ws =
     (if k = ''vcs.revision'' then inspect_settings kvs v ws
      else if k = ''vcs.modified'' \<and> v = ''true'' then inspect_settings kvs vcs (ws @ [''this binary was built from a modified working tree''])
      else inspect_settings kvs vcs ws)"

definition inspect :: "elf_file option \<Rightarrow> build_info option \<Rightarrow> string \<times> string list" where
  "inspect elf bi = (let ws = inspect_elf elf in case bi of None \<Rightarrow> ([], ws) | Some i \<Rightarrow>
     (case inspect_settings (bi_settings i) [] ws of (vcs, ws') \<Rightarrow>
       (if bi_version i = [] \<or> bi_version i = ''(devel)'' then take 12 vcs else bi_version i, ws')))"

definition publish :: "(bytes \<Rightarrow> elf_file option) \<Rightarrow> (bytes \<Rightarrow> build_info option) \<Rightarrow> bool \<Rightarrow> string \<Rightarrow> 'z publisher \<Rightarrow> (err, 'z) sys" where
  "publish elf bi force binPath pb = bindS (sys_readFile binPath) (\<lambda>r. case r of
     Inl e \<Rightarrow> retS [AErr ''reading'']
   | Inr bin \<Rightarrow> (case inspect (elf bin) (bi bin) of (version, warnings) \<Rightarrow>
       if warnings \<noteq> [] \<and> \<not> force then retS [AErr ''refusing to publish'']
       else pub_run (pb\<lparr>pb_bin := bin, pb_hash := HashBytes (pb_prims pb) bin, pb_version := version\<rparr>)))"

end
