(* ===== verification/PublishProof.thy ===== *)
theory PublishProof
  imports Publish "HOL-Library.Multiset"
begin

text \<open>
  What a publish guarantees.  The pointer it writes is one every target accepts, with a larger
  sequence number and a chain that links; at every moment, also when the publisher dies, each
  edge of the pointer in the store has its patch there, of the size and hash the edge names,
  taking the one release to the other.  The locale \<open>publisher_env\<close> states what the publisher
  needs of its store and cache; it is interpreted on the directory store with the release
  cache of this repository in a directory apart from it.
\<close>

section \<open>The pointer it writes\<close>

lemma check_chain_take: "check_chain to es = None \<Longrightarrow> check_chain to (take n es) = None"
proof (induction to es arbitrary: n rule: check_chain.induct)
  case (2 to e es)
  then show ?case by (cases n) (auto split: if_splits)
qed simp

lemma ParsePointer_chain: "ParsePointer u b = Inr p \<Longrightarrow> check_chain (rel_hash (pt_head p)) (pt_chain p) = None"
  by (auto simp: ParsePointer_def split: option.splits if_splits)

lemma key_neqs [simp]:
  "PatchKey a b \<noteq> PointerKey" "PatchKey a b \<noteq> BlobKey h" "BlobKey h \<noteq> PointerKey"
  "PointerKey \<noteq> PatchKey a b" "BlobKey h \<noteq> PatchKey a b" "PointerKey \<noteq> BlobKey h" "PatchKey a b \<noteq> []"
  by (simp_all add: PatchKey_def BlobKey_def PointerKey_def)

text \<open>What the publisher read.\<close>

definition reads :: "(bytes \<Rightarrow> pointer option) \<Rightarrow> bytes option \<Rightarrow> pointer option \<Rightarrow> bool" where
  "reads u c prev \<longleftrightarrow> (case prev of None \<Rightarrow> c = None
     | Some q \<Rightarrow> (\<exists>b p t. c = Some b \<and> ParsePointer u b = Inr p \<and> q = p\<lparr>pt_etag := t\<rparr>))"

definition json_inverse :: "(pointer \<Rightarrow> bytes option) \<Rightarrow> (bytes \<Rightarrow> pointer option) \<Rightarrow> bool" where
  "json_inverse marshal unmarshal \<longleftrightarrow> (\<forall>p b. pt_etag p = [] \<longrightarrow> marshal p = Some b \<longrightarrow> unmarshal b = Some p)"

lemma new_pointer_parses:
  assumes "json_inverse (pb_marshal pb) u" "\<not> IsZero (pb_hash pb)" "reads u c prev"
    and "\<forall>q e. prev = Some q \<longrightarrow> edge = Some e \<longrightarrow>
      ed_to e = pb_hash pb \<and> ed_from e = rel_hash (pt_head q) \<and> ed_key e \<noteq> []"
    and "pb_marshal pb (new_pointer pb now prev edge) = Some b"
  shows "ParsePointer u b = Inr (new_pointer pb now prev edge)"
proof -
  let ?np = "new_pointer pb now prev edge"
  have u: "u b = Some ?np"
    using assms(1,5) by (simp add: json_inverse_def new_pointer_def)
  have "check_chain (pb_hash pb) (pt_chain ?np) = None"
  proof (cases "prev = None \<or> edge = None")
    case True then show ?thesis by (auto simp: new_pointer_def split: option.split)
  next
    case False
    then obtain q e where qe: "prev = Some q" "edge = Some e" by (cases prev; cases edge) auto
    then obtain b0 p where p: "ParsePointer u b0 = Inr p" "rel_hash (pt_head q) = rel_hash (pt_head p)" "pt_chain q = pt_chain p"
      using assms(3) by (auto simp: reads_def)
    have "\<not> IsZero (rel_hash (pt_head q))" using ParsePointer_ok[OF p(1)] p(2) by simp
    then have "check_chain (pb_hash pb) (e # pt_chain q) = None"
      using assms(2,4) qe ParsePointer_chain[OF p(1)] p(2,3) by simp
    from check_chain_take[OF this] show ?thesis by (simp add: new_pointer_def qe Let_def)
  qed
  then show ?thesis using u assms(2) by (simp add: ParsePointer_def new_pointer_def Format_def)
qed

lemma new_pointer_seq:
  assumes "pt_seq q < 2 ^ 63 - 1" "- (2 ^ 63) \<le> pt_seq q"
  shows "pt_seq q < pt_seq (new_pointer pb now (Some q) edge)"
  using assms by (simp add: new_pointer_def wrap64_def)

lemma new_pointer_short: "length (pt_chain (new_pointer pb now prev edge)) \<le> MaxChain"
  by (simp add: new_pointer_def Let_def MaxChain_def split: option.split)

lemma sameFrames_eq: "sameFrames a b \<longleftrightarrow> a = b"
  by (auto simp: sameFrames_def list_all_iff intro: nth_equalityI)

text \<open>What is evicted is not newer than anything that stays, and no more than the limit stays.\<close>

lemma evicted_oldest:
  assumes "mset (srt all) = mset all" "sorted_wrt (\<lambda>a b. snd b \<le> snd a) (srt all)"
  defines "kept \<equiv> take (min cacheLimit (length all)) (srt all)"
  shows "length kept \<le> cacheLimit \<and> length kept + length (evicted srt all) = length all \<and>
    (\<forall>a \<in> set kept. \<forall>b \<in> set (drop (min cacheLimit (length all)) (srt all)). snd b \<le> snd a)"
proof -
  have len: "length (srt all) = length all" using assms(1) by (metis mset_eq_length)
  define rest where "rest = drop (min cacheLimit (length all)) (srt all)"
  have "srt all = kept @ rest" by (simp add: kept_def rest_def)
  from assms(2)[unfolded this sorted_wrt_append]
  have "\<forall>a \<in> set kept. \<forall>b \<in> set rest. snd b \<le> snd a" by blast
  then show ?thesis unfolding rest_def by (auto simp: kept_def len evicted_def)
qed

section \<open>The stream\<close>

text \<open>A patch object: it takes a file with the one hash to a file with the other.\<close>

definition edge_served :: "prims \<Rightarrow> gocodec \<Rightarrow> edge \<Rightarrow> bytes \<Rightarrow> bool" where
  "edge_served P G e d \<longleftrightarrow> int (length d) = ed_size e \<and> HashBytes P d = ed_b3 e \<and>
     (\<exists>old new. HashBytes P old = ed_from e \<and> HashBytes P new = ed_to e \<and>
        (length old \<le> maxPatchSize \<longrightarrow> Apply P G old d = Inr new))"

definition stream_ok :: "prims \<Rightarrow> gocodec \<Rightarrow> (bytes \<Rightarrow> pointer option) \<Rightarrow> (string \<Rightarrow> bytes option) \<Rightarrow> bool" where
  "stream_ok P G u v \<longleftrightarrow> (\<forall>b. v PointerKey = Some b \<longrightarrow> (\<exists>p. ParsePointer u b = Inr p \<and> length (rel_hash (pt_head p)) = 32 \<and>
     (\<forall>bl. rel_blob (pt_head p) = Some bl \<longrightarrow> bl_key bl = BlobKey (rel_hash (pt_head p))) \<and>
     (\<forall>e \<in> set (pt_chain p). ed_key e = PatchKey (ed_from e) (ed_to e) \<and> (\<exists>d. v (ed_key e) = Some d \<and> edge_served P G e d))))"

text \<open>The key of the patch to \<open>h\<close> is not the key of an edge the pointer already has.\<close>

definition fresh_patch :: "(bytes \<Rightarrow> pointer option) \<Rightarrow> bytes option \<Rightarrow> hash \<Rightarrow> bool" where
  "fresh_patch u c h \<longleftrightarrow> (\<forall>b p. c = Some b \<longrightarrow> ParsePointer u b = Inr p \<longrightarrow>
     PatchKey (rel_hash (pt_head p)) h \<notin> ed_key ` set (pt_chain p))"

definition head_is :: "(bytes \<Rightarrow> pointer option) \<Rightarrow> hash \<Rightarrow> bytes option \<Rightarrow> bool" where
  "head_is u h c \<longleftrightarrow> (\<exists>b p. c = Some b \<and> ParsePointer u b = Inr p \<and> rel_hash (pt_head p) = h)"

definition follows :: "(bytes \<Rightarrow> pointer option) \<Rightarrow> hash \<Rightarrow> bytes option \<Rightarrow> bytes option \<Rightarrow> bool" where
  "follows u h c c' \<longleftrightarrow> (\<exists>b p. c' = Some b \<and> ParsePointer u b = Inr p \<and> rel_hash (pt_head p) = h \<and> length (pt_chain p) \<le> MaxChain \<and>
     (\<forall>b0 p0. c = Some b0 \<longrightarrow> ParsePointer u b0 = Inr p0 \<longrightarrow> - (2 ^ 63) \<le> pt_seq p0 \<longrightarrow> pt_seq p0 < 2 ^ 63 - 1 \<longrightarrow> pt_seq p0 < pt_seq p))"

lemma follows_head: "follows u h c c' \<Longrightarrow> head_is u h c'"
  by (auto simp: follows_def head_is_def)

lemma stream_put:
  assumes "stream_ok P G u v" "key \<noteq> PointerKey" "v' PointerKey = v PointerKey"
    and "\<And>k d. k \<noteq> key \<Longrightarrow> v k = Some d \<Longrightarrow> v' k = Some d"
    and "v' key = v key \<or> (\<forall>b p. v PointerKey = Some b \<longrightarrow> ParsePointer u b = Inr p \<longrightarrow> key \<notin> ed_key ` set (pt_chain p))"
  shows "stream_ok P G u v'"
  unfolding stream_ok_def
proof (intro allI impI)
  fix b assume "v' PointerKey = Some b"
  then have vb: "v PointerKey = Some b" using assms(3) by simp
  then obtain p where p: "ParsePointer u b = Inr p \<and> length (rel_hash (pt_head p)) = 32" "\<forall>bl. rel_blob (pt_head p) = Some bl \<longrightarrow> bl_key bl = BlobKey (rel_hash (pt_head p))"
    "\<forall>e \<in> set (pt_chain p). ed_key e = PatchKey (ed_from e) (ed_to e) \<and> (\<exists>d. v (ed_key e) = Some d \<and> edge_served P G e d)"
    using assms(1) unfolding stream_ok_def by blast
  have same: "v' (ed_key e) = v (ed_key e)" if e: "e \<in> set (pt_chain p)" for e
  proof (cases "ed_key e = key")
    case True then show ?thesis using assms(5) vb p(1) e by auto
  next
    case False
    obtain d where "v (ed_key e) = Some d" using p(3) e by blast
    then show ?thesis using assms(4)[OF False] by simp
  qed
  have "\<forall>e \<in> set (pt_chain p). ed_key e = PatchKey (ed_from e) (ed_to e) \<and> (\<exists>d. v' (ed_key e) = Some d \<and> edge_served P G e d)"
    using p(3) same by metis
  then show "\<exists>p. ParsePointer u b = Inr p \<and> length (rel_hash (pt_head p)) = 32 \<and> (\<forall>bl. rel_blob (pt_head p) = Some bl \<longrightarrow> bl_key bl = BlobKey (rel_hash (pt_head p))) \<and>
     (\<forall>e \<in> set (pt_chain p). ed_key e = PatchKey (ed_from e) (ed_to e) \<and> (\<exists>d. v' (ed_key e) = Some d \<and> edge_served P G e d))"
    using p(1,2) by blast
qed

lemma stream_mono:
  assumes "stream_ok P G u v" "v' PointerKey = v PointerKey" "\<And>k d. v k = Some d \<Longrightarrow> v' k = Some d"
  shows "stream_ok P G u v'"
  using assms(1) unfolding stream_ok_def assms(2) by (meson assms(3))

section \<open>The patch of a codec that works\<close>

definition go_ok :: "gocodec \<Rightarrow> bool" where
  "go_ok G \<longleftrightarrow> (\<forall>old new body h. encodeGo G old new = Inr body \<longrightarrow> h_newsize h = length new \<longrightarrow>
     applyGo G old body h = Inr new \<and> length body \<le> maxPatchSize)"

lemma Encode_edge:
  assumes "prims_ok P" "go_ok G" "length new \<le> 2 ^ 27" "Encode P G old new o' = Inr patch" "length old \<le> maxPatchSize"
  shows "Apply P G old patch = Inr new"
proof -
  obtain tr body where eb: "encode_body G old new o' = Inr (tr, body)"
    using assms(4) by (auto simp: Encode_def result_simps split: sum.splits)
  have new: "length new \<le> maxPatchSize" using assms(3) by (simp add: maxPatchSize_def)
  have tr: "tr = TransformPlain \<or> tr = TransformGoAMD64"
    using eb by (auto simp: encode_body_def result_simps Let_def split: if_splits sum.splits)
  have plain: "body = plainDiff old new" "length old \<le> MaxPlainSize" if "tr = TransformPlain"
    using encode_body_plain eb that by auto
  have go: "encodeGo G old new = Inr body" if "tr = TransformGoAMD64" using encode_body_go eb that by auto
  have len: "length body \<le> maxPatchSize"
  proof (cases "tr = TransformPlain")
    case True
    have "length (plainDiff old new) \<le> 82 * length new + 120"
      by (rule length_plainDiff) (use plain[OF True] assms(3) in \<open>auto simp: MaxPlainSize_def\<close>)
    then show ?thesis using plain[OF True] assms(3) by (simp add: maxPatchSize_def)
  next
    case False
    then have "encodeGo G old new = Inr body" using tr go by blast
    then show ?thesis using assms(2)[unfolded go_ok_def, rule_format, of old new body "\<lparr>h_transform = 0, h_flags = 0, h_from = [], h_to = [], h_oldsize = 0, h_newsize = length new, h_frames = [], h_bodyoff = 0\<rparr>"] by simp
  qed
  have "\<exists>patch. Encode P G old new o' = Inr patch \<and> Apply P G old patch = Inr new"
    by (rule Encode_Apply_body[OF assms(1) eb len assms(5) new])
       (use plain go applyPlain_plainDiff[OF assms(5) new] assms(2) in \<open>auto simp: go_ok_def\<close>)
  then show ?thesis using assms(4) by auto
qed

section \<open>The environment\<close>

lemma keeps_bool: "keeps I a \<Longrightarrow> keeps I b \<Longrightarrow> keeps I (case x of True \<Rightarrow> a | False \<Rightarrow> b)"
  by (cases x) simp_all

locale publisher_env = object_store "pb_get pb" "pb_put pb" inv view tag
  for pb :: "'z publisher" and inv :: "'z fsys_scheme \<Rightarrow> bool" and view tag +
  assumes cacheGet_law: "inv s \<Longrightarrow> length h = 32 \<Longrightarrow> wp (pb_cacheGet pb h) (\<lambda>r s'. inv s' \<and> view s' = view s \<and> (\<forall>d. r = Some d \<longrightarrow> HashBytes (pb_prims pb) d = h))
      (\<lambda>s'. inv s' \<and> view s' = view s) s"
    and cachePut_law: "inv s \<Longrightarrow> length h = 32 \<Longrightarrow> wp (pb_cachePut pb h d) (\<lambda>_ s'. inv s' \<and> view s' = view s) (\<lambda>s'. inv s' \<and> view s' = view s) s"
    and done_quiet: "wp (pb_done pb) (\<lambda>_. same_files s) (same_files s) s"
    and newSeq_quiet: "wp (pb_newSeq pb) (\<lambda>_. same_files s) (same_files s) s"
begin

text \<open>Programs that only read keep what the store holds.\<close>

definition holds :: "(string \<Rightarrow> bytes option) \<Rightarrow> 'z fsys_scheme \<Rightarrow> bool" where
  "holds v s \<longleftrightarrow> inv s \<and> view s = v"

lemma holds_same: "same_files s s' \<Longrightarrow> holds v s' = holds v s"
  using view_files by (simp add: holds_def)

lemma quiet_holds: "(\<And>s. wp m (\<lambda>_. same_files s) (same_files s) s) \<Longrightarrow> keeps (holds v) m"
  by (rule keepsI, rule wp_mono, assumption) (auto simp: holds_same)

lemmas holds_get = quiet_holds[OF get_frame]
lemmas holds_done = quiet_holds[OF done_quiet]
lemmas holds_seq = quiet_holds[OF newSeq_quiet]

lemma holds_cacheGet: "length h = 32 \<Longrightarrow> keeps (holds v) (pb_cacheGet pb h)"
  by (rule keepsI, rule wp_mono[OF cacheGet_law]) (auto simp: holds_def)

lemma holds_cachePut: "length h = 32 \<Longrightarrow> keeps (holds v) (pb_cachePut pb h d)"
  by (rule keepsI, rule wp_mono[OF cachePut_law]) (auto simp: holds_def)

lemma holds_exists: "keeps (holds v) (pub_exists pb key)"
proof -
  have "keeps (holds v) (case r of Inl NotFound \<Rightarrow> retS (Inr False) | Inl e \<Rightarrow> retS (Inl [AStore e]) | Inr _ \<Rightarrow> retS (Inr True))" for r :: "serror + object"
    by (cases r rule: sum.exhaust; cases "projl r") (auto simp: keeps_ret split: serror.split)
  then show ?thesis unfolding pub_exists_def by (intro keeps_bind holds_get)
qed

lemma holds_fetchFrame: "keeps (holds v) (fetchFrame pb key f)"
  unfolding fetchFrame_def by (intro keep holds_get)

lemma holds_frames: "keeps (holds v) (pub_frames pb key fs out)"
proof (induction fs arbitrary: out)
  case (Cons f fs)
  show ?case unfolding pub_frames.simps by (intro keep holds_done holds_fetchFrame Cons.IH)
qed (simp add: keeps_ret)

text \<open>The previous release, if it is found, is the release.\<close>

lemma wp_pub_fetchBlob:
  assumes "holds v s"
  shows "wp (pub_fetchBlob pb want b) (\<lambda>r s'. holds v s' \<and> (\<forall>d. r = Inr d \<longrightarrow> HashBytes (pb_prims pb) d = want)) (holds v) s"
  unfolding pub_fetchBlob_def
  by (cases "Blob_Check b") (auto simp: assms intro!: wp_mono[OF keepsD[OF holds_frames assms]] split: sum.split)

lemma wp_oldBytes:
  assumes "holds v s" "length (rel_hash (pt_head q)) = 32"
  shows "wp (oldBytes pb q) (\<lambda>r s'. holds v s' \<and> (\<forall>d. r = Some d \<longrightarrow> HashBytes (pb_prims pb) d = rel_hash (pt_head q))) (holds v) s"
proof -
  have c: "wp (pb_cacheGet pb h) (\<lambda>r s'. holds v s' \<and> (\<forall>d. r = Some d \<longrightarrow> HashBytes (pb_prims pb) d = h)) (holds v) s" if "length h = 32" for h
    by (rule wp_mono[OF cacheGet_law[OF _ that]]) (use assms in \<open>auto simp: holds_def\<close>)
  show ?thesis
    unfolding oldBytes_def Let_def wp_bind
    by (rule wp_mono[OF c[OF assms(2)]]) (auto split: option.splits sum.splits intro!: wp_mono[OF wp_pub_fetchBlob] wp_mono[OF keepsD[OF holds_cachePut[OF assms(2)]]])
qed

text \<open>The store's pointer is \<open>c\<close> and every edge of it is served.\<close>

definition stream :: "bytes option \<Rightarrow> 'z fsys_scheme \<Rightarrow> bool" where
  "stream c s \<longleftrightarrow> inv s \<and> stream_ok (pb_prims pb) (pb_go pb) (pb_unmarshal pb) (view s) \<and> view s PointerKey = c"

lemma stream_holds: "stream c s \<Longrightarrow> holds (view s) s"
  by (simp add: stream_def holds_def)

lemma holds_stream: "stream c s \<Longrightarrow> holds (view s) s' \<Longrightarrow> stream c s'"
  by (simp add: stream_def holds_def)

lemma keeps_stream: "(\<And>v. keeps (holds v) m) \<Longrightarrow> keeps (stream c) m"
proof (rule keepsI)
  fix s assume m: "\<And>v. keeps (holds v) m" and s: "stream c s"
  show "wp m (\<lambda>_. stream c) (stream c) s"
    by (rule wp_mono[OF keepsD[OF m stream_holds[OF s]]]) (auto intro: holds_stream[OF s])
qed

lemma stream_edge:
  assumes "stream (Some b) s" "ParsePointer (pb_unmarshal pb) b = Inr p" "e \<in> set (pt_chain p)"
  shows "ed_key e = PatchKey (ed_from e) (ed_to e) \<and> (\<exists>d. view s (ed_key e) = Some d \<and> edge_served (pb_prims pb) (pb_go pb) e d)"
  using assms unfolding stream_def stream_ok_def by (metis sum.inject(2))

lemma stream_head:
  assumes "stream (Some b) s" "ParsePointer (pb_unmarshal pb) b = Inr p"
  shows "length (rel_hash (pt_head p)) = 32"
  using assms unfolding stream_def stream_ok_def by (metis sum.inject(2))

lemma wp_readPointer:
  assumes "stream c s"
  shows "wp (readPointer pb) (\<lambda>r s'. stream c s' \<and> (\<forall>prev. r = Inr prev \<longrightarrow> reads (pb_unmarshal pb) c prev) \<and> r \<noteq> Inl []) (stream c) s"
proof -
  have i: "inv s" "view s PointerKey = c" using assms by (simp_all add: stream_def)
  have g: "wp (pb_get pb PointerKey wholeObject) (\<lambda>r s'. stream c s' \<and> (get_ok c (tag s PointerKey) wholeObject r \<or> (\<exists>m. r = Inl (StoreErr m)))) (stream c) s"
    by (rule wp_mono[OF wp_conj[OF keepsD[OF keeps_stream[OF holds_get] assms] get_law[OF i(1), of PointerKey wholeObject]]]) (auto simp: i(2))
  have w: "window wholeObject d = d" for d by (rule window_whole)
  show ?thesis
    unfolding readPointer_def GetAll_def wp_bind wp_try
    by (rule wp_mono[OF g]) (auto simp: get_ok_def reads_def w split: sum.splits prod.splits serror.splits)
qed

lemma wp_putObject:
  assumes "stream c s" "key \<noteq> PointerKey" "c \<noteq> None"
    and "\<And>b p. c = Some b \<Longrightarrow> ParsePointer (pb_unmarshal pb) b = Inr p \<Longrightarrow> key \<notin> ed_key ` set (pt_chain p)"
  shows "wp (putObject pb key d po) (\<lambda>e s'. stream c s' \<and> (e = [] \<longrightarrow> view s' key = Some d)) (stream c) s"
proof -
  have i: "inv s" "view s PointerKey = c" "stream_ok (pb_prims pb) (pb_go pb) (pb_unmarshal pb) (view s)"
    using assms(1) by (simp_all add: stream_def)
  have st: "stream c s'" if "inv s'" "\<forall>k d. k \<noteq> key \<longrightarrow> view s k = Some d \<longrightarrow> view s' k = Some d" for s'
  proof -
    have p: "view s' PointerKey = view s PointerKey" using that(2) assms(2,3) i(2) by (metis not_None_eq)
    have "stream_ok (pb_prims pb) (pb_go pb) (pb_unmarshal pb) (view s')"
      by (rule stream_put[OF i(3) assms(2), where v' = "view s'", OF p]) (use that(2) assms(4) i(2) in auto)
    then show ?thesis using that(1) p i(2) by (simp add: stream_def)
  qed
  show ?thesis
    unfolding putObject_def wp_bind
    by (rule wp_mono[OF put_law[OF i(1)]]) (auto intro: st split: sum.split)
qed

lemma wp_finishBlob:
  assumes "stream c s" "reads (pb_unmarshal pb) c prev"
  shows "wp (finishBlob pb prev) (\<lambda>_. stream c) (stream c) s"
proof (cases prev)
  case None then show ?thesis using assms(1) by (simp add: finishBlob_def)
next
  case (Some q)
  then obtain b p t where p: "c = Some b" "ParsePointer (pb_unmarshal pb) b = Inr p" "q = p\<lparr>pt_etag := t\<rparr>"
    using assms(2) by (auto simp: reads_def)
  show ?thesis
  proof (cases "rel_blob (pt_head q)")
    case None then show ?thesis using assms(1) Some by (simp add: finishBlob_def)
  next
    case (Some bl)
    have key: "bl_key bl = BlobKey (rel_hash (pt_head p))" "\<forall>e \<in> set (pt_chain p). ed_key e = PatchKey (ed_from e) (ed_to e)"
      using assms(1) p Some unfolding stream_def stream_ok_def by auto
    have len: "length (rel_hash (pt_head q)) = 32" using stream_head[of b s p] assms(1) p by simp
    have put: "keeps (stream c) (putObject pb (bl_key bl) d po)" for d po
      by (rule keepsI, rule wp_mono[OF wp_putObject]) (use key p in auto)
    have "keeps (stream c) (finishBlob pb prev)"
      unfolding finishBlob_def \<open>prev = Some q\<close> option.case Some Let_def
      by (intro keep keeps_bool put keeps_stream[OF holds_exists] keeps_stream[OF holds_cacheGet[OF len]])
    then show ?thesis using assms(1) by (rule keepsD)
  qed
qed

text \<open>An edge comes with its patch in the store.\<close>

definition new_edge :: "pointer option \<Rightarrow> edge \<Rightarrow> (string \<Rightarrow> bytes option) \<Rightarrow> bool" where
  "new_edge prev e v \<longleftrightarrow> (\<exists>q. prev = Some q \<and> ed_from e = rel_hash (pt_head q)) \<and> ed_to e = pb_hash pb \<and>
     ed_key e = PatchKey (ed_from e) (ed_to e) \<and> (\<exists>d. v (ed_key e) = Some d \<and> edge_served (pb_prims pb) (pb_go pb) e d)"

lemma wp_putPatch:
  assumes "stream c s" "reads (pb_unmarshal pb) c prev" "fresh_patch (pb_unmarshal pb) c (pb_hash pb)"
    and "prims_ok (pb_prims pb)" "go_ok (pb_go pb)" "length (pb_bin pb) \<le> 2 ^ 27" "pb_hash pb = HashBytes (pb_prims pb) (pb_bin pb)"
  shows "wp (putPatch pb prev) (\<lambda>r s'. stream c s' \<and> (\<forall>e. r = Inr (Some e) \<longrightarrow> new_edge prev e (view s')) \<and> r \<noteq> Inl []) (stream c) s"
proof (cases prev)
  case None then show ?thesis using assms(1) by (simp add: putPatch_def)
next
  case (Some q)
  then obtain b p t where p: "c = Some b" "ParsePointer (pb_unmarshal pb) b = Inr p" "q = p\<lparr>pt_etag := t\<rparr>"
    using assms(2) by (auto simp: reads_def)
  have len: "length (rel_hash (pt_head q)) = 32" using stream_head[of b s p] assms(1) p by simp
  let ?e = "newEdge (pb_prims pb) (rel_hash (pt_head q)) (pb_hash pb)"
  let ?Q = "\<lambda>r s'. stream c s' \<and> (\<forall>e. r = Inr (Some e) \<longrightarrow> new_edge prev e (view s')) \<and> r \<noteq> Inl []"
  have served: "edge_served (pb_prims pb) (pb_go pb) (?e patch) patch"
    if "HashBytes (pb_prims pb) old = rel_hash (pt_head q)" "Encode (pb_prims pb) (pb_go pb) old (pb_bin pb) o' = Inr patch" for old patch o'
    using Encode_edge[OF assms(4,5,6) that(2)] that(1) assms(7) by (auto simp: edge_served_def newEdge_def)
  have put: "wp (bindS (putObject pb (ed_key (?e patch)) patch immutable) (\<lambda>pe. retS (if pe = [] then Inr (Some (?e patch)) else Inl pe))) ?Q (stream c) s'"
    if st: "stream c s'" "edge_served (pb_prims pb) (pb_go pb) (?e patch) patch" for s' patch
  proof -
    have w: "wp (putObject pb (ed_key (?e patch)) patch immutable) (\<lambda>e s'. stream c s' \<and> (e = [] \<longrightarrow> view s' (ed_key (?e patch)) = Some patch)) (stream c) s'"
      by (rule wp_putObject[OF st(1)]) (use assms(3) p in \<open>auto simp: newEdge_def fresh_patch_def\<close>)
    have "new_edge prev (?e patch) v" if "v (ed_key (?e patch)) = Some patch" for v
      using that st(2) Some by (auto simp: new_edge_def newEdge_def)
    then show ?thesis unfolding wp_bind by (intro wp_mono[OF w]) auto
  qed
  have old: "wp (oldBytes pb q) (\<lambda>r s'. stream c s' \<and> (\<forall>d. r = Some d \<longrightarrow> HashBytes (pb_prims pb) d = rel_hash (pt_head q))) (stream c) s"
    by (rule wp_mono[OF wp_oldBytes[OF stream_holds[OF assms(1)] len]]) (auto intro: holds_stream[OF assms(1)])
  show ?thesis
    unfolding putPatch_def Some option.case Let_def wp_bind[of "oldBytes pb q"]
    by (rule wp_mono[OF old]) (use put served in \<open>auto simp: Some simp del: wp_bind split: option.split sum.split\<close>)
qed

text \<open>What the rest needs of the publisher.\<close>

definition sound :: bool where
  "sound \<longleftrightarrow> prims_ok (pb_prims pb) \<and> go_ok (pb_go pb) \<and> length (pb_bin pb) \<le> 2 ^ 27 \<and>
     pb_hash pb = HashBytes (pb_prims pb) (pb_bin pb) \<and> \<not> IsZero (pb_hash pb) \<and>
     json_inverse (pb_marshal pb) (pb_unmarshal pb) \<and> bl_key (pb_blob pb) = BlobKey (pb_hash pb)"

lemma new_pointer_follows:
  assumes "reads (pb_unmarshal pb) c prev" "ParsePointer (pb_unmarshal pb) b = Inr (new_pointer pb now prev edge)"
  shows "follows (pb_unmarshal pb) (pb_hash pb) c (Some b)"
proof -
  have "pt_seq p0 < pt_seq (new_pointer pb now prev edge)"
    if c: "c = Some b0" "ParsePointer (pb_unmarshal pb) b0 = Inr p0" "- (2 ^ 63) \<le> pt_seq p0" "pt_seq p0 < 2 ^ 63 - 1" for b0 p0
  proof -
    obtain t where "prev = Some (p0\<lparr>pt_etag := t\<rparr>)" using assms(1) c(1,2) by (cases prev) (auto simp: reads_def)
    then show ?thesis using new_pointer_seq[of "p0\<lparr>pt_etag := t\<rparr>"] c(3,4) by simp
  qed
  then show ?thesis
    unfolding follows_def using assms(2) new_pointer_short[of pb now prev edge]
    by (intro exI[of _ b] exI[of _ "new_pointer pb now prev edge"]) (simp add: new_pointer_def)
qed

text \<open>Writing a pointer whose every edge is served keeps the stream.\<close>

lemma stream_pointer:
  assumes "sound" "stream c s" "reads (pb_unmarshal pb) c prev" "\<forall>e. edge = Some e \<longrightarrow> new_edge prev e (view s)"
    and "pb_marshal pb (new_pointer pb now prev edge) = Some b"
    and "inv s'" "\<forall>k d. k \<noteq> PointerKey \<longrightarrow> view s k = Some d \<longrightarrow> view s' k = Some d" "view s' PointerKey = Some b"
  shows "stream (Some b) s' \<and> follows (pb_unmarshal pb) (pb_hash pb) c (Some b)"
proof -
  let ?np = "new_pointer pb now prev edge"
  have parse: "ParsePointer (pb_unmarshal pb) b = Inr ?np"
    by (rule new_pointer_parses[OF _ _ assms(3) _ assms(5)]) (use assms(1,4) in \<open>auto simp: sound_def new_edge_def\<close>)
  have served: "ed_key e = PatchKey (ed_from e) (ed_to e) \<and> (\<exists>d. view s (ed_key e) = Some d \<and> edge_served (pb_prims pb) (pb_go pb) e d)"
    if "e \<in> set (pt_chain ?np)" for e
  proof -
    obtain q e0 where q: "prev = Some q" "edge = Some e0" "e \<in> set (e0 # pt_chain q)"
      using \<open>e \<in> set (pt_chain ?np)\<close> by (auto simp: new_pointer_def Let_def split: option.splits dest!: in_set_takeD)
    then consider "e = e0" | "e \<in> set (pt_chain q)" by auto
    then show ?thesis
    proof cases
      case 1 then show ?thesis using assms(4) q(2) by (auto simp: new_edge_def)
    next
      case 2
      then obtain b0 p t where "c = Some b0" "ParsePointer (pb_unmarshal pb) b0 = Inr p" "q = p\<lparr>pt_etag := t\<rparr>"
        using assms(3) q(1) by (auto simp: reads_def)
      then have "stream (Some b0) s" "ParsePointer (pb_unmarshal pb) b0 = Inr p" "e \<in> set (pt_chain p)" using assms(2) 2 by simp_all
      from stream_edge[OF this] show ?thesis .
    qed
  qed
  have served': "ed_key e = PatchKey (ed_from e) (ed_to e) \<and> (\<exists>d. view s' (ed_key e) = Some d \<and> edge_served (pb_prims pb) (pb_go pb) e d)"
    if "e \<in> set (pt_chain ?np)" for e
    using served[OF that] assms(7) key_neqs(1) by metis
  have blob: "\<forall>bl. rel_blob (pt_head ?np) = Some bl \<longrightarrow> bl_key bl = BlobKey (rel_hash (pt_head ?np))"
    using assms(1) by (simp add: new_pointer_def sound_def)
  have len: "length (rel_hash (pt_head ?np)) = 32" using assms(1) by (simp add: new_pointer_def sound_def prims_ok_def HashBytes_def)
  have "stream_ok (pb_prims pb) (pb_go pb) (pb_unmarshal pb) (view s')"
    unfolding stream_ok_def assms(8) using parse served' blob len by blast
  then show ?thesis using assms(6,8) new_pointer_follows[OF assms(3) parse] by (simp add: stream_def)
qed

definition goes :: "bytes option \<Rightarrow> 'z fsys_scheme \<Rightarrow> bool" where
  "goes c s \<longleftrightarrow> (\<exists>c'. stream c' s \<and> (c' = c \<or> \<not> head_is (pb_unmarshal pb) (pb_hash pb) c \<and> follows (pb_unmarshal pb) (pb_hash pb) c c'))"

lemma stream_goes: "stream c s \<Longrightarrow> goes c s"
  by (auto simp: goes_def)

lemma wp_putPointer:
  assumes "sound" "stream c s" "reads (pb_unmarshal pb) c prev" "\<forall>e. edge = Some e \<longrightarrow> new_edge prev e (view s)"
  shows "wp (putPointer pb prev edge)
    (\<lambda>e s'. \<exists>c'. stream c' s' \<and> (c' = c \<or> follows (pb_unmarshal pb) (pb_hash pb) c c') \<and> (e = [] \<longrightarrow> head_is (pb_unmarshal pb) (pb_hash pb) c'))
    (\<lambda>s'. \<exists>c'. stream c' s' \<and> (c' = c \<or> follows (pb_unmarshal pb) (pb_hash pb) c c')) s"
proof -
  let ?C = "\<lambda>s'. \<exists>c'. stream c' s' \<and> (c' = c \<or> follows (pb_unmarshal pb) (pb_hash pb) c c')"
  let ?Q = "\<lambda>e s'. \<exists>c'. stream c' s' \<and> (c' = c \<or> follows (pb_unmarshal pb) (pb_hash pb) c c') \<and> (e = [] \<longrightarrow> head_is (pb_unmarshal pb) (pb_hash pb) c')"
  have put: "wp (putObject pb PointerKey b po) ?Q ?C s'"
    if h: "holds (view s) s'" and m: "pb_marshal pb (new_pointer pb now prev edge) = Some b" for b po now s'
  proof -
    have s': "stream c s'" "view s' = view s" using holds_stream[OF assms(2) h] h by (simp_all add: holds_def)
    note sp = stream_pointer[OF assms(1) s'(1) assms(3) _ m]
    have new: "stream (Some b) t \<and> follows (pb_unmarshal pb) (pb_hash pb) c (Some b)"
      if "inv t" "\<forall>k d. k \<noteq> PointerKey \<longrightarrow> view s' k = Some d \<longrightarrow> view t k = Some d" "view t PointerKey = Some b" for t
      by (rule sp) (use that assms(4) s'(2) in auto)
    have old: "stream c t"
      if "inv t" "\<forall>k d. k \<noteq> PointerKey \<longrightarrow> view s' k = Some d \<longrightarrow> view t k = Some d" "view t PointerKey = view s' PointerKey" for t
    proof -
      have "view t k = Some d" if "view s' k = Some d" for k d using \<open>\<forall>k d. k \<noteq> PointerKey \<longrightarrow> _\<close> that \<open>view t PointerKey = _\<close> by (cases "k = PointerKey") auto
      then have "stream_ok (pb_prims pb) (pb_go pb) (pb_unmarshal pb) (view t)"
        by (intro stream_mono[of _ _ _ "view s'" "view t"]) (use s'(1) that(3) in \<open>auto simp: stream_def\<close>)
      then show ?thesis using that s'(1) by (simp add: stream_def)
    qed
    have i: "inv s'" using s'(1) by (simp add: stream_def)
    have end1: "?C t" and end2: "?Q e t" if a: "inv t" "\<forall>k d. k \<noteq> PointerKey \<longrightarrow> view s' k = Some d \<longrightarrow> view t k = Some d"
      "view t PointerKey = view s' PointerKey \<or> view t PointerKey = Some b" "e = [] \<longrightarrow> view t PointerKey = Some b" for t and e :: err
    proof -
      show "?C t" using a(3) old[OF a(1,2)] new[OF a(1,2)] by blast
      show "?Q e t"
      proof (cases "view t PointerKey = Some b")
        case True then show ?thesis using new[OF a(1,2) True] follows_head by blast
      next
        case False then show ?thesis using a(3,4) old[OF a(1,2)] by blast
      qed
    qed
    have eq: "(case r of Inl e \<Rightarrow> retS [AStore e] | Inr _ \<Rightarrow> retS []) = retS (case r of Inl e \<Rightarrow> [AStore e] | Inr _ \<Rightarrow> [])" for r :: "serror + unit"
      by (simp split: sum.split)
    show ?thesis
      unfolding putObject_def wp_bind eq wp_ret
    proof (rule wp_mono[OF put_law[OF i]], goal_cases)
      case (1 r t) then show ?case by (intro end2) (auto split: sum.splits)
    next
      case (2 t) then show ?case by (intro end1[of _ "[AErr []]"]) auto
    qed
  qed
  show ?thesis
    unfolding putPointer_def wp_bind
    by (rule wp_mono[OF keepsD[OF holds_seq stream_holds[OF assms(2)]]])
       (use holds_stream[OF assms(2)] put in \<open>auto split: option.split\<close>)
qed

definition lands :: "bytes option \<Rightarrow> err + bool \<Rightarrow> 'z fsys_scheme \<Rightarrow> bool" where
  "lands c r s \<longleftrightarrow> (\<exists>c'. stream c' s \<and> (c' = c \<or> \<not> head_is (pb_unmarshal pb) (pb_hash pb) c \<and> follows (pb_unmarshal pb) (pb_hash pb) c c') \<and>
     (r \<in> range Inr \<longrightarrow> head_is (pb_unmarshal pb) (pb_hash pb) c')) \<and> r \<noteq> Inl []"

lemma wp_pub_loop:
  assumes "sound" "stream c s" "head_is (pb_unmarshal pb) (pb_hash pb) c \<or> fresh_patch (pb_unmarshal pb) c (pb_hash pb)"
  shows "wp (pub_loop pb k) (lands c) (goes c) s"
  using assms(2,3)
proof (induction k arbitrary: c s)
  case 0 then show ?case by (auto simp: lands_def)
next
  case (Suc k)
  let ?u = "pb_unmarshal pb" and ?h = "pb_hash pb"
  have snd: "prims_ok (pb_prims pb)" "go_ok (pb_go pb)" "length (pb_bin pb) \<le> 2 ^ 27" "?h = HashBytes (pb_prims pb) (pb_bin pb)"
    using assms(1) by (simp_all add: sound_def)
  have err: "lands c (Inl e) t" if "stream c t" "e \<noteq> []" for e :: err and t using that by (auto simp: lands_def)
  have again: "wp (pub_loop pb k) (lands c) (goes c) t" if "stream c' t" "c' = c \<or> follows ?u ?h c c'" "\<not> head_is ?u ?h c" for c' t
  proof (rule wp_mono[OF Suc.IH[OF that(1)]])
    show "head_is ?u ?h c' \<or> fresh_patch ?u c' ?h" using that(2) Suc.prems(2) follows_head by blast
    show "lands c r t'" if "lands c' r t'" for r t' using that \<open>c' = c \<or> _\<close> \<open>\<not> head_is ?u ?h c\<close> follows_head unfolding lands_def by blast
    show "goes c t'" if "goes c' t'" for t' using that \<open>c' = c \<or> _\<close> \<open>\<not> head_is ?u ?h c\<close> follows_head unfolding goes_def by blast
  qed
  have ptr: "wp (bindS (putPointer pb prev edge) (\<lambda>pe. if pe = [] then retS (Inr True)
       else if AStore PreconditionFailed \<notin> set pe \<or> k = 0 then retS (Inl pe) else pub_loop pb k)) (lands c) (goes c) t"
    if "stream c t" "reads ?u c prev" "\<forall>e. edge = Some e \<longrightarrow> new_edge prev e (view t)" "\<not> head_is ?u ?h c" for prev edge t
    unfolding wp_bind
  proof (rule wp_mono[OF wp_putPointer[OF assms(1) that(1,2,3)]])
    fix pe :: err and t' assume "\<exists>c'. stream c' t' \<and> (c' = c \<or> follows ?u ?h c c') \<and> (pe = [] \<longrightarrow> head_is ?u ?h c')"
    then obtain c' where c': "stream c' t'" "c' = c \<or> follows ?u ?h c c'" "pe = [] \<longrightarrow> head_is ?u ?h c'" by blast
    have "lands c (Inr True) t'" if "pe = []" using c' that \<open>\<not> head_is ?u ?h c\<close> by (auto simp: lands_def)
    moreover have "lands c (Inl pe) t'" if "pe \<noteq> []" using that c' \<open>\<not> head_is ?u ?h c\<close> by (auto simp: lands_def)
    ultimately show "wp (if pe = [] then retS (Inr True)
       else if AStore PreconditionFailed \<notin> set pe \<or> k = 0 then retS (Inl pe) else pub_loop pb k) (lands c) (goes c) t'"
      using again[OF c'(1,2) that(4)] by simp
  qed (use that(4) in \<open>auto simp: goes_def\<close>)
  have patch: "wp (tryS (putPatch pb prev) (\<lambda>edge. bindS (putPointer pb prev edge) (\<lambda>pe. if pe = [] then retS (Inr True)
       else if AStore PreconditionFailed \<notin> set pe \<or> k = 0 then retS (Inl pe) else pub_loop pb k))) (lands c) (goes c) t"
    if "stream c t" "reads ?u c prev" "\<not> head_is ?u ?h c" for prev t
  proof -
    have f: "fresh_patch ?u c ?h" using Suc.prems(2) that(3) by blast
    show ?thesis
      unfolding wp_try
      by (rule wp_mono[OF wp_putPatch[OF that(1,2) f snd]])
         (use that err stream_goes in \<open>auto simp del: wp_bind split: sum.split intro!: ptr\<close>)
  qed
  have head: "(case prev of None \<Rightarrow> False | Some q \<Rightarrow> rel_hash (pt_head q) = ?h) = head_is ?u ?h c" if "reads ?u c prev" for prev
    using that by (auto simp: reads_def head_is_def split: option.splits)
  have here: "lands c (Inr x) t" if "stream c t" "head_is ?u ?h c" for x t using that by (auto simp: lands_def)
  have fin: "wp (bindS (finishBlob pb prev) (\<lambda>fe. if fe \<noteq> [] then retS (Inl fe)
       else if (case prev of None \<Rightarrow> False | Some q \<Rightarrow> rel_hash (pt_head q) = ?h) then retS (Inr False)
       else tryS (putPatch pb prev) (\<lambda>edge. bindS (putPointer pb prev edge) (\<lambda>pe. if pe = [] then retS (Inr True)
         else if AStore PreconditionFailed \<notin> set pe \<or> k = 0 then retS (Inl pe) else pub_loop pb k)))) (lands c) (goes c) t"
    if "stream c t" "reads ?u c prev" for prev t
    unfolding wp_bind[of "finishBlob pb prev"] head[OF that(2)]
    by (rule wp_mono[OF wp_finishBlob[OF that]]) (use here patch[OF _ that(2)] err stream_goes in \<open>auto simp del: wp_bind wp_try\<close>)
  show ?case
    unfolding pub_loop.simps wp_try[of "readPointer pb"]
  proof (rule wp_mono[OF wp_readPointer[OF Suc.prems(1)]], goal_cases)
    case (1 r t)
    then show ?case
    proof (cases r)
      case (Inr prev)
      then have "reads ?u c prev" using 1 by simp
      then show ?thesis unfolding Inr sum.case using 1 by (intro fin) auto
    qed (use 1 in \<open>simp add: err\<close>)
  qed (rule stream_goes)
qed

text \<open>After the pointer comes the blob; nothing of the stream changes any more.\<close>

lemma wp_pub_rest:
  assumes "sound" "stream c s" "head_is (pb_unmarshal pb) (pb_hash pb) c"
  shows "wp (bindS (putObject pb (bl_key (pb_blob pb)) d immutable) (\<lambda>e. if e \<noteq> [] then retS e
     else seqS (pb_cachePut pb (pb_hash pb) (pb_bin pb)) (retS []))) (\<lambda>_. stream c) (stream c) s"
proof -
  have key: "ed_key e = PatchKey (ed_from e) (ed_to e)" if "c = Some b" "ParsePointer (pb_unmarshal pb) b = Inr p" "e \<in> set (pt_chain p)" for b p e
    using stream_edge[of b s p e] assms(2) that by simp
  have len: "length (pb_hash pb) = 32" using assms(1) by (simp add: sound_def prims_ok_def HashBytes_def)
  have "wp (putObject pb (bl_key (pb_blob pb)) d immutable) (\<lambda>_. stream c) (stream c) s"
    by (rule wp_mono[OF wp_putObject[OF assms(2)]])
       (use assms(1,3) key in \<open>auto simp: sound_def head_is_def\<close>)
  then show ?thesis
    unfolding wp_bind
    by (rule wp_mono) (auto intro!: wp_mono[OF keepsD[OF keeps_stream[OF holds_cachePut[OF len]]]])
qed

end

section \<open>The whole publish\<close>

definition pub_start :: "(string \<Rightarrow> bytes option) \<Rightarrow> 'z publisher \<Rightarrow> bool" where
  "pub_start v pb \<longleftrightarrow> prims_ok (pb_prims pb) \<and> go_ok (pb_go pb) \<and> length (pb_bin pb) \<le> 2 ^ 27 \<and>
     pb_hash pb = HashBytes (pb_prims pb) (pb_bin pb) \<and> \<not> IsZero (pb_hash pb) \<and>
     json_inverse (pb_marshal pb) (pb_unmarshal pb) \<and> stream_ok (pb_prims pb) (pb_go pb) (pb_unmarshal pb) v \<and>
     (head_is (pb_unmarshal pb) (pb_hash pb) (v PointerKey) \<or> fresh_patch (pb_unmarshal pb) (v PointerKey) (pb_hash pb))"

text \<open>What may be in the store at any moment of a publish that began with \<open>v\<close>.\<close>

definition pub_during :: "(string \<Rightarrow> bytes option) \<Rightarrow> 'z publisher \<Rightarrow> (string \<Rightarrow> bytes option) \<Rightarrow> bool" where
  "pub_during v pb v' \<longleftrightarrow> stream_ok (pb_prims pb) (pb_go pb) (pb_unmarshal pb) v' \<and>
     (v' PointerKey = v PointerKey \<or> follows (pb_unmarshal pb) (pb_hash pb) (v PointerKey) (v' PointerKey))"

lemma withBlob_fields [simp]:
  "pb_prims (withBlob pb) = pb_prims pb" "pb_go (withBlob pb) = pb_go pb" "pb_unmarshal (withBlob pb) = pb_unmarshal pb"
  "pb_marshal (withBlob pb) = pb_marshal pb" "pb_get (withBlob pb) = pb_get pb" "pb_put (withBlob pb) = pb_put pb"
  "pb_cacheGet (withBlob pb) = pb_cacheGet pb" "pb_cachePut (withBlob pb) = pb_cachePut pb" "pb_done (withBlob pb) = pb_done pb"
  "pb_newSeq (withBlob pb) = pb_newSeq pb" "pb_bin (withBlob pb) = pb_bin pb" "pb_hash (withBlob pb) = pb_hash pb"
  "bl_key (pb_blob (withBlob pb)) = BlobKey (pb_hash pb)"
  by (simp_all add: withBlob_def EncodeBlob_def encodeBlob_def Let_def split: prod.split)

lemma env_withBlob: "publisher_env pb iv view tag \<Longrightarrow> publisher_env (withBlob pb) iv view tag"
  by (simp add: publisher_env_def publisher_env_axioms_def)

lemma wp_pub_run:
  fixes s :: "'z fsys_scheme"
  assumes "publisher_env pb iv view tag" "iv s" "pub_start (view s) pb"
  shows "wp (pub_run pb) (\<lambda>e s'. iv s' \<and> pub_during (view s) pb (view s') \<and> (e = [] \<longrightarrow> head_is (pb_unmarshal pb) (pb_hash pb) (view s' PointerKey)))
    (\<lambda>s'. iv s' \<and> pub_during (view s) pb (view s')) s"
proof -
  let ?pb = "withBlob pb" and ?c = "view s PointerKey"
  note env = env_withBlob[OF assms(1)]
  note defs = publisher_env.stream_def[OF env] publisher_env.lands_def[OF env] publisher_env.goes_def[OF env]
  have snd: "publisher_env.sound ?pb" using assms(3) by (auto simp: publisher_env.sound_def[OF env] pub_start_def)
  have st: "publisher_env.stream ?pb iv view ?c s" using assms(2,3) by (simp add: defs pub_start_def)
  let ?Q = "\<lambda>e s'. iv s' \<and> pub_during (view s) pb (view s') \<and> (e = [] \<longrightarrow> head_is (pb_unmarshal pb) (pb_hash pb) (view s' PointerKey))"
  let ?C = "\<lambda>s'. iv s' \<and> pub_during (view s) pb (view s')"
  have at: "?C t" if "publisher_env.stream ?pb iv view c' t" "c' = ?c \<or> follows (pb_unmarshal pb) (pb_hash pb) ?c c'" for c' t
    using that by (auto simp: defs pub_during_def)
  have rest: "wp (bindS (putObject ?pb (bl_key (pb_blob ?pb)) (pb_blobObj ?pb) immutable) (\<lambda>e. if e \<noteq> [] then retS e
     else seqS (pb_cachePut ?pb (pb_hash ?pb) (pb_bin ?pb)) (retS []))) ?Q ?C t"
    if "publisher_env.stream ?pb iv view c' t" "c' = ?c \<or> follows (pb_unmarshal pb) (pb_hash pb) ?c c'" "head_is (pb_unmarshal pb) (pb_hash pb) c'" for c' t
    by (rule wp_mono[OF publisher_env.wp_pub_rest[OF env snd that(1)]]) (use that at in \<open>auto simp: defs\<close>)
  show ?thesis
    unfolding pub_run_def Let_def wp_bind[of "pub_loop ?pb casAttempts"]
  proof (rule wp_mono[OF publisher_env.wp_pub_loop[OF env snd st]], goal_cases)
    case 1 then show ?case using assms(3) by (auto simp: pub_start_def)
  next
    case (2 r t)
    then obtain c' where c': "publisher_env.stream ?pb iv view c' t" "c' = ?c \<or> follows (pb_unmarshal pb) (pb_hash pb) ?c c'"
      "r \<in> range Inr \<longrightarrow> head_is (pb_unmarshal pb) (pb_hash pb) c'" by (auto simp: defs)
    have p: "view t PointerKey = c'" using c'(1) by (simp add: defs)
    show ?case
    proof (cases r)
      case (Inl e) then show ?thesis using 2 at[OF c'(1,2)] by (simp add: defs(2))
    next
      case (Inr x)
      then show ?thesis using rest[OF c'(1,2)] c'(3) at[OF c'(1,2)] p by (cases x) (simp_all del: wp_bind)
    qed
  next
    case (3 t) then show ?case using at by (auto simp: publisher_env.goes_def[OF env])
  qed
qed

end
