(* ===== verification/PublishFs.thy ===== *)
theory PublishFs
  imports PublishProof
begin

text \<open>
  Publishing into a directory with the release cache of \<^verbatim>\<open>cmd/go-binsync/cache.go\<close> in another
  directory: the interpretation of \<open>publisher_env\<close>.  The cache's files have inodes of their own,
  so trimming and rewriting them changes nothing in the store.
\<close>

section \<open>Two directories\<close>

definition in_dir :: "string \<Rightarrow> string set" where
  "in_dir dir = {dir @ ''/'' @ x |x. True}"

definition clean_dir :: "string \<Rightarrow> bool" where
  "clean_dir d \<longleftrightarrow> is_rooted d \<and> Clean d = d \<and> d \<noteq> ''/''"

definition apart :: "string \<Rightarrow> string \<Rightarrow> bool" where
  "apart a b \<longleftrightarrow> clean_dir a \<and> clean_dir b \<and>
     take (length a + 1) (b @ ''/'') \<noteq> a @ ''/'' \<and> take (length b + 1) (a @ ''/'') \<noteq> b @ ''/''"

lemma Join_clean:
  assumes "clean_dir root" "list_all good_elem (split_slash key)"
  shows "Join root key = root @ ''/'' @ key"
proof -
  have r: "is_rooted root" "root \<noteq> []" using assms(1) by (auto simp: clean_dir_def is_rooted_def)
  have c: "root = CHR ''/'' # join_slash (clean_parts root)"
    using assms(1) r(1) by (metis Clean_def clean_dir_def unsplit_def)
  then have "clean_parts root \<noteq> []" using assms(1) by (metis clean_dir_def join_slash.simps(1))
  then have "Join root key = CHR ''/'' # join_slash (clean_parts root) @ CHR ''/'' # key"
    by (simp add: Join_elems[OF r(2) assms(2)] unsplit_def r(1) join_append)
  then show ?thesis using c by (metis append_Cons append_Nil)
qed

lemma last_join: "list_all good_elem ps \<Longrightarrow> ps \<noteq> [] \<Longrightarrow> join_slash ps \<noteq> [] \<and> last (join_slash ps) \<noteq> CHR ''/''"
  by (induction ps rule: join_slash.induct) (auto simp: good_elem_def elem_ends)

lemma tempName_clean:
  assumes "clean_dir root" "list_all good_elem (split_slash key)"
  shows "\<exists>x. tempName (Join root key) = root @ ''/'' @ x"
proof -
  obtain es b where e: "split_slash key = es @ [b]" by (cases "split_slash key" rule: rev_cases) auto
  have r: "is_rooted root" "root \<noteq> []" using assms(1) by (auto simp: clean_dir_def is_rooted_def)
  have b: "elem b" "b \<noteq> []" using assms(2) e by (auto simp: good_elem_def)
  have cp: "clean_parts root \<noteq> []" using assms(1) r(1) by (metis Clean_def clean_dir_def join_slash.simps(1) unsplit_def)
  have kept: "kept_parts True (clean_parts root @ es)"
    using kept_good[OF kept_clean_parts, of es root] assms(2) e r(1) by simp
  define d where "d = unsplit True (clean_parts root @ es)"
  have p: "Join root key = d @ CHR ''/'' # b"
    using cp by (simp add: Join_elems[OF r(2) assms(2)] unsplit_def r(1) e d_def join_append flip: append_assoc)
  have "Dir (Join root key) = d"
    using upto_after(1)[OF b(1), of d] Clean_slash[OF kept] cp by (simp add: Dir_def p d_def)
  moreover have "Base (Join root key) = b" using Base_elem[OF b, of "Join root key" d] p by simp
  moreover have "d \<noteq> [] \<and> last d \<noteq> CHR ''/''"
  proof -
    have "list_all good_elem (clean_parts root @ es)" using kept by (auto simp: kept_parts_def)
    then show ?thesis using last_join[of "clean_parts root @ es"] cp by (simp add: d_def unsplit_def)
  qed
  ultimately have "tempName (Join root key) = Join root key @ ''.tmp.''" by (simp add: tempName_def joinPath_def p)
  then show ?thesis by (simp add: Join_clean[OF assms])
qed

lemma apart_in_dir: "apart a b \<Longrightarrow> b @ ''/'' @ x \<notin> in_dir a"
proof
  assume ap: "apart a b" and "b @ ''/'' @ x \<in> in_dir a"
  then obtain y where "(b @ ''/'') @ x = (a @ ''/'') @ y" by (auto simp: in_dir_def)
  then obtain us where "(b @ ''/'') @ us = a @ ''/'' \<or> b @ ''/'' = (a @ ''/'') @ us" unfolding append_eq_append_conv2 by blast
  then have "take (length b + 1) (a @ ''/'') = b @ ''/'' \<or> take (length a + 1) (b @ ''/'') = a @ ''/''"
    by (metis append_eq_conv_conj length_append_singleton Suc_eq_plus1)
  then show False using ap by (auto simp: apart_def)
qed

section \<open>The store leaves the cache alone\<close>

lemma keeps_priv_lock: "keeps (priv N) (lock_loop fl)"
  by (induction fl rule: lock_loop.induct) (simp_all add: keeps_ret)

lemma keeps_priv_openCreate: "keeps (priv N) (sys_openCreate p m)"
  unfolding sys_openCreate_def by (rule keepsI, rule wp_sysc) (auto simp: private_new split: option.split)

lemma keeps_priv_writeTemp:
  assumes "priv N s"
  shows "wp (writeTemp p r) (\<lambda>e s'. priv N s' \<and> (\<forall>tmp. e = Inr tmp \<longrightarrow> (\<exists>x. tmp = tempName p @ x))) (priv N) s"
proof -
  have body: "keeps (priv N) (closeS (tryS (sys_copy i r) (\<lambda>_. tryS (sys_chmod i 420) (\<lambda>_. sys_nop))))" for i
    unfolding sys_copy_def by (intro keep)
  have rm: "keeps (priv N) (seqS (sys_remove name) (retS (Inl e)))" for name and e :: errno by (intro keep)
  have ct: "wp (sys_createTemp (tempName p)) (\<lambda>e s'. priv N s' \<and> (\<forall>q i. e = Inr (q, i) \<longrightarrow> (\<exists>x. q = tempName p @ x))) (priv N) s"
    by (rule wp_createTemp_prefix) (use assms in \<open>auto simp: private_new\<close>)
  show ?thesis
    unfolding writeTemp_def wp_try
  proof (rule wp_mono[OF ct], goal_cases)
    case (1 e s')
    then show ?case
    proof (cases e)
      case (Inr ni)
      obtain name i where ni: "ni = (name, i)" by fastforce
      then show ?thesis
        using 1 Inr by (auto intro!: wp_mono[OF keepsD[OF body]] wp_remove simp: private_remove split: sum.split simp del: wp_try)
    qed auto
  qed
qed

lemma keeps_priv_replace:
  assumes "p \<notin> N" "\<And>x. tempName p @ x \<notin> N"
  shows "keeps (priv N) (put_replace p r)"
proof (rule keepsI)
  fix s :: "'a fsys_scheme" assume s: "priv N s"
  have rest: "keeps (priv N) (bindS (sys_rename (tempName p @ x) p) (\<lambda>e. case e of
       Inl e \<Rightarrow> seqS (sys_remove (tempName p @ x)) (retS (Inl (StoreErr ''put'')))
     | Inr _ \<Rightarrow> putS fsyncDir (\<lambda>_. retS (Inr ()))))" for x
    unfolding putS_def fsyncDir_def by (intro keep assms)
  show "wp (put_replace p r) (\<lambda>_. priv N) (priv N) s"
    unfolding put_replace_def wp_putS
  proof (rule wp_mono[OF keeps_priv_writeTemp[OF s]], goal_cases)
    case (1 e s')
    then show ?case using keepsD[OF rest] by (cases e) (auto simp del: wp_bind)
  qed
qed

lemma keeps_priv_put:
  assumes "\<And>k. list_all good_elem (split_slash k) \<Longrightarrow> Join root k \<notin> N" "\<And>k x. list_all good_elem (split_slash k) \<Longrightarrow> tempName (Join root k) @ x \<notin> N"
  shows "keeps (priv N) (file_Put fl root key r po)"
proof (cases "checkKey key")
  case True
  then have g: "list_all good_elem (split_slash key)" by (simp add: checkKey_elems)
  note rep = keeps_priv_replace[OF assms(1,2)[OF g], of r]
  have match: "keeps (priv N) (put_match (Join root key) r want)" for want
    unfolding put_match_def by (intro keep rep)
  show ?thesis
    using True unfolding file_Put_def file_path_def if_P[OF True] sum.case putS_def file_lock_def unlockS_def
    by (intro keep rep match keeps_priv_openCreate keeps_priv_lock)
qed (simp add: file_Put_def file_path_def keeps_ret)

section \<open>The cache leaves the store alone\<close>

definition beside :: "string set \<Rightarrow> (string \<Rightarrow> bytes option) \<Rightarrow> 'z fsys_scheme \<Rightarrow> bool" where
  "beside N cs s \<longleftrightarrow> priv N s \<and> (\<forall>q. q \<notin> N \<longrightarrow> content s q = cs q)"

lemma beside_ticked [simp]: "beside N cs (ticked s) = beside N cs s"
  by (simp add: beside_def)

lemma beside_update:
  assumes "beside N cs s" "p \<in> N" "fs_name s p = Some i"
  shows "beside N cs (s\<lparr>fs_node := (fs_node s)(i := nd)\<rparr>)"
proof -
  have "own s p" using assms(1,2) by (simp add: beside_def priv_def)
  then have n: "fs_name s q \<noteq> Some i" if "q \<notin> N" for q using assms(2,3) that unfolding own_def by blast
  have "priv N (s\<lparr>fs_node := (fs_node s)(i := nd)\<rparr>)"
    using assms(1) private_nodes[of "s\<lparr>fs_node := (fs_node s)(i := nd)\<rparr>" s N] by (simp add: beside_def)
  moreover have "content (s\<lparr>fs_node := (fs_node s)(i := nd)\<rparr>) q = cs q" if "q \<notin> N" for q
    using n[OF that] assms(1) that unfolding content_update beside_def by simp
  ultimately show ?thesis unfolding beside_def by blast
qed

lemma beside_update_ticked:
  "beside N cs s \<Longrightarrow> p \<in> N \<Longrightarrow> fs_name s p = Some i \<Longrightarrow> beside N cs ((ticked s)\<lparr>fs_node := (fs_node s)(i := nd)\<rparr>)"
  using beside_update[of N cs "ticked s" p i nd] by simp

lemma keeps_beside_read [keep]: "keeps (beside N cs) (sys_readFile p)" "keeps (beside N cs) (sys_stat p)" "keeps (beside N cs) sys_nop"
  by (rule keepsI, rule wp_readFile wp_stat wp_nop; simp)+

lemma keeps_beside_remove: "p \<in> N \<Longrightarrow> keeps (beside N cs) (sys_remove p)"
  by (rule keepsI, rule wp_remove) (auto simp: beside_def private_remove content_def)

lemma keeps_beside_chtimes: "p \<in> N \<Longrightarrow> keeps (beside N cs) (sys_chtimes p)"
  unfolding sys_chtimes_def
  by (rule keepsI, rule wp_sysc) (auto split: option.split intro!: beside_update_ticked[where p = p])

lemma keeps_beside_rename:
  assumes "a \<in> N" "b \<in> N"
  shows "keeps (beside N cs) (sys_rename a b)"
proof (rule keepsI)
  fix s :: "'a fsys_scheme" assume s: "beside N cs s"
  then have pr: "priv N s" by (simp add: beside_def)
  show "wp (sys_rename a b) (\<lambda>_. beside N cs) (beside N cs) s"
  proof (rule wp_rename)
    fix i assume i: "fs_name s a = Some i" "fs_name s b \<noteq> Some i"
    have "own s a" using pr assms(1) by (simp add: priv_def)
    then have one: "fs_name s q = Some i \<Longrightarrow> q = a" for q using i(1) unfolding own_def by blast
    let ?s = "(ticked s)\<lparr>fs_name := (fs_name s)(b := Some i, a := None)\<rparr>"
    have "own ?s p" if "p \<in> N" for p
    proof -
      have "own s p" using pr that by (simp add: priv_def)
      then show ?thesis using one by (auto simp: own_def split: if_splits)
    qed
    moreover have "fs_wf ?s" using pr i by (auto simp: priv_def fs_wf_def)
    moreover have "content ?s q = content s q" if "q \<notin> N" for q
    proof -
      have "q \<noteq> a" "q \<noteq> b" using that assms by auto
      then show ?thesis by (simp add: content_def)
    qed
    ultimately show "beside N cs ?s" using s unfolding beside_def priv_def by simp
  qed (use s in auto)
qed

lemma keeps_beside_writeFile:
  assumes "p \<in> N"
  shows "keeps (beside N cs) (sys_writeFile p d m)"
proof (rule keepsI)
  fix s :: "'a fsys_scheme" assume s: "beside N cs s"
  have w: "wp (closeS (sys_write i d)) (\<lambda>_. beside N cs) (beside N cs) t" if "beside N cs t" "fs_name t p = Some i" for i and t :: "'a fsys_scheme"
  proof -
    have "beside N cs (node_write i x (ticked t))" for x
      using beside_update_ticked[OF that(1) assms that(2)] by (simp add: node_write_def)
    then show ?thesis by (intro wp_closeS wp_write) auto
  qed
  have new: "beside N cs (new_inode p m (ticked s))"
  proof -
    have "fs_wf s" using s by (simp add: beside_def priv_def)
    then show ?thesis using s assms by (auto simp: beside_def private_new content_new_inode)
  qed
  show "wp (sys_writeFile p d m) (\<lambda>_. beside N cs) (beside N cs) s"
    unfolding sys_writeFile_def wp_try
    by (rule wp_openTrunc) (use s assms new beside_update_ticked[of N cs s p] in \<open>auto intro!: w\<close>)
qed

lemma cache_names:
  assumes "clean_dir dir" "good_elem n"
  shows "Join dir n \<in> in_dir dir"
proof -
  have "list_all good_elem (split_slash n)" using assms(2) split_elem[of n] by (simp add: good_elem_def)
  then show ?thesis using Join_clean[OF assms(1)] by (auto simp: in_dir_def)
qed

lemma hex_chars: "c \<in> set (hex_encode h) \<Longrightarrow> hex_val c \<noteq> None"
proof -
  have "unat x div 16 < 16" for x :: byte using byte_less[of x] by (simp add: less_mult_imp_div_less)
  moreover assume "c \<in> set (hex_encode h)"
  ultimately show ?thesis by (auto simp: hex_encode_def hex_val_digit)
qed

lemma hex_elem: "length h = 32 \<Longrightarrow> good_elem (hex_encode h)"
proof -
  assume "length h = 32"
  then obtain x t where "hex_encode h = x # t" by (cases h) (auto simp: hex_encode_def)
  moreover have "CHR ''/'' \<notin> set (hex_encode h)" "CHR ''.'' \<notin> set (hex_encode h)"
    using hex_chars[of "CHR ''/''" h] hex_chars[of "CHR ''.''" h] by (auto simp: hex_val_def)
  ultimately show ?thesis by (auto simp: good_elem_def elem_def)
qed

lemma cache_path_in: "clean_dir dir \<Longrightarrow> length h = 32 \<Longrightarrow> cache_path dir h \<in> in_dir dir \<and> cache_path dir h @ ''.tmp'' \<in> in_dir dir"
  using cache_names[OF _ hex_elem] by (fastforce simp: cache_path_def in_dir_def)

text \<open>The names of a listing are path elements.\<close>

definition readDirS :: "(nat \<Rightarrow> errno + string list) \<Rightarrow> string \<Rightarrow> (errno + string list, 'z) sys" where
  "readDirS ents dir = clockS (\<lambda>t. map_sum id (filter good_elem) (ents t))"

lemma keeps_beside_stats: "keeps (beside N cs) (stat_all dir ns)"
  by (induction ns) (auto intro!: keep)

lemma keeps_beside_removes: "(\<And>n. n \<in> set ns \<Longrightarrow> Join dir n \<in> N) \<Longrightarrow> keeps (beside N cs) (remove_all dir ns)"
  by (induction ns) (auto intro!: keep keeps_beside_remove)

lemma keeps_beside_evict:
  assumes "clean_dir dir" "\<And>all. mset (srt all) = mset all"
  shows "keeps (beside (in_dir dir) cs) (cache_evict srt (readDirS ents) dir)"
proof (rule keepsI)
  fix s :: "'a fsys_scheme" assume s: "beside (in_dir dir) cs s"
  have names: "wp (stat_all dir ns) (\<lambda>all t. beside (in_dir dir) cs t \<and> list_all (\<lambda>e. fst e \<in> set ns) all) (beside (in_dir dir) cs) t"
    if "beside (in_dir dir) cs t" for ns and t :: "'a fsys_scheme"
    using that
  proof (induction ns arbitrary: t)
    case (Cons n ns)
    have "wp (sys_stat (Join dir n)) (\<lambda>_. beside (in_dir dir) cs) (beside (in_dir dir) cs) t" by (rule keepsD[OF keeps_beside_read(2) Cons.prems])
    then show ?case
      unfolding stat_all.simps wp_bind
      by (rule wp_mono) (auto intro!: wp_mono[OF Cons.IH] elim: list.pred_mono_strong split: sum.splits prod.splits)
  qed simp
  have rm: "wp (bindS (stat_all dir ns) (\<lambda>all. remove_all dir (evicted srt all))) (\<lambda>_. beside (in_dir dir) cs) (beside (in_dir dir) cs) t"
    if "beside (in_dir dir) cs t" "list_all good_elem ns" for ns and t :: "'a fsys_scheme"
    unfolding wp_bind
  proof (rule wp_mono[OF names[OF that(1)]])
    fix all :: "(string \<times> int) list" and t' :: "'a fsys_scheme" assume a: "beside (in_dir dir) cs t' \<and> list_all (\<lambda>e. fst e \<in> set ns) all"
    have "set (evicted srt all) \<subseteq> fst ` set (srt all)" by (auto simp: evicted_def dest: in_set_dropD)
    also have "set (srt all) = set all" using assms(2) by (metis set_mset_mset)
    finally have "good_elem n" if "n \<in> set (evicted srt all)" for n using that a \<open>list_all good_elem ns\<close> by (auto simp: list_all_iff)
    then show "wp (remove_all dir (evicted srt all)) (\<lambda>_. beside (in_dir dir) cs) (beside (in_dir dir) cs) t'"
      using a cache_names[OF assms(1)] by (intro keepsD[OF keeps_beside_removes]) auto
  qed
  show "wp (cache_evict srt (readDirS ents) dir) (\<lambda>_. beside (in_dir dir) cs) (beside (in_dir dir) cs) s"
    unfolding cache_evict_def readDirS_def wp_bind[of "clockS _"] wp_clockS
    using s by (cases "ents (fs_tick s)") (auto simp: list_all_iff simp del: wp_bind intro!: rm)
qed

lemma wp_cache_get:
  assumes "clean_dir dir" "length h = 32" "beside (in_dir dir) cs s"
  shows "wp (cache_get P dir h) (\<lambda>r s'. beside (in_dir dir) cs s' \<and> (\<forall>d. r = Some d \<longrightarrow> HashBytes P d = h)) (beside (in_dir dir) cs) s"
proof -
  note p = cache_path_in[OF assms(1,2), THEN conjunct1]
  have ops: "wp (sys_remove (cache_path dir h)) (\<lambda>_. beside (in_dir dir) cs) (beside (in_dir dir) cs) t"
    "wp (sys_chtimes (cache_path dir h)) (\<lambda>_. beside (in_dir dir) cs) (beside (in_dir dir) cs) t" if "beside (in_dir dir) cs t" for t
    by (rule keepsD[OF keeps_beside_remove[OF p] that] keepsD[OF keeps_beside_chtimes[OF p] that])+
  show ?thesis
    unfolding cache_get_def wp_bind
    by (rule wp_mono[OF keepsD[OF keeps_beside_read(1) assms(3)]])
       (use ops in \<open>auto split: sum.split\<close>)
qed

lemma keeps_beside_cache_put:
  assumes "clean_dir dir" "length h = 32" "\<And>all. mset (srt all) = mset all"
  shows "keeps (beside (in_dir dir) cs) (cache_put srt (readDirS ents) dir h d)"
proof -
  note p = cache_path_in[OF assms(1,2)]
  show ?thesis
    unfolding cache_put_def Let_def
    by (intro keep keeps_beside_writeFile keeps_beside_rename keeps_beside_remove keeps_beside_evict assms p[THEN conjunct1] p[THEN conjunct2])
qed

section \<open>The interpretation\<close>

text \<open>\<open>newest\<close> is the order of \<^verbatim>\<open>sort.Slice\<close>; equal times keep the order of the listing.\<close>

definition newest :: "(string \<times> int) list \<Rightarrow> (string \<times> int) list" where
  "newest all = sort_key (\<lambda>e. - snd e) all"

definition dirPublisher :: "string \<Rightarrow> string \<Rightarrow> flock list \<Rightarrow> (nat \<Rightarrow> errno + string list) \<Rightarrow> prims \<Rightarrow> gocodec \<Rightarrow> (bytes \<Rightarrow> pointer option) \<Rightarrow>
    (pointer \<Rightarrow> bytes option) \<Rightarrow> (nat \<Rightarrow> bool) \<Rightarrow> (nat \<Rightarrow> int) \<Rightarrow> bytes \<Rightarrow> string \<Rightarrow> 'z publisher" where
  "dirPublisher root cdir fl ents P G unmarshal marshal over clock bin version =
     \<lparr>pb_prims = P, pb_go = G, pb_unmarshal = unmarshal, pb_marshal = marshal, pb_get = file_Get root, pb_put = file_Put fl root,
      pb_cacheGet = cache_get P cdir, pb_cachePut = cache_put newest (readDirS ents) cdir, pb_done = clockS over, pb_newSeq = clockS clock,
      pb_bin = bin, pb_hash = HashBytes P bin, pb_version = version, pb_blobObj = [], pb_blob = \<lparr>bl_key = [], bl_size = 0, bl_frames = []\<rparr>\<rparr>"

definition dirs_ok :: "string \<Rightarrow> string \<Rightarrow> 'z fsys_scheme \<Rightarrow> bool" where
  "dirs_ok root cdir s \<longleftrightarrow> apart cdir root \<and> file_inv root s \<and> priv (in_dir cdir) s"

lemma apart_store:
  assumes "apart cdir root" "list_all good_elem (split_slash k)"
  shows "Join root k \<notin> in_dir cdir" "tempName (Join root k) @ x \<notin> in_dir cdir"
proof -
  have c: "clean_dir root" using assms(1) by (simp add: apart_def)
  show "Join root k \<notin> in_dir cdir" using apart_in_dir[OF assms(1)] Join_clean[OF c assms(2)] by simp
  obtain y where "tempName (Join root k) = root @ ''/'' @ y" using tempName_clean[OF c assms(2)] by blast
  then show "tempName (Join root k) @ x \<notin> in_dir cdir" using apart_in_dir[OF assms(1), of "y @ x"] by simp
qed

lemma beside_view:
  assumes "dirs_ok root cdir s" "beside (in_dir cdir) (content s) s'"
  shows "dirs_ok root cdir s' \<and> file_view root s' = file_view root s"
proof -
  have ap: "apart cdir root" using assms(1) by (simp add: dirs_ok_def)
  have "content s' (Join root k) = content s (Join root k)" if "checkKey k" for k
    using apart_store(1)[OF ap] that assms(2) by (simp add: beside_def checkKey_elems)
  then have "file_view root s' = file_view root s" by (simp add: fun_eq_iff file_view_def)
  then show ?thesis using assms by (simp add: dirs_ok_def beside_def priv_def file_inv_def)
qed

lemma newest_mset: "mset (newest all) = mset all"
  by (simp add: newest_def)

lemma newest_sorted: "sorted_wrt (\<lambda>a b. snd b \<le> snd a) (newest all)"
proof -
  have "sorted (map (\<lambda>e. - snd e) (newest all))" unfolding newest_def by simp
  then show ?thesis by (simp add: sorted_map)
qed

lemma dirs_same: "same_files s s' \<Longrightarrow> dirs_ok root cdir s' = dirs_ok root cdir s"
  using priv_same[of s s'] same_files_wf[of s s'] by (simp add: dirs_ok_def file_inv_def)

lemma beside_refl: "dirs_ok root cdir s \<Longrightarrow> beside (in_dir cdir) (content s) s"
  by (simp add: dirs_ok_def beside_def)

interpretation shelf: object_store "file_Get root" "file_Put fl root" "dirs_ok root cdir" "file_view root" "file_tag root"
  for root cdir fl
proof (intro object_store.intro object_store_axioms.intro file_source, goal_cases)
  case (1 s s') then show ?case using dirs_same[of s s'] dir.view_files[of s s' root] by simp
next
  case (2 s key o') then show ?case by (intro dir.get_law) (simp add: dirs_ok_def)
next
  case (3 s key r po)
  then have i: "file_inv root s" "apart cdir root" "priv (in_dir cdir) s" by (simp_all add: dirs_ok_def)
  have k: "keeps (priv (in_dir cdir)) (file_Put fl root key r po)"
    by (rule keeps_priv_put) (use apart_store[OF i(2)] in auto)
  show ?case
    by (rule wp_mono[OF wp_conj[OF keepsD[OF k i(3)] dir.put_law[OF i(1), of fl key r po]]]) (auto simp: dirs_ok_def i(2))
qed

interpretation dirPub: publisher_env "dirPublisher root cdir fl ents P G unmarshal marshal over clock bin version"
    "dirs_ok root cdir" "file_view root" "file_tag root"
  for root cdir fl ents P G unmarshal marshal over clock bin version
proof (intro publisher_env.intro publisher_env_axioms.intro, goal_cases)
  case 1 show ?case using shelf.object_store_axioms by (simp add: dirPublisher_def)
next
  case (2 s h)
  then have c: "clean_dir cdir" by (simp add: dirs_ok_def apart_def)
  show ?case
    unfolding dirPublisher_def publisher.simps
    by (rule wp_mono[OF wp_cache_get[OF c 2(2) beside_refl[OF 2(1)]]]) (auto dest: beside_view[OF 2(1)])
next
  case (3 s h d)
  then have c: "clean_dir cdir" by (simp add: dirs_ok_def apart_def)
  show ?case
    unfolding dirPublisher_def publisher.simps
    by (rule wp_mono[OF keepsD[OF keeps_beside_cache_put[OF c 3(2) newest_mset] beside_refl[OF 3(1)]]]) (auto dest: beside_view[OF 3(1)])
qed (simp_all add: dirPublisher_def wp_clockS)

end
