(* ===== verification/Cli.thy ===== *)
theory Cli
  imports PublishFs
begin

text \<open>
  The commands of \<^verbatim>\<open>cmd/go-binsync\<close>: \<^verbatim>\<open>main.go\<close> (dispatch and exit codes), \<^verbatim>\<open>codec.go\<close> (\<^verbatim>\<open>diff\<close> and \<^verbatim>\<open>patch\<close>) and
  \<^verbatim>\<open>agent.go\<close> (the external agent and its hooks), with \<^verbatim>\<open>Loop\<close> and \<^verbatim>\<open>Once\<close> of \<^verbatim>\<open>agent/agent.go\<close>.  Flag
  parsing is the library's: a command is given its arguments and flags.
\<close>

section \<open>Exit codes\<close>

datatype cli_err = ExitError int err | OtherErr err

definition codeUsage :: int where "codeUsage = 2"
definition codeVerify :: int where "codeVerify = 3"

definition main_code :: "cli_err option \<Rightarrow> int" where
  "main_code e = (case e of None \<Rightarrow> 0 | Some (ExitError c _) \<Rightarrow> c | Some (OtherErr _) \<Rightarrow> 1)"

datatype command = CmdPublish | CmdAgent | CmdDiff | CmdPatch | CmdHelp

definition dispatch :: "string list \<Rightarrow> cli_err + command" where
  "dispatch args = (case args of [] \<Rightarrow> Inl (ExitError codeUsage [AErr ''no command''])
   | cmd # rest \<Rightarrow>
       if cmd = ''publish'' then Inr CmdPublish else if cmd = ''agent'' then Inr CmdAgent
       else if cmd = ''diff'' then Inr CmdDiff else if cmd = ''patch'' then Inr CmdPatch
       else if cmd = ''help'' \<or> cmd = ''-h'' \<or> cmd = ''--help'' then Inr CmdHelp
       else Inl (ExitError codeUsage [AErr ''unknown command'']))"

section \<open>diff and patch\<close>

definition failS :: "(errno + 'a, 'z) sys \<Rightarrow> ('a \<Rightarrow> (cli_err option, 'z) sys) \<Rightarrow> (cli_err option, 'z) sys" where
  "failS m f = bindS m (\<lambda>r. case r of Inl e \<Rightarrow> retS (Some (OtherErr [AErr ''file''])) | Inr x \<Rightarrow> f x)"

definition diff_cmd :: "prims \<Rightarrow> gocodec \<Rightarrow> bool \<Rightarrow> string list \<Rightarrow> string \<Rightarrow> (cli_err option, 'z) sys" where
  "diff_cmd P G plain args out = (case args of
     [oldp, newp] \<Rightarrow>
       if out = [] then retS (Some (ExitError codeUsage [AErr ''diff needs two binaries and -o'']))
       else failS (sys_readFile oldp) (\<lambda>old. failS (sys_readFile newp) (\<lambda>new.
         case Encode P G old new \<lparr>MaxTransform = 0, PlainOnly = plain\<rparr> of
           Inl e \<Rightarrow> retS (Some (OtherErr [AErr ''encode'']))
         | Inr patch \<Rightarrow> failS (sys_writeFile out patch 420) (\<lambda>_. retS None)))
   | _ \<Rightarrow> retS (Some (ExitError codeUsage [AErr ''diff needs two binaries and -o''])))"

definition patchCmd :: "prims \<Rightarrow> gocodec \<Rightarrow> string list \<Rightarrow> string \<Rightarrow> (cli_err option, 'z) sys" where
  "patchCmd P G args out = (case args of
     [oldp, patchp] \<Rightarrow>
       if out = [] then retS (Some (ExitError codeUsage [AErr ''patch needs a binary, a patch and -o'']))
       else failS (sys_readFile oldp) (\<lambda>old. failS (sys_readFile patchp) (\<lambda>p.
         case Apply P G old p of
           Inl (UnsupportedTransform t) \<Rightarrow> retS (Some (OtherErr [AUnsupportedTransform t]))
         | Inl Panic \<Rightarrow> dieS
         | Inl _ \<Rightarrow> retS (Some (ExitError codeVerify [AVerify ''applying'']))
         | Inr new \<Rightarrow> failS (sys_writeFile out new 493) (\<lambda>_. retS None)))
   | _ \<Rightarrow> retS (Some (ExitError codeUsage [AErr ''patch needs a binary, a patch and -o''])))"

section \<open>The external agent\<close>

text \<open>A failed command's output on one line.\<close>

definition tail_out :: "string \<Rightarrow> string" where
  "tail_out out = (let s = TrimSpace out in if s = [] then [] else '': '' @ concat (map (\<lambda>c. if c = CHR 0x0A then ''; '' else [c]) s))"

definition is_url :: "string \<Rightarrow> bool" where
  "is_url h \<longleftrightarrow> take 7 h = ''http://'' \<or> take 8 h = ''https://''"

text \<open>\<open>sh\<close> runs a shell command: its output when it failed.  \<open>probe\<close> is the status a GET was answered with.\<close>

definition hooks_check :: "(string \<Rightarrow> (string option, 'z) sys) \<Rightarrow> (string \<Rightarrow> (int option, 'z) sys) \<Rightarrow> string \<Rightarrow> (err, 'z) sys" where
  "hooks_check sh probe probed =
     (if \<not> is_url probed then bindS (sh probed) (\<lambda>r. retS (case r of None \<Rightarrow> [] | Some out \<Rightarrow> [AErr (''--healthy'' @ tail_out out)]))
      else bindS (probe probed) (\<lambda>r. retS (case r of None \<Rightarrow> [AErr ''get''] | Some st \<Rightarrow> if st div 100 \<noteq> 2 then [AErr ''--healthy answered''] else [])))"

definition runRestart :: "(string \<Rightarrow> (string option, 'z) sys) \<Rightarrow> string \<Rightarrow> (err, 'z) sys" where
  "runRestart sh restart = bindS (sh restart) (\<lambda>r. retS (case r of None \<Rightarrow> [] | Some out \<Rightarrow> [AErr (''--restart'' @ tail_out out)]))"

definition with_hooks :: "(string \<Rightarrow> (string option, 'z) sys) \<Rightarrow> (string \<Rightarrow> (int option, 'z) sys) \<Rightarrow> string \<Rightarrow> string \<Rightarrow> 'z target \<Rightarrow> 'z target" where
  "with_hooks sh probe restart probed T =
     T\<lparr>t_restart := Some (runRestart sh restart), t_check := (if probed \<noteq> [] then Some (hooks_check sh probe probed) else None)\<rparr>"

definition startAgent :: agent where
  "startAgent = \<lparr>ag_etag = [], ag_seq = 0, ag_skipped = zeroHash\<rparr>"

definition ag_Once :: "(string \<Rightarrow> int \<Rightarrow> 'z target) \<Rightarrow> err + (string \<times> int \<times> int) \<Rightarrow> (outcome \<times> err, 'z) sys" where
  "ag_Once mk cfg = (case cfg of Inl e \<Rightarrow> retS (OutcomeError, e)
   | Inr (path, mx, poll) \<Rightarrow> bindS (cycle (mk path mx) startAgent) (\<lambda>(oe, a). retS oe))"

text \<open>\<^verbatim>\<open>Loop\<close> for at most \<open>n\<close> cycles.\<close>

definition ag_Loop :: "nat \<Rightarrow> (string \<Rightarrow> int \<Rightarrow> 'z target) \<Rightarrow> err + (string \<times> int \<times> int) \<Rightarrow> (err, 'z) sys" where
  "ag_Loop n mk cfg = (case cfg of Inl e \<Rightarrow> retS e
   | Inr (path, mx, poll) \<Rightarrow> bindS (run (mk path mx) poll n 0 startAgent) (\<lambda>_. retS []))"

definition agentCmd :: "nat \<Rightarrow> bool \<Rightarrow> string list \<Rightarrow> string \<Rightarrow> (string \<Rightarrow> (string option, 'z) sys) \<Rightarrow> (string \<Rightarrow> int \<Rightarrow> 'z target) \<Rightarrow>
    (string \<Rightarrow> err + (string \<times> int \<times> int)) \<Rightarrow> (cli_err option, 'z) sys" where
  "agentCmd n once args restart sh mk cfg = (case args of
     [st, path] \<Rightarrow>
       if restart = [] then retS (Some (ExitError codeUsage [AErr ''agent needs --restart CMD'']))
       else seqS (hooks_recover path (runRestart sh restart))
         (if \<not> once then bindS (ag_Loop n mk (cfg path)) (\<lambda>e. retS (if e = [] then None else Some (OtherErr e)))
          else bindS (ag_Once mk (cfg path)) (\<lambda>(o', e).
            retS (if ExitCode o' \<noteq> 0 then Some (ExitError (ExitCode o') (if e = [] then [AErr (Outcome_String o')] else e)) else None)))
   | _ \<Rightarrow> retS (Some (ExitError codeUsage [AErr ''agent needs a store URL and a path''])))"

section \<open>What the commands guarantee\<close>

lemma wp_failS: "wp (failS m f) Q C = wp m (\<lambda>r. case r of Inl e \<Rightarrow> Q (Some (OtherErr [AErr ''file''])) | Inr x \<Rightarrow> wp (f x) Q C) C"
  by (auto simp: failS_def fun_eq_iff split: sum.split intro!: arg_cong[where f = "\<lambda>q. wp m q C _"])

text \<open>A file written whole: the call succeeded and the name holds the data.\<close>

lemma wp_writeFile_all:
  fixes s :: "'z fsys_scheme"
  assumes "\<And>e t. Q (Inl e) t" "\<And>t. content t p = Some d \<Longrightarrow> Q (Inr ()) t" "\<And>t. C t"
  shows "wp (sys_writeFile p d m) Q C s"
proof -
  have any: "Q r' u" if "content u p = Some d" for r' and u :: "'z fsys_scheme" using assms that by (cases r') auto
  have w: "wp (closeS (sys_write i d)) Q C t" if "fs_name t p = Some i" "i_data (fs_node t i) = []" for i and t :: "'z fsys_scheme"
    by (intro wp_closeS wp_write) (use that assms(1,3) in \<open>auto simp: content_def intro!: any\<close>)
  show ?thesis
    unfolding sys_writeFile_def wp_try
    by (rule wp_openTrunc) (use assms in \<open>auto intro!: w\<close>)
qed

lemma wp_patchCmd:
  fixes s :: "'z fsys_scheme"
  shows "wp (patchCmd P G args out) (\<lambda>r s'. case r of
      None \<Rightarrow> \<exists>oldp patchp old p new. args = [oldp, patchp] \<and> content s oldp = Some old \<and> content s patchp = Some p \<and>
        Apply P G old p = Inr new \<and> content s' out = Some new
    | Some (ExitError c _) \<Rightarrow> c = 2 \<and> content s' = content s \<or> c = 3 \<and> content s' = content s
    | Some (OtherErr _) \<Rightarrow> True) (\<lambda>_. True) s"
proof (cases "\<exists>oldp patchp. args = [oldp, patchp] \<and> out \<noteq> []")
  case True
  then obtain oldp patchp where a: "args = [oldp, patchp]" "out \<noteq> []" by blast
  show ?thesis
    unfolding patchCmd_def a list.case if_not_P[OF a(2)] wp_failS
    by (rule wp_readFile)
       (auto intro!: wp_readFile wp_writeFile_all simp: codeVerify_def wp_failS content_def fun_eq_iff wp_def[of dieS] dieS_def split: sum.split derror.split)
next
  case False
  then show ?thesis
    by (auto simp: patchCmd_def codeUsage_def split: list.split)
qed

end
