(* ===== verification/Race.thy ===== *)
theory Race
  imports PublishProof
begin

text \<open>
  Several publishers of one store, interleaved at their store requests: each reads the
  pointer with its tag, and replaces it only if the tag is still current (\<^verbatim>\<open>putPointer\<close>'s
  compare-and-swap).  The pointers the store has held form one line: each one's chain starts
  at the head before it, and its sequence number is larger.  A store's tags are told apart by
  version; that is what the directory store's lock and a bucket's conditional writes give.
\<close>

section \<open>Steps\<close>

datatype pstate = Idle | Held "pointer option" | Finished

record race =
  ra_hist :: "pointer list"
  ra_pub :: "nat \<Rightarrow> pstate"

text \<open>The current pointer is the newest of the history, and its tag is that of its version.\<close>

definition cur_tag :: "(nat \<Rightarrow> string) \<Rightarrow> pointer list \<Rightarrow> string" where
  "cur_tag tag hist = (if hist = [] then [] else tag (length hist))"

definition read_now :: "(nat \<Rightarrow> string) \<Rightarrow> pointer list \<Rightarrow> pointer option" where
  "read_now tag hist = (case hist of [] \<Rightarrow> None | p # _ \<Rightarrow> Some (p\<lparr>pt_etag := tag (length hist)\<rparr>))"

definition if_match :: "pointer option \<Rightarrow> string" where
  "if_match prev = (case prev of None \<Rightarrow> [] | Some q \<Rightarrow> pt_etag q)"

definition edge_from :: "'z publisher \<Rightarrow> pointer option \<Rightarrow> edge option \<Rightarrow> bool" where
  "edge_from pb prev edge \<longleftrightarrow> (\<forall>e. edge = Some e \<longrightarrow> ed_to e = pb_hash pb \<and> (\<exists>q. prev = Some q \<and> ed_from e = rel_hash (pt_head q)))"

inductive race_step :: "(nat \<Rightarrow> 'z publisher) \<Rightarrow> (nat \<Rightarrow> string) \<Rightarrow> race \<Rightarrow> race \<Rightarrow> bool" for pb tag where
  read: "ra_pub s i = Idle \<Longrightarrow> race_step pb tag s (s\<lparr>ra_pub := (ra_pub s)(i := Held (read_now tag (ra_hist s)))\<rparr>)"
| already: "ra_pub s i = Held (Some q) \<Longrightarrow> rel_hash (pt_head q) = pb_hash (pb i) \<Longrightarrow> race_step pb tag s (s\<lparr>ra_pub := (ra_pub s)(i := Finished)\<rparr>)"
| swap: "ra_pub s i = Held prev \<Longrightarrow> if_match prev = cur_tag tag (ra_hist s) \<Longrightarrow> edge_from (pb i) prev edge \<Longrightarrow>
    race_step pb tag s (s\<lparr>ra_hist := new_pointer (pb i) now prev edge # ra_hist s, ra_pub := (ra_pub s)(i := Finished)\<rparr>)"
| lost: "ra_pub s i = Held prev \<Longrightarrow> if_match prev \<noteq> cur_tag tag (ra_hist s) \<Longrightarrow> race_step pb tag s (s\<lparr>ra_pub := (ra_pub s)(i := Idle)\<rparr>)"
| crash: "race_step pb tag s (s\<lparr>ra_pub := (ra_pub s)(i := Finished)\<rparr>)"

inductive race_reach :: "(nat \<Rightarrow> 'z publisher) \<Rightarrow> (nat \<Rightarrow> string) \<Rightarrow> race \<Rightarrow> bool" for pb tag where
  start: "race_reach pb tag \<lparr>ra_hist = [], ra_pub = (\<lambda>_. Idle)\<rparr>"
| step: "race_reach pb tag s \<Longrightarrow> race_step pb tag s s' \<Longrightarrow> race_reach pb tag s'"

section \<open>One line of pointers\<close>

definition next_of :: "pointer \<Rightarrow> pointer \<Rightarrow> bool" where
  "next_of q p \<longleftrightarrow> (- (2 ^ 63) \<le> pt_seq q \<and> pt_seq q < 2 ^ 63 - 1 \<longrightarrow> pt_seq q < pt_seq p) \<and>
     (pt_chain p = [] \<or> (\<exists>e. ed_from e = rel_hash (pt_head q) \<and> ed_to e = rel_hash (pt_head p) \<and> pt_chain p = take MaxChain (e # pt_chain q)))"

fun one_line :: "pointer list \<Rightarrow> bool" where
  "one_line (p # q # ps) \<longleftrightarrow> next_of q p \<and> one_line (q # ps)"
| "one_line [p] \<longleftrightarrow> pt_chain p = []"
| "one_line [] \<longleftrightarrow> True"

text \<open>What a publisher holds was the current pointer of some version.\<close>

definition held_ok :: "(nat \<Rightarrow> string) \<Rightarrow> pointer list \<Rightarrow> pstate \<Rightarrow> bool" where
  "held_ok tag hist st \<longleftrightarrow> (\<forall>prev. st = Held prev \<longrightarrow> (\<exists>k \<le> length hist. prev = read_now tag (drop k hist)))"

definition race_inv :: "(nat \<Rightarrow> string) \<Rightarrow> race \<Rightarrow> bool" where
  "race_inv tag s \<longleftrightarrow> one_line (ra_hist s) \<and> (\<forall>i. held_ok tag (ra_hist s) (ra_pub s i))"

lemma read_now_match:
  assumes "inj tag" "\<forall>n. tag n \<noteq> []" "k \<le> length hist" "if_match (read_now tag (drop k hist)) = cur_tag tag hist"
  shows "k = 0 \<or> hist = []"
proof (cases "drop k hist")
  case Nil then show ?thesis using assms(2)[rule_format, of "length hist"] assms(4) by (auto simp: read_now_def if_match_def cur_tag_def split: if_splits)
next
  case (Cons p ps)
  then have "tag (length hist - k) = tag (length hist)" using assms(2,4)
    by (auto simp: read_now_def if_match_def cur_tag_def length_drop[symmetric] simp del: length_drop split: if_splits)
  then have "length hist - k = length hist" using assms(1) by (simp add: inj_eq)
  then show ?thesis using assms(3) by (cases hist) auto
qed

lemma new_pointer_next:
  assumes "edge_from pb (Some (q\<lparr>pt_etag := t\<rparr>)) edge"
  shows "next_of q (new_pointer pb now (Some (q\<lparr>pt_etag := t\<rparr>)) edge)"
proof (cases edge)
  case (Some e)
  then show ?thesis
    using assms new_pointer_seq[of "q\<lparr>pt_etag := t\<rparr>" pb now edge]
    by (auto simp: next_of_def edge_from_def new_pointer_def Let_def min_def intro!: exI[of _ e])
next
  case None
  then show ?thesis using new_pointer_seq[of "q\<lparr>pt_etag := t\<rparr>" pb now edge] by (auto simp: next_of_def new_pointer_def)
qed

lemma one_line_swap:
  assumes "one_line hist" "edge_from pb (read_now tag hist) edge"
  shows "one_line (new_pointer pb now (read_now tag hist) edge # hist)"
proof (cases hist)
  case Nil then show ?thesis by (simp add: read_now_def new_pointer_def)
next
  case (Cons q ps)
  then show ?thesis using assms new_pointer_next[where pb = pb and q = q and edge = edge and now = now] by (simp add: read_now_def)
qed

lemma held_grow: "held_ok tag hist st \<Longrightarrow> held_ok tag (p # hist) st"
  unfolding held_ok_def by (metis Suc_le_mono drop_Suc_Cons length_Cons)

lemma held_read: "held_ok tag hist (Held (read_now tag hist))"
  unfolding held_ok_def by (metis drop0 le0 pstate.inject)

lemma race_inv_step:
  assumes "inj tag" "\<forall>n. tag n \<noteq> []" "race_inv tag s" "race_step pb tag s s'"
  shows "race_inv tag s'"
  using assms(4)
proof (cases rule: race_step.cases)
  case (swap i prev edge now)
  obtain k where k: "k \<le> length (ra_hist s)" "prev = read_now tag (drop k (ra_hist s))"
    using assms(3) swap(2) unfolding race_inv_def held_ok_def by blast
  have "k = 0 \<or> ra_hist s = []" using read_now_match[OF assms(1,2) k(1)] swap(3) k(2) by simp
  then have "prev = read_now tag (ra_hist s)" using k(2) by auto
  then show ?thesis
    using assms(3) one_line_swap[of "ra_hist s" "pb i" tag edge now] swap held_grow
    by (auto simp: race_inv_def held_ok_def[of _ _ Finished])
qed (use assms(3) held_read in \<open>auto simp: race_inv_def held_ok_def[of _ _ Finished] held_ok_def[of _ _ Idle]\<close>)

lemma race_reach_inv:
  assumes "race_reach pb tag s" "inj tag" "\<forall>n. tag n \<noteq> []"
  shows "race_inv tag s"
  using assms(1)
proof induction
  case start show ?case by (simp add: race_inv_def held_ok_def)
next
  case (step s s') then show ?case using race_inv_step[OF assms(2,3)] by blast
qed

end
