(* ===== verification/Le.thy ===== *)
theory Le
  imports Lz
begin

text \<open>
  What the Go-aware codec reads and writes inside a binary: fixed-width little-endian integers
  (\<^verbatim>\<open>encoding/binary\<close>), slices with Go's bounds, and loops whose body can fail.  An index out of
  range is \<open>Panic\<close>.  Addresses are \<^verbatim>\<open>uint64\<close> and are words here, so that their arithmetic wraps as
  the source's does; \<^verbatim>\<open>int64(x)\<close> is \<open>sint x\<close> and \<^verbatim>\<open>uint64(y)\<close> of an \<^verbatim>\<open>int64\<close> is \<open>word_of_int y\<close>.
\<close>

type_synonym uint32 = "32 word"
type_synonym uint64 = "64 word"

section \<open>Loops that can fail\<close>

fun foldR :: "('a \<Rightarrow> 's \<Rightarrow> 'e + 's) \<Rightarrow> 'a list \<Rightarrow> 's \<Rightarrow> 'e + 's" where
  "foldR f [] s = Inr s"
| "foldR f (x # xs) s = bindR (f x s) (foldR f xs)"

fun mapR :: "('a \<Rightarrow> 'e + 'b) \<Rightarrow> 'a list \<Rightarrow> 'e + 'b list" where
  "mapR f [] = Inr []"
| "mapR f (x # xs) = bindR (f x) (\<lambda>y. bindR (mapR f xs) (\<lambda>ys. Inr (y # ys)))"

lemma foldR_append: "foldR f (xs @ ys) s = bindR (foldR f xs s) (foldR f ys)"
  by (induction xs arbitrary: s) (auto simp: bindR_def split: sum.splits)

lemma foldR_inv:
  assumes "foldR f xs s = Inr s'" "I s" "\<And>x t t'. x \<in> set xs \<Longrightarrow> I t \<Longrightarrow> f x t = Inr t' \<Longrightarrow> I t'"
  shows "I s'"
  using assms by (induction xs arbitrary: s) (auto simp: bindR_eq_Inr)

lemma length_mapR: "mapR f xs = Inr ys \<Longrightarrow> length ys = length xs"
  by (induction xs arbitrary: ys) (auto simp: bindR_eq_Inr)

lemma nth_mapR: "mapR f xs = Inr ys \<Longrightarrow> i < length xs \<Longrightarrow> f (xs ! i) = Inr (ys ! i)"
proof (induction xs arbitrary: ys i)
  case (Cons x xs)
  then show ?case by (cases i) (auto simp: bindR_eq_Inr)
qed simp

lemma mapR_set: "mapR f xs = Inr ys \<Longrightarrow> y \<in> set ys \<Longrightarrow> \<exists>x \<in> set xs. f x = Inr y"
  by (induction xs arbitrary: ys) (auto simp: bindR_eq_Inr)

section \<open>Slices\<close>

text \<open>
  \<open>atR xs i\<close> is \<^verbatim>\<open>xs[i]\<close>, \<open>dropR xs lo\<close> is \<^verbatim>\<open>xs[lo:]\<close> and \<open>cutR xs rest lo hi\<close> is \<^verbatim>\<open>xs[lo:hi]\<close>, which may reach into
  the bytes \<open>rest\<close> between the length of the slice and its capacity.
\<close>

definition atR :: "'a list \<Rightarrow> nat \<Rightarrow> derror + 'a" where
  "atR xs i = (if i < length xs then Inr (xs ! i) else Inl Panic)"

definition dropR :: "'a list \<Rightarrow> nat \<Rightarrow> derror + 'a list" where
  "dropR xs lo = (if lo \<le> length xs then Inr (drop lo xs) else Inl Panic)"

definition cutR :: "'a list \<Rightarrow> 'a list \<Rightarrow> nat \<Rightarrow> nat \<Rightarrow> derror + 'a list" where
  "cutR xs rest lo hi =
     (if lo \<le> hi \<and> hi \<le> length xs + length rest then Inr (slice lo hi (xs @ rest)) else Inl Panic)"

text \<open>\<open>patchAt lo hi f out\<close> passes the slice \<^verbatim>\<open>out[lo:hi]\<close> to code that fills it in place.\<close>

definition patchAt :: "nat \<Rightarrow> nat \<Rightarrow> ('a list \<Rightarrow> derror + 'a list) \<Rightarrow> 'a list \<Rightarrow> derror + 'a list" where
  "patchAt lo hi f out =
     bindR (cutR out [] lo hi) (\<lambda>seg. bindR (f seg) (\<lambda>seg'. Inr (overwrite lo seg' out)))"

text \<open>\<open>copyFrom lo src out\<close> is \<^verbatim>\<open>copy(out[lo:], src)\<close>.\<close>

definition copyFrom :: "nat \<Rightarrow> 'a list \<Rightarrow> 'a list \<Rightarrow> derror + 'a list" where
  "copyFrom lo src out = (if lo \<le> length out then Inr (overwrite lo src out) else Inl Panic)"

lemma length_patchAt:
  "patchAt lo hi f out = Inr out' \<Longrightarrow> (\<And>s s'. f s = Inr s' \<Longrightarrow> length s' = length s) \<Longrightarrow> length out' = length out"
  by (auto simp: patchAt_def cutR_def bindR_eq_Inr split: if_splits)

lemma length_copyFrom: "copyFrom lo src out = Inr out' \<Longrightarrow> length out' = length out"
  by (auto simp: copyFrom_def split: if_splits)

text \<open>\<open>int32_of x\<close> is \<^verbatim>\<open>int32(x)\<close>.\<close>

definition int32_of :: "int \<Rightarrow> int" where
  "int32_of x = sint (word_of_int x :: uint32)"

lemma int32_of_id: "0 \<le> x \<Longrightarrow> x < 2 ^ 31 \<Longrightarrow> int32_of x = x"
  by (simp add: int32_of_def sint_sbintrunc' signed_take_bit_int_eq_self_iff)

section \<open>Little-endian integers\<close>

fun le_bytes :: "nat \<Rightarrow> nat \<Rightarrow> bytes" where
  "le_bytes 0 v = []"
| "le_bytes (Suc n) v = of_nat v # le_bytes n (v div 256)"

definition get16 :: "bytes \<Rightarrow> nat \<Rightarrow> derror + nat" where
  "get16 d off = (if off + 2 \<le> length d then Inr (le_nat (slice off (off + 2) d)) else Inl Panic)"

definition get32 :: "bytes \<Rightarrow> nat \<Rightarrow> derror + uint32" where
  "get32 d off = (if off + 4 \<le> length d then Inr (of_nat (le_nat (slice off (off + 4) d))) else Inl Panic)"

definition get64 :: "bytes \<Rightarrow> nat \<Rightarrow> derror + uint64" where
  "get64 d off = (if off + 8 \<le> length d then Inr (of_nat (le_nat (slice off (off + 8) d))) else Inl Panic)"

definition put32 :: "nat \<Rightarrow> uint32 \<Rightarrow> bytes \<Rightarrow> derror + bytes" where
  "put32 off v d = (if off + 4 \<le> length d then Inr (overwrite off (le_bytes 4 (unat v)) d) else Inl Panic)"

definition put64 :: "nat \<Rightarrow> uint64 \<Rightarrow> bytes \<Rightarrow> derror + bytes" where
  "put64 off v d = (if off + 8 \<le> length d then Inr (overwrite off (le_bytes 8 (unat v)) d) else Inl Panic)"

lemma length_le_bytes [simp]: "length (le_bytes n v) = n"
  by (induction n arbitrary: v) simp_all

lemma le_nat_bytes: "le_nat (le_bytes n v) = v mod 256 ^ n"
proof (induction n arbitrary: v)
  case (Suc n)
  have "unat (of_nat v :: byte) = v mod 256" by (simp add: unat_of_nat take_bit_eq_mod)
  then show ?case using Suc by (simp add: mod_mult2_eq)
qed simp

lemma slice_overwrite: "p + length ys \<le> length xs \<Longrightarrow> slice p (p + length ys) (overwrite p ys xs) = ys"
  by (simp add: overwrite_fits slice_def)

lemma get32_put32: "put32 off v d = Inr d' \<Longrightarrow> get32 d' off = Inr v"
proof -
  assume a: "put32 off v d = Inr d'"
  then have le: "off + 4 \<le> length d" and d': "d' = overwrite off (le_bytes 4 (unat v)) d"
    by (auto simp: put32_def split: if_splits)
  have "unat v mod 256 ^ 4 = unat v" using unsigned_less[of v, where 'a = nat] by simp
  then show ?thesis using le slice_overwrite[of off "le_bytes 4 (unat v)" d]
    by (simp add: get32_def d' le_nat_bytes)
qed

lemma length_put32 [simp]: "put32 off v d = Inr d' \<Longrightarrow> length d' = length d"
  by (auto simp: put32_def split: if_splits)

lemma length_put64 [simp]: "put64 off v d = Inr d' \<Longrightarrow> length d' = length d"
  by (auto simp: put64_def split: if_splits)

end
