(* ===== verification/Gobin.thy ===== *)
theory Gobin
  imports Le
begin

text \<open>
  \<^verbatim>\<open>delta/gobin/gobin.go\<close>: the parts of a Go executable the codec predicts from.  Reading the ELF
  headers (\<^verbatim>\<open>debug/elf\<close>), the build information (\<^verbatim>\<open>debug/buildinfo\<close>) and one machine instruction
  (\<^verbatim>\<open>x86asm.Decode\<close>) are the fields of \<open>golib\<close>.  Go strings are bytes here, and a section keeps the
  bytes of the file that follow it, because a Go slice can be re-sliced up to its capacity.
\<close>

section \<open>Libraries\<close>

record elf_section =
  es_name :: bytes
  es_alloc :: bool
  es_nobits :: bool
  es_addr :: uint64
  es_off :: uint64
  es_size :: uint64

record go_elf =
  ge_machine :: nat
  ge_class :: nat
  ge_little :: bool
  ge_type :: nat
  ge_sections :: "elf_section list"

definition EM_X86_64 :: nat where "EM_X86_64 = 62"
definition ELFCLASS64 :: nat where "ELFCLASS64 = 2"
definition ET_EXEC :: nat where "ET_EXEC = 2"

record go_buildinfo =
  gi_goVersion :: bytes
  gi_path :: bytes
  gi_version :: bytes
  gi_settings :: "(bytes \<times> bytes) list"

record inst =
  in_len :: nat
  in_pcrel :: nat
  in_pcrelOff :: nat

record golib =
  elf_NewFile :: "bytes \<Rightarrow> go_elf option"
  buildinfo_Read :: "bytes \<Rightarrow> go_buildinfo option"
  x86_Decode :: "bytes \<Rightarrow> inst option"

section \<open>Data\<close>

definition SupportedGo :: bytes where "SupportedGo = to_bytes ''go1.27''"
definition PclnMagic :: uint32 where "PclnMagic = 0xfffffff1"
definition FuncSize :: nat where "FuncSize = 44"

record gosect =
  sc_name :: bytes
  sc_addr :: uint64
  sc_off :: uint64
  sc_size :: uint64
  sc_data :: bytes
  sc_tail :: bytes
  sc_nobits :: bool

record gorange =
  rg_off :: uint64
  rg_len :: uint64

definition rg_end :: "gorange \<Rightarrow> uint64" where
  "rg_end r = rg_off r + rg_len r"

record gofunc =
  fn_idx :: nat
  fn_name :: bytes
  fn_entry :: uint64
  fn_end :: uint64
  fn_off :: uint32
  fn_nameOff :: uint32

definition fn_size :: "gofunc \<Rightarrow> uint64" where
  "fn_size f = fn_end f - fn_entry f"

record goslice =
  gs_ptr :: uint64
  gs_len :: uint64
  gs_cap :: uint64

record moduledata =
  md_pcHeader :: uint64
  md_funcnametab :: goslice
  md_cutab :: goslice
  md_filetab :: goslice
  md_pctab :: goslice
  md_pclntable :: goslice
  md_ftab :: goslice
  md_findfunctab :: uint64
  md_minpc :: uint64
  md_maxpc :: uint64
  md_text :: uint64
  md_etext :: uint64
  md_noptrdata :: uint64
  md_enoptrdata :: uint64
  md_data :: uint64
  md_edata :: uint64
  md_bss :: uint64
  md_ebss :: uint64
  md_noptrbss :: uint64
  md_enoptrbss :: uint64
  md_types :: uint64
  md_typedesclen :: uint64
  md_etypes :: uint64
  md_itaboffset :: uint64
  md_itabsize :: uint64
  md_rodata :: uint64
  md_gofunc :: uint64
  md_epclntab :: uint64

text \<open>\<open>pc_tail\<close> is what follows \<open>pc_data\<close> up to its capacity.\<close>

record pcln =
  pc_data :: bytes
  pc_tail :: bytes
  pc_addr :: uint64
  pc_nfunc :: int
  pc_nfiles :: int
  pc_minLC :: byte
  pc_ptrSize :: byte
  pc_funcnameOff :: uint64
  pc_cuOff :: uint64
  pc_filetabOff :: uint64
  pc_pctabOff :: uint64
  pc_functabOff :: uint64
  pc_funcnametab :: gorange
  pc_cutab :: gorange
  pc_filetab :: gorange
  pc_pctab :: gorange
  pc_functab :: gorange
  pc_gofunc :: gorange
  pc_findfunctab :: gorange

record bin =
  bn_file :: bytes
  bn_sects :: "bytes \<Rightarrow> gosect option"
  bn_order :: "gosect list"
  bn_text :: gosect
  bn_pcln :: pcln
  bn_mod :: moduledata
  bn_funcs :: "gofunc list"
  bn_goVer :: bytes
  bn_module :: bytes
  bn_vers :: bytes

section \<open>Parsing\<close>

text \<open>Reads at offsets that a length check has put in range.\<close>

definition le32at :: "bytes \<Rightarrow> nat \<Rightarrow> uint32" where
  "le32at d off = of_nat (le_nat (slice off (off + 4) d))"

definition le64at :: "bytes \<Rightarrow> nat \<Rightarrow> uint64" where
  "le64at d off = of_nat (le_nat (slice off (off + 8) d))"

definition slice_at :: "bytes \<Rightarrow> nat \<Rightarrow> goslice" where
  "slice_at d off = \<lparr>gs_ptr = le64at d off, gs_len = le64at d (off + 8), gs_cap = le64at d (off + 16)\<rparr>"

definition parseModuledata :: "bytes \<Rightarrow> derror + moduledata" where
  "parseModuledata d =
     (if length d < 360 then Inl (Unsupported ''.go.module is too short'')
      else Inr \<lparr>md_pcHeader = le64at d 0,
        md_funcnametab = slice_at d 8, md_cutab = slice_at d 32, md_filetab = slice_at d 56, md_pctab = slice_at d 80,
        md_pclntable = slice_at d 104, md_ftab = slice_at d 128, md_findfunctab = le64at d 152,
        md_minpc = le64at d 160, md_maxpc = le64at d 168,
        md_text = le64at d 176, md_etext = le64at d 184,
        md_noptrdata = le64at d 192, md_enoptrdata = le64at d 200,
        md_data = le64at d 208, md_edata = le64at d 216,
        md_bss = le64at d 224, md_ebss = le64at d 232,
        md_noptrbss = le64at d 240, md_enoptrbss = le64at d 248,
        md_types = le64at d 296, md_typedesclen = le64at d 304, md_etypes = le64at d 312,
        md_itaboffset = le64at d 320, md_itabsize = le64at d 328,
        md_rodata = le64at d 336, md_gofunc = le64at d 344, md_epclntab = le64at d 352\<rparr>)"

definition pcln_ranges :: "pcln \<Rightarrow> gorange list" where
  "pcln_ranges p = [pc_funcnametab p, pc_cutab p, pc_filetab p, pc_pctab p, pc_functab p, pc_gofunc p, pc_findfunctab p]"

text \<open>
  The tables between the offsets \<open>t0 \<dots> t6\<close>, each running to the start of the next and the last
  one of the given length: the ranges \<open>parsePcln\<close> and the decoder's skeleton both build.
\<close>

definition with_tables :: "uint64 list \<Rightarrow> uint64 \<Rightarrow> pcln \<Rightarrow> pcln" where
  "with_tables t lastLen p =
     p\<lparr>pc_funcnameOff := t ! 0, pc_cuOff := t ! 1, pc_filetabOff := t ! 2, pc_pctabOff := t ! 3, pc_functabOff := t ! 4,
       pc_funcnametab := \<lparr>rg_off = t ! 0, rg_len = t ! 1 - t ! 0\<rparr>, pc_cutab := \<lparr>rg_off = t ! 1, rg_len = t ! 2 - t ! 1\<rparr>,
       pc_filetab := \<lparr>rg_off = t ! 2, rg_len = t ! 3 - t ! 2\<rparr>, pc_pctab := \<lparr>rg_off = t ! 3, rg_len = t ! 4 - t ! 3\<rparr>,
       pc_functab := \<lparr>rg_off = t ! 4, rg_len = t ! 5 - t ! 4\<rparr>, pc_gofunc := \<lparr>rg_off = t ! 5, rg_len = t ! 6 - t ! 5\<rparr>,
       pc_findfunctab := \<lparr>rg_off = t ! 6, rg_len = lastLen\<rparr>\<rparr>"

definition emptyPcln :: pcln where
  "emptyPcln =
     \<lparr>pc_data = [], pc_tail = [], pc_addr = 0, pc_nfunc = 0, pc_nfiles = 0, pc_minLC = 0, pc_ptrSize = 0,
      pc_funcnameOff = 0, pc_cuOff = 0, pc_filetabOff = 0, pc_pctabOff = 0, pc_functabOff = 0,
      pc_funcnametab = \<lparr>rg_off = 0, rg_len = 0\<rparr>, pc_cutab = \<lparr>rg_off = 0, rg_len = 0\<rparr>, pc_filetab = \<lparr>rg_off = 0, rg_len = 0\<rparr>,
      pc_pctab = \<lparr>rg_off = 0, rg_len = 0\<rparr>, pc_functab = \<lparr>rg_off = 0, rg_len = 0\<rparr>, pc_gofunc = \<lparr>rg_off = 0, rg_len = 0\<rparr>,
      pc_findfunctab = \<lparr>rg_off = 0, rg_len = 0\<rparr>\<rparr>"

text \<open>
  The message of the first refusal reads the magic again, which panics on a section of fewer
  than four bytes.
\<close>

definition parsePcln :: "bytes \<Rightarrow> bytes \<Rightarrow> uint64 \<Rightarrow> moduledata \<Rightarrow> derror + pcln" where
  "parsePcln d tail addr m =
     (if length d < 72 \<or> le32at d 0 \<noteq> PclnMagic then bindR (get32 d 0) (\<lambda>_. Inl (Unsupported ''pclntab magic''))
      else if d ! 7 \<noteq> 8 then Inl (Unsupported ''pclntab ptrSize'')
      else if md_gofunc m < addr \<or> md_gofunc m \<ge> addr + of_nat (length d) \<or> md_findfunctab m < md_gofunc m
        then Inl (Unsupported ''go:func.* not inside .gopclntab'')
      else
        let p = with_tables
          [le64at d 32, le64at d 40, le64at d 48, le64at d 56, le64at d 64, md_gofunc m - addr, md_findfunctab m - addr]
          (md_epclntab m - md_findfunctab m)
          (emptyPcln\<lparr>pc_data := d, pc_tail := tail, pc_addr := addr, pc_minLC := d ! 6, pc_ptrSize := d ! 7,
             pc_nfunc := sint (le64at d 8), pc_nfiles := sint (le64at d 16)\<rparr>) in
        if list_ex (\<lambda>r. rg_off r > rg_end r \<or> rg_end r > of_nat (length d)) (pcln_ranges p)
          then Inl (Unsupported ''pclntab table outside the section'')
        else if gs_ptr (md_funcnametab m) - addr \<noteq> pc_funcnameOff p \<or> gs_ptr (md_cutab m) - addr \<noteq> pc_cuOff p \<or>
            gs_ptr (md_filetab m) - addr \<noteq> pc_filetabOff p \<or> gs_ptr (md_pctab m) - addr \<noteq> pc_pctabOff p \<or>
            gs_ptr (md_pclntable m) - addr \<noteq> pc_functabOff p
          then Inl (Unsupported ''pcHeader offsets disagree with moduledata'')
        else if gs_ptr (md_ftab m) \<noteq> gs_ptr (md_pclntable m) \<or> gs_len (md_ftab m) \<noteq> word_of_int (pc_nfunc p) + 1
          then Inl (Unsupported ''ftab slice'')
        else Inr p)"

definition pc_table :: "pcln \<Rightarrow> gorange \<Rightarrow> bytes" where
  "pc_table p r = slice (unat (rg_off r)) (unat (rg_end r)) (pc_data p)"

text \<open>The bytes after a table, up to the capacity of the slice \<open>pc_table\<close> returns.\<close>

definition pc_after :: "pcln \<Rightarrow> gorange \<Rightarrow> bytes" where
  "pc_after p r = drop (unat (rg_end r)) (pc_data p) @ pc_tail p"

definition fn_Record :: "pcln \<Rightarrow> uint32 \<Rightarrow> derror + (uint32 \<times> uint32 \<times> uint32)" where
  "fn_Record p funcOff =
     bindR (dropR (pc_data p) (unat (rg_off (pc_functab p) + ucast funcOff))) (\<lambda>r.
     bindR (dropR r 28) (\<lambda>r28. bindR (get32 r28 0) (\<lambda>npcdata.
     bindR (atR r 43) (\<lambda>b. let nfuncdata = ucast b in
       Inr (npcdata, nfuncdata, of_nat FuncSize + 4 * npcdata + 4 * nfuncdata)))))"

fun index_byte :: "byte \<Rightarrow> bytes \<Rightarrow> nat option" where
  "index_byte c [] = None"
| "index_byte c (b # bs) = (if b = c then Some 0 else map_option Suc (index_byte c bs))"

definition pc_Name :: "pcln \<Rightarrow> uint32 \<Rightarrow> derror + bytes" where
  "pc_Name p off =
     (if sint off < 0 \<or> scast off \<ge> rg_len (pc_funcnametab p) then Inl (Unsupported ''name offset outside funcnametab'')
      else let t = slice (unat (rg_off (pc_funcnametab p) + scast off)) (unat (rg_end (pc_funcnametab p))) (pc_data p) in
        case index_byte 0 t of None \<Rightarrow> Inl (Unsupported ''unterminated name'') | Some i \<Rightarrow> Inr (take i t))"

definition pc_func :: "pcln \<Rightarrow> uint64 \<Rightarrow> bytes \<Rightarrow> nat \<Rightarrow> derror + gofunc" where
  "pc_func p text ft i =
     bindR (get32 ft (8 * i)) (\<lambda>entryOff.
     bindR (get32 ft (8 * i + 4)) (\<lambda>funcOff.
     bindR (get32 ft (8 * (i + 1))) (\<lambda>nextOff.
       if unat funcOff + FuncSize > length ft \<or> nextOff < entryOff then Inl (Unsupported ''functab entry out of range'')
       else bindR (get32 ft (unat funcOff)) (\<lambda>e2.
         if e2 \<noteq> entryOff then Inl (Unsupported ''functab entryOff differs from _func.entryOff'')
         else bindR (get32 ft (unat (funcOff + 4))) (\<lambda>nameOff.
           bindR (pc_Name p nameOff) (\<lambda>name.
             Inr \<lparr>fn_idx = i, fn_name = name, fn_entry = text + ucast entryOff, fn_end = text + ucast nextOff,
               fn_off = funcOff, fn_nameOff = nameOff\<rparr>))))))"

text \<open>Making a slice of pointers panics when its size is out of range.\<close>

definition pc_funcs :: "pcln \<Rightarrow> uint64 \<Rightarrow> derror + gofunc list" where
  "pc_funcs p text =
     (let ft = pc_table p (pc_functab p) in
      if (of_nat (length ft) :: uint64) < word_of_int (pc_nfunc p + 1) * 8 then Inl (Unsupported ''functab too small'')
      else if pc_nfunc p < 0 \<or> pc_nfunc p > 2 ^ 45 then Inl Panic
      else mapR (pc_func p text ft) [0..<nat (pc_nfunc p)])"

text \<open>Sections, in the order of the section header table; a later name replaces an earlier one.\<close>

definition read_section :: "bytes \<Rightarrow> elf_section \<Rightarrow> derror + gosect" where
  "read_section raw s =
     (let sec = \<lparr>sc_name = es_name s, sc_addr = es_addr s, sc_off = es_off s, sc_size = es_size s,
                 sc_data = [], sc_tail = [], sc_nobits = es_nobits s\<rparr> in
      if es_nobits s then Inr sec
      else if es_off s + es_size s > of_nat (length raw) then Inl (Unsupported ''section runs past the end of the file'')
      else bindR (cutR raw [] (unat (es_off s)) (unat (es_off s + es_size s))) (\<lambda>d.
        Inr (sec\<lparr>sc_data := d, sc_tail := drop (unat (es_off s + es_size s)) raw\<rparr>)))"

definition sects_of :: "gosect list \<Rightarrow> bytes \<Rightarrow> gosect option" where
  "sects_of secs n = find (\<lambda>s. sc_name s = n) (rev secs)"

text \<open>Sections at one address keep the order of the section table.\<close>

definition by_addr :: "gosect list \<Rightarrow> gosect list" where
  "by_addr secs = sort_key sc_addr secs"

definition pick_vers :: "go_buildinfo \<Rightarrow> bytes" where
  "pick_vers bi = foldl (\<lambda>v (k, x). if k = to_bytes ''vcs.revision'' \<and> (v = [] \<or> v = to_bytes ''(devel)'') then x else v)
     (gi_version bi) (gi_settings bi)"

definition has_prefix :: "bytes \<Rightarrow> bytes \<Rightarrow> bool" where
  "has_prefix s p \<longleftrightarrow> take (length p) s = p"

definition Parse :: "golib \<Rightarrow> bytes \<Rightarrow> derror + bin" where
  "Parse L raw =
     (case elf_NewFile L raw of None \<Rightarrow> Inl (Unsupported ''not an ELF file'') | Some f \<Rightarrow>
      if ge_machine f \<noteq> EM_X86_64 \<or> ge_class f \<noteq> ELFCLASS64 \<or> \<not> ge_little f then Inl (Unsupported ''not linux/amd64'')
      else if ge_type f \<noteq> ET_EXEC then Inl (Unsupported ''not a static executable'')
      else bindR (mapR (read_section raw) (filter (\<lambda>s. es_name s \<noteq> [] \<and> es_alloc s) (ge_sections f))) (\<lambda>secs.
        let sects = sects_of secs in
        case sects (to_bytes ''.text'') of None \<Rightarrow> Inl (Unsupported ''no .text section'') | Some text \<Rightarrow>
        case sects (to_bytes ''.gopclntab'') of None \<Rightarrow> Inl (Unsupported ''no .gopclntab'') | Some pcs \<Rightarrow>
        let (gover, module, vers) = (case buildinfo_Read L raw of
              None \<Rightarrow> ([], [], []) | Some bi \<Rightarrow> (gi_goVersion bi, gi_path bi, pick_vers bi)) in
        if \<not> has_prefix gover SupportedGo then Inl (Unsupported ''another toolchain'')
        else case sects (to_bytes ''.go.module'') of None \<Rightarrow> Inl (Unsupported ''no .go.module'') | Some md \<Rightarrow>
        if sects (to_bytes ''.go.type'') = None then Inl (Unsupported ''no .go.type'')
        else bindR (parseModuledata (sc_data md)) (\<lambda>m.
          if md_pcHeader m \<noteq> sc_addr pcs then Inl (Unsupported ''moduledata.pcHeader'')
          else if md_epclntab m \<noteq> sc_addr pcs + sc_size pcs then Inl (Unsupported ''moduledata.epclntab'')
          else if md_text m < sc_addr text \<or> md_text m \<ge> sc_addr text + sc_size text then Inl (Unsupported ''moduledata.text'')
          else bindR (parsePcln (sc_data pcs) (sc_tail pcs) (sc_addr pcs) m) (\<lambda>p.
            bindR (pc_funcs p (md_text m)) (\<lambda>fs.
              Inr \<lparr>bn_file = raw, bn_sects = sects, bn_order = by_addr secs, bn_text = text, bn_pcln = p, bn_mod = m,
                bn_funcs = fs, bn_goVer = gover, bn_module = module, bn_vers = vers\<rparr>)))))"

section \<open>Queries\<close>

definition SectionOf :: "bin \<Rightarrow> uint64 \<Rightarrow> gosect option" where
  "SectionOf b addr =
     (let i = sort_Search (length (bn_order b)) (\<lambda>i. sc_addr (bn_order b ! i) + sc_size (bn_order b ! i) > addr) in
      if i < length (bn_order b) \<and> sc_addr (bn_order b ! i) \<le> addr then Some (bn_order b ! i) else None)"

definition FuncAt :: "bin \<Rightarrow> uint64 \<Rightarrow> gofunc option" where
  "FuncAt b addr =
     (let i = sort_Search (length (bn_funcs b)) (\<lambda>i. fn_end (bn_funcs b ! i) > addr) in
      if i < length (bn_funcs b) \<and> fn_entry (bn_funcs b ! i) \<le> addr then Some (bn_funcs b ! i) else None)"

definition FuncBytes :: "bin \<Rightarrow> gofunc \<Rightarrow> derror + bytes" where
  "FuncBytes b f = (let t = bn_text b in
     cutR (sc_data t) (sc_tail t) (unat (fn_entry f - sc_addr t)) (unat (fn_end f - sc_addr t)))"

definition ImageRange :: "bin \<Rightarrow> uint64 \<times> uint64" where
  "ImageRange b = foldl (\<lambda>(lo, hi) s. if sc_addr s = 0 then (lo, hi)
     else (min lo (sc_addr s), max hi (sc_addr s + sc_size s))) (- 1, 0) (bn_order b)"

definition bn_Gofunc :: "bin \<Rightarrow> bytes" where
  "bn_Gofunc b = pc_table (bn_pcln b) (pc_gofunc (bn_pcln b))"

definition bn_Findfunctab :: "bin \<Rightarrow> bytes" where
  "bn_Findfunctab b = pc_table (bn_pcln b) (pc_findfunctab (bn_pcln b))"

end
