(* ===== verification/X86.thy ===== *)
theory X86
  imports Gobin
begin

unbundle bit_operations_syntax

text \<open>
  \<^verbatim>\<open>delta/x86/x86.go\<close>: re-targeting the PC-relative operands of moved machine code.  The instruction
  decoder is \<open>x86_Decode\<close>; an instruction lies inside the bytes the decoder was given, and its
  PC-relative field inside the instruction.  A target lookup can fail like any code that reads a
  binary.
\<close>

section \<open>Data\<close>

record xtarget =
  xt_addr :: uint64
  xt_known :: bool

record xstats =
  xs_insns :: nat
  xs_fails :: nat
  xs_refs :: nat
  xs_unknown :: nat
  xs_noFit :: nat

definition xstats0 :: xstats where
  "xstats0 = \<lparr>xs_insns = 0, xs_fails = 0, xs_refs = 0, xs_unknown = 0, xs_noFit = 0\<rparr>"

definition xs_Add :: "xstats \<Rightarrow> xstats \<Rightarrow> xstats" where
  "xs_Add s t = \<lparr>xs_insns = xs_insns s + xs_insns t, xs_fails = xs_fails s + xs_fails t, xs_refs = xs_refs s + xs_refs t,
     xs_unknown = xs_unknown s + xs_unknown t, xs_noFit = xs_noFit s + xs_noFit t\<rparr>"

section \<open>Decoding\<close>

text \<open>One step of the loops: an instruction, or \<open>None\<close> for a byte the decoder cannot make sense of.\<close>

definition decode_at :: "golib \<Rightarrow> bytes \<Rightarrow> nat \<Rightarrow> inst option" where
  "decode_at L code i = (case x86_Decode L (drop i code) of
     None \<Rightarrow> None | Some ins \<Rightarrow> if in_len ins = 0 then None else Some ins)"

lemma decode_at_pos: "decode_at L code i = Some ins \<Longrightarrow> 0 < in_len ins"
  by (auto simp: decode_at_def split: option.splits if_splits)

text \<open>The PC-relative field of an instruction, when it is inside the code.\<close>

definition has_field :: "bytes \<Rightarrow> nat \<Rightarrow> inst \<Rightarrow> bool" where
  "has_field code i ins \<longleftrightarrow> in_pcrel ins > 0 \<and> i + in_pcrelOff ins + in_pcrel ins \<le> length code"

section \<open>Relocation\<close>

definition signed_le :: "bytes \<Rightarrow> int" where
  "signed_le b = (let v = int (le_nat b); h = 2 ^ (8 * length b - 1) in if v < h then v else v - 2 * h)"

definition fits :: "nat \<Rightarrow> int \<Rightarrow> bool" where
  "fits n x \<longleftrightarrow> - (2 ^ (8 * n - 1)) \<le> x \<and> x < 2 ^ (8 * n - 1)"

definition ref_target :: "bytes \<Rightarrow> nat \<Rightarrow> inst \<Rightarrow> uint64 \<Rightarrow> uint64" where
  "ref_target code i ins srcPC =
     srcPC + of_nat i + of_nat (in_len ins)
     + word_of_int (signed_le (slice (i + in_pcrelOff ins) (i + in_pcrelOff ins + in_pcrel ins) code))"

definition new_disp :: "nat \<Rightarrow> inst \<Rightarrow> uint64 \<Rightarrow> uint64 \<Rightarrow> int" where
  "new_disp i ins dstPC addr = sint (addr - (dstPC + of_nat i + of_nat (in_len ins)))"

definition relocOne :: "bytes \<Rightarrow> nat \<Rightarrow> inst \<Rightarrow> uint64 \<Rightarrow> uint64 \<Rightarrow> (uint64 \<Rightarrow> derror + xtarget) \<Rightarrow> bytes \<times> xstats \<Rightarrow> derror + bytes \<times> xstats" where
  "relocOne code i ins srcPC dstPC lookup = (\<lambda>(out, st).
     if in_pcrel ins \<notin> {1, 2, 4} then Inr (out, st)
     else let st = st\<lparr>xs_refs := xs_refs st + 1\<rparr> in
       bindR (lookup (ref_target code i ins srcPC)) (\<lambda>t.
         if \<not> xt_known t then Inr (out, st\<lparr>xs_unknown := xs_unknown st + 1\<rparr>)
         else let nd = new_disp i ins dstPC (xt_addr t) in
           if \<not> fits (in_pcrel ins) nd then Inr (out, st\<lparr>xs_noFit := xs_noFit st + 1\<rparr>)
           else Inr (overwrite (i + in_pcrelOff ins) (le_bytes (in_pcrel ins) (nat (nd mod 2 ^ 32))) out, st)))"

function reloc_loop :: "golib \<Rightarrow> bytes \<Rightarrow> uint64 \<Rightarrow> uint64 \<Rightarrow> (uint64 \<Rightarrow> derror + xtarget) \<Rightarrow> nat \<Rightarrow>
    bytes \<times> xstats \<Rightarrow> derror + bytes \<times> xstats" where
  "reloc_loop L code srcPC dstPC lookup i = (\<lambda>(out, st).
     if i < length code then
       (case decode_at L code i of
          None \<Rightarrow> reloc_loop L code srcPC dstPC lookup (i + 1) (out, st\<lparr>xs_fails := xs_fails st + 1\<rparr>)
        | Some ins \<Rightarrow>
            let st = st\<lparr>xs_insns := xs_insns st + 1\<rparr> in
            bindR (if has_field code i ins then relocOne code i ins srcPC dstPC lookup (out, st) else Inr (out, st))
              (reloc_loop L code srcPC dstPC lookup (i + in_len ins)))
     else Inr (out, st))"
  by pat_completeness auto
termination
  by (relation "measure (\<lambda>(L, code, srcPC, dstPC, lookup, i). length code - i)") (auto dest: decode_at_pos)

declare reloc_loop.simps [simp del]

text \<open>\<open>n\<close> is the length of \<open>out\<close>; code that is shorter is padded with \<^verbatim>\<open>INT3\<close>.\<close>

definition Relocate :: "golib \<Rightarrow> bytes \<Rightarrow> nat \<Rightarrow> uint64 \<Rightarrow> uint64 \<Rightarrow> (uint64 \<Rightarrow> derror + xtarget) \<Rightarrow> xstats \<Rightarrow> derror + bytes \<times> xstats" where
  "Relocate L code n srcPC dstPC lookup st =
     (let code = take n code in
      reloc_loop L code srcPC dstPC lookup 0 (code @ replicate (n - length code) 0xCC, st))"

section \<open>Content hash\<close>

definition fnv_write :: "bytes \<Rightarrow> uint64 \<Rightarrow> uint64" where
  "fnv_write b h = foldl (\<lambda>h x. (h XOR ucast x) * 0x100000001b3) h b"

definition fnv_new :: uint64 where "fnv_new = 0xcbf29ce484222325"

text \<open>\<open>masked\<close> is the bytes one round of the loop hashes.\<close>

definition masked :: "bytes \<Rightarrow> nat \<Rightarrow> inst \<Rightarrow> derror + bytes" where
  "masked code i ins =
     (if has_field code i ins then
        bindR (cutR code [] i (i + in_pcrelOff ins)) (\<lambda>a.
        bindR (cutR code [] (i + in_pcrelOff ins + in_pcrel ins) (i + in_len ins)) (\<lambda>b.
          Inr (a @ replicate (in_pcrel ins) 0 @ b)))
      else Inr (slice i (min (i + in_len ins) (length code)) code))"

function hash_loop :: "golib \<Rightarrow> bytes \<Rightarrow> nat \<Rightarrow> uint64 \<Rightarrow> derror + uint64" where
  "hash_loop L code i h =
     (if i < length code then
        (case decode_at L code i of
           None \<Rightarrow> hash_loop L code (i + 1) (fnv_write [code ! i] h)
         | Some ins \<Rightarrow> bindR (masked code i ins) (\<lambda>m. hash_loop L code (i + in_len ins) (fnv_write m h)))
      else Inr h)"
  by pat_completeness auto
termination
  by (relation "measure (\<lambda>(L, code, i, h). length code - i)") (auto dest: decode_at_pos)

declare hash_loop.simps [simp del]

definition ContentHash :: "golib \<Rightarrow> bytes \<Rightarrow> derror + uint64" where
  "ContentHash L code = hash_loop L code 0 (fnv_write (le_bytes 8 (length code)) fnv_new)"

function equal_loop :: "golib \<Rightarrow> bytes \<Rightarrow> bytes \<Rightarrow> nat \<Rightarrow> derror + bool" where
  "equal_loop L a b k =
     (if k < length a then
        (case decode_at L a k of
           None \<Rightarrow> if a ! k \<noteq> b ! k then Inr False else equal_loop L a b (k + 1)
         | Some ins \<Rightarrow>
             let e = min (k + in_len ins) (length a); lo = k + in_pcrelOff ins; hi = lo + in_pcrel ins in
             if has_field a k ins then
               if slice k lo a \<noteq> slice k lo b then Inr False
               else bindR (cutR a [] hi e) (\<lambda>ra. bindR (cutR b [] hi e) (\<lambda>rb'.
                 if ra \<noteq> rb' then Inr False else equal_loop L a b e))
             else if slice k e a \<noteq> slice k e b then Inr False else equal_loop L a b e)
      else Inr True)"
  by pat_completeness auto
termination
  by (relation "measure (\<lambda>(L, a, b, k). length a - k)") (auto dest: decode_at_pos)

declare equal_loop.simps [simp del]

definition code_Equal :: "golib \<Rightarrow> bytes \<Rightarrow> bytes \<Rightarrow> derror + bool" where
  "code_Equal L a b = (if length a \<noteq> length b then Inr False else equal_loop L a b 0)"

section \<open>Relocated operands\<close>

definition dec_ok :: "golib \<Rightarrow> bool" where
  "dec_ok L \<longleftrightarrow> (\<forall>b ins. x86_Decode L b = Some ins \<longrightarrow> in_len ins \<le> length b \<and> in_pcrelOff ins + in_pcrel ins \<le> in_len ins)"

text \<open>The instructions of a piece of code, in order.\<close>

function insns :: "golib \<Rightarrow> bytes \<Rightarrow> nat \<Rightarrow> (nat \<times> inst) list" where
  "insns L code i =
     (if i < length code then
        (case decode_at L code i of None \<Rightarrow> insns L code (i + 1) | Some ins \<Rightarrow> (i, ins) # insns L code (i + in_len ins))
      else [])"
  by pat_completeness auto
termination by (relation "measure (\<lambda>(L, code, i). length code - i)") (auto dest: decode_at_pos)

declare insns.simps [simp del]

lemma insns_ge: "(p, ins) \<in> set (insns L code i) \<Longrightarrow> i \<le> p \<and> decode_at L code p = Some ins"
proof (induction L code i rule: insns.induct)
  case (1 L code i)
  then show ?case by (subst (asm) insns.simps) (fastforce split: if_splits option.splits)
qed

text \<open>What a relocated instruction refers to: where its old target went, or, without a known or near enough target, its old field.\<close>

definition retargeted :: "bytes \<Rightarrow> (uint64 \<Rightarrow> derror + xtarget) \<Rightarrow> uint64 \<Rightarrow> uint64 \<Rightarrow> bytes \<Rightarrow> nat \<times> inst \<Rightarrow> bool" where
  "retargeted code lookup srcPC dstPC out = (\<lambda>(p, ins).
     has_field code p ins \<and> in_pcrel ins \<in> {1, 2, 4} \<longrightarrow>
       (\<exists>t. lookup (ref_target code p ins srcPC) = Inr t \<and>
         (if xt_known t \<and> fits (in_pcrel ins) (new_disp p ins dstPC (xt_addr t))
          then ref_target out p ins dstPC = xt_addr t
          else ref_target out p ins dstPC = ref_target code p ins dstPC)))"

definition in_field :: "bytes \<Rightarrow> nat \<Rightarrow> nat \<times> inst \<Rightarrow> bool" where
  "in_field code k = (\<lambda>(p, ins). has_field code p ins \<and> p + in_pcrelOff ins \<le> k \<and> k < p + in_pcrelOff ins + in_pcrel ins)"

lemma signed_le_bytes:
  assumes "n \<in> {1, 2, 4}" "fits n x"
  shows "signed_le (le_bytes n (nat (x mod 2 ^ 32))) = x"
proof -
  have n: "(2 :: nat) ^ (8 * n) dvd 2 ^ 32" "0 < n" using assms(1) by (auto intro: le_imp_power_dvd)
  have "int (nat (x mod 2 ^ 32) mod 256 ^ n) = x mod 2 ^ 32 mod 2 ^ (8 * n)"
    by (simp add: zmod_int power_mult)
  also have "\<dots> = x mod 2 ^ (8 * n)" using assms(1) by (intro mod_mod_cancel) (auto intro: le_imp_power_dvd)
  finally have v: "int (le_nat (le_bytes n (nat (x mod 2 ^ 32)))) = x mod 2 ^ (8 * n)" by (simp only: le_nat_bytes)
  have h: "(2 :: int) ^ (8 * n) = 2 * 2 ^ (8 * n - 1)" using n(2) by (simp flip: power_Suc)
  show ?thesis
  proof (cases "0 \<le> x")
    case True
    then show ?thesis using assms(2) h v by (simp add: signed_le_def fits_def)
  next
    case False
    then have "x mod 2 ^ (8 * n) = x + 2 ^ (8 * n)"
      using assms(2) h mod_pos_pos_trivial[of "x + 2 ^ (8 * n)" "2 ^ (8 * n)"] by (simp add: fits_def)
    then show ?thesis using False assms(2) h v by (simp add: signed_le_def fits_def)
  qed
qed

lemma relocOne_out:
  assumes "relocOne code i ins srcPC dstPC lookup (out, st) = Inr (out', st')" "has_field code i ins" "length code \<le> length out"
    and "\<And>k. i \<le> k \<Longrightarrow> k < length code \<Longrightarrow> out ! k = code ! k"
  shows "length out' = length out" "retargeted code lookup srcPC dstPC out' (i, ins)"
    "k < length out \<Longrightarrow> \<not> in_field code k (i, ins) \<Longrightarrow> out' ! k = out ! k"
proof -
  let ?lo = "i + in_pcrelOff ins" and ?n = "in_pcrel ins"
  have f: "?lo + ?n \<le> length out" "0 < ?n" using assms(2,3) by (auto simp: has_field_def)
  have same: "slice ?lo (?lo + ?n) out = slice ?lo (?lo + ?n) code"
    using assms(2-4) by (intro nth_equalityI) (auto simp: has_field_def)
  show "length out' = length out" using assms(1) f
    by (auto simp: relocOne_def Let_def bindR_eq_Inr split: if_splits)
  show "k < length out \<Longrightarrow> \<not> in_field code k (i, ins) \<Longrightarrow> out' ! k = out ! k"
    using assms(1,2) f by (auto simp: relocOne_def Let_def bindR_eq_Inr in_field_def nth_overwrite split: if_splits)
  show "retargeted code lookup srcPC dstPC out' (i, ins)"
    unfolding retargeted_def
  proof (clarify)
    assume n: "?n \<in> {1, 2, 4}"
    obtain t where t: "lookup (ref_target code i ins srcPC) = Inr t" using assms(1) n by (auto simp: relocOne_def Let_def bindR_eq_Inr)
    show "\<exists>t. lookup (ref_target code i ins srcPC) = Inr t \<and>
         (if xt_known t \<and> fits ?n (new_disp i ins dstPC (xt_addr t)) then ref_target out' i ins dstPC = xt_addr t
          else ref_target out' i ins dstPC = ref_target code i ins dstPC)"
    proof (cases "xt_known t \<and> fits ?n (new_disp i ins dstPC (xt_addr t))")
      case True
      define w where "w = le_bytes ?n (nat (new_disp i ins dstPC (xt_addr t) mod 2 ^ 32))"
      have "out' = overwrite ?lo w out" using assms(1) n t True by (auto simp: relocOne_def Let_def w_def split: if_splits)
      moreover have "slice ?lo (?lo + length w) (overwrite ?lo w out) = w"
        by (rule slice_overwrite) (use f in \<open>simp add: w_def\<close>)
      ultimately have "signed_le (slice ?lo (?lo + ?n) out') = new_disp i ins dstPC (xt_addr t)"
        using signed_le_bytes[OF n] True by (simp add: w_def)
      then have "ref_target out' i ins dstPC = xt_addr t" by (simp add: ref_target_def new_disp_def)
      then show ?thesis using t True by auto
    next
      case False
      then have "out' = out" using assms(1) n t by (auto simp: relocOne_def Let_def split: if_splits)
      then have "ref_target out' i ins dstPC = ref_target code i ins dstPC" by (simp add: ref_target_def same)
      then show ?thesis using t False by auto
    qed
  qed
qed

lemma ref_target_cong:
  "(\<And>k. p \<le> k \<Longrightarrow> k < p + in_len ins \<Longrightarrow> out' ! k = out ! k) \<Longrightarrow> in_pcrelOff ins + in_pcrel ins \<le> in_len ins \<Longrightarrow>
   p + in_len ins \<le> length out \<Longrightarrow> length out' = length out \<Longrightarrow> ref_target out' p ins dst = ref_target out p ins dst"
  unfolding ref_target_def
  by (rule arg_cong[where f = "\<lambda>x. _ + word_of_int (signed_le x)"], rule nth_equalityI) auto

lemma not_in_later: "k < j \<Longrightarrow> list_all (\<lambda>pi. \<not> in_field code k pi) (insns L code j)"
  by (auto simp: list_all_iff in_field_def dest!: insns_ge)

lemma reloc_loop_out:
  assumes "dec_ok L" "reloc_loop L code srcPC dstPC lookup i (out, st) = Inr (out', st')" "length code \<le> length out"
    and "\<And>k. i \<le> k \<Longrightarrow> k < length code \<Longrightarrow> out ! k = code ! k"
  shows "length out' = length out \<and> (\<forall>k < length out. list_all (\<lambda>pi. \<not> in_field code k pi) (insns L code i) \<longrightarrow> out' ! k = out ! k) \<and>
    list_all (retargeted code lookup srcPC dstPC out') (insns L code i)"
  using assms
proof (induction L code srcPC dstPC lookup i arbitrary: out st rule: reloc_loop.induct)
  case (1 L code srcPC dstPC lookup i)
  note run = 1(4)[unfolded reloc_loop.simps[of L code srcPC dstPC lookup i]]
  show ?case
  proof (cases "i < length code")
    case False
    then show ?thesis using run by (simp add: insns.simps[of L code i])
  next
    case i: True
    show ?thesis
    proof (cases "decode_at L code i")
      case None
      have "reloc_loop L code srcPC dstPC lookup (i + 1) (out, st\<lparr>xs_fails := xs_fails st + 1\<rparr>) = Inr (out', st')"
        using run i None by simp
      from "1.IH"(1)[OF i None 1(3) this 1(5)] 1(6) show ?thesis
        using i None by (simp add: insns.simps[of L code i])
    next
      case (Some ins)
      have ins: "in_len ins \<le> length code - i" "in_pcrelOff ins + in_pcrel ins \<le> in_len ins"
        using Some 1(3) i unfolding decode_at_def dec_ok_def by (fastforce split: option.splits if_splits)+
      define st1 where "st1 = st\<lparr>xs_insns := xs_insns st + 1\<rparr>"
      have "bindR (if has_field code i ins then relocOne code i ins srcPC dstPC lookup (out, st1) else Inr (out, st1))
          (reloc_loop L code srcPC dstPC lookup (i + in_len ins)) = Inr (out', st')"
        using run i Some by (simp add: Let_def st1_def split: if_splits)
      then obtain o1 st2 where o1: "(if has_field code i ins then relocOne code i ins srcPC dstPC lookup (out, st1) else Inr (out, st1)) = Inr (o1, st2)"
        "reloc_loop L code srcPC dstPC lookup (i + in_len ins) (o1, st2) = Inr (out', st')"
        by (auto simp: bindR_eq_Inr)
      have f: "length o1 = length out" "retargeted code lookup srcPC dstPC o1 (i, ins)"
        "\<And>k. k < length out \<Longrightarrow> \<not> in_field code k (i, ins) \<Longrightarrow> o1 ! k = out ! k"
      proof -
        have "length o1 = length out \<and> retargeted code lookup srcPC dstPC o1 (i, ins) \<and>
          (\<forall>k < length out. \<not> in_field code k (i, ins) \<longrightarrow> o1 ! k = out ! k)"
        proof (cases "has_field code i ins")
          case True
          with o1(1) have "relocOne code i ins srcPC dstPC lookup (out, st1) = Inr (o1, st2)" by simp
          from relocOne_out[OF this True 1(5,6)] show ?thesis by blast
        next
          case False
          with o1(1) show ?thesis by (simp add: retargeted_def)
        qed
        then show "length o1 = length out" "retargeted code lookup srcPC dstPC o1 (i, ins)"
          "\<And>k. k < length out \<Longrightarrow> \<not> in_field code k (i, ins) \<Longrightarrow> o1 ! k = out ! k" by auto
      qed
      have later: "o1 ! k = code ! k" if "i + in_len ins \<le> k" "k < length code" for k
        using f(3)[of k] that 1(5) 1(6)[of k] ins(2) by (auto simp: in_field_def)
      have IH: "length out' = length o1 \<and> (\<forall>k < length o1. list_all (\<lambda>pi. \<not> in_field code k pi) (insns L code (i + in_len ins)) \<longrightarrow> out' ! k = o1 ! k) \<and>
          list_all (retargeted code lookup srcPC dstPC out') (insns L code (i + in_len ins))"
        by (rule "1.IH"(2)[OF i Some st1_def 1(3) o1(2)]) (use f(1) 1(5) later in auto)
      have "out' ! k = o1 ! k" if "k < i + in_len ins" for k
        using IH not_in_later[OF that, of code L] that ins(1) i 1(5) f(1) by auto
      then have "ref_target out' i ins dstPC = ref_target o1 i ins dstPC"
        by (intro ref_target_cong) (use ins i 1(5) f(1) IH in auto)
      then have "retargeted code lookup srcPC dstPC out' (i, ins)" using f(2) by (simp only: retargeted_def prod.case)
      then show ?thesis using IH f(1,3) i Some by (simp add: insns.simps[of L code i])
    qed
  qed
qed

text \<open>Relocation as a whole.\<close>

lemma Relocate_out:
  assumes "dec_ok L" "Relocate L code n srcPC dstPC lookup st = Inr (out, st')"
  shows "length out = n \<and> list_all (retargeted (take n code) lookup srcPC dstPC out) (insns L (take n code) 0) \<and>
    (\<forall>k < n. list_all (\<lambda>pi. \<not> in_field (take n code) k pi) (insns L (take n code) 0) \<longrightarrow>
       out ! k = (if k < length code then code ! k else 0xCC))"
  using reloc_loop_out[OF assms(1) assms(2)[unfolded Relocate_def Let_def]]
  by (auto simp: nth_append)

end
