(* ===== verification/DataMap.thy ===== *)
theory DataMap
  imports Gobin
begin

text \<open>
  \<^verbatim>\<open>delta/datamap.go\<close>: where each block of an old section went.  The window index, the search for a
  block's shift and the three passes are here.  The pass over blocks is sharded over a fixed
  number of workers and repaired afterwards, and the repair makes it equal to the sequential
  pass; a block marked as matched really occurs at its new place.  Statistics are not modelled.
\<close>

section \<open>Data\<close>

record dataMap =
  dm_block :: nat
  dm_delta :: "int list"
  dm_matched :: "bool list"
  dm_ambig :: "bool list"
  dm_oldLen :: nat

definition dataMapSects :: "bytes list" where
  "dataMapSects = map to_bytes [''.rodata'', ''.go.type'', ''.go.func'', ''.noptrdata'', ''.data'']"

definition ptrRewriteSects :: "bytes list" where
  "ptrRewriteSects = map to_bytes [''.go.module'', ''.dynamic'', ''.got'', ''.got.plt'', ''.rela'', ''.rela.plt'', ''.go.fipsinfo'', ''.dynsym'']"

definition rollBase :: uint64 where "rollBase = 0x9E3779B97F4A7C15"
definition bucketBits :: nat where "bucketBits = 16"
definition mapWorkers :: nat where "mapWorkers = 24"
definition lookahead :: nat where "lookahead = 48"
definition maxOccur :: nat where "maxOccur = 2048"

section \<open>Rolling hashes\<close>

definition hashWindow :: "bytes \<Rightarrow> uint64" where
  "hashWindow b = foldl (\<lambda>h c. h * rollBase + ucast c + 1) 0 b"

definition rollPow :: "nat \<Rightarrow> uint64" where
  "rollPow block = rollBase ^ block"

text \<open>The hash of the window one byte on.\<close>

definition roll :: "bytes \<Rightarrow> nat \<Rightarrow> nat \<Rightarrow> uint64 \<Rightarrow> uint64" where
  "roll b block p h = (if p + block < length b
     then h * rollBase + ucast (b ! (p + block)) + 1 - (ucast (b ! p) + 1) * rollPow block else h)"

text \<open>The windows a worker covers, with their hashes.\<close>

function roll_range :: "bytes \<Rightarrow> nat \<Rightarrow> nat \<Rightarrow> nat \<Rightarrow> uint64 \<Rightarrow> (nat \<times> uint64) list" where
  "roll_range b block p hi h = (if p < hi then (p, h) # roll_range b block (p + 1) hi (roll b block p h) else [])"
  by pat_completeness auto
termination by (relation "measure (\<lambda>(b, block, p, hi, h). hi - p)") auto

declare roll_range.simps [simp del]

section \<open>The window index\<close>

type_synonym idxEnt = "uint32 \<times> nat"

record winIndex =
  wx_ent :: "idxEnt list"
  wx_bucket :: "nat list"

definition nbk :: nat where "nbk = 2 ^ bucketBits"

definition bucket_of :: "uint64 \<Rightarrow> nat" where
  "bucket_of h = unat (drop_bit (64 - bucketBits) h)"

definition high32 :: "uint64 \<Rightarrow> uint32" where
  "high32 h = ucast (drop_bit 32 h)"

definition worker_windows :: "bytes \<Rightarrow> nat \<Rightarrow> nat \<Rightarrow> nat \<Rightarrow> nat \<Rightarrow> (nat \<times> uint64) list" where
  "worker_windows new block n nw w =
     (let lo = n * w div nw; hi = n * (w + 1) div nw in
      if lo \<ge> hi then [] else roll_range new block lo hi (hashWindow (slice lo (lo + block) new)))"

definition count_windows :: "(nat \<times> uint64) list \<Rightarrow> nat list" where
  "count_windows ws = foldl (\<lambda>cnt (p, h). cnt[bucket_of h := cnt ! bucket_of h + 1]) (replicate nbk 0) ws"

text \<open>
  The counts become offsets: bucket by bucket, and within a bucket worker by worker.  The result
  is the first offset of every bucket and, per worker, the offset each of its buckets starts at.
\<close>

definition offset_step :: "nat \<Rightarrow> nat list list \<times> nat \<Rightarrow> nat \<Rightarrow> nat list list \<times> nat" where
  "offset_step b = (\<lambda>(hist, tot) w. (hist[w := (hist ! w)[b := tot]], tot + hist ! w ! b))"

definition bucket_step :: "nat \<Rightarrow> nat list \<times> nat list list \<times> nat \<Rightarrow> nat \<Rightarrow> nat list \<times> nat list list \<times> nat" where
  "bucket_step nw = (\<lambda>(bucket, hist, tot) b.
     case foldl (offset_step b) (hist, tot) [0..<nw] of (hist', tot') \<Rightarrow> (bucket @ [tot], hist', tot'))"

definition place_windows :: "(nat \<times> uint64) list \<Rightarrow> nat list \<Rightarrow> idxEnt list \<Rightarrow> idxEnt list" where
  "place_windows ws offs ent = fst (foldl (\<lambda>(ent, cnt) (p, h).
     (ent[cnt ! bucket_of h := (high32 h, p)], cnt[bucket_of h := cnt ! bucket_of h + 1])) (ent, offs) ws)"

definition sort_bucket :: "nat list \<Rightarrow> idxEnt list \<Rightarrow> nat \<Rightarrow> idxEnt list" where
  "sort_bucket bucket ent b =
     (let lo = bucket ! b; hi = bucket ! (b + 1) in
      overwrite lo (sort_key (\<lambda>(h, p). (unat h) * 2 ^ 32 + p) (slice lo hi ent)) ent)"

definition buildWinIndex :: "bytes \<Rightarrow> nat \<Rightarrow> winIndex" where
  "buildWinIndex new block =
     (if length new < block then \<lparr>wx_ent = [], wx_bucket = replicate (nbk + 1) 0\<rparr>
      else
        let n = length new - block + 1; nw = (if n < 2 ^ 16 then 1 else mapWorkers);
            hist = map (\<lambda>w. count_windows (worker_windows new block n nw w)) [0..<nw] in
        case foldl (bucket_step nw) ([], hist, 0) [0..<nbk] of (bucket, offs, tot) \<Rightarrow>
        let ent = fold (\<lambda>w. place_windows (worker_windows new block n nw w) (offs ! w)) [0..<nw] (replicate tot (0, 0));
            bucket = bucket @ [tot] in
        \<lparr>wx_ent = foldl (sort_bucket bucket) ent [0..<nbk], wx_bucket = bucket\<rparr>)"

definition wx_lookup :: "winIndex \<Rightarrow> uint64 \<Rightarrow> idxEnt list" where
  "wx_lookup ix h =
     (if wx_ent ix = [] then []
      else
        let h32 = high32 h; b = unat (drop_bit (32 - bucketBits) h32);
            ents = slice (wx_bucket ix ! b) (wx_bucket ix ! (b + 1)) (wx_ent ix);
            i = sort_Search (length ents) (\<lambda>i. fst (ents ! i) \<ge> h32);
            j = i + sort_Search (length ents - i) (\<lambda>k. fst (ents ! (i + k)) > h32) in
        slice i j ents)"

section \<open>The shift of a block\<close>

text \<open>
  \<open>align\<close> is \<^verbatim>\<open>nil\<close> or one alignment per block.
\<close>

record mapping_job =
  mj_old :: bytes
  mj_new :: bytes
  mj_block :: nat
  mj_align :: "int list option"
  mj_tol :: nat

definition alignOf :: "mapping_job \<Rightarrow> nat \<Rightarrow> int" where
  "alignOf J i = (case mj_align J of None \<Rightarrow> 1 | Some al \<Rightarrow> al ! i)"

definition mismatches :: "bytes \<Rightarrow> bytes \<Rightarrow> nat" where
  "mismatches a b = length (filter (\<lambda>(x, y). x \<noteq> y) (zip a b))"

definition matchAt :: "mapping_job \<Rightarrow> nat \<Rightarrow> int \<Rightarrow> bool" where
  "matchAt J p d =
     (if \<not> alignOf J (p div mj_block J) dvd d then False
      else let q = int p + d in
        if q < 0 \<or> q + int (mj_block J) > int (length (mj_new J)) then False
        else mismatches (slice p (p + mj_block J) (mj_old J)) (slice (nat q) (nat q + mj_block J) (mj_new J)) \<le> mj_tol J)"

record shift_search =
  ss_best :: int
  ss_dist :: int
  ss_overflow :: bool

definition try_entry :: "mapping_job \<Rightarrow> nat \<Rightarrow> nat \<Rightarrow> int \<Rightarrow> idxEnt list \<Rightarrow> int \<Rightarrow> shift_search \<Rightarrow> shift_search" where
  "try_entry J p q prev ents c s =
     (if c < 0 \<or> c \<ge> int (length ents) then s
      else let d = int (snd (ents ! nat c)) - int q in
        if d = prev \<or> \<not> matchAt J p d then s
        else let dist = max (d - prev) (prev - d) in
          if ss_dist s < 0 \<or> dist < ss_dist s then s\<lparr>ss_best := d, ss_dist := dist\<rparr> else s)"

definition try_window :: "mapping_job \<Rightarrow> winIndex \<Rightarrow> nat \<Rightarrow> int \<Rightarrow> nat \<Rightarrow> uint64 \<Rightarrow> shift_search \<Rightarrow> shift_search" where
  "try_window J ix p prev q h s =
     (let ents = wx_lookup ix h in
      if length ents \<ge> maxOccur then s\<lparr>ss_overflow := True\<rparr>
      else if ents = [] then s
      else let t = int q + prev; k = int (sort_Search (length ents) (\<lambda>k. int (snd (ents ! k)) \<ge> t)) in
        try_entry J p q prev ents k (try_entry J p q prev ents (k - 1) s))"

function search_windows :: "mapping_job \<Rightarrow> winIndex \<Rightarrow> nat \<Rightarrow> int \<Rightarrow> nat \<Rightarrow> nat \<Rightarrow> uint64 \<Rightarrow> shift_search \<Rightarrow> shift_search" where
  "search_windows J ix p prev qEnd q h s =
     (if q \<le> qEnd then search_windows J ix p prev qEnd (q + 1) (roll (mj_old J) (mj_block J) q h) (try_window J ix p prev q h s) else s)"
  by pat_completeness auto
termination by (relation "measure (\<lambda>(J, ix, p, prev, qEnd, q, h, s). qEnd + 1 - q)") auto

declare search_windows.simps [simp del]

type_synonym placement = "int \<times> bool \<times> bool"

definition map_step :: "mapping_job \<Rightarrow> winIndex \<Rightarrow> nat \<Rightarrow> int \<Rightarrow> placement" where
  "map_step J ix i prev =
     (let block = mj_block J; p = i * block; n = length (mj_old J) in
      if p + block > n then (prev, False, False)
      else if matchAt J p prev then (prev, True, False)
      else
        let qEnd = min (p + block + lookahead) (n - block);
            s = search_windows J ix p prev qEnd p (hashWindow (slice p (p + block) (mj_old J)))
                  \<lparr>ss_best = 0, ss_dist = - 1, ss_overflow = False\<rparr> in
        if ss_dist s < 0 then (prev, False, ss_overflow s)
        else if p + 2 * block \<le> n \<and> \<not> matchAt J (p + block) (ss_best s) \<and> matchAt J (p + block) prev then (prev, False, False)
        else (ss_best s, True, False))"

section \<open>The passes\<close>

function run_range :: "(nat \<Rightarrow> int \<Rightarrow> placement) \<Rightarrow> nat \<Rightarrow> nat \<Rightarrow> int \<Rightarrow> placement list" where
  "run_range step lo hi prev = (if lo < hi then let r = step lo prev in r # run_range step (lo + 1) hi (fst r) else [])"
  by pat_completeness auto
termination by (relation "measure (\<lambda>(step, lo, hi, prev). hi - lo)") auto

declare run_range.simps [simp del]

text \<open>A shard is re-run from the true incoming shift until it agrees with what is there.\<close>

function repair :: "(nat \<Rightarrow> int \<Rightarrow> placement) \<Rightarrow> nat \<Rightarrow> nat \<Rightarrow> int \<Rightarrow> placement list \<Rightarrow> placement list" where
  "repair step i hi prev rs =
     (if i < hi then let r = step i prev in
        if r = rs ! i then rs else repair step (i + 1) hi (fst r) (rs[i := r])
      else rs)"
  by pat_completeness auto
termination by (relation "measure (\<lambda>(step, i, hi, prev, rs). hi - i)") auto

declare repair.simps [simp del]

definition repair_shard :: "(nat \<Rightarrow> int \<Rightarrow> placement) \<Rightarrow> nat \<Rightarrow> nat \<Rightarrow> placement list \<Rightarrow> nat \<Rightarrow> placement list" where
  "repair_shard step nb nw rs w =
     (let lo = nb * w div nw; hi = nb * (w + 1) div nw in
      if lo = 0 \<or> lo \<ge> hi then rs else repair step lo hi (fst (rs ! (lo - 1))) rs)"

definition forward_pass :: "(nat \<Rightarrow> int \<Rightarrow> placement) \<Rightarrow> nat \<Rightarrow> nat \<Rightarrow> placement list" where
  "forward_pass step nb nw =
     foldl (repair_shard step nb nw)
       (concat (map (\<lambda>w. run_range step (nb * w div nw) (nb * (w + 1) div nw) 0) [0..<nw])) [1..<nw]"

text \<open>Go's division rounds toward zero.\<close>

definition tdiv :: "int \<Rightarrow> int \<Rightarrow> int" where
  "tdiv a b = sgn a * sgn b * (\<bar>a\<bar> div \<bar>b\<bar>)"

text \<open>The backward pass over blocks \<open>i - 1, \<dots>, 0\<close>: an ambiguous block takes the next resolved shift, then 0.\<close>

fun backward_pass :: "mapping_job \<Rightarrow> nat \<Rightarrow> int \<times> bool \<Rightarrow> placement list \<Rightarrow> placement list" where
  "backward_pass J 0 nx rs = rs"
| "backward_pass J (Suc i) nx rs =
     (case rs ! i of (d, mt, am) \<Rightarrow>
      if \<not> am then backward_pass J i (if mt then (d, True) else nx) rs
      else
        let p = i * mj_block J;
            d' = (if matchAt J p d then d
                  else if snd nx \<and> matchAt J p (fst nx) then fst nx
                  else if matchAt J p 0 then 0
                  else tdiv d (alignOf J i) * alignOf J i) in
        backward_pass J i nx (rs[i := (d', mt, am)]))"

definition num_blocks :: "nat \<Rightarrow> nat \<Rightarrow> nat" where
  "num_blocks n block = (n + block - 1) div block"

definition buildDataMap :: "bytes \<Rightarrow> bytes \<Rightarrow> nat \<Rightarrow> int list option \<Rightarrow> nat \<Rightarrow> dataMap" where
  "buildDataMap old new block align tol =
     (let nb = num_blocks (length old) block;
          J = \<lparr>mj_old = old, mj_new = new, mj_block = block, mj_align = align, mj_tol = tol\<rparr> in
      if length new < block \<or> length old < block
      then \<lparr>dm_block = block, dm_delta = replicate nb 0, dm_matched = replicate nb False, dm_ambig = replicate nb False, dm_oldLen = length old\<rparr>
      else
        let ix = buildWinIndex new block; nw = (if nb < 4096 then 1 else mapWorkers);
            rs = backward_pass J nb (0, False) (forward_pass (map_step J ix) nb nw) in
        \<lparr>dm_block = block, dm_delta = map fst rs, dm_matched = map (fst \<circ> snd) rs, dm_ambig = map (snd \<circ> snd) rs, dm_oldLen = length old\<rparr>)"

section \<open>Using a map\<close>

fun prev_matched :: "bool list \<Rightarrow> nat \<Rightarrow> nat option" where
  "prev_matched ms 0 = None"
| "prev_matched ms (Suc i) = (if ms ! i then Some i else prev_matched ms i)"

function next_matched :: "bool list \<Rightarrow> nat \<Rightarrow> nat option" where
  "next_matched ms i = (if i < length ms then if ms ! i then Some i else next_matched ms (i + 1) else None)"
  by pat_completeness auto
termination by (relation "measure (\<lambda>(ms, i). length ms - i)") auto

declare next_matched.simps [simp del]

definition reliable :: "dataMap \<Rightarrow> int \<Rightarrow> bool" where
  "reliable m i =
     (if i < 0 \<or> i \<ge> int (length (dm_delta m)) then False
      else if dm_matched m ! nat i then True
      else case (prev_matched (dm_matched m) (nat i), next_matched (dm_matched m) (nat i + 1)) of
        (Some lo, Some hi) \<Rightarrow> dm_delta m ! lo = dm_delta m ! nat i \<and> dm_delta m ! hi = dm_delta m ! nat i
      | _ \<Rightarrow> False)"

definition dm_Map :: "dataMap \<Rightarrow> uint64 \<Rightarrow> derror + uint64" where
  "dm_Map m off =
     (if dm_delta m = [] then Inr off
      else let i = min (tdiv (sint off) (int (dm_block m))) (int (length (dm_delta m)) - 1) in
        if i < 0 then Inl Panic else Inr (off + word_of_int (dm_delta m ! nat i)))"

section \<open>Pointers\<close>

definition is_ptr :: "uint64 \<Rightarrow> uint64 \<Rightarrow> bytes \<Rightarrow> nat \<Rightarrow> bool" where
  "is_ptr lo hi d i \<longleftrightarrow> i + 8 \<le> length d \<and> lo \<le> le64at d i \<and> le64at d i < hi"

definition maskPointers :: "bytes \<Rightarrow> uint64 \<Rightarrow> uint64 \<Rightarrow> bytes \<times> bool list" where
  "maskPointers d lo hi =
     (map (\<lambda>k. if is_ptr lo hi d (k div 8 * 8) then 0 else d ! k) [0..<length d],
      map (\<lambda>q. is_ptr lo hi d (q * 8)) [0..<length d div 8 + 1])"

definition buildSectionMap :: "bin \<Rightarrow> bin \<Rightarrow> gosect \<Rightarrow> gosect \<Rightarrow> nat \<Rightarrow> dataMap" where
  "buildSectionMap old new os ns block =
     (case (ImageRange old, ImageRange new) of ((olo, ohi), (nlo, nhi)) \<Rightarrow>
      case maskPointers (sc_data os) olo ohi of (om, isPtr) \<Rightarrow>
      let nm = fst (maskPointers (sc_data ns) nlo nhi);
          align = map (\<lambda>i. if list_ex (\<lambda>q. isPtr ! q) [i * block div 8..<min ((i * block + block + 7) div 8) (length isPtr)] then 8 else 1)
                    [0..<num_blocks (length om) block] in
      buildDataMap om nm block (Some align) 0)"

section \<open>The rolling hash is the window's hash\<close>

lemma hashWindow_snoc: "hashWindow (xs @ [y]) = hashWindow xs * rollBase + ucast y + 1"
  by (simp add: hashWindow_def)

lemma hashWindow_Cons: "hashWindow (x # xs) = (ucast x + 1) * rollBase ^ length xs + hashWindow xs"
proof (induction xs rule: rev_induct)
  case (snoc y xs)
  have "hashWindow (x # xs @ [y]) = hashWindow (x # xs) * rollBase + ucast y + 1" using hashWindow_snoc[of "x # xs" y] by simp
  then show ?case unfolding snoc hashWindow_snoc by (simp add: algebra_simps)
qed (simp add: hashWindow_def)

lemma roll_window:
  assumes "p + block < length b" "0 < block"
  shows "roll b block p (hashWindow (slice p (p + block) b)) = hashWindow (slice (p + 1) (p + 1 + block) b)"
proof -
  define w where "w = slice (p + 1) (p + block) b"
  have a: "slice p (p + block) b = b ! p # w"
    using assms by (simp add: w_def slice_def Cons_nth_drop_Suc[symmetric] take_Cons')
  have c: "slice (p + 1) (p + 1 + block) b = w @ [b ! (p + block)]"
  proof -
    have "slice (p + 1) (p + 1 + block) b = w @ slice (p + block) (p + block + 1) b"
      using slice_append[of "p + 1" "p + block" "p + 1 + block" b] assms by (simp add: w_def)
    moreover have "slice (p + block) (p + block + 1) b = [b ! (p + block)]"
      using assms by (simp add: slice_def Cons_nth_drop_Suc[symmetric])
    ultimately show ?thesis by simp
  qed
  have l: "length w = block - 1" using assms by (simp add: w_def)
  have "rollPow block = rollBase ^ length w * rollBase" using power_minus_mult[OF assms(2), of rollBase] l by (simp add: rollPow_def)
  then show ?thesis unfolding a c hashWindow_Cons hashWindow_snoc using assms(1) by (simp add: roll_def algebra_simps)
qed

lemma roll_range_windows:
  assumes "0 < block" "hi + block \<le> length b + 1"
  shows "h = hashWindow (slice p (p + block) b) \<Longrightarrow>
    roll_range b block p hi h = map (\<lambda>q. (q, hashWindow (slice q (q + block) b))) [p..<hi]"
  using assms
proof (induction b block p hi h rule: roll_range.induct)
  case (1 b block p hi h)
  show ?case
  proof (cases "p < hi")
    case True
    have "roll_range b block (p + 1) hi (roll b block p h) = map (\<lambda>q. (q, hashWindow (slice q (q + block) b))) [p + 1..<hi]"
    proof (cases "p + block < length b")
      case inside: True
      show ?thesis by (rule "1.IH"[OF True _ 1(3,4)]) (use 1(2) roll_window[OF inside 1(3)] in simp)
    next
      case False
      then have "\<not> p + 1 < hi" using 1(4) by simp
      then show ?thesis by (simp add: roll_range.simps)
    qed
    moreover have "roll_range b block p hi h = (p, h) # roll_range b block (p + 1) hi (roll b block p h)"
      by (simp add: roll_range.simps[of b block p hi h] True)
    ultimately show ?thesis using 1(2) True by (simp add: upt_conv_Cons)
  qed (simp add: roll_range.simps)
qed

section \<open>The sharded pass is the sequential pass\<close>

lemma length_run_range [simp]: "length (run_range step lo hi prev) = hi - lo"
  by (induction step lo hi prev rule: run_range.induct) (subst run_range.simps, auto simp: Let_def)

lemma run_range_append:
  "lo \<le> mid \<Longrightarrow> mid \<le> hi \<Longrightarrow> run_range step lo hi prev =
   (let a = run_range step lo mid prev in a @ run_range step mid hi (if lo < mid then fst (last a) else prev))"
proof (induction step lo mid prev rule: run_range.induct)
  case (1 step lo mid prev)
  show ?case
  proof (cases "lo < mid")
    case True
    have "run_range step (lo + 1) hi (fst (step lo prev)) =
        (let a = run_range step (lo + 1) mid (fst (step lo prev)) in a @ run_range step mid hi (if lo + 1 < mid then fst (last a) else fst (step lo prev)))"
      by (rule "1.IH"[OF True refl]) (use 1(2,3) True in auto)
    moreover have "run_range step (lo + 1) mid (fst (step lo prev)) \<noteq> []" if "lo + 1 < mid"
      using that by (subst run_range.simps) (simp add: Let_def)
    moreover have "run_range step (lo + 1) mid (fst (step lo prev)) = []" if "\<not> lo + 1 < mid"
      using that by (simp add: run_range.simps)
    ultimately show ?thesis using True 1(3)
      by (cases "lo + 1 < mid") (simp_all add: run_range.simps[of step lo hi prev] run_range.simps[of step lo mid prev] Let_def)
  next
    case False
    with 1(2) have "lo = mid" by simp
    then show ?thesis by (simp add: run_range.simps[of step mid mid prev])
  qed
qed

lemma repair_range:
  assumes "length pre = i" "i \<le> hi"
  shows "repair step i hi prev (pre @ run_range step i hi p0 @ post) = pre @ run_range step i hi prev @ post"
  using assms
proof (induction "hi - i" arbitrary: i prev p0 pre)
  case 0
  then show ?case by (simp add: repair.simps run_range.simps)
next
  case (Suc k)
  then have i: "i < hi" by simp
  define r where "r = step i prev"
  have n: "(pre @ run_range step i hi p0 @ post) ! i = step i p0"
    using Suc.prems i by (simp add: nth_append run_range.simps[of step i hi p0] Let_def)
  show ?case
  proof (cases "r = step i p0")
    case True
    then have "run_range step i hi p0 = run_range step i hi prev"
      using i by (simp add: run_range.simps[of step i hi] r_def Let_def)
    then show ?thesis using n True i by (simp add: repair.simps[of step i] r_def[symmetric] Let_def)
  next
    case False
    have u: "(pre @ run_range step i hi p0 @ post)[i := r] = (pre @ [r]) @ run_range step (i + 1) hi (fst (step i p0)) @ post"
      using Suc.prems(1) i by (simp add: list_update_append run_range.simps[of step i hi p0] Let_def)
    have "repair step (i + 1) hi (fst r) ((pre @ [r]) @ run_range step (i + 1) hi (fst (step i p0)) @ post) =
        (pre @ [r]) @ run_range step (i + 1) hi (fst r) @ post"
      by (rule Suc.hyps(1)) (use Suc.hyps(2) Suc.prems i in auto)
    then show ?thesis using False i n u
      by (simp add: repair.simps[of step i] run_range.simps[of step i hi prev] r_def[symmetric] Let_def)
  qed
qed

lemma forward_pass_sequential:
  assumes "0 < nw"
  shows "forward_pass step nb nw = run_range step 0 nb 0"
proof -
  define c where "c w = nb * w div nw" for w
  define sh where "sh a = concat (map (\<lambda>w. run_range step (c w) (c (w + 1)) 0) [a..<nw])" for a
  have mono: "c w \<le> c (Suc w)" for w by (simp add: c_def div_le_mono)
  have rs: "repair_shard step nb nw rs (Suc w) = (if c (Suc w) = 0 \<or> c (Suc w) \<ge> c (Suc (Suc w)) then rs
      else repair step (c (Suc w)) (c (Suc (Suc w))) (fst (rs ! (c (Suc w) - 1))) rs)" for rs w
    by (simp only: repair_shard_def c_def Let_def Suc_eq_plus1)
  have c0: "c 0 = 0" and cn: "c nw = nb" using assms by (simp_all add: c_def)
  have "foldl (repair_shard step nb nw) (sh 0) [1..<Suc w] = run_range step 0 (c (Suc w)) 0 @ sh (Suc w)" if "w < nw" for w
    using that
  proof (induction w)
    case 0
    then show ?case by (simp add: sh_def upt_conv_Cons c0)
  next
    case (Suc w)
    have sh: "sh (Suc w) = run_range step (c (Suc w)) (c (Suc (Suc w))) 0 @ sh (Suc (Suc w))"
      using Suc.prems by (simp add: sh_def upt_conv_Cons)
    define a where "a = run_range step 0 (c (Suc w)) 0"
    have la: "length a = c (Suc w)" by (simp add: a_def)
    have step1: "repair_shard step nb nw (a @ sh (Suc w)) (Suc w) = run_range step 0 (c (Suc (Suc w))) 0 @ sh (Suc (Suc w))"
    proof (cases "c (Suc w) = 0 \<or> c (Suc w) \<ge> c (Suc (Suc w))")
      case True
      have "a @ run_range step (c (Suc w)) (c (Suc (Suc w))) 0 = run_range step 0 (c (Suc (Suc w))) 0"
      proof (cases "c (Suc w) = 0")
        case True
        then show ?thesis by (simp add: a_def run_range.simps[of step 0 0])
      next
        case False
        with True have "c (Suc (Suc w)) = c (Suc w)" using mono[of "Suc w"] by simp
        then show ?thesis by (simp add: a_def run_range.simps[of step "c (Suc w)"])
      qed
      then show ?thesis using True sh by (simp add: rs)
    next
      case False
      then have "a \<noteq> []" using la by auto
      have l: "(a @ sh (Suc w)) ! (c (Suc w) - 1) = last a" using \<open>a \<noteq> []\<close> la False by (simp add: nth_append last_conv_nth)
      have "repair step (c (Suc w)) (c (Suc (Suc w))) (fst (last a)) (a @ run_range step (c (Suc w)) (c (Suc (Suc w))) 0 @ sh (Suc (Suc w))) =
          a @ run_range step (c (Suc w)) (c (Suc (Suc w))) (fst (last a)) @ sh (Suc (Suc w))"
        by (rule repair_range) (use la False in auto)
      moreover have "run_range step 0 (c (Suc (Suc w))) 0 = a @ run_range step (c (Suc w)) (c (Suc (Suc w))) (fst (last a))"
        using run_range_append[of 0 "c (Suc w)" "c (Suc (Suc w))" step 0] False mono[of "Suc w"] by (simp add: a_def Let_def)
      ultimately show ?thesis using False l sh by (simp add: rs)
    qed
    have "foldl (repair_shard step nb nw) (sh 0) [1..<Suc (Suc w)] = repair_shard step nb nw (foldl (repair_shard step nb nw) (sh 0) [1..<Suc w]) (Suc w)" by simp
    also have "\<dots> = repair_shard step nb nw (a @ sh (Suc w)) (Suc w)" using Suc by (simp add: a_def)
    finally show ?case using step1 by simp
  qed
  from this[of "nw - 1"] assms have "foldl (repair_shard step nb nw) (sh 0) [1..<nw] = run_range step 0 (c nw) 0 @ sh nw" by simp
  moreover have "sh nw = []" by (simp add: sh_def)
  moreover have "forward_pass step nb nw = foldl (repair_shard step nb nw) (sh 0) [1..<nw]"
    unfolding forward_pass_def sh_def c_def ..
  ultimately show ?thesis by (simp add: cn)
qed

section \<open>A matched block is where the map says\<close>

lemma try_entry_match:
  "(0 \<le> ss_dist s \<longrightarrow> matchAt J p (ss_best s)) \<Longrightarrow>
   0 \<le> ss_dist (try_entry J p q prev ents c s) \<longrightarrow> matchAt J p (ss_best (try_entry J p q prev ents c s))"
  by (auto simp: try_entry_def Let_def)

lemma try_window_match:
  "(0 \<le> ss_dist s \<longrightarrow> matchAt J p (ss_best s)) \<Longrightarrow>
   0 \<le> ss_dist (try_window J ix p prev q h s) \<longrightarrow> matchAt J p (ss_best (try_window J ix p prev q h s))"
  unfolding try_window_def Let_def by (auto intro!: try_entry_match[rule_format])

lemma search_windows_match:
  "(0 \<le> ss_dist s \<longrightarrow> matchAt J p (ss_best s)) \<Longrightarrow>
   0 \<le> ss_dist (search_windows J ix p prev qEnd q h s) \<longrightarrow> matchAt J p (ss_best (search_windows J ix p prev qEnd q h s))"
proof (induction J ix p prev qEnd q h s rule: search_windows.induct)
  case (1 J ix p prev qEnd q h s)
  show ?case
  proof (cases "q \<le> qEnd")
    case True
    from "1.IH"[OF True try_window_match[OF 1(2)]] True show ?thesis by (simp add: search_windows.simps[of J ix p prev qEnd q])
  next
    case False
    with 1(2) show ?thesis by (simp add: search_windows.simps[of J ix p prev qEnd q])
  qed
qed

definition placed_ok :: "mapping_job \<Rightarrow> nat \<Rightarrow> placement \<Rightarrow> bool" where
  "placed_ok J i = (\<lambda>(d, mt, am). (mt \<longrightarrow> \<not> am \<and> i * mj_block J + mj_block J \<le> length (mj_old J) \<and> matchAt J (i * mj_block J) d))"

lemma map_step_ok: "placed_ok J i (map_step J ix i prev)"
proof -
  define s where "s = search_windows J ix (i * mj_block J) prev (min (i * mj_block J + mj_block J + lookahead) (length (mj_old J) - mj_block J))
    (i * mj_block J) (hashWindow (slice (i * mj_block J) (i * mj_block J + mj_block J) (mj_old J))) \<lparr>ss_best = 0, ss_dist = - 1, ss_overflow = False\<rparr>"
  have "0 \<le> ss_dist s \<longrightarrow> matchAt J (i * mj_block J) (ss_best s)" unfolding s_def by (rule search_windows_match) simp
  then show ?thesis unfolding map_step_def Let_def s_def[symmetric] by (auto simp: placed_ok_def)
qed

lemma run_range_ok:
  "(\<And>i prev. R i (step i prev)) \<Longrightarrow> i < hi - lo \<Longrightarrow> R (lo + i) (run_range step lo hi prev ! i)"
proof (induction step lo hi prev arbitrary: i rule: run_range.induct)
  case (1 step lo hi prev)
  then show ?case
    by (cases "lo < hi"; cases i) (simp_all add: run_range.simps[of step lo hi prev] Let_def)
qed

lemma backward_pass_ok:
  "\<forall>i < length rs. placed_ok J i (rs ! i) \<Longrightarrow>
   length (backward_pass J k nx rs) = length rs \<and> (\<forall>i < length rs. placed_ok J i (backward_pass J k nx rs ! i))"
proof (induction J k nx rs rule: backward_pass.induct)
  case (2 J k nx rs)
  obtain d mt am where r: "rs ! k = (d, mt, am)" by (metis prod_cases3)
  have ok: "placed_ok J i (rs[k := (x, mt, am)] ! i)" if "am" "i < length rs" for x i
    using 2(3)[rule_format, OF that(2)] that r by (cases "i = k") (auto simp: placed_ok_def)
  show ?case
  proof (cases am)
    case False
    then show ?thesis using "2.IH"(1)[OF r[symmetric] refl False 2(3)] r by simp
  next
    case True
    then have "\<not> \<not> am" by simp
    from "2.IH"(2)[OF r[symmetric] refl this refl refl] ok[OF True] True r show ?thesis by (simp add: Let_def)
  qed
qed simp

lemma matchAt_equal:
  assumes "matchAt J p d" "mj_tol J = 0" "p + mj_block J \<le> length (mj_old J)"
  shows "0 \<le> int p + d \<and> slice (nat (int p + d)) (nat (int p + d) + mj_block J) (mj_new J) = slice p (p + mj_block J) (mj_old J) \<and>
    nat (int p + d) + mj_block J \<le> length (mj_new J)"
proof -
  have f: "0 \<le> int p + d" "int p + d + int (mj_block J) \<le> int (length (mj_new J))"
    "mismatches (slice p (p + mj_block J) (mj_old J)) (slice (nat (int p + d)) (nat (int p + d) + mj_block J) (mj_new J)) = 0"
    using assms(1,2) by (auto simp: matchAt_def Let_def split: if_splits)
  define a b where "a = slice p (p + mj_block J) (mj_old J)" and "b = slice (nat (int p + d)) (nat (int p + d) + mj_block J) (mj_new J)"
  have l: "length a = length b" using assms(3) f(1,2) by (auto simp: a_def b_def)
  have "filter (\<lambda>(x, y). x \<noteq> y) (zip a b) = []" using f(3) by (simp add: mismatches_def a_def b_def)
  then have eq: "(x, y) \<in> set (zip a b) \<Longrightarrow> x = y" for x y by (auto simp: filter_empty_conv)
  have "a = b"
  proof (rule nth_equalityI[OF l])
    fix i assume "i < length a"
    then have "(a ! i, b ! i) \<in> set (zip a b)" using l by (auto simp: set_zip)
    then show "a ! i = b ! i" by (rule eq)
  qed
  then show ?thesis using f by (simp add: a_def b_def)
qed

lemma buildDataMap_match:
  assumes "i < length (dm_delta (buildDataMap old new block align tol))" "dm_matched (buildDataMap old new block align tol) ! i"
  shows "i * block + block \<le> length old \<and>
    matchAt \<lparr>mj_old = old, mj_new = new, mj_block = block, mj_align = align, mj_tol = tol\<rparr> (i * block) (dm_delta (buildDataMap old new block align tol) ! i)"
proof (cases "length new < block \<or> length old < block")
  case True
  then show ?thesis using assms by (simp add: buildDataMap_def Let_def)
next
  case False
  define nb nw J ix where "nb = num_blocks (length old) block" and "nw = (if nb < 4096 then 1 else mapWorkers)"
    and "J = \<lparr>mj_old = old, mj_new = new, mj_block = block, mj_align = align, mj_tol = tol\<rparr>" and "ix = buildWinIndex new block"
  define fp where "fp = forward_pass (map_step J ix) nb nw"
  have fp: "fp = run_range (map_step J ix) 0 nb 0"
    unfolding fp_def by (rule forward_pass_sequential) (simp add: nw_def mapWorkers_def)
  have "\<forall>i < length fp. placed_ok J i (fp ! i)"
    using run_range_ok[of "placed_ok J" "map_step J ix" _ nb 0, OF map_step_ok] by (simp add: fp)
  from backward_pass_ok[OF this, of nb "(0, False)"] have
    b: "length (backward_pass J nb (0, False) fp) = length fp" "\<And>i. i < length fp \<Longrightarrow> placed_ok J i (backward_pass J nb (0, False) fp ! i)" by auto
  have dm: "dm_delta (buildDataMap old new block align tol) = map fst (backward_pass J nb (0, False) fp)"
    "dm_matched (buildDataMap old new block align tol) = map (fst \<circ> snd) (backward_pass J nb (0, False) fp)"
    using False by (auto simp: buildDataMap_def Let_def fp_def nb_def nw_def J_def ix_def)
  have "i < length fp" using assms(1) dm(1) b(1) by simp
  moreover obtain d mt am where r: "backward_pass J nb (0, False) fp ! i = (d, mt, am)" by (metis prod_cases3)
  ultimately have "mt" "dm_delta (buildDataMap old new block align tol) ! i = d" using assms(2) b(1) dm by simp_all
  with b(2)[OF \<open>i < length fp\<close>] r show ?thesis by (simp add: placed_ok_def J_def)
qed

end
