(* ===== verification/Match.thy ===== *)
theory Match
  imports X86 DataMap
begin

text \<open>
  \<^verbatim>\<open>delta/match.go\<close>: which old function each new function is, by name, by normalised name and by the
  hash of its code.  Index \<open>-1\<close> means no counterpart.  The pairing is one-to-one.
\<close>

section \<open>Names\<close>

definition is_digit :: "byte \<Rightarrow> bool" where
  "is_digit b \<longleftrightarrow> 48 \<le> b \<and> b \<le> 57"

text \<open>\<^verbatim>\<open>ReplaceAllString\<close> of a literal prefix followed by digits.\<close>

function renumber :: "bytes \<Rightarrow> bytes \<Rightarrow> bytes" where
  "renumber pre s =
     (case s of [] \<Rightarrow> []
      | c # cs \<Rightarrow>
          if pre \<noteq> [] \<and> has_prefix s pre \<and> takeWhile is_digit (drop (length pre) s) \<noteq> []
          then pre @ to_bytes ''#'' @ renumber pre (dropWhile is_digit (drop (length pre) s))
          else c # renumber pre cs)"
  by pat_completeness auto
termination
proof (relation "measure (\<lambda>(pre, s). length s)", goal_cases)
  case (2 pre s c cs)
  have "length (dropWhile is_digit (drop (length pre) s)) \<le> length (drop (length pre) s)" by (rule length_dropWhile_le)
  moreover have "length (drop (length pre) s) < length s" using 2 by (cases pre; cases s) auto
  ultimately have "length (dropWhile is_digit (drop (length pre) s)) < length s" by linarith
  then show ?case by simp
qed simp_all

declare renumber.simps [simp del]

definition normName :: "bytes \<Rightarrow> bytes" where
  "normName s = renumber (to_bytes ''.gowrap'') (renumber (to_bytes ''.deferwrap'') (renumber (to_bytes ''.func'') s))"

section \<open>Pairing\<close>

record funcmatch =
  mt_newToOld :: "int list"
  mt_oldToNew :: "int list"

definition unpaired :: "bytes list \<Rightarrow> int list \<Rightarrow> bytes \<Rightarrow> nat list" where
  "unpaired oldKeys oldToNew k = filter (\<lambda>i. oldToNew ! i < 0 \<and> oldKeys ! i = k) [0..<length oldKeys]"

definition pair_step :: "bytes list \<Rightarrow> (bytes \<Rightarrow> nat list) \<times> funcmatch \<Rightarrow> nat \<Rightarrow> (bytes \<Rightarrow> nat list) \<times> funcmatch" where
  "pair_step newKeys = (\<lambda>(byKey, m) j.
     if mt_newToOld m ! j \<ge> 0 then (byKey, m)
     else case byKey (newKeys ! j) of [] \<Rightarrow> (byKey, m)
       | i # rest \<Rightarrow> (byKey(newKeys ! j := rest),
           m\<lparr>mt_newToOld := (mt_newToOld m)[j := int i], mt_oldToNew := (mt_oldToNew m)[i := int j]\<rparr>))"

definition pair_by :: "bytes list \<Rightarrow> bytes list \<Rightarrow> funcmatch \<Rightarrow> funcmatch" where
  "pair_by oldKeys newKeys m =
     snd (foldl (pair_step newKeys) (unpaired oldKeys (mt_oldToNew m), m) [0..<length newKeys])"

definition contentHashes :: "golib \<Rightarrow> bin \<Rightarrow> int list \<Rightarrow> derror + uint64 list" where
  "contentHashes L b paired =
     mapR (\<lambda>i. if paired ! i < 0 then bindR (FuncBytes b (bn_funcs b ! i)) (ContentHash L) else Inr 0) [0..<length (bn_funcs b)]"

definition hash_key :: "uint64 \<Rightarrow> bytes" where
  "hash_key h = 0 # le_bytes 8 (unat h)"

definition matchFuncs :: "golib \<Rightarrow> bin \<Rightarrow> bin \<Rightarrow> derror + funcmatch" where
  "matchFuncs L old new =
     (let on = map fn_name (bn_funcs old); nn = map fn_name (bn_funcs new);
          m0 = \<lparr>mt_newToOld = replicate (length nn) (- 1), mt_oldToNew = replicate (length on) (- 1)\<rparr>;
          m1 = pair_by on nn m0;
          m2 = pair_by (map normName on) (map normName nn) m1 in
      bindR (contentHashes L old (mt_oldToNew m2)) (\<lambda>oh.
      bindR (contentHashes L new (mt_newToOld m2)) (\<lambda>nh.
        Inr (pair_by (map hash_key oh) (map hash_key nh) m2))))"

text \<open>A pairing: each side points back at the other, or nowhere.\<close>

definition points_back :: "int list \<Rightarrow> int list \<Rightarrow> bool" where
  "points_back a b \<longleftrightarrow> (\<forall>j < length a. a ! j = - 1 \<or> (\<exists>i < length b. a ! j = int i \<and> b ! i = int j))"

definition is_pairing :: "nat \<Rightarrow> nat \<Rightarrow> funcmatch \<Rightarrow> bool" where
  "is_pairing no nn m \<longleftrightarrow> length (mt_newToOld m) = nn \<and> length (mt_oldToNew m) = no \<and>
     points_back (mt_newToOld m) (mt_oldToNew m) \<and> points_back (mt_oldToNew m) (mt_newToOld m)"

lemma points_back_pair:
  assumes "points_back a b" "a ! j < 0" "b ! i < 0" "i < length b" "j < length a"
  shows "points_back (a[j := int i]) (b[i := int j])"
  unfolding points_back_def
proof (intro allI impI)
  fix k assume k: "k < length (a[j := int i])"
  show "a[j := int i] ! k = - 1 \<or> (\<exists>l < length (b[i := int j]). a[j := int i] ! k = int l \<and> b[i := int j] ! l = int k)"
  proof (cases "k = j")
    case False
    then have "a ! k = - 1 \<or> (\<exists>l < length b. a ! k = int l \<and> b ! l = int k)" using assms(1) k by (simp add: points_back_def)
    moreover have "l \<noteq> i" if "b ! l = int k" for l using that assms(3) by auto
    ultimately show ?thesis using False by (metis length_list_update nth_list_update_neq)
  qed (use assms(4,5) in auto)
qed

definition pool_ok :: "(bytes \<Rightarrow> nat list) \<Rightarrow> int list \<Rightarrow> bool" where
  "pool_ok byKey otn \<longleftrightarrow> (\<forall>k. distinct (byKey k) \<and> (\<forall>i \<in> set (byKey k). i < length otn \<and> otn ! i < 0)) \<and>
     (\<forall>k k'. k \<noteq> k' \<longrightarrow> set (byKey k) \<inter> set (byKey k') = {})"

lemma pair_step_ok:
  assumes "is_pairing no nn m" "pool_ok byKey (mt_oldToNew m)" "j < nn" "pair_step newKeys (byKey, m) j = (byKey', m')"
  shows "is_pairing no nn m' \<and> pool_ok byKey' (mt_oldToNew m')"
proof (cases "mt_newToOld m ! j \<ge> 0 \<or> byKey (newKeys ! j) = []")
  case True
  then show ?thesis using assms by (auto simp: pair_step_def split: list.splits)
next
  case False
  then obtain i rest where k: "byKey (newKeys ! j) = i # rest" and j: "mt_newToOld m ! j < 0" by (cases "byKey (newKeys ! j)") auto
  have m': "m' = m\<lparr>mt_newToOld := (mt_newToOld m)[j := int i], mt_oldToNew := (mt_oldToNew m)[i := int j]\<rparr>"
    "byKey' = byKey(newKeys ! j := rest)" using assms(4) k j by (auto simp: pair_step_def)
  have pool: "distinct (byKey k)" "l \<in> set (byKey k) \<Longrightarrow> l < length (mt_oldToNew m) \<and> mt_oldToNew m ! l < 0"
    "k \<noteq> k' \<Longrightarrow> set (byKey k) \<inter> set (byKey k') = {}" for k k' l using assms(2) by (auto simp: pool_ok_def)
  have i: "i < length (mt_oldToNew m)" "mt_oldToNew m ! i < 0" "i \<notin> set rest" "distinct rest"
    using pool(1)[of "newKeys ! j"] pool(2)[of i "newKeys ! j"] k by auto
  have "is_pairing no nn m'" unfolding is_pairing_def m'(1)
    using assms(1,3) points_back_pair[of "mt_newToOld m" "mt_oldToNew m" j i] points_back_pair[of "mt_oldToNew m" "mt_newToOld m" i j] i j
    by (auto simp: is_pairing_def)
  moreover have sub: "set (byKey' k') \<subseteq> set (byKey k')" for k' using k by (auto simp: m'(2))
  have "distinct (byKey' k')" for k' using pool(1)[of k'] i(4) by (simp add: m'(2))
  moreover have "l < length (mt_oldToNew m') \<and> mt_oldToNew m' ! l < 0" if "l \<in> set (byKey' k')" for k' l
  proof -
    have "l \<noteq> i"
    proof (cases "k' = newKeys ! j")
      case True
      then show ?thesis using that i(3) by (auto simp: m'(2))
    next
      case False
      then show ?thesis using that pool(3)[OF False] k by (auto simp: m'(2))
    qed
    then show ?thesis using sub that pool(2) by (auto simp: m'(1))
  qed
  moreover have "set (byKey' k') \<inter> set (byKey' k'') = {}" if "k' \<noteq> k''" for k' k''
    using pool(3)[OF that] sub by blast
  ultimately show ?thesis by (simp add: pool_ok_def)
qed

lemma pair_by_ok:
  assumes "is_pairing no nn m" "length oldKeys = no" "length newKeys = nn"
  shows "is_pairing no nn (pair_by oldKeys newKeys m)"
proof -
  have "pool_ok (unpaired oldKeys (mt_oldToNew m)) (mt_oldToNew m)"
    using assms by (auto simp: pool_ok_def unpaired_def is_pairing_def)
  moreover have "is_pairing no nn (snd (foldl (pair_step newKeys) (byKey, m) js)) \<and>
      pool_ok (fst (foldl (pair_step newKeys) (byKey, m) js)) (mt_oldToNew (snd (foldl (pair_step newKeys) (byKey, m) js)))"
    if "pool_ok byKey (mt_oldToNew m)" "set js \<subseteq> {..<nn}" "is_pairing no nn m" for byKey m js
    using that
  proof (induction js arbitrary: byKey m)
    case (Cons j js)
    obtain byKey' m' where s: "pair_step newKeys (byKey, m) j = (byKey', m')" by fastforce
    from pair_step_ok[OF Cons.prems(3,1) _ s] Cons.prems(2) Cons.IH[of byKey' m'] s show ?case by simp
  qed simp
  ultimately show ?thesis using assms by (auto simp: pair_by_def atLeast0LessThan)
qed

lemma matchFuncs_pairing:
  assumes "matchFuncs L old new = Inr m"
  shows "is_pairing (length (bn_funcs old)) (length (bn_funcs new)) m"
proof -
  have "is_pairing (length (bn_funcs old)) (length (bn_funcs new))
      \<lparr>mt_newToOld = replicate (length (bn_funcs new)) (- 1), mt_oldToNew = replicate (length (bn_funcs old)) (- 1)\<rparr>"
    by (simp add: is_pairing_def points_back_def)
  then show ?thesis
    using assms by (auto simp: matchFuncs_def Let_def bindR_eq_Inr contentHashes_def intro!: pair_by_ok dest: length_mapR)
qed

end
