(* ===== verification/Shift.thy ===== *)
theory Shift
  imports Match
begin

text \<open>
  \<^verbatim>\<open>delta/shifttab.go\<close>: how far the variables of the sections without content moved, derived from
  the references of unchanged functions, and its encoding, which round-trips.  The samples are
  gathered function by function; the code gathers them by worker and then sorts them.
\<close>

section \<open>Tables\<close>

record shiftTable =
  st_offs :: "uint64 list"
  st_deltas :: "int list"

definition st_Map :: "shiftTable option \<Rightarrow> uint64 \<Rightarrow> uint64" where
  "st_Map t off = (case t of None \<Rightarrow> off | Some t \<Rightarrow>
     let i = sort_Search (length (st_offs t)) (\<lambda>i. st_offs t ! i > off) in
     if i = 0 then off else off + word_of_int (st_deltas t ! (i - 1)))"

fun st_encode_from :: "uint64 \<Rightarrow> int \<Rightarrow> (uint64 \<times> int) list \<Rightarrow> bytes" where
  "st_encode_from po pd [] = []"
| "st_encode_from po pd ((off, d) # es) =
     put_uvarint (unat (off - po)) @ put_varint (wrap64 (d - pd)) @ st_encode_from off d es"

definition st_encode :: "shiftTable \<Rightarrow> bytes" where
  "st_encode t = st_encode_from 0 0 (zip (st_offs t) (st_deltas t))"

text \<open>The reader loses at least one byte a round, or fails.\<close>

lemma r_u_shorter: "length (rb (snd (r_u r))) \<le> length (rb r)" "rb r \<noteq> [] \<Longrightarrow> length (rb (snd (r_u r))) < length (rb r)"
  by (auto simp: r_u_def r_fail_def split: prod.splits)

lemma r_s_le: "length (rb (snd (r_s r))) \<le> length (rb r)"
  by (auto simp: r_s_def r_fail_def split: prod.splits)

lemma r_us_shorter: "(x, r1) = r_u r \<Longrightarrow> (y, r2) = r_s r1 \<Longrightarrow> rb r \<noteq> [] \<Longrightarrow> length (rb r2) < length (rb r)"
  using r_u_shorter(2)[of r] r_s_le[of r1] by (metis order_le_less_trans snd_conv)

function st_decode_loop :: "uint64 \<Rightarrow> int \<Rightarrow> rbuf \<Rightarrow> (uint64 \<times> int) list \<times> rbuf" where
  "st_decode_loop po pd r =
     (if rb r \<noteq> [] \<and> rerr r = None then
        case r_u r of (o', r1) \<Rightarrow> case r_s r1 of (d, r2) \<Rightarrow>
        let po = po + of_nat o'; pd = wrap64 (pd + d) in
        case st_decode_loop po pd r2 of (es, r3) \<Rightarrow> ((po, pd) # es, r3)
      else ([], r))"
  by pat_completeness auto
termination
  by (relation "measure (\<lambda>(po, pd, r). length (rb r))") (auto dest: r_us_shorter)

declare st_decode_loop.simps [simp del]

definition decodeShiftTable :: "bytes \<Rightarrow> derror + shiftTable" where
  "decodeShiftTable b = (case st_decode_loop 0 0 (rbuf_of b) of (es, r) \<Rightarrow>
     case rerr r of Some e \<Rightarrow> Inl e | None \<Rightarrow> Inr \<lparr>st_offs = map fst es, st_deltas = map snd es\<rparr>)"

definition st_ok :: "shiftTable \<Rightarrow> bool" where
  "st_ok t \<longleftrightarrow> length (st_offs t) = length (st_deltas t) \<and> list_all in_int64 (st_deltas t)"

lemma wrap64_add_diff: "in_int64 d \<Longrightarrow> wrap64 (pd + wrap64 (d - pd)) = d"
proof -
  assume d: "in_int64 d"
  have "wrap64 (pd + wrap64 (d - pd)) = wrap64 d"
    unfolding wrap64_def by (simp add: mod_simps algebra_simps)
  then show ?thesis using wrap64_id[OF d] by simp
qed

lemma st_decode_encode:
  "list_all (\<lambda>e. in_int64 (snd e)) es \<Longrightarrow> st_decode_loop po pd (rbuf_of (st_encode_from po pd es)) = (es, rbuf_of [])"
proof (induction es arbitrary: po pd)
  case Nil
  show ?case by (simp add: st_decode_loop.simps)
next
  case (Cons e es)
  obtain off d where e: "e = (off, d)" by fastforce
  have "unat (off - po) < 2 ^ 64" using unsigned_less[of "off - po", where 'a = nat] by simp
  then show ?case using Cons wrap64_range[of "d - pd"]
    by (subst st_decode_loop.simps) (simp add: e wire wrap64_add_diff Let_def)
qed

lemma decodeShiftTable_encode:
  assumes "st_ok t"
  shows "decodeShiftTable (st_encode t) = Inr t"
proof -
  have "list_all (\<lambda>e. in_int64 (snd e)) (zip (st_offs t) (st_deltas t))"
    using assms by (auto simp: st_ok_def list_all_iff dest: set_zip_rightD)
  from st_decode_encode[OF this, of 0 0] show ?thesis
    using assms by (simp add: decodeShiftTable_def st_encode_def st_ok_def)
qed

section \<open>Deriving the tables\<close>

definition bssSects :: "bytes list" where
  "bssSects = [to_bytes ''.bss'', to_bytes ''.noptrbss'']"

text \<open>One-past-the-end references count for the section they end.\<close>

definition secOf :: "bin \<Rightarrow> uint64 \<Rightarrow> gosect option" where
  "secOf b t = (case SectionOf b t of Some s \<Rightarrow> Some s | None \<Rightarrow> if t > 0 then SectionOf b (t - 1) else None)"

type_synonym sample = "bytes \<times> uint64 \<times> int"

definition ref_sample :: "bin \<Rightarrow> bin \<Rightarrow> gofunc \<Rightarrow> gofunc \<Rightarrow> bytes \<Rightarrow> bytes \<Rightarrow> nat \<Rightarrow> nat \<Rightarrow> sample list" where
  "ref_sample old new f g oc nc a e =
     (let to = fn_entry f + of_nat e + scast (le32at oc a);
          tn = fn_entry g + of_nat e + scast (le32at nc a) in
      case secOf old to of None \<Rightarrow> []
      | Some s \<Rightarrow> if sc_name s \<notin> set bssSects then []
          else case bn_sects new (sc_name s) of None \<Rightarrow> []
            | Some ns \<Rightarrow> [(sc_name s, to - sc_addr s, wrap64 (sint (tn - sc_addr ns) - sint (to - sc_addr s)))])"

text \<open>The samples of one function: none at all when its code differs outside the PC-relative fields.\<close>

function func_samples :: "golib \<Rightarrow> bin \<Rightarrow> bin \<Rightarrow> gofunc \<Rightarrow> gofunc \<Rightarrow> bytes \<Rightarrow> bytes \<Rightarrow> nat \<Rightarrow> sample list \<Rightarrow> derror + sample list" where
  "func_samples L old new f g oc nc k local =
     (if k < length oc then
        (case decode_at L oc k of
           None \<Rightarrow> if oc ! k \<noteq> nc ! k then Inr [] else func_samples L old new f g oc nc (k + 1) local
         | Some ins \<Rightarrow>
             let e = min (k + in_len ins) (length oc) in
             if has_field oc k ins then
               let a = k + in_pcrelOff ins; b = a + in_pcrel ins in
               if slice k a oc \<noteq> slice k a nc then Inr []
               else bindR (cutR oc [] b e) (\<lambda>x. bindR (cutR nc [] b e) (\<lambda>y.
                 if x \<noteq> y then Inr []
                 else func_samples L old new f g oc nc e (if in_pcrel ins = 4 then local @ ref_sample old new f g oc nc a e else local)))
             else if slice k e oc \<noteq> slice k e nc then Inr []
             else func_samples L old new f g oc nc e local)
      else Inr local)"
  by pat_completeness auto
termination
  by (relation "measure (\<lambda>(L, old, new, f, g, oc, nc, k, local). length oc - k)") (auto dest: decode_at_pos)

declare func_samples.simps [simp del]

definition pair_samples :: "golib \<Rightarrow> bin \<Rightarrow> bin \<Rightarrow> funcmatch \<Rightarrow> nat \<Rightarrow> derror + sample list" where
  "pair_samples L old new m j =
     (let g = bn_funcs new ! j; i = mt_newToOld m ! j in
      if i < 0 then Inr []
      else let f = bn_funcs old ! nat i in
        if fn_size f \<noteq> fn_size g then Inr []
        else bindR (FuncBytes old f) (\<lambda>oc. bindR (FuncBytes new g) (\<lambda>nc. func_samples L old new f g oc nc 0 [])))"

fun shift_runs :: "int \<Rightarrow> (uint64 \<times> int) list \<Rightarrow> (uint64 \<times> int) list" where
  "shift_runs cur [] = []"
| "shift_runs cur ((off, d) # ss) = (if d \<noteq> cur then (off, d) # shift_runs d ss else shift_runs cur ss)"

definition samples_table :: "(uint64 \<times> int) list \<Rightarrow> shiftTable" where
  "samples_table ss =
     (let es = shift_runs 0 (sort_key (\<lambda>(off, d). int (unat off) * 2 ^ 64 + d) ss) in \<lparr>st_offs = map fst es, st_deltas = map snd es\<rparr>)"

definition deriveShiftTables :: "golib \<Rightarrow> bin \<Rightarrow> bin \<Rightarrow> funcmatch \<Rightarrow> derror + (bytes \<times> shiftTable) list" where
  "deriveShiftTables L old new m =
     bindR (mapR (pair_samples L old new m) [0..<length (bn_funcs new)]) (\<lambda>sss.
       let ss = concat sss in
       Inr (map (\<lambda>n. (n, samples_table (map snd (filter (\<lambda>s. fst s = n) ss)))) (remdups (map fst ss))))"

lemma shift_runs_range: "list_all (\<lambda>e. in_int64 (snd e)) ss \<Longrightarrow> list_all (\<lambda>e. in_int64 (snd e)) (shift_runs cur ss)"
  by (induction cur ss rule: shift_runs.induct) auto

definition sample_ok :: "sample \<Rightarrow> bool" where
  "sample_ok s \<longleftrightarrow> in_int64 (snd (snd s)) \<and> fst s \<in> set bssSects"

lemma func_samples_ok:
  "func_samples L old new f g oc nc k local = Inr ss \<Longrightarrow> list_all sample_ok local \<Longrightarrow>
   list_all sample_ok ss"
proof (induction L old new f g oc nc k local rule: func_samples.induct)
  case (1 L old new f g oc nc k local)
  have r: "list_all sample_ok (ref_sample old new f g oc nc a e)" for a e
    by (auto simp: ref_sample_def sample_ok_def Let_def wrap64_range split: option.splits)
  show ?case
  proof (cases "k < length oc")
    case False
    then show ?thesis using "1.prems" by (simp add: func_samples.simps)
  next
    case True
    show ?thesis
    proof (cases "decode_at L oc k")
      case None
      then show ?thesis using "1.prems" True "1.IH"(1)[OF True None]
        by (subst (asm) func_samples.simps) (auto split: if_splits)
    next
      case (Some ins)
      then show ?thesis using "1.prems" True "1.IH"(2,3)[OF True Some refl] r
        by (subst (asm) func_samples.simps) (auto simp: Let_def bindR_eq_Inr split: if_splits)
    qed
  qed
qed

lemma pair_samples_ok:
  "pair_samples L old new m j = Inr ss \<Longrightarrow> list_all sample_ok ss"
  using func_samples_ok[of L old new _ _ _ _ 0 "[]"]
  by (auto simp: pair_samples_def Let_def bindR_eq_Inr split: if_splits)

lemma deriveShiftTables_ok:
  assumes "deriveShiftTables L old new m = Inr ts" "(n, t) \<in> set ts"
  shows "st_ok t \<and> n \<in> set bssSects \<and> distinct (map fst ts)"
proof -
  obtain sss where sss: "mapR (pair_samples L old new m) [0..<length (bn_funcs new)] = Inr sss"
    "ts = map (\<lambda>n. (n, samples_table (map snd (filter (\<lambda>s. fst s = n) (concat sss))))) (remdups (map fst (concat sss)))"
    using assms(1) by (auto simp: deriveShiftTables_def bindR_eq_Inr Let_def)
  have "list_all sample_ok ss" if "ss \<in> set sss" for ss
    using mapR_set[OF sss(1) that] pair_samples_ok by blast
  then have all: "list_all sample_ok (concat sss)" by (auto simp: list_all_iff)
  have "st_ok (samples_table (map snd (filter (\<lambda>s. fst s = n) (concat sss))))"
  proof -
    define ss where "ss = sort_key (\<lambda>(off, d). int (unat off) * 2 ^ 64 + d) (map snd (filter (\<lambda>s. fst s = n) (concat sss)))"
    have "list_all (\<lambda>e. in_int64 (snd e)) ss" using all by (fastforce simp: ss_def list_all_iff sample_ok_def)
    from shift_runs_range[OF this, of 0] show ?thesis
      unfolding samples_table_def ss_def[symmetric] by (simp add: st_ok_def Let_def list.pred_map comp_def)
  qed
  then show ?thesis using assms(2) all by (fastforce simp: sss(2) o_def list_all_iff sample_ok_def)
qed

end
