(* ===== verification/Regen.thy ===== *)
theory Regen
  imports Gobin
begin

unbundle bit_operations_syntax

text \<open>
  \<^verbatim>\<open>delta/gobin/regen.go\<close>: the pc lookup table the decoder regenerates from the function list, the
  record shape it assumes for a new function, and the length of a pc-value table.  The lookup
  table is related to what the runtime reads from it.
\<close>

section \<open>findfunctab\<close>

definition subbucketSize :: uint64 where "subbucketSize = 256"
definition bucketSize :: uint64 where "bucketSize = 4096"
definition subbuckets :: nat where "subbuckets = 16"

text \<open>\<open>-1\<close> marks a slot that no function has claimed.\<close>

definition set_slot :: "uint64 \<Rightarrow> nat \<Rightarrow> int list \<Rightarrow> derror + int list" where
  "set_slot slot fi idx = bindR (atR idx (unat slot)) (\<lambda>x. let v = int32_of (int fi) in
     Inr (if x < 0 \<or> x > v then idx[unat slot := v] else idx))"

text \<open>
  The first address of each sub-bucket the function reaches.  An address that wraps is below
  the first function, where the slot is out of range.
\<close>

function claim_slots :: "uint64 \<Rightarrow> nat \<Rightarrow> uint64 \<Rightarrow> uint64 \<Rightarrow> int list \<Rightarrow> derror + int list" where
  "claim_slots lo fi e p idx =
     (if p < e then bindR (set_slot ((p - lo) div subbucketSize) fi idx) (\<lambda>idx.
        if p + subbucketSize < p then Inl Panic else claim_slots lo fi e (p + subbucketSize) idx)
      else Inr idx)"
  by pat_completeness auto
termination
proof (relation "measure (\<lambda>(lo, fi, e, p, idx). unat e - unat p)", goal_cases)
  case (2 lo fi e p idx idx')
  have "p + subbucketSize \<noteq> p" by (simp add: subbucketSize_def)
  with 2(2) have "p < p + subbucketSize" by (meson linorder_neqE)
  then show ?case using 2(1) by (simp add: word_less_nat_alt)
qed simp

declare claim_slots.simps [simp del]

definition claim_func :: "uint64 \<Rightarrow> nat \<times> gofunc \<Rightarrow> int list \<Rightarrow> derror + int list" where
  "claim_func lo = (\<lambda>(fi, f) idx. bindR (claim_slots lo fi (fn_end f) (fn_entry f) idx)
     (set_slot ((fn_end f - 1 - lo) div subbucketSize) fi))"

definition put_bucket :: "int list \<Rightarrow> nat \<Rightarrow> bytes \<Rightarrow> derror + bytes" where
  "put_bucket idx i out =
     bindR (atR idx (i * subbuckets)) (\<lambda>base.
     bindR (put32 (i * (4 + subbuckets)) (word_of_int base) out) (\<lambda>out.
       copyFrom (i * (4 + subbuckets) + 4)
         (map (\<lambda>x. word_of_int (x - base)) (slice (i * subbuckets) (min (length idx) (i * subbuckets + subbuckets)) idx)) out))"

definition GenFindfunctab :: "gofunc list \<Rightarrow> derror + bytes" where
  "GenFindfunctab funcs =
     (if funcs = [] then Inl Panic
      else
        let lo = fn_entry (hd funcs); hi = fn_end (last funcs);
            n = unat ((hi - lo + subbucketSize - 1) div subbucketSize);
            nb = unat ((hi - lo + bucketSize - 1) div bucketSize) in
        if n > 2 ^ 46 then Inl Panic
        else bindR (foldR (claim_func lo) (enumerate 0 funcs) (replicate n (- 1)))
          (\<lambda>idx. foldR (put_bucket idx) [0..<nb] (replicate (4 * nb + n) 0)))"

section \<open>What the runtime reads\<close>

text \<open>
  The runtime's lookup: a base index per bucket and a byte per sub-bucket.  \<open>findfunc\<close> is where
  its search for the function of a pc starts.
\<close>

definition findfunc :: "bytes \<Rightarrow> uint64 \<Rightarrow> uint64 \<Rightarrow> nat" where
  "findfunc tab lo pc = (let x = unat (pc - lo); b = x div 4096 * 20 in
     unat (le32at tab b) + unat (tab ! (b + 4 + x mod 4096 div 256)))"

text \<open>A function list the linker lays out: contiguous, no function shorter than its alignment.\<close>

definition laid_out :: "gofunc list \<Rightarrow> bool" where
  "laid_out fs \<longleftrightarrow> fs \<noteq> [] \<and> length fs < 2 ^ 31 \<and> unat (fn_end (last fs)) + 4096 < 2 ^ 64 \<and>
     (\<forall>i < length fs. unat (fn_entry (fs ! i)) + 16 \<le> unat (fn_end (fs ! i))) \<and>
     (\<forall>i. Suc i < length fs \<longrightarrow> fn_entry (fs ! Suc i) = fn_end (fs ! i))"

definition marks :: "nat set \<Rightarrow> int \<Rightarrow> int list \<Rightarrow> int list \<Rightarrow> bool" where
  "marks S v idx idx' \<longleftrightarrow> length idx' = length idx \<and>
     (\<forall>s < length idx. idx' ! s = (if s \<in> S \<and> idx ! s < 0 then v else idx ! s))"

lemma marks_Un: "marks S v idx idx' \<Longrightarrow> marks T v idx' idx'' \<Longrightarrow> 0 \<le> v \<Longrightarrow> marks (S \<union> T) v idx idx''"
  by (auto simp: marks_def)

lemma set_slot_marks:
  assumes "unat slot < length idx" "fi < 2 ^ 31" "\<forall>x \<in> set idx. x \<le> int fi"
  shows "\<exists>idx'. set_slot slot fi idx = Inr idx' \<and> marks {unat slot} (int fi) idx idx' \<and> (\<forall>x \<in> set idx'. x \<le> int fi)"
proof -
  have le: "\<not> idx ! unat slot > int fi" using assms(1,3) nth_mem by (simp add: not_less)
  have v: "int32_of (int fi) = int fi" using assms(2) by (intro int32_of_id) auto
  have st: "set_slot slot fi idx = Inr (if idx ! unat slot < 0 then idx[unat slot := int fi] else idx)"
    using assms(1) le by (simp add: set_slot_def atR_def v Let_def)
  have "\<forall>x \<in> set (idx[unat slot := int fi]). x \<le> int fi" using assms(3) set_update_subset_insert by fastforce
  then show ?thesis using assms(1,3) unfolding st by (auto simp: marks_def nth_list_update)
qed

lemma slot_of:
  assumes "unat lo \<le> unat p"
  shows "unat ((p - lo) div subbucketSize) = (unat p - unat lo) div 256"
  using assms by (simp add: subbucketSize_def unat_div unat_sub word_le_nat_alt)

lemma claim_slots_marks:
  assumes "unat lo \<le> unat p" "unat p \<le> unat e + 255" "unat e + 256 < 2 ^ 64" "(unat e - 1 - unat lo) div 256 < length idx"
    and "unat lo < unat e" "fi < 2 ^ 31" "\<forall>x \<in> set idx. x \<le> int fi"
  shows "\<exists>idx'. claim_slots lo fi e p idx = Inr idx' \<and> (\<forall>x \<in> set idx'. x \<le> int fi) \<and>
    marks {s. (unat p - unat lo) div 256 \<le> s \<and> s * 256 + (unat p - unat lo) mod 256 < unat e - unat lo} (int fi) idx idx'"
  using assms
proof (induction lo fi e p idx rule: claim_slots.induct)
  case (1 lo fi e p idx)
  define d where "d = unat p - unat lo"
  show ?case
  proof (cases "p < e")
    case True
    then have pe: "unat p < unat e" by (simp add: word_less_nat_alt)
    have s: "unat ((p - lo) div subbucketSize) = d div 256" using slot_of[OF 1(2)] by (simp add: d_def)
    have "d div 256 \<le> (unat e - 1 - unat lo) div 256" using pe by (intro div_le_mono) (simp add: d_def)
    then have "d div 256 < length idx" using 1(5) by simp
    from set_slot_marks[of "(p - lo) div subbucketSize" idx fi] this s 1(7,8) obtain i1 where
      i1: "set_slot ((p - lo) div subbucketSize) fi idx = Inr i1" "marks {d div 256} (int fi) idx i1" "\<forall>x \<in> set i1. x \<le> int fi" by auto
    have len: "length i1 = length idx" using i1(2) by (simp add: marks_def)
    have u: "unat (p + subbucketSize) = unat p + 256"
    proof -
      have "unat p + unat (subbucketSize) < 2 ^ LENGTH(64)" using pe 1(4) by (simp add: subbucketSize_def)
      then show ?thesis using unat_add_lem[of p subbucketSize] by (simp add: subbucketSize_def)
    qed
    have nw: "\<not> p + subbucketSize < p" using u by (simp add: word_less_nat_alt)
    have d': "unat (p + subbucketSize) - unat lo = d + 256" using u 1(2) by (simp add: d_def)
    have "\<exists>idx'. claim_slots lo fi e (p + subbucketSize) i1 = Inr idx' \<and> (\<forall>x \<in> set idx'. x \<le> int fi) \<and>
      marks {s. (d + 256) div 256 \<le> s \<and> s * 256 + (d + 256) mod 256 < unat e - unat lo} (int fi) i1 idx'"
      using "1.IH"[OF True nw] 1 pe u i1 len unfolding d' by simp
    then obtain i2 where i2: "claim_slots lo fi e (p + subbucketSize) i1 = Inr i2" "\<forall>x \<in> set i2. x \<le> int fi"
      "marks {s. (d + 256) div 256 \<le> s \<and> s * 256 + (d + 256) mod 256 < unat e - unat lo} (int fi) i1 i2" by blast
    have "marks ({d div 256} \<union> {s. (d + 256) div 256 \<le> s \<and> s * 256 + (d + 256) mod 256 < unat e - unat lo}) (int fi) idx i2"
      by (rule marks_Un[OF i1(2) i2(3)]) simp
    moreover have "{d div 256} \<union> {s. (d + 256) div 256 \<le> s \<and> s * 256 + (d + 256) mod 256 < unat e - unat lo}
      = {s. d div 256 \<le> s \<and> s * 256 + d mod 256 < unat e - unat lo}"
    proof -
      have "d < unat e - unat lo" using pe 1(2) by (simp add: d_def)
      then have "d div 256 * 256 + d mod 256 < unat e - unat lo" by simp
      moreover have "(d + 256) mod 256 = d mod 256" "(d + 256) div 256 = d div 256 + 1" by simp_all
      ultimately show ?thesis by (auto simp: Suc_le_eq order_le_less)
    qed
    ultimately show ?thesis using True nw i1(1) i2(1,2) by (subst claim_slots.simps) (simp add: d_def)
  next
    case False
    then have "unat e \<le> unat p" by (simp add: word_less_nat_alt not_less)
    then have "unat e - unat lo \<le> d" by (simp add: d_def)
    moreover have "s * 256 + d mod 256 \<ge> d" if "d div 256 \<le> s" for s
    proof -
      have "d div 256 * 256 \<le> s * 256" using that by (rule mult_le_mono1)
      then show ?thesis using div_mult_mod_eq[of d 256] by linarith
    qed
    ultimately have "{s. d div 256 \<le> s \<and> s * 256 + d mod 256 < unat e - unat lo} = {}" by (auto simp: not_less) (meson le_trans)
    then show ?thesis using False 1(8) unfolding d_def[symmetric] by (subst claim_slots.simps) (auto simp: marks_def)
  qed
qed

text \<open>One function claims every sub-bucket it reaches.\<close>

lemma claim_func_marks:
  assumes "unat lo \<le> unat (fn_entry f)" "unat (fn_entry f) < unat (fn_end f)" "unat (fn_end f) + 256 < 2 ^ 64"
    and "(unat (fn_end f) - 1 - unat lo) div 256 < length idx" "fi < 2 ^ 31" "\<forall>x \<in> set idx. x \<le> int fi"
  shows "\<exists>idx'. claim_func lo (fi, f) idx = Inr idx' \<and> (\<forall>x \<in> set idx'. x \<le> int fi) \<and>
    marks {(unat (fn_entry f) - unat lo) div 256..(unat (fn_end f) - 1 - unat lo) div 256} (int fi) idx idx'"
proof -
  define a b where "a = unat (fn_entry f) - unat lo" and "b = unat (fn_end f) - unat lo"
  have ab: "a < b" using assms(1,2) by (simp add: a_def b_def)
  obtain i1 where i1: "claim_slots lo fi (fn_end f) (fn_entry f) idx = Inr i1" "\<forall>x \<in> set i1. x \<le> int fi"
    "marks {s. a div 256 \<le> s \<and> s * 256 + a mod 256 < b} (int fi) idx i1"
    using claim_slots_marks[of lo "fn_entry f" "fn_end f" idx fi] assms unfolding a_def b_def by auto
  have len: "length i1 = length idx" using i1(3) by (simp add: marks_def)
  have e1: "unat (fn_end f - 1) = unat (fn_end f) - 1"
    using assms(2) by (simp add: unat_sub word_le_nat_alt)
  have s: "unat ((fn_end f - 1 - lo) div subbucketSize) = (b - 1) div 256"
    using slot_of[of lo "fn_end f - 1"] assms(1,2) e1 by (simp add: b_def)
  have "unat ((fn_end f - 1 - lo) div subbucketSize) < length i1" using assms(4) len s by (simp add: b_def)
  from set_slot_marks[OF this assms(5) i1(2)] s obtain i2 where
    i2: "set_slot ((fn_end f - 1 - lo) div subbucketSize) fi i1 = Inr i2" "marks {(b - 1) div 256} (int fi) i1 i2" "\<forall>x \<in> set i2. x \<le> int fi" by auto
  have "marks ({s. a div 256 \<le> s \<and> s * 256 + a mod 256 < b} \<union> {(b - 1) div 256}) (int fi) idx i2"
    by (rule marks_Un[OF i1(3) i2(2)]) simp
  moreover have "{s. a div 256 \<le> s \<and> s * 256 + a mod 256 < b} \<union> {(b - 1) div 256} = {a div 256..(b - 1) div 256}"
  proof -
    have "a div 256 \<le> (b - 1) div 256" using ab by (intro div_le_mono) simp
    moreover have "s \<le> (b - 1) div 256" if "s * 256 + a mod 256 < b" for s using that by (simp add: less_eq_div_iff_mult_less_eq)
    moreover have "s * 256 + a mod 256 < b" if "s < (b - 1) div 256" for s
    proof -
      have "(s + 1) * 256 \<le> (b - 1) div 256 * 256" using that by (intro mult_le_mono1) simp
      also have "\<dots> \<le> b - 1" by simp
      finally have "s * 256 + 256 \<le> b - 1" by simp
      moreover have "a mod 256 < 256" by simp
      ultimately show ?thesis using ab by linarith
    qed
    ultimately show ?thesis by (auto simp: order_le_less)
  qed
  ultimately show ?thesis using i1(1) i2 by (auto simp: claim_func_def a_def b_def diff_commute)
qed

text \<open>Where function \<open>i\<close> begins, and where the functions before it end.\<close>

lemma laid_out_mono:
  assumes "laid_out fs" "i \<le> j" "j < length fs"
  shows "unat (fn_entry (fs ! i)) + 16 * (j - i) \<le> unat (fn_entry (fs ! j))"
  using assms(2,3)
proof (induction rule: dec_induct)
  case (step n)
  then show ?case using assms(1) unfolding laid_out_def by (auto simp: Suc_diff_le dest!: spec[of _ n])
qed simp

definition slots_done :: "nat \<Rightarrow> gofunc list \<Rightarrow> nat \<Rightarrow> int list \<Rightarrow> bool" where
  "slots_done lo fs i idx \<longleftrightarrow> (\<forall>s < length idx.
     if i > 0 \<and> lo + 256 * s < unat (fn_end (fs ! (i - 1)))
     then \<exists>j < i. idx ! s = int j \<and> unat (fn_entry (fs ! j)) \<le> lo + 256 * s \<and> lo + 256 * s < unat (fn_end (fs ! j))
     else idx ! s = - 1)"

lemma slots_done_step:
  assumes "laid_out fs" "i < length fs" "slots_done lo fs i idx" "lo = unat (fn_entry (hd fs))" "\<forall>x \<in> set idx. x \<le> int i"
    and "marks {(unat (fn_entry (fs ! i)) - lo) div 256..(unat (fn_end (fs ! i)) - 1 - lo) div 256} (int i) idx idx'"
  shows "slots_done lo fs (Suc i) idx'"
  unfolding slots_done_def
proof (intro allI impI)
  fix s assume s: "s < length idx'"
  define a b where "a = unat (fn_entry (fs ! i))" and "b = unat (fn_end (fs ! i))"
  have ab: "a < b" using assms(1,2) by (auto simp: laid_out_def a_def b_def)
  have lo: "lo \<le> a" using laid_out_mono[OF assms(1), of 0 i] assms(1,2,4) by (simp add: a_def laid_out_def hd_conv_nth)
  have start: "if i = 0 then a = lo else a = unat (fn_end (fs ! (i - 1)))"
    using assms(1,2,4) by (cases i) (auto simp: laid_out_def a_def hd_conv_nth)
  have len: "s < length idx" using s assms(6) by (simp add: marks_def)
  have m: "idx' ! s = (if s \<in> {(a - lo) div 256..(b - 1 - lo) div 256} \<and> idx ! s < 0 then int i else idx ! s)"
    using assms(6) len by (simp add: marks_def a_def b_def)
  note d = assms(3)[unfolded slots_done_def, rule_format, OF len]
  show "if 0 < Suc i \<and> lo + 256 * s < unat (fn_end (fs ! (Suc i - 1)))
     then \<exists>j < Suc i. idx' ! s = int j \<and> unat (fn_entry (fs ! j)) \<le> lo + 256 * s \<and> lo + 256 * s < unat (fn_end (fs ! j))
     else idx' ! s = - 1"
  proof (cases "lo + 256 * s < a")
    case True
    with start d have "\<exists>j < i. idx ! s = int j \<and> unat (fn_entry (fs ! j)) \<le> lo + 256 * s \<and> lo + 256 * s < unat (fn_end (fs ! j))"
      by (auto split: if_splits)
    then show ?thesis using True ab m by (auto simp: b_def less_Suc_eq)
  next
    case False
    then have u: "idx ! s = - 1" using start d by (auto split: if_splits)
    show ?thesis
    proof (cases "lo + 256 * s < b")
      case True
      have "(a - lo) div 256 \<le> s" using False by (simp add: div_le_mono2 less_mult_imp_div_less)
      moreover have "s \<le> (b - 1 - lo) div 256" using True by (simp add: less_eq_div_iff_mult_less_eq)
      ultimately have "idx' ! s = int i" using m u by simp
      then show ?thesis using True False by (auto simp: a_def b_def)
    next
      case nb: False
      have "\<not> s \<le> (b - 1 - lo) div 256" using nb ab lo by (auto simp: less_eq_div_iff_mult_less_eq)
      then have "idx' ! s = - 1" using m u by simp
      then show ?thesis using nb by (simp add: b_def)
    qed
  qed
qed

lemma slots_done_all:
  assumes "laid_out fs" "lo = fn_entry (hd fs)" "n = (unat (fn_end (last fs)) - unat lo + 255) div 256" "i \<le> length fs"
  shows "\<exists>idx. foldR (claim_func lo) (enumerate 0 (take i fs)) (replicate n (- 1)) = Inr idx \<and> length idx = n \<and>
    slots_done (unat lo) fs i idx \<and> (\<forall>x \<in> set idx. x < int i)"
  using assms(4)
proof (induction i)
  case 0
  show ?case by (auto simp: slots_done_def)
next
  case (Suc i)
  then obtain idx where idx: "foldR (claim_func lo) (enumerate 0 (take i fs)) (replicate n (- 1)) = Inr idx" "length idx = n"
    "slots_done (unat lo) fs i idx" "\<forall>x \<in> set idx. x < int i" by auto
  have i: "i < length fs" using Suc.prems by simp
  define f where "f = fs ! i"
  have lo: "unat lo \<le> unat (fn_entry f)"
    using laid_out_mono[OF assms(1), of 0 i] assms(1,2) i by (simp add: f_def laid_out_def hd_conv_nth)
  have e: "unat (fn_entry f) < unat (fn_end f)" using assms(1) i by (auto simp: laid_out_def f_def)
  have last: "unat (fn_end f) \<le> unat (fn_end (last fs))"
  proof -
    have "last fs = fs ! (length fs - 1)" using assms(1) by (simp add: laid_out_def last_conv_nth)
    moreover have "unat (fn_end (fs ! i)) \<le> unat (fn_end (fs ! (length fs - 1)))"
    proof (cases "i = length fs - 1")
      case False
      then have "Suc i \<le> length fs - 1" using i by simp
      from laid_out_mono[OF assms(1) this] this i assms(1) show ?thesis
        unfolding laid_out_def by (auto dest!: spec[of _ i] spec[of _ "length fs - 1"])
    qed simp
    ultimately show ?thesis by (simp add: f_def)
  qed
  have sb: "(unat (fn_end f) - 1 - unat lo) div 256 < length idx"
  proof -
    have "(unat (fn_end f) - 1 - unat lo) div 256 \<le> (unat (fn_end (last fs)) - unat lo - 1) div 256"
      using last by (intro div_le_mono) simp
    also have "\<dots> < n" using last lo e assms(3) by (simp add: less_eq_Suc_le le_div_geq[of 256 "unat (fn_end (last fs)) - unat lo + 255"])
    finally show ?thesis using idx(2) by simp
  qed
  have le: "\<forall>x \<in> set idx. x \<le> int i" using idx(4) by fastforce
  have h: "unat (fn_end f) + 256 < 2 ^ 64" "i < 2 ^ 31" using assms(1) i last by (auto simp: laid_out_def)
  obtain idx' where
    c: "claim_func lo (i, f) idx = Inr idx'" "\<forall>x \<in> set idx'. x \<le> int i"
      "marks {(unat (fn_entry f) - unat lo) div 256..(unat (fn_end f) - 1 - unat lo) div 256} (int i) idx idx'"
    using claim_func_marks[OF lo e h(1) sb h(2) le] by blast
  have "enumerate 0 (take (Suc i) fs) = enumerate 0 (take i fs) @ [(i, f)]"
    using i by (simp add: take_Suc_conv_app_nth enumerate_append_eq f_def)
  then have "foldR (claim_func lo) (enumerate 0 (take (Suc i) fs)) (replicate n (- 1)) = Inr idx'"
    using idx(1) c(1) by (simp add: foldR_append)
  moreover have "slots_done (unat lo) fs (Suc i) idx'"
    by (rule slots_done_step[OF assms(1) i idx(3)]) (use assms(2) idx(4) c(3) in \<open>auto simp: f_def\<close>)
  moreover have "length idx' = n" using c(3) idx(2) by (simp add: marks_def)
  moreover have "\<forall>x \<in> set idx'. x < int (Suc i)" using c(2) by auto
  ultimately show ?case by blast
qed

text \<open>The table: twenty bytes a bucket, of which the last one may be cut short.\<close>

definition bucket_ok :: "int list \<Rightarrow> nat \<Rightarrow> bytes \<Rightarrow> bool" where
  "bucket_ok idx i out \<longleftrightarrow> le32at out (i * 20) = word_of_int (idx ! (i * 16)) \<and>
     (\<forall>j < 16. i * 16 + j < length idx \<longrightarrow> out ! (i * 20 + 4 + j) = word_of_int (idx ! (i * 16 + j) - idx ! (i * 16)))"

lemma bucket_ok_cong:
  assumes "bucket_ok idx i out" "\<And>k. i * 20 \<le> k \<Longrightarrow> k < i * 20 + 20 \<Longrightarrow> k < length out \<Longrightarrow> out' ! k = out ! k"
    and "length out' = length out" "i * 20 + 4 \<le> length out" "\<And>j. j < 16 \<Longrightarrow> i * 16 + j < length idx \<Longrightarrow> i * 20 + 4 + j < length out"
  shows "bucket_ok idx i out'"
proof -
  have "slice (i * 20) (i * 20 + 4) out' = slice (i * 20) (i * 20 + 4) out"
    using assms(2-4) by (intro nth_equalityI) auto
  then show ?thesis using assms by (auto simp: bucket_ok_def le32at_def)
qed

lemma put_bucket_ok:
  assumes "i * 16 < length idx" "length out = 4 * nb + length idx" "i < nb"
  shows "\<exists>out'. put_bucket idx i out = Inr out' \<and> length out' = length out \<and> bucket_ok idx i out' \<and>
    (\<forall>k < length out. k < i * 20 \<longrightarrow> out' ! k = out ! k)"
proof -
  define base where "base = idx ! (i * 16)"
  define w where "w = le_bytes 4 (unat (word_of_int base :: uint32))"
  define bs where "bs = map (\<lambda>x. word_of_int (x - base) :: byte) (slice (i * 16) (min (length idx) (i * 16 + 16)) idx)"
  have fits: "i * 20 + 4 \<le> length out" using assms by simp
  define o1 where "o1 = overwrite (i * 20) w out"
  have l1: "length o1 = length out" and lw: "length w = 4" using fits by (auto simp: o1_def w_def)
  define o2 where "o2 = overwrite (i * 20 + 4) bs o1"
  have lb: "length bs = min (length idx - i * 16) 16" by (simp add: bs_def)
  have fb: "i * 20 + 4 + length bs \<le> length o1" using assms lb l1 by auto
  have l2: "length o2 = length out" using l1 fits by (simp add: o2_def)
  have p1: "put32 (i * 20) (word_of_int base) out = Inr o1" unfolding put32_def o1_def w_def using fits by (rule if_P)
  have p2: "copyFrom (i * 20 + 4) bs o1 = Inr o2" using fits l1 by (simp add: copyFrom_def o2_def)
  have "atR idx (i * subbuckets) = Inr base" using assms(1) by (simp add: atR_def subbuckets_def base_def)
  then have p: "put_bucket idx i out = Inr o2"
    unfolding put_bucket_def using p1 p2 by (simp add: subbuckets_def bs_def)
  have n1: "o1 ! k = (if i * 20 \<le> k \<and> k < i * 20 + 4 then w ! (k - i * 20) else out ! k)" if "k < length out" for k
    using that fits nth_overwrite[of "i * 20" w out k] lw by (simp add: o1_def)
  have n2: "o2 ! k = (if i * 20 + 4 \<le> k \<and> k < i * 20 + 4 + length bs then bs ! (k - (i * 20 + 4)) else o1 ! k)" if "k < length out" for k
    using that fb nth_overwrite[of "i * 20 + 4" bs o1 k] l1 by (simp add: o2_def)
  have "slice (i * 20) (i * 20 + 4) o2 = w"
    using fits l2 lw by (intro nth_equalityI) (auto simp: n1 n2)
  moreover have "unat (word_of_int base :: uint32) mod 256 ^ 4 = unat (word_of_int base :: uint32)"
    using unsigned_less[of "word_of_int base :: uint32", where 'a = nat] by simp
  ultimately have a: "le32at o2 (i * 20) = word_of_int base" by (simp add: le32at_def w_def le_nat_bytes)
  have b: "o2 ! (i * 20 + 4 + j) = word_of_int (idx ! (i * 16 + j) - base)" if "j < 16" "i * 16 + j < length idx" for j
  proof -
    have "j < length bs" using that lb by simp
    moreover have "bs ! j = word_of_int (idx ! (i * 16 + j) - base)" using that by (simp add: bs_def)
    ultimately show ?thesis using fb l1 n2[of "i * 20 + 4 + j"] by simp
  qed
  have "bucket_ok idx i o2" using a b by (simp add: bucket_ok_def base_def)
  moreover have "o2 ! k = out ! k" if "k < length out" "k < i * 20" for k using that by (simp add: n1 n2)
  ultimately show ?thesis using p l2 by blast
qed

lemma put_buckets_ok:
  assumes "(nb - 1) * 16 < length idx" "k \<le> nb"
  shows "\<exists>out. foldR (put_bucket idx) [0..<k] (replicate (4 * nb + length idx) 0) = Inr out \<and>
    length out = 4 * nb + length idx \<and> (\<forall>i < k. bucket_ok idx i out)"
  using assms(2)
proof (induction k)
  case (Suc k)
  then obtain out where o: "foldR (put_bucket idx) [0..<k] (replicate (4 * nb + length idx) 0) = Inr out"
    "length out = 4 * nb + length idx" "\<forall>i < k. bucket_ok idx i out" by auto
  have "k * 16 \<le> (nb - 1) * 16" using Suc.prems by (intro mult_le_mono1) simp
  then have "k * 16 < length idx" using assms(1) by simp
  from put_bucket_ok[OF this o(2)] Suc.prems obtain out' where
    o': "put_bucket idx k out = Inr out'" "length out' = length out" "bucket_ok idx k out'" "\<forall>m < length out. m < k * 20 \<longrightarrow> out' ! m = out ! m" by auto
  have "bucket_ok idx i out'" if "i < k" for i
    by (rule bucket_ok_cong[of idx i out]) (use o o' that \<open>k * 16 < length idx\<close> Suc.prems in auto)
  with o(1,2) o' show ?case by (auto simp: foldR_append less_Suc_eq)
qed simp

text \<open>
  Within a bucket the index of the function at a sub-bucket's start grows by less than 256, so
  the byte holds the difference.
\<close>

lemma slots_close:
  assumes "laid_out fs" "slots_done lo fs (length fs) idx" "lo = unat (fn_entry (hd fs))"
    and "length idx = (unat (fn_end (last fs)) - lo + 255) div 256" "s \<le> t" "t < s + 16" "t < length idx"
  shows "\<exists>j k. idx ! s = int j \<and> idx ! t = int k \<and> j \<le> k \<and> k < j + 256 \<and> k < length fs \<and>
    unat (fn_entry (fs ! k)) \<le> lo + 256 * t \<and> lo + 256 * t < unat (fn_end (fs ! k))"
proof -
  have H: "lo < unat (fn_end (last fs))"
    using assms(1,3) laid_out_mono[OF assms(1), of 0 "length fs - 1"]
    by (auto simp: laid_out_def last_conv_nth hd_conv_nth dest!: spec[of _ "length fs - 1"])
  have in_t: "lo + 256 * u < unat (fn_end (last fs))" if "u < length idx" for u
  proof -
    have "u + 1 \<le> (unat (fn_end (last fs)) - lo + 255) div 256" using that assms(4) by simp
    then have "(u + 1) * 256 \<le> unat (fn_end (last fs)) - lo + 255" by (simp add: less_eq_div_iff_mult_less_eq)
    then show ?thesis using H by simp
  qed
  have ne: "fs \<noteq> []" using assms(1) by (simp add: laid_out_def)
  have get: "\<exists>j < length fs. idx ! u = int j \<and> unat (fn_entry (fs ! j)) \<le> lo + 256 * u \<and> lo + 256 * u < unat (fn_end (fs ! j))"
    if "u < length idx" for u
    using assms(2)[unfolded slots_done_def, rule_format, OF that] in_t[OF that] ne by (simp add: last_conv_nth split: if_splits)
  obtain j where j: "j < length fs" "idx ! s = int j" "unat (fn_entry (fs ! j)) \<le> lo + 256 * s" "lo + 256 * s < unat (fn_end (fs ! j))"
    using get[of s] assms(5,7) by auto
  obtain k where k: "k < length fs" "idx ! t = int k" "unat (fn_entry (fs ! k)) \<le> lo + 256 * t" "lo + 256 * t < unat (fn_end (fs ! k))"
    using get[of t] assms(7) by auto
  have next_entry: "unat (fn_end (fs ! i)) \<le> unat (fn_entry (fs ! m))" if "i < m" "m < length fs" for i m
    using laid_out_mono[OF assms(1), of "Suc i" m] assms(1) that by (auto simp: laid_out_def)
  have "j \<le> k"
  proof (rule ccontr)
    assume "\<not> j \<le> k"
    then have "unat (fn_end (fs ! k)) \<le> unat (fn_entry (fs ! j))" using next_entry j(1) by simp
    then show False using j(3) k(4) assms(5) by simp
  qed
  moreover have "k < j + 256"
  proof (cases "j = k")
    case False
    with \<open>j \<le> k\<close> have jk: "Suc j \<le> k" by simp
    have "unat (fn_end (fs ! j)) + 16 * (k - Suc j) \<le> unat (fn_entry (fs ! k))"
      using laid_out_mono[OF assms(1) jk k(1)] assms(1) jk k(1) by (auto simp: laid_out_def)
    then have "16 * (k - Suc j) < 256 * 15" using j(4) k(3) assms(6) by simp
    then show ?thesis by simp
  qed simp
  ultimately show ?thesis using j k by auto
qed

lemma GenFindfunctab_lookup:
  assumes "laid_out fs" "unat (fn_end (last fs)) - unat (fn_entry (hd fs)) < 2 ^ 48"
  shows "\<exists>tab. GenFindfunctab fs = Inr tab \<and>
    (\<forall>pc. fn_entry (hd fs) \<le> pc \<and> pc < fn_end (last fs) \<longrightarrow>
      (let k = findfunc tab (fn_entry (hd fs)) pc; x = unat (pc - fn_entry (hd fs)); start = unat (fn_entry (hd fs)) + x div 256 * 256 in
       k < length fs \<and> unat (fn_entry (fs ! k)) \<le> start \<and> start < unat (fn_end (fs ! k))))"
proof -
  define lo H where "lo = fn_entry (hd fs)" and "H = unat (fn_end (last fs)) - unat lo"
  define n nb where "n = (H + 255) div 256" and "nb = (H + 4095) div 4096"
  have le: "unat lo < unat (fn_end (last fs))"
    using assms(1) laid_out_mono[OF assms(1), of 0 "length fs - 1"]
    by (auto simp: laid_out_def last_conv_nth hd_conv_nth lo_def dest!: spec[of _ "length fs - 1"])
  have H: "0 < H" "H < 2 ^ 48" using le assms(2) by (simp_all add: H_def lo_def)
  have uH: "unat (fn_end (last fs) - lo) = H" using le by (simp add: unat_sub word_le_nat_alt H_def)
  have u1: "unat ((fn_end (last fs) - lo + subbucketSize - 1) div subbucketSize) = n"
  proof -
    have "unat (fn_end (last fs) - lo + 255) = H + 255" using uH H unat_add_lem[of "fn_end (last fs) - lo" 255] by simp
    then show ?thesis by (simp add: subbucketSize_def unat_div n_def add_diff_eq[symmetric])
  qed
  have u2: "unat ((fn_end (last fs) - lo + bucketSize - 1) div bucketSize) = nb"
  proof -
    have "unat (fn_end (last fs) - lo + 4095) = H + 4095" using uH H unat_add_lem[of "fn_end (last fs) - lo" 4095] by simp
    then show ?thesis by (simp add: bucketSize_def unat_div nb_def add_diff_eq[symmetric])
  qed
  obtain idx where idx: "foldR (claim_func lo) (enumerate 0 fs) (replicate n (- 1)) = Inr idx" "length idx = n" "slots_done (unat lo) fs (length fs) idx"
    using slots_done_all[OF assms(1) lo_def, of n "length fs"] by (auto simp: n_def H_def)
  have nbn: "(nb - 1) * 16 < length idx"
  proof -
    have "nb - 1 = (H - 1) div 4096" "n = (H - 1) div 256 + 1" using H(1) by (simp_all add: nb_def n_def div_add_self2[symmetric] le_div_geq)
    moreover have "(H - 1) div 4096 * 16 \<le> (H - 1) div 256" by (simp add: less_eq_div_iff_mult_less_eq)
    ultimately show ?thesis using idx(2) by simp
  qed
  from put_buckets_ok[OF nbn order_refl] obtain tab where tab: "foldR (put_bucket idx) [0..<nb] (replicate (4 * nb + n) 0) = Inr tab"
    "\<forall>i < nb. bucket_ok idx i tab" using idx(2) by auto
  have "n \<le> 2 ^ 46" using H by (simp add: n_def)
  then have gen: "GenFindfunctab fs = Inr tab"
    using assms(1) u1 u2 idx(1) tab(1) by (simp add: GenFindfunctab_def Let_def lo_def[symmetric] laid_out_def)
  show ?thesis
  proof (intro exI conjI allI impI)
    show "GenFindfunctab fs = Inr tab" by (rule gen)
    fix pc assume pc: "fn_entry (hd fs) \<le> pc \<and> pc < fn_end (last fs)"
    define x where "x = unat (pc - lo)"
    have x: "x < H" using pc le by (simp add: x_def H_def lo_def unat_sub word_le_nat_alt word_less_nat_alt diff_less_mono)
    define b j where "b = x div 4096" and "j = x mod 4096 div 256"
    have "x div 4096 = x div 256 div 16" by (simp add: div_mult2_eq[symmetric])
    moreover have "x mod 4096 div 256 = x div 256 mod 16" using mod_mult2_eq[of x 256 16] by simp
    ultimately have t: "b * 16 + j = x div 256" by (simp add: b_def j_def)
    have j16: "j < 16" by (simp add: j_def less_mult_imp_div_less)
    have bnb: "b < nb" using x by (simp add: b_def nb_def)
    have tn: "x div 256 < length idx" using x idx(2) by (simp add: n_def)
    have l: "unat lo = unat (fn_entry (hd fs))" by (simp add: lo_def)
    have len: "length idx = (unat (fn_end (last fs)) - unat lo + 255) div 256" by (simp add: idx(2) n_def H_def)
    have le1: "b * 16 \<le> x div 256" and le2: "x div 256 < b * 16 + 16" using t j16 by simp_all
    obtain p q where pq: "idx ! (b * 16) = int p" "idx ! (x div 256) = int q" "p \<le> q" "q < p + 256" "q < length fs"
        "unat (fn_entry (fs ! q)) \<le> unat lo + 256 * (x div 256)" "unat lo + 256 * (x div 256) < unat (fn_end (fs ! q))"
      using slots_close[OF assms(1) idx(3) l len le1 le2 tn] by blast
    have "le32at tab (b * 20) = word_of_int (int p)" "tab ! (b * 20 + 4 + j) = word_of_int (int q - int p)"
      using tab(2) bnb pq(1,2) j16 t tn by (auto simp: bucket_ok_def)
    moreover have "unat (word_of_int (int p) :: uint32) = p" using pq(3,5) assms(1) by (simp add: laid_out_def unat_of_nat take_bit_nat_eq_self)
    moreover have "unat (word_of_int (int q - int p) :: byte) = q - p"
    proof -
      have "(word_of_int (int q - int p) :: byte) = of_nat (q - p)" using pq(3) by (simp add: of_nat_diff)
      moreover have "unat (of_nat (q - p) :: byte) = q - p" by (rule unat_byte) (use pq(3,4) in simp)
      ultimately show ?thesis by simp
    qed
    ultimately have "findfunc tab lo pc = q" using pq(3) by (simp add: findfunc_def Let_def x_def[symmetric] b_def[symmetric] j_def[symmetric])
    then show "let k = findfunc tab (fn_entry (hd fs)) pc; x = unat (pc - fn_entry (hd fs)); start = unat (fn_entry (hd fs)) + x div 256 * 256 in
       k < length fs \<and> unat (fn_entry (fs ! k)) \<le> start \<and> start < unat (fn_end (fs ! k))"
      using pq(5-7) by (simp add: Let_def lo_def[symmetric] x_def[symmetric] mult.commute)
  qed
qed

text \<open>A first function without code makes the last slot wrap, and the write panics.\<close>

lemma GenFindfunctab_empty_first:
  assumes "fn_entry f = fn_end f"
  shows "GenFindfunctab (f # fs) = Inl Panic"
proof -
  have "unat ((fn_end f - 1 - fn_entry f) div subbucketSize) = 2 ^ 56 - 1"
    using assms by (simp add: subbucketSize_def unat_div)
  then have "claim_func (fn_entry f) (0, f) idx = Inl Panic" if "length idx \<le> 2 ^ 46" for idx
    using that assms by (simp add: claim_func_def claim_slots.simps set_slot_def atR_def)
  then show ?thesis by (simp add: GenFindfunctab_def Let_def)
qed

section \<open>Record shapes\<close>

text \<open>The most frequent shape, ties broken by the smaller one.\<close>

definition better_shape :: "(uint32 \<times> uint32) list \<Rightarrow> uint32 \<times> uint32 \<Rightarrow> (uint32 \<times> uint32) \<times> int \<Rightarrow> (uint32 \<times> uint32) \<times> int" where
  "better_shape shapes k best = (case best of (b, bestN) \<Rightarrow>
     let c = int (count_list shapes k) in
     if c > bestN \<or> c = bestN \<and> (fst k < fst b \<or> fst k = fst b \<and> snd k < snd b) then (k, c) else (b, bestN))"

definition ModalShape :: "bin \<Rightarrow> derror + uint32 \<times> uint32" where
  "ModalShape b =
     bindR (mapR (\<lambda>f. bindR (fn_Record (bn_pcln b) (fn_off f)) (\<lambda>(np, nf, _). Inr (np, nf))) (bn_funcs b)) (\<lambda>shapes.
       Inr (fst (fold (better_shape shapes) (remdups shapes) ((0, 0), - 1))))"

section \<open>pc-value tables\<close>

function skip_cont :: "bytes \<Rightarrow> nat \<Rightarrow> nat" where
  "skip_cont tab p = (if p < length tab \<and> tab ! p AND 0x80 \<noteq> 0 then skip_cont tab (p + 1) else p)"
  by pat_completeness auto
termination by (relation "measure (\<lambda>(tab, p). length tab - p)") auto

declare skip_cont.simps [simp del]

lemma skip_cont_ge: "p \<le> skip_cont tab p"
  by (induction tab p rule: skip_cont.induct) (subst skip_cont.simps, auto)

function pc_pairs :: "bytes \<Rightarrow> bool \<Rightarrow> nat \<Rightarrow> nat" where
  "pc_pairs tab first p =
     (if p < length tab then
        if tab ! p = 0 \<and> \<not> first then p + 1
        else pc_pairs tab False (skip_cont tab (skip_cont tab p + 1) + 1)
      else p)"
  by pat_completeness auto
termination
proof (relation "measure (\<lambda>(tab, first, p). length tab - p)", goal_cases)
  case (2 tab first p)
  then show ?case using skip_cont_ge[of p tab] skip_cont_ge[of "skip_cont tab p + 1" tab] by simp
qed simp

declare pc_pairs.simps [simp del]

definition PcTableLen :: "bytes \<Rightarrow> nat \<Rightarrow> nat" where
  "PcTableLen tab off = pc_pairs tab True off - off"

end
