(* ===== verification/Layout.thy ===== *)
theory Layout
  imports Shift Regen Container
begin

text \<open>
  \<^verbatim>\<open>delta/layout.go\<close>: what the decoder is told of the new file's shape, how it is written as deltas
  against the old file, and the skeleton of the new binary built from it.  \<open>ly_mod\<close> is the twelve
  moduledata values in the order of \<^verbatim>\<open>modValues\<close>, \<open>ly_tabOff\<close> the seven table offsets; Go maps are
  association lists with distinct keys.
\<close>

section \<open>Data\<close>

record sectInfo =
  si_name :: bytes
  si_addr :: uint64
  si_off :: uint64
  si_size :: uint64
  si_nobits :: bool

record recShape =
  rs_idx :: nat
  rs_npcdata :: uint32
  rs_nfuncdata :: uint32

record addrOverride =
  ov_old :: uint64
  ov_new :: uint64

record layout =
  ly_newLen :: uint64
  ly_sects :: "sectInfo list"
  ly_mod :: "uint64 list"
  ly_firstEntry :: uint64
  ly_nfunc :: nat
  ly_funcs :: bytes
  ly_nfiles :: uint64
  ly_pclnLen :: uint64
  ly_tabOff :: "uint64 list"
  ly_recShapes :: "recShape list"
  ly_shifts :: "(bytes \<times> shiftTable) list"
  ly_dataMaps :: "(bytes \<times> dataMap) list"
  ly_overrides :: "addrOverride list"

definition layoutMagic :: bytes where "layoutMagic = to_bytes ''BSL1''"
definition maxFuncs :: nat where "maxFuncs = 2 ^ 24"

text \<open>\<open>delta64 v a\<close> is what is written for \<open>v\<close> where the reader knows \<open>a\<close>.\<close>

definition delta64 :: "uint64 \<Rightarrow> uint64 \<Rightarrow> int" where
  "delta64 v a = wrap64 (sint v - sint a)"

definition put_delta :: "uint64 \<Rightarrow> uint64 \<Rightarrow> bytes" where
  "put_delta v a = put_varint (delta64 v a)"

definition r_delta :: "uint64 \<Rightarrow> rbuf \<Rightarrow> uint64 \<times> rbuf" where
  "r_delta a r = (case r_s r of (d, r) \<Rightarrow> (a + word_of_int d, r))"

section \<open>Sections\<close>

definition sect_index :: "gosect list \<Rightarrow> bytes \<Rightarrow> nat option" where
  "sect_index order n = (let i = length (takeWhile (\<lambda>s. sc_name s \<noteq> n) order) in if i < length order then Some i else None)"

definition put_sect :: "gosect list \<Rightarrow> nat \<Rightarrow> sectInfo \<Rightarrow> bytes" where
  "put_sect order expect s =
     (let (head, oa, oo, osz) = (case sect_index order (si_name s) of
            None \<Rightarrow> ([2] @ w_str (si_name s) [], 0, 0, 0)
          | Some k \<Rightarrow> (if k = expect then [0] else [1] @ put_uvarint k,
              sc_addr (order ! k), sc_off (order ! k), sc_size (order ! k))) in
      head @ put_delta (si_addr s) oa @ put_delta (si_off s) oo @ put_delta (si_size s) osz @ [if si_nobits s then 1 else 0])"

definition next_expect :: "gosect list \<Rightarrow> nat \<Rightarrow> sectInfo \<Rightarrow> nat" where
  "next_expect order expect s = (case sect_index order (si_name s) of None \<Rightarrow> expect | Some k \<Rightarrow> k + 1)"

fun put_sects :: "gosect list \<Rightarrow> nat \<Rightarrow> sectInfo list \<Rightarrow> bytes" where
  "put_sects order expect [] = []"
| "put_sects order expect (s # ss) = put_sect order expect s @ put_sects order (next_expect order expect s) ss"

definition encodeSects :: "bin \<Rightarrow> sectInfo list \<Rightarrow> bytes" where
  "encodeSects old sects = put_uvarint (length sects) @ put_sects (bn_order old) 0 sects"

text \<open>The first bytes of a record: an old section's index, or a name; \<open>None\<close> for a bad op.\<close>

definition read_sect_head :: "gosect list \<Rightarrow> nat \<Rightarrow> rbuf \<Rightarrow> (nat option \<times> bytes) option \<times> rbuf" where
  "read_sect_head order expect r =
     (case r_byte r of (op, r) \<Rightarrow>
      if op = 0 then (Some (Some expect, []), r)
      else if op = 1 then (case r_un (length order) ''old section index'' r of (k, r) \<Rightarrow> (Some (Some k, []), r))
      else if op = 2 then (case r_un 256 ''section name length'' r of (n, r) \<Rightarrow> case r_take n r of (nm, r) \<Rightarrow> (Some (None, nm), r))
      else (None, r_fail ''bad section op'' r))"

fun read_sects :: "gosect list \<Rightarrow> nat \<Rightarrow> nat \<Rightarrow> rbuf \<Rightarrow> sectInfo list \<times> rbuf" where
  "read_sects order 0 expect r = ([], r)"
| "read_sects order (Suc n) expect r =
     (if rerr r \<noteq> None then ([], r)
      else case read_sect_head order expect r of
        (None, r) \<Rightarrow> ([], r)
      | (Some (ko, nm), r) \<Rightarrow>
          if (case ko of Some k \<Rightarrow> k \<ge> length order | None \<Rightarrow> False) then ([], r_fail ''old section index out of range'' r)
          else
            let (nm, oa, oo, osz, expect) = (case ko of
                  None \<Rightarrow> (nm, 0, 0, 0, expect)
                | Some k \<Rightarrow> (sc_name (order ! k), sc_addr (order ! k), sc_off (order ! k), sc_size (order ! k), k + 1)) in
            case r_delta oa r of (a, r) \<Rightarrow> case r_delta oo r of (off, r) \<Rightarrow> case r_delta osz r of (sz, r) \<Rightarrow>
            case r_byte r of (nb, r) \<Rightarrow>
            case read_sects order n expect r of (ss, r) \<Rightarrow>
              (\<lparr>si_name = nm, si_addr = a, si_off = off, si_size = sz, si_nobits = nb = 1\<rparr> # ss, r))"

definition decodeSects :: "bin \<Rightarrow> rbuf \<Rightarrow> sectInfo list \<times> rbuf" where
  "decodeSects old r = (case r_un (2 ^ 12) ''section count'' r of (n, r) \<Rightarrow> read_sects (bn_order old) n 0 r)"

section \<open>Overrides\<close>

fun put_overrides :: "uint64 \<Rightarrow> int \<Rightarrow> addrOverride list \<Rightarrow> bytes" where
  "put_overrides po pd [] = []"
| "put_overrides po pd (ov # ovs) =
     (let d = delta64 (ov_new ov) (ov_old ov) in
      put_uvarint (unat (ov_old ov - po)) @ put_varint (wrap64 (d - pd)) @ put_overrides (ov_old ov) d ovs)"

definition encodeOverrides :: "addrOverride list \<Rightarrow> bytes" where
  "encodeOverrides ovs = put_uvarint (length ovs) @ put_overrides 0 0 ovs"

fun read_overrides :: "nat \<Rightarrow> uint64 \<Rightarrow> int \<Rightarrow> rbuf \<Rightarrow> addrOverride list \<times> rbuf" where
  "read_overrides 0 po pd r = ([], r)"
| "read_overrides (Suc n) po pd r =
     (if rerr r \<noteq> None then ([], r)
      else case r_u r of (u, r) \<Rightarrow> case r_s r of (s, r) \<Rightarrow>
        let po = po + of_nat u; pd = wrap64 (pd + s) in
        case read_overrides n po pd r of (ovs, r) \<Rightarrow> (\<lparr>ov_old = po, ov_new = po + word_of_int pd\<rparr> # ovs, r))"

definition decodeOverrides :: "rbuf \<Rightarrow> addrOverride list \<times> rbuf" where
  "decodeOverrides r = (case r_un (length (rb r) + 1) ''override count'' r of (n, r) \<Rightarrow> read_overrides n 0 0 r)"

definition overrideMap :: "addrOverride list \<Rightarrow> uint64 \<Rightarrow> uint64 option" where
  "overrideMap ovs = map_of (rev (map (\<lambda>o'. (ov_old o', ov_new o')) ovs))"

section \<open>Data maps as runs\<close>

fun delta_runs :: "int list \<Rightarrow> (nat \<times> int) list" where
  "delta_runs [] = []"
| "delta_runs (d # ds) = (case delta_runs ds of
     (n, e) # rs \<Rightarrow> if d = e then (n + 1, e) # rs else (1, d) # (n, e) # rs
   | [] \<Rightarrow> [(1, d)])"

fun put_runs :: "int \<Rightarrow> (nat \<times> int) list \<Rightarrow> bytes" where
  "put_runs prev [] = []"
| "put_runs prev ((n, d) # rs) = put_uvarint n @ put_varint (wrap64 (d - prev)) @ put_runs d rs"

definition encodeRLE :: "dataMap \<Rightarrow> bytes" where
  "encodeRLE m = put_uvarint (dm_block m) @ put_uvarint (dm_oldLen m) @
     put_uvarint (length (delta_runs (dm_delta m))) @ put_runs 0 (delta_runs (dm_delta m))"

fun read_runs :: "nat \<Rightarrow> nat \<Rightarrow> int \<Rightarrow> int list \<Rightarrow> rbuf \<Rightarrow> derror + int list \<times> rbuf" where
  "read_runs nb 0 prev acc r = Inr (acc, r)"
| "read_runs nb (Suc k) prev acc r =
     (if rerr r \<noteq> None then Inr (acc, r)
      else case r_un (nb + 1) ''data map run length'' r of (n, r) \<Rightarrow> case r_s r of (s, r) \<Rightarrow>
        let prev = wrap64 (prev + s) in
        if length acc + n > nb then Inl (Corrupt ''data map runs cover too many blocks'')
        else read_runs nb k prev (acc @ replicate n prev) r)"

definition decodeDataMapRLE :: "bytes \<Rightarrow> derror + dataMap" where
  "decodeDataMapRLE b =
     (case r_un (2 ^ 16) ''data map block size'' (rbuf_of b) of (block, r) \<Rightarrow>
      case r_un maxPatchSize ''data map source length'' r of (oldLen, r) \<Rightarrow>
      if block = 0 then Inl (Corrupt ''data map block size 0'')
      else case r_un (length b + 1) ''data map run count'' r of (nruns, r) \<Rightarrow>
        bindR (read_runs (num_blocks oldLen block) nruns 0 [] r) (\<lambda>(ds, r).
        bindR (r_done r) (\<lambda>_.
          Inr \<lparr>dm_block = block, dm_delta = ds, dm_matched = replicate (length ds) False, dm_ambig = [], dm_oldLen = oldLen\<rparr>)))"

section \<open>The whole layout\<close>

definition modValues :: "moduledata \<Rightarrow> uint64 list" where
  "modValues m = [md_text m, md_types m, md_etypes m, md_typedesclen m, md_itaboffset m, md_itabsize m,
     md_rodata m, md_gofunc m, md_findfunctab m, md_epclntab m, md_minpc m, md_maxpc m]"

definition oldTabOffs :: "pcln \<Rightarrow> uint64 list" where
  "oldTabOffs p = map rg_off (pcln_ranges p)"

definition put_deltas :: "uint64 list \<Rightarrow> uint64 list \<Rightarrow> bytes" where
  "put_deltas vs as = concat (map2 put_delta vs as)"

fun read_deltas :: "uint64 list \<Rightarrow> rbuf \<Rightarrow> uint64 list \<times> rbuf" where
  "read_deltas [] r = ([], r)"
| "read_deltas (a # as) r = (case r_delta a r of (v, r) \<Rightarrow> case read_deltas as r of (vs, r) \<Rightarrow> (v # vs, r))"

fun put_shapes :: "nat \<Rightarrow> recShape list \<Rightarrow> bytes" where
  "put_shapes prev [] = []"
| "put_shapes prev (x # xs) =
     put_uvarint (rs_idx x - prev) @ put_uvarint (unat (rs_npcdata x)) @ put_uvarint (unat (rs_nfuncdata x)) @ put_shapes (rs_idx x) xs"

fun read_shapes :: "nat \<Rightarrow> nat \<Rightarrow> rbuf \<Rightarrow> recShape list \<times> rbuf" where
  "read_shapes 0 prev r = ([], r)"
| "read_shapes (Suc n) prev r =
     (if rerr r \<noteq> None then ([], r)
      else case r_un maxFuncs ''record shape index'' r of (d, r) \<Rightarrow>
        case r_un (2 ^ 16) ''npcdata'' r of (np, r) \<Rightarrow> case r_un 256 ''nfuncdata'' r of (nf, r) \<Rightarrow>
        case read_shapes n (prev + d) r of (xs, r) \<Rightarrow>
          (\<lparr>rs_idx = prev + d, rs_npcdata = of_nat np, rs_nfuncdata = of_nat nf\<rparr> # xs, r))"

text \<open>Byte strings in the order of Go's \<^verbatim>\<open>sort.Strings\<close>.\<close>

fun bytes_less :: "bytes \<Rightarrow> bytes \<Rightarrow> bool" where
  "bytes_less [] ys = (ys \<noteq> [])"
| "bytes_less (x # xs) [] = False"
| "bytes_less (x # xs) (y # ys) = (x < y \<or> x = y \<and> bytes_less xs ys)"

fun insert_key :: "bytes \<times> 'a \<Rightarrow> (bytes \<times> 'a) list \<Rightarrow> (bytes \<times> 'a) list" where
  "insert_key x [] = [x]"
| "insert_key x (y # ys) = (if bytes_less (fst y) (fst x) then y # insert_key x ys else x # y # ys)"

definition sort_keys :: "(bytes \<times> 'a) list \<Rightarrow> (bytes \<times> 'a) list" where
  "sort_keys xs = foldr insert_key xs []"

definition sortedNonEmpty :: "(bytes \<times> shiftTable) list \<Rightarrow> (bytes \<times> shiftTable) list" where
  "sortedNonEmpty ts = sort_keys (filter (\<lambda>(n, t). st_offs t \<noteq> []) ts)"

definition put_named :: "('a \<Rightarrow> bytes) \<Rightarrow> (bytes \<times> 'a) list \<Rightarrow> bytes" where
  "put_named enc xs = put_uvarint (length xs) @ concat (map (\<lambda>(n, x). w_str n [] @ w_bytes (enc x) []) xs)"

definition ly_encode :: "bin \<Rightarrow> layout \<Rightarrow> derror + bytes" where
  "ly_encode old l =
     (if bn_funcs old = [] then Inl Panic
      else Inr (layoutMagic
        @ put_delta (ly_newLen l) (of_nat (length (bn_file old)))
        @ encodeSects old (ly_sects l)
        @ put_deltas (ly_mod l) (modValues (bn_mod old))
        @ put_delta (ly_firstEntry l) (fn_entry (hd (bn_funcs old)))
        @ put_uvarint (ly_nfunc l)
        @ w_bytes (ly_funcs l) []
        @ put_delta (ly_nfiles l) (word_of_int (pc_nfiles (bn_pcln old)))
        @ put_delta (ly_pclnLen l) (of_nat (length (pc_data (bn_pcln old))))
        @ put_deltas (ly_tabOff l) (oldTabOffs (bn_pcln old))
        @ put_uvarint (length (ly_recShapes l)) @ put_shapes 0 (ly_recShapes l)
        @ put_named st_encode (sortedNonEmpty (ly_shifts l))
        @ put_named encodeRLE (sort_keys (ly_dataMaps l))
        @ encodeOverrides (ly_overrides l)))"

definition kv_put :: "bytes \<Rightarrow> 'a \<Rightarrow> (bytes \<times> 'a) list \<Rightarrow> (bytes \<times> 'a) list" where
  "kv_put k v xs = filter (\<lambda>(k', _). k' \<noteq> k) xs @ [(k, v)]"

fun read_named :: "(bytes \<Rightarrow> derror + 'a) \<Rightarrow> nat \<Rightarrow> (bytes \<times> 'a) list \<Rightarrow> rbuf \<Rightarrow> derror + (bytes \<times> 'a) list \<times> rbuf" where
  "read_named decode 0 acc r = Inr (acc, r)"
| "read_named decode (Suc n) acc r =
     (if rerr r \<noteq> None then Inr (acc, r)
      else case r_un 256 ''section name length'' r of (k, r) \<Rightarrow> case r_take k r of (name, r) \<Rightarrow>
        case r_bytes r of (b, r) \<Rightarrow>
        bindR (decode b) (\<lambda>v. read_named decode n (kv_put name v acc) r))"

definition decodeLayout :: "bytes \<Rightarrow> bin \<Rightarrow> derror + layout" where
  "decodeLayout b old =
     (case r_take 4 (rbuf_of b) of (magic, r) \<Rightarrow>
      if magic \<noteq> layoutMagic then Inl (Corrupt ''bad layout magic'')
      else case r_delta (of_nat (length (bn_file old))) r of (newLen, r) \<Rightarrow>
      case decodeSects old r of (sects, r) \<Rightarrow>
      case read_deltas (modValues (bn_mod old)) r of (mvs, r) \<Rightarrow>
      if bn_funcs old = [] then Inl Panic
      else case r_delta (fn_entry (hd (bn_funcs old))) r of (first, r) \<Rightarrow>
      case r_un maxFuncs ''function count'' r of (nfunc, r) \<Rightarrow>
      case r_bytes r of (funcs, r) \<Rightarrow>
      case r_delta (word_of_int (pc_nfiles (bn_pcln old))) r of (nfiles, r) \<Rightarrow>
      case r_delta (of_nat (length (pc_data (bn_pcln old)))) r of (pclnLen, r) \<Rightarrow>
      case read_deltas (oldTabOffs (bn_pcln old)) r of (tabOff, r) \<Rightarrow>
      case r_un maxFuncs ''record shape count'' r of (n, r) \<Rightarrow>
      case read_shapes n 0 r of (shapes, r) \<Rightarrow>
      case r_un 64 ''shift table count'' r of (n, r) \<Rightarrow>
      bindR (read_named decodeShiftTable n [] r) (\<lambda>(shifts, r).
      case r_un 64 ''data map count'' r of (n, r) \<Rightarrow>
      bindR (read_named decodeDataMapRLE n [] r) (\<lambda>(dmaps, r).
      case decodeOverrides r of (ovs, r) \<Rightarrow>
      bindR (r_done r) (\<lambda>_.
        if newLen > of_nat maxPatchSize then Inl (Corrupt ''layout claims a file that is too large'')
        else Inr \<lparr>ly_newLen = newLen, ly_sects = sects, ly_mod = mvs, ly_firstEntry = first, ly_nfunc = nfunc, ly_funcs = funcs,
          ly_nfiles = nfiles, ly_pclnLen = pclnLen, ly_tabOff = tabOff, ly_recShapes = shapes,
          ly_shifts = shifts, ly_dataMaps = dmaps, ly_overrides = ovs\<rparr>))))"

section \<open>The function list\<close>

definition old_size :: "bin \<Rightarrow> int \<Rightarrow> int" where
  "old_size old i = (if i < 0 then 0 else sint (fn_size (bn_funcs old ! nat i)))"

fun put_funcs :: "bin \<Rightarrow> int \<Rightarrow> (gofunc \<times> int) list \<Rightarrow> bytes" where
  "put_funcs old expect [] = []"
| "put_funcs old expect ((f, i) # fs) =
     (if i < 0 then [2] @ w_str (fn_name f) [] else if i = expect then [0] else [1] @ put_uvarint (nat i))
     @ put_varint (wrap64 (sint (fn_size f) - old_size old i))
     @ put_funcs old (if i < 0 then expect else i + 1) fs"

definition encodeFuncLayout :: "bin \<Rightarrow> bin \<Rightarrow> funcmatch \<Rightarrow> bytes" where
  "encodeFuncLayout old new m = put_funcs old 0 (zip (bn_funcs new) (mt_newToOld m))"

text \<open>\<open>None\<close> is a bad op, \<open>Some (i, name)\<close> an old index or \<open>-1\<close> with a name.\<close>

definition read_func_head :: "bin \<Rightarrow> int \<Rightarrow> rbuf \<Rightarrow> (int \<times> bytes) option \<times> rbuf" where
  "read_func_head old expect r =
     (case r_byte r of (op, r) \<Rightarrow>
      if op = 0 then (Some (expect, []), r)
      else if op = 1 then (case r_un (length (bn_funcs old)) ''old function index'' r of (k, r) \<Rightarrow> (Some (int k, []), r))
      else if op = 2 then (case r_un (2 ^ 16) ''function name length'' r of (n, r) \<Rightarrow> case r_take n r of (nm, r) \<Rightarrow> (Some (- 1, nm), r))
      else (None, r))"

record func_state =
  fs_funcs :: "gofunc list"
  fs_match :: funcmatch
  fs_expect :: int
  fs_entry :: uint64

definition read_func :: "bin \<Rightarrow> nat \<Rightarrow> func_state \<times> rbuf \<Rightarrow> derror + func_state \<times> rbuf" where
  "read_func old j = (\<lambda>(st, r).
     case read_func_head old (fs_expect st) r of
       (None, r) \<Rightarrow> Inl (Corrupt ''bad function op'')
     | (Some (i, nm), r) \<Rightarrow>
       (case rerr r of Some e \<Rightarrow> Inl e | None \<Rightarrow>
        if i \<ge> int (length (bn_funcs old)) then Inl (Corrupt ''old function index out of range'')
        else
          let nm = (if i < 0 then nm else fn_name (bn_funcs old ! nat i));
              expect = (if i < 0 then fs_expect st else i + 1);
              otn = (if i < 0 then mt_oldToNew (fs_match st) else (mt_oldToNew (fs_match st))[nat i := int j]) in
          case r_s r of (s, r) \<Rightarrow>
          let size = wrap64 (old_size old i + s); entry = fs_entry st in
          (case rerr r of Some e \<Rightarrow> Inl e | None \<Rightarrow>
           if size < 0 \<or> entry + word_of_int size < entry then Inl (Corrupt ''function size'')
           else Inr (\<lparr>fs_funcs = fs_funcs st @ [\<lparr>fn_idx = j, fn_name = nm, fn_entry = entry, fn_end = entry + word_of_int size, fn_off = 0, fn_nameOff = 0\<rparr>],
                fs_match = \<lparr>mt_newToOld = (mt_newToOld (fs_match st))[j := i], mt_oldToNew = otn\<rparr>,
                fs_expect = expect, fs_entry = entry + word_of_int size\<rparr>, r))))"

definition decodeFuncLayout :: "bin \<Rightarrow> layout \<Rightarrow> derror + gofunc list \<times> funcmatch" where
  "decodeFuncLayout old l =
     bindR (foldR (read_func old) [0..<ly_nfunc l]
       (\<lparr>fs_funcs = [], fs_match = \<lparr>mt_newToOld = replicate (ly_nfunc l) 0, mt_oldToNew = replicate (length (bn_funcs old)) (- 1)\<rparr>,
         fs_expect = 0, fs_entry = ly_firstEntry l\<rparr>, rbuf_of (ly_funcs l))) (\<lambda>(st, r).
     bindR (r_done r) (\<lambda>_. Inr (fs_funcs st, fs_match st)))"

section \<open>Building the layout\<close>

definition shape_of :: "pcln \<Rightarrow> gofunc \<Rightarrow> derror + uint32 \<times> uint32" where
  "shape_of p f = bindR (fn_Record p (fn_off f)) (\<lambda>(np, nf, _). Inr (np, nf))"

definition add_shape :: "bin \<Rightarrow> bin \<Rightarrow> funcmatch \<Rightarrow> uint32 \<times> uint32 \<Rightarrow> nat \<Rightarrow> recShape list \<Rightarrow> derror + recShape list" where
  "add_shape old new m mode j acc =
     bindR (shape_of (bn_pcln new) (bn_funcs new ! j)) (\<lambda>(np, nf).
     bindR (let i = mt_newToOld m ! j in if i \<ge> 0 then shape_of (bn_pcln old) (bn_funcs old ! nat i) else Inr mode) (\<lambda>def.
       Inr (if def \<noteq> (np, nf) then acc @ [\<lparr>rs_idx = j, rs_npcdata = np, rs_nfuncdata = nf\<rparr>] else acc)))"

definition buildLayout :: "bin \<Rightarrow> bin \<Rightarrow> funcmatch \<Rightarrow> (bytes \<times> dataMap) list \<Rightarrow> (bytes \<times> shiftTable) list \<Rightarrow> addrOverride list \<Rightarrow> derror + layout" where
  "buildLayout old new m dmaps shifts ovs =
     (if bn_funcs new = [] then Inl Panic
      else bindR (ModalShape old) (\<lambda>mode.
        bindR (foldR (add_shape old new m mode) [0..<length (bn_funcs new)] []) (\<lambda>shapes.
          Inr \<lparr>ly_newLen = of_nat (length (bn_file new)),
            ly_sects = map (\<lambda>s. \<lparr>si_name = sc_name s, si_addr = sc_addr s, si_off = sc_off s, si_size = sc_size s, si_nobits = sc_nobits s\<rparr>) (bn_order new),
            ly_mod = modValues (bn_mod new), ly_firstEntry = fn_entry (hd (bn_funcs new)), ly_nfunc = length (bn_funcs new),
            ly_funcs = encodeFuncLayout old new m, ly_nfiles = word_of_int (pc_nfiles (bn_pcln new)),
            ly_pclnLen = of_nat (length (pc_data (bn_pcln new))), ly_tabOff = oldTabOffs (bn_pcln new),
            ly_recShapes = shapes, ly_shifts = shifts, ly_dataMaps = dmaps, ly_overrides = ovs\<rparr>)))"

section \<open>The skeleton\<close>

definition skel_sect :: "sectInfo \<Rightarrow> gosect" where
  "skel_sect s = \<lparr>sc_name = si_name s, sc_addr = si_addr s, sc_off = si_off s, sc_size = si_size s, sc_data = [], sc_tail = [], sc_nobits = si_nobits s\<rparr>"

definition sect_outside :: "uint64 \<Rightarrow> sectInfo \<Rightarrow> bool" where
  "sect_outside newLen s \<longleftrightarrow> \<not> si_nobits s \<and> (si_off s > newLen \<or> si_size s > newLen \<or> si_off s + si_size s > newLen)"

definition skel_mod :: "uint64 list \<Rightarrow> moduledata" where
  "skel_mod v = (let z = \<lparr>gs_ptr = 0, gs_len = 0, gs_cap = 0\<rparr> in
     \<lparr>md_pcHeader = 0, md_funcnametab = z, md_cutab = z, md_filetab = z, md_pctab = z, md_pclntable = z, md_ftab = z,
      md_findfunctab = v ! 8, md_minpc = v ! 10, md_maxpc = v ! 11, md_text = v ! 0, md_etext = 0, md_noptrdata = 0, md_enoptrdata = 0,
      md_data = 0, md_edata = 0, md_bss = 0, md_ebss = 0, md_noptrbss = 0, md_enoptrbss = 0,
      md_types = v ! 1, md_typedesclen = v ! 3, md_etypes = v ! 2, md_itaboffset = v ! 4, md_itabsize = v ! 5,
      md_rodata = v ! 6, md_gofunc = v ! 7, md_epclntab = v ! 9\<rparr>)"

text \<open>
  The offsets come from the patch and need not grow, so a table's length may wrap.  The table
  data is allocated at the length the layout claims; the allocation panics above \<open>2 ^ 48\<close>.
\<close>

definition skel_pcln :: "bin \<Rightarrow> layout \<Rightarrow> uint64 \<Rightarrow> derror + pcln" where
  "skel_pcln old l addr =
     (let op = bn_pcln old;
          p = with_tables (ly_tabOff l) (ly_pclnLen l - ly_tabOff l ! 6)
            (emptyPcln\<lparr>pc_addr := addr, pc_nfunc := int (ly_nfunc l), pc_nfiles := sint (ly_nfiles l), pc_minLC := pc_minLC op, pc_ptrSize := 8\<rparr>) in
      if list_ex (\<lambda>r. rg_off r > rg_end r \<or> rg_end r > ly_pclnLen l) (pcln_ranges p) then Inl (Corrupt ''pclntab table outside the section'')
      else if ly_pclnLen l < 72 then Inl (Corrupt ''pclntab length'')
      else if ly_pclnLen l > 2 ^ 48 then Inl Panic
      else bindR (cutR (pc_data op) (pc_tail op) 0 72) (\<lambda>hdr.
        Inr (p\<lparr>pc_data := hdr @ replicate (unat (ly_pclnLen l) - 72) 0\<rparr>)))"

definition skeleton :: "bin \<Rightarrow> layout \<Rightarrow> derror + bin \<times> funcmatch" where
  "skeleton old l =
     (if list_ex (sect_outside (ly_newLen l)) (ly_sects l) then Inl (Corrupt ''section runs past the new file'')
      else
        let secs = map skel_sect (ly_sects l); sects = sects_of secs in
        case (sects (to_bytes ''.text''), sects (to_bytes ''.gopclntab'')) of
          (Some text, Some pcs) \<Rightarrow>
            bindR (decodeFuncLayout old l) (\<lambda>(funcs, m).
              if funcs = [] then Inl (Corrupt ''layout has no functions'')
              else if fn_end (last funcs) > sc_addr text + sc_size text \<or> fn_entry (hd funcs) < sc_addr text
                then Inl (Corrupt ''the function layout does not fit .text'')
              else bindR (skel_pcln old l (sc_addr pcs)) (\<lambda>p.
                Inr (\<lparr>bn_file = [], bn_sects = sects, bn_order = by_addr secs, bn_text = text, bn_pcln = p, bn_mod = skel_mod (ly_mod l),
                  bn_funcs = funcs, bn_goVer = bn_goVer old, bn_module = [], bn_vers = []\<rparr>, m)))
        | _ \<Rightarrow> Inl (Corrupt ''layout has no .text or .gopclntab''))"

section \<open>Stage 1 tables\<close>

definition stage1aRanges :: "pcln \<Rightarrow> gorange list" where
  "stage1aRanges p = [pc_funcnametab p, pc_filetab p]"

definition stage1bRanges :: "pcln \<Rightarrow> gorange list" where
  "stage1bRanges p = [pc_cutab p, pc_pctab p, pc_gofunc p]"

fun fill_ranges :: "gorange list \<Rightarrow> bytes \<Rightarrow> bytes \<Rightarrow> derror + bytes" where
  "fill_ranges [] data d = Inr d"
| "fill_ranges (r # rs) data d =
     (let n = unat (rg_len r) in
      bindR (cutR data [] 0 n) (\<lambda>x.
      bindR (cutR d [] (unat (rg_off r)) (unat (rg_end r))) (\<lambda>_.
        fill_ranges rs (drop n data) (overwrite (unat (rg_off r)) x d))))"

definition fillTables :: "bin \<Rightarrow> (pcln \<Rightarrow> gorange list) \<Rightarrow> bytes \<Rightarrow> derror + bin" where
  "fillTables b ranges data =
     (if of_nat (length data) \<noteq> sum_list (map rg_len (ranges (bn_pcln b))) then Inl (Corrupt ''stage-1 tables length'')
      else bindR (fill_ranges (ranges (bn_pcln b)) data (pc_data (bn_pcln b))) (\<lambda>d.
        Inr (b\<lparr>bn_pcln := (bn_pcln b)\<lparr>pc_data := d\<rparr>\<rparr>)))"

definition concatRanges :: "bin \<Rightarrow> gorange list \<Rightarrow> bytes" where
  "concatRanges b rs = concat (map (pc_table (bn_pcln b)) rs)"

end
