(* ===== verification/Mapper.thy ===== *)
theory Mapper
  imports Layout
begin

text \<open>
  \<^verbatim>\<open>delta/reloc.go\<close>: where an address of the old binary went, and the predicted code section.  The
  functions are relocated one after the other here; the code has workers take them in turn, each
  writing its own part of the section.
\<close>

section \<open>Addresses\<close>

datatype refClass = rcTextSelf | rcTextMatched | rcTextUnmatch | rcTextNone | rcData | rcOutside

record mapper =
  mp_src :: bin
  mp_dst :: bin
  mp_match :: funcmatch
  mp_dataMaps :: "(bytes \<times> dataMap) list"
  mp_shifts :: "(bytes \<times> shiftTable) list"
  mp_overrides :: "uint64 \<Rightarrow> uint64 option"

definition in_text :: "gosect \<Rightarrow> uint64 \<Rightarrow> bool" where
  "in_text text t \<longleftrightarrow> t \<ge> sc_addr text \<and> t < sc_addr text + sc_size text"

definition map_func :: "mapper \<Rightarrow> uint64 \<Rightarrow> gofunc option \<Rightarrow> gofunc \<Rightarrow> derror + uint64 \<times> refClass" where
  "map_func mp t self f =
     bindR (atR (mt_oldToNew (mp_match mp)) (fn_idx f)) (\<lambda>j.
       if j < 0 then Inr (0, rcTextUnmatch)
       else bindR (atR (bn_funcs (mp_dst mp)) (nat j)) (\<lambda>g.
         Inr (fn_entry g + (t - fn_entry f), if self = Some f then rcTextSelf else rcTextMatched)))"

definition map_data :: "mapper \<Rightarrow> uint64 \<Rightarrow> gosect \<Rightarrow> derror + uint64 \<times> refClass" where
  "map_data mp t s =
     (case bn_sects (mp_dst mp) (sc_name s) of None \<Rightarrow> Inr (0, rcOutside)
      | Some ds \<Rightarrow>
          let off = t - sc_addr s in
          bindR (case map_of (mp_dataMaps mp) (sc_name s) of
                   Some dm \<Rightarrow> dm_Map dm off
                 | None \<Rightarrow> Inr (st_Map (map_of (mp_shifts mp) (sc_name s)) off)) (\<lambda>off'.
            Inr (sc_addr ds + off', rcData)))"

definition mapAddrBase :: "mapper \<Rightarrow> uint64 \<Rightarrow> gofunc option \<Rightarrow> derror + uint64 \<times> refClass" where
  "mapAddrBase mp t self =
     (let text = bn_text (mp_src mp) in
      if in_text text t then
        (case FuncAt (mp_src mp) t of
           None \<Rightarrow> Inr (sc_addr (bn_text (mp_dst mp)) + (t - sc_addr text), rcTextNone)
         | Some f \<Rightarrow> map_func mp t self f)
      else
        (case secOf (mp_src mp) t of None \<Rightarrow> Inr (0, rcOutside) | Some s \<Rightarrow> map_data mp t s))"

definition mapAddr :: "mapper \<Rightarrow> uint64 \<Rightarrow> gofunc option \<Rightarrow> derror + uint64 \<times> refClass" where
  "mapAddr mp t self = bindR (mapAddrBase mp t self) (\<lambda>(a, cls).
     Inr (case mp_overrides mp t of Some nv \<Rightarrow> nv | None \<Rightarrow> a, cls))"

definition mp_lookup :: "mapper \<Rightarrow> gofunc option \<Rightarrow> uint64 \<Rightarrow> derror + xtarget" where
  "mp_lookup mp self t = bindR (mapAddr mp t self) (\<lambda>(a, cls).
     Inr (if cls = rcTextUnmatch \<or> cls = rcOutside then \<lparr>xt_addr = 0, xt_known = False\<rparr>
          else \<lparr>xt_addr = a, xt_known = True\<rparr>))"

section \<open>Code\<close>

text \<open>
  The part of \<open>out\<close> that new function \<open>j\<close> occupies.  The skeleton's functions lie inside the code
  section, so the slice never reaches behind \<open>out\<close>.
\<close>

definition func_lo :: "bin \<Rightarrow> gofunc \<Rightarrow> uint64" where
  "func_lo b g = fn_entry g - sc_addr (bn_text b)"

definition reloc_func :: "golib \<Rightarrow> mapper \<Rightarrow> nat \<Rightarrow> bytes \<times> xstats \<Rightarrow> derror + bytes \<times> xstats" where
  "reloc_func L mp j = (\<lambda>(out, st).
     bindR (atR (mt_newToOld (mp_match mp)) j) (\<lambda>i.
     if i < 0 then Inr (out, st)
     else bindR (atR (bn_funcs (mp_dst mp)) j) (\<lambda>g. bindR (atR (bn_funcs (mp_src mp)) (nat i)) (\<lambda>f.
       let lo = func_lo (mp_dst mp) g in
       bindR (FuncBytes (mp_src mp) f) (\<lambda>code.
       bindR (cutR out [] (unat lo) (unat (lo + fn_size g))) (\<lambda>seg.
       bindR (Relocate L code (length seg) (fn_entry f) (fn_entry g) (mp_lookup mp (Some f)) st) (\<lambda>(seg', st').
         Inr (overwrite (unat lo) seg' out, st'))))))))"

text \<open>The bytes before the first function and after the last are copied; \<open>n\<close> is the length of the new section.\<close>

definition text_frame :: "mapper \<Rightarrow> nat \<Rightarrow> derror + bytes" where
  "text_frame mp n =
     (let src = mp_src mp; dst = mp_dst mp; st = bn_text src in
      if bn_funcs src = [] \<or> bn_funcs dst = [] then Inl Panic
      else
        bindR (cutR (sc_data st) (sc_tail st) 0 (unat (func_lo src (hd (bn_funcs src))))) (\<lambda>pre.
        bindR (dropR (sc_data st) (unat (fn_end (last (bn_funcs src)) - sc_addr st))) (\<lambda>post.
          copyFrom (unat (fn_end (last (bn_funcs dst)) - sc_addr (bn_text dst))) post (overwrite 0 pre (replicate n 0xCC)))))"

definition predictText :: "golib \<Rightarrow> mapper \<Rightarrow> nat \<Rightarrow> derror + bytes \<times> xstats" where
  "predictText L mp n =
     bindR (text_frame mp n) (\<lambda>out. foldR (reloc_func L mp) [0..<length (bn_funcs (mp_dst mp))] (out, xstats0))"

end
