(* ===== verification/TypeDesc.thy ===== *)
theory TypeDesc
  imports Mapper
begin

unbundle bit_operations_syntax

text \<open>
  \<^verbatim>\<open>delta/typedesc.go\<close>: the walk over the old binary's type descriptors, which re-targets their 32-bit
  relative fields in the predicted section.  The callback \<^verbatim>\<open>vote\<close> of the code is the list \<open>tw_votes\<close> of the
  calls made, when \<open>tc_vote\<close> asks for them.
\<close>

section \<open>Descriptor sizes\<close>

definition kindMax :: byte where "kindMax = 26"
definition sizeType :: uint64 where "sizeType = 48"
definition sizeUncommon :: uint64 where "sizeUncommon = 16"
definition sizeMethod :: uint64 where "sizeMethod = 16"
definition sizeImethod :: uint64 where "sizeImethod = 8"
definition sizeField :: uint64 where "sizeField = 24"

definition baseSize :: "byte \<Rightarrow> uint64" where
  "baseSize kind =
     (if kind = 17 then 72 else if kind = 18 then 64 else if kind = 19 then 56 else if kind = 20 then 80
      else if kind = 21 then 136 else if kind = 22 \<or> kind = 23 then 56 else if kind = 25 then 80 else sizeType)"

definition at64 :: "bytes \<Rightarrow> uint64 \<Rightarrow> derror + byte" where
  "at64 d off = atR d (unat off)"

definition u16at :: "bytes \<Rightarrow> uint64 \<Rightarrow> derror + uint64" where
  "u16at d off = bindR (get16 d (unat off)) (\<lambda>v. Inr (of_nat v))"

definition u32at :: "bytes \<Rightarrow> uint64 \<Rightarrow> derror + uint32" where
  "u32at d off = get32 d (unat off)"

definition u64at :: "bytes \<Rightarrow> uint64 \<Rightarrow> derror + uint64" where
  "u64at d off = get64 d (unat off)"

definition desc_kind :: "bytes \<Rightarrow> uint64 \<Rightarrow> derror + byte" where
  "desc_kind d p = bindR (at64 d (p + 23)) (\<lambda>b. Inr (b AND 0x1f))"

definition uncommon :: "bytes \<Rightarrow> uint64 \<Rightarrow> derror + bool" where
  "uncommon d p = bindR (at64 d (p + 20)) (\<lambda>b. Inr (b AND 1 \<noteq> 0))"

definition func_args :: "bytes \<Rightarrow> uint64 \<Rightarrow> derror + uint64" where
  "func_args d p = bindR (u16at d (p + 48)) (\<lambda>n. bindR (u16at d (p + 50)) (\<lambda>m. Inr (n + (m AND 0x7fff))))"

text \<open>The part of a descriptor's size that depends on its kind; \<open>- 1\<close> is no descriptor.\<close>

definition extra_size :: "bytes \<Rightarrow> uint64 \<Rightarrow> byte \<Rightarrow> derror + uint64" where
  "extra_size d p kind =
     (if kind = 19 then bindR (func_args d p) (\<lambda>n. Inr (n * 8))
      else if kind = 20 then bindR (u64at d (p + 64)) (\<lambda>n. Inr (n * sizeImethod))
      else if kind = 25 then bindR (u64at d (p + 64)) (\<lambda>n. Inr (n * sizeField))
      else Inr 0)"

definition descSize :: "bytes \<Rightarrow> uint64 \<Rightarrow> derror + int" where
  "descSize d p =
     bindR (desc_kind d p) (\<lambda>kind.
       if kind = 0 \<or> kind > kindMax then Inr (- 1)
       else bindR (uncommon d p) (\<lambda>unc.
         let ut = p + baseSize kind in
         if unc \<and> ut + sizeUncommon > of_nat (length d) then Inr (- 1)
         else bindR (if unc then bindR (u16at d (ut + 4)) (\<lambda>n. Inr (n, sizeUncommon)) else Inr (0, 0)) (\<lambda>(mcount, us).
           bindR (extra_size d p kind) (\<lambda>ex.
             Inr (sint (baseSize kind + us + ex + mcount * sizeMethod))))))"

section \<open>The walk\<close>

record walk_ctx =
  tc_old :: bin
  tc_new :: bin
  tc_os :: gosect
  tc_dm :: dataMap
  tc_mp :: mapper
  tc_vote :: bool

datatype voteKind = NameOff | TypeOff | TextOff

record type_walk =
  tw_pred :: "bytes option"
  tw_votes :: "(uint64 \<times> uint64 \<times> voteKind) list"
  tw_visited :: "uint64 set"
  tw_queue :: "uint64 list"

text \<open>Operations are functions on the state that can fail, run one after the other by \<open>seqR\<close>.\<close>

type_synonym walk_op = "type_walk \<Rightarrow> derror + type_walk"

definition seqR :: "('s \<Rightarrow> 'e + 's) list \<Rightarrow> 's \<Rightarrow> 'e + 's" where
  "seqR fs = foldR (\<lambda>f. f) fs"

definition tc_d :: "walk_ctx \<Rightarrow> bytes" where "tc_d c = sc_data (tc_os c)"

definition inSect :: "walk_ctx \<Rightarrow> uint64 \<Rightarrow> bool" where
  "inSect c a \<longleftrightarrow> a \<ge> sc_addr (tc_os c) \<and> a < sc_addr (tc_os c) + sc_size (tc_os c)"

definition past_end :: "walk_ctx \<Rightarrow> uint64 \<Rightarrow> bool" where
  "past_end c e \<longleftrightarrow> e > of_nat (length (tc_d c))"

text \<open>A map without blocks has no last block to fall back on.\<close>

definition tw_place :: "dataMap \<Rightarrow> uint64 \<Rightarrow> derror + int" where
  "tw_place dm off =
     (let i = min (tdiv (sint off) (int (dm_block dm))) (int (length (dm_delta dm)) - 1) in
      if i < 0 then Inl Panic else Inr (wrap64 (sint off + dm_delta dm ! nat i)))"

definition tw_put32 :: "walk_ctx \<Rightarrow> uint64 \<Rightarrow> uint32 \<Rightarrow> walk_op" where
  "tw_put32 c off v w =
     (case tw_pred w of None \<Rightarrow> Inr w
      | Some pred \<Rightarrow> bindR (tw_place (tc_dm c) off) (\<lambda>p.
          if p \<ge> 0 \<and> wrap64 (p + 4) \<le> int (length pred)
          then bindR (put32 (nat p) v pred) (\<lambda>pred'. Inr (w\<lparr>tw_pred := Some pred'\<rparr>))
          else Inr w))"

definition mapTypesOff :: "walk_ctx \<Rightarrow> uint32 \<Rightarrow> derror + uint32 option" where
  "mapTypesOff c off =
     bindR (mapAddr (tc_mp c) (md_types (bn_mod (tc_old c)) + ucast off) None) (\<lambda>(nv, cls).
       Inr (if cls = rcOutside \<or> cls = rcTextUnmatch then None else Some (ucast (nv - md_types (bn_mod (tc_new c))))))"

definition mapTextOff :: "walk_ctx \<Rightarrow> uint32 \<Rightarrow> derror + uint32 option" where
  "mapTextOff c off =
     bindR (mapAddr (tc_mp c) (md_text (bn_mod (tc_old c)) + ucast off) None) (\<lambda>(nv, cls).
       Inr (if cls \<notin> {rcTextSelf, rcTextMatched, rcTextNone} then None else Some (ucast (nv - md_text (bn_mod (tc_new c))))))"

definition enqueue :: "walk_ctx \<Rightarrow> uint64 \<Rightarrow> walk_op" where
  "enqueue c a w =
     Inr (if a = 0 \<or> \<not> inSect c a \<or> a \<in> tw_visited w then w
          else w\<lparr>tw_visited := insert a (tw_visited w), tw_queue := tw_queue w @ [a]\<rparr>)"

definition enqueue_at :: "walk_ctx \<Rightarrow> uint64 \<Rightarrow> walk_op" where
  "enqueue_at c off w = bindR (u64at (tc_d c) off) (\<lambda>a. enqueue c a w)"

definition tw_vote :: "walk_ctx \<Rightarrow> uint64 \<Rightarrow> uint64 \<Rightarrow> voteKind \<Rightarrow> walk_op" where
  "tw_vote c off t k w = Inr (if tc_vote c then w\<lparr>tw_votes := tw_votes w @ [(off, t, k)]\<rparr> else w)"

definition rewrite_field :: "walk_ctx \<Rightarrow> uint64 \<Rightarrow> derror + uint32 option \<Rightarrow> walk_op" where
  "rewrite_field c off m w = bindR m (\<lambda>v. case v of None \<Rightarrow> Inr w | Some nv \<Rightarrow> tw_put32 c off nv w)"

definition doName :: "walk_ctx \<Rightarrow> uint64 \<Rightarrow> walk_op" where
  "doName c off w =
     bindR (u32at (tc_d c) off) (\<lambda>v.
       seqR [tw_vote c off (md_types (bn_mod (tc_old c)) + ucast v) NameOff, rewrite_field c off (mapTypesOff c v)] w)"

function varint_len :: "bytes \<Rightarrow> uint64 \<Rightarrow> nat \<Rightarrow> uint64 \<Rightarrow> (uint64 \<times> uint64) option" where
  "varint_len d p shift n =
     (if p \<ge> of_nat (length d) \<or> shift > 56 then None
      else let x = d ! unat p; n' = n OR push_bit shift (ucast (x AND 0x7f)) in
        if x AND 0x80 = 0 then Some (p + 1, n') else varint_len d (p + 1) (shift + 7) n')"
  by pat_completeness auto
termination by (relation "measure (\<lambda>(d, p, shift, n). 64 - shift)") auto

declare varint_len.simps [simp del]

definition skipVarintString :: "walk_ctx \<Rightarrow> uint64 \<Rightarrow> uint64 option" where
  "skipVarintString c p =
     (case varint_len (tc_d c) p 0 0 of None \<Rightarrow> None
      | Some (p, n) \<Rightarrow> if p + n < p \<or> past_end c (p + n) then None else Some (p + n))"

text \<open>Where the package path of the name at \<open>a\<close> is, when it has one.\<close>

definition name_pkg :: "walk_ctx \<Rightarrow> uint64 \<Rightarrow> derror + uint64 option" where
  "name_pkg c a =
     (let p = a - sc_addr (tc_os c) in
      if \<not> inSect c a \<or> past_end c (p + 2) then Inr None
      else bindR (at64 (tc_d c) p) (\<lambda>flag.
        if flag AND 4 = 0 then Inr None
        else case skipVarintString c (p + 1) of None \<Rightarrow> Inr None
          | Some q \<Rightarrow>
              (case (if flag AND 2 \<noteq> 0 then skipVarintString c q else Some q) of None \<Rightarrow> Inr None
               | Some q \<Rightarrow> Inr (if past_end c (q + 4) then None else Some q))))"

definition doNameData :: "walk_ctx \<Rightarrow> uint64 \<Rightarrow> walk_op" where
  "doNameData c a w = bindR (name_pkg c a) (\<lambda>q. case q of None \<Rightarrow> Inr w | Some q \<Rightarrow> doName c q w)"

definition doNameDataAt :: "walk_ctx \<Rightarrow> uint64 \<Rightarrow> walk_op" where
  "doNameDataAt c off w = bindR (u64at (tc_d c) off) (\<lambda>a. doNameData c a w)"

definition doNameOff :: "walk_ctx \<Rightarrow> uint64 \<Rightarrow> walk_op" where
  "doNameOff c off w =
     bindR (u32at (tc_d c) off) (\<lambda>v. seqR [doNameData c (md_types (bn_mod (tc_old c)) + ucast v), doName c off] w)"

definition doType :: "walk_ctx \<Rightarrow> uint64 \<Rightarrow> walk_op" where
  "doType c off w =
     bindR (u32at (tc_d c) off) (\<lambda>v.
       if v = 0 then Inr w
       else let t = md_types (bn_mod (tc_old c)) + ucast v in
         seqR [tw_vote c off t TypeOff, enqueue c t, rewrite_field c off (mapTypesOff c v)] w)"

definition doText :: "walk_ctx \<Rightarrow> uint64 \<Rightarrow> walk_op" where
  "doText c off w =
     bindR (u32at (tc_d c) off) (\<lambda>v.
       if v = - 1 then Inr w
       else seqR [tw_vote c off (md_text (bn_mod (tc_old c)) + ucast v) TextOff, rewrite_field c off (mapTextOff c v)] w)"

section \<open>One descriptor\<close>

text \<open>The indexes \<^verbatim>\<open>k = 0, 1, \<dots>\<close> of a loop that stops at \<open>n\<close> or when \<open>ok\<close> fails.\<close>

definition loop_while :: "nat \<Rightarrow> (uint64 \<Rightarrow> bool) \<Rightarrow> uint64 list" where
  "loop_while n ok = takeWhile ok (map of_nat [0..<n])"

definition desc_members :: "walk_ctx \<Rightarrow> uint64 \<Rightarrow> uint64 \<Rightarrow> (uint64 \<Rightarrow> walk_op) \<Rightarrow> walk_op" where
  "desc_members c p sz f w =
     bindR (u64at (tc_d c) (p + 56)) (\<lambda>ms. bindR (u64at (tc_d c) (p + 64)) (\<lambda>n.
       if inSect c ms \<and> n < 2 ^ 16 then
         let mo = ms - sc_addr (tc_os c) in
         foldR (\<lambda>k. f (mo + sz * k)) (loop_while (unat n) (\<lambda>k. \<not> past_end c (mo + sz * (k + 1)))) w
       else Inr w))"

definition desc_func :: "walk_ctx \<Rightarrow> uint64 \<Rightarrow> uint64 \<Rightarrow> walk_op" where
  "desc_func c p addStart w =
     bindR (func_args (tc_d c) p) (\<lambda>n.
       foldR (\<lambda>k w. let q = addStart + 8 * k in if past_end c (q + 8) then Inr w else enqueue_at c q w)
         (map of_nat [0..<unat n]) w)"

definition desc_kinds :: "walk_ctx \<Rightarrow> uint64 \<Rightarrow> byte \<Rightarrow> uint64 \<Rightarrow> walk_op" where
  "desc_kinds c p kind addStart =
     (if kind = 17 then seqR [enqueue_at c (p + 48), enqueue_at c (p + 56)]
      else if kind = 18 \<or> kind = 22 \<or> kind = 23 then enqueue_at c (p + 48)
      else if kind = 21 then seqR [enqueue_at c (p + 48), enqueue_at c (p + 56), enqueue_at c (p + 64)]
      else if kind = 19 then desc_func c p addStart
      else if kind = 20 then
        seqR [doNameDataAt c (p + 48), desc_members c p sizeImethod (\<lambda>q. seqR [doNameOff c q, doType c (q + 4)])]
      else if kind = 25 then
        seqR [doNameDataAt c (p + 48), desc_members c p sizeField (\<lambda>q. seqR [doNameDataAt c q, enqueue_at c (q + 8)])]
      else Inr)"

definition desc_methods :: "walk_ctx \<Rightarrow> uint64 \<Rightarrow> walk_op" where
  "desc_methods c ut w =
     (if ut \<noteq> 0 \<and> \<not> past_end c (ut + sizeUncommon) then
        bindR (u16at (tc_d c) (ut + 4)) (\<lambda>mcount. bindR (u32at (tc_d c) (ut + 8)) (\<lambda>moff.
          let at = (\<lambda>k. ut + ucast moff + sizeMethod * k) in
          foldR (\<lambda>k. let mo = at k in seqR [doNameOff c mo, doType c (mo + 4), doText c (mo + 8), doText c (mo + 12)])
            (loop_while (unat mcount) (\<lambda>k. \<not> past_end c (at k + sizeMethod))) w))
      else Inr w)"

definition descriptor :: "walk_ctx \<Rightarrow> uint64 \<Rightarrow> walk_op" where
  "descriptor c p w =
     (if past_end c (p + sizeType) then Inr w
      else bindR (desc_kind (tc_d c) p) (\<lambda>kind.
        if kind = 0 \<or> kind > kindMax then Inr w
        else bindR (uncommon (tc_d c) p) (\<lambda>unc.
          let base = p + baseSize kind; ut = (if unc then base else 0);
              addStart = (if ut \<noteq> 0 then base + sizeUncommon else base) in
          seqR [doNameOff c (p + 40), doType c (p + 44),
                if unc \<and> \<not> past_end c (ut + sizeUncommon) then doNameOff c ut else Inr,
                desc_kinds c p kind addStart,
                desc_methods c ut] w)))"

section \<open>Progress\<close>

text \<open>
  Every operation marks what it enqueues, so a descriptor is visited once, and none changes the
  length of the predicted section.
\<close>

definition tw_room :: "type_walk \<Rightarrow> nat" where
  "tw_room w = 2 * card (- tw_visited w) + length (tw_queue w)"

definition walk_ok :: "type_walk \<Rightarrow> type_walk \<Rightarrow> bool" where
  "walk_ok w w' \<longleftrightarrow> tw_room w' \<le> tw_room w \<and> map_option length (tw_pred w') = map_option length (tw_pred w)"

definition op_ok :: "walk_op \<Rightarrow> bool" where
  "op_ok f \<longleftrightarrow> (\<forall>w w'. f w = Inr w' \<longrightarrow> walk_ok w w')"

lemma op_okI: "(\<And>w w'. f w = Inr w' \<Longrightarrow> walk_ok w w') \<Longrightarrow> op_ok f"
  by (simp add: op_ok_def)

lemma op_okD: "op_ok f \<Longrightarrow> f w = Inr w' \<Longrightarrow> walk_ok w w'"
  by (simp add: op_ok_def)

lemma walk_ok_refl [simp]: "walk_ok w w"
  by (simp add: walk_ok_def)

lemma walk_ok_trans: "walk_ok w1 w2 \<Longrightarrow> walk_ok w2 w3 \<Longrightarrow> walk_ok w1 w3"
  by (simp add: walk_ok_def)

named_theorems walk

lemma op_ok_Inr [walk]: "op_ok Inr" "op_ok (\<lambda>w. Inr w)"
  by (auto intro: op_okI)

lemma op_ok_bind [walk]: "(\<And>x. op_ok (f x)) \<Longrightarrow> op_ok (\<lambda>w. bindR m (\<lambda>x. f x w))"
  by (auto simp: op_ok_def bindR_eq_Inr)

lemma op_ok_if [walk]: "op_ok f \<Longrightarrow> op_ok g \<Longrightarrow> op_ok (\<lambda>w. if b then f w else g w)"
  by (simp add: op_ok_def)

lemma op_ok_if_op [walk]: "op_ok f \<Longrightarrow> op_ok g \<Longrightarrow> op_ok (if b then f else g)"
  by simp

lemma op_ok_foldR [walk]: "(\<And>x. op_ok (f x)) \<Longrightarrow> op_ok (foldR f xs)"
proof (rule op_okI)
  fix w w' assume f: "\<And>x. op_ok (f x)" and w: "foldR f xs w = Inr w'"
  show "walk_ok w w'"
    using foldR_inv[of f xs w w' "walk_ok w", OF w] op_okD[OF f] walk_ok_trans by auto
qed

lemma op_ok_seqR: "(\<And>f. f \<in> set fs \<Longrightarrow> op_ok f) \<Longrightarrow> op_ok (seqR fs)"
proof (rule op_okI)
  fix w w' assume f: "\<And>f. f \<in> set fs \<Longrightarrow> op_ok f" and w: "seqR fs w = Inr w'"
  show "walk_ok w w'"
    using foldR_inv[of "\<lambda>f. f" fs w w' "walk_ok w", OF w[unfolded seqR_def]] op_okD[OF f] walk_ok_trans by auto
qed

lemma op_ok_enqueue [walk]: "op_ok (enqueue c a)"
proof (rule op_okI)
  fix w w' assume w: "enqueue c a w = Inr w'"
  show "walk_ok w w'"
  proof (cases "a \<in> tw_visited w")
    case False
    then have "- tw_visited w = insert a (- insert a (tw_visited w))" by auto
    then have "card (- tw_visited w) = Suc (card (- insert a (tw_visited w)))"
      by (metis ComplD card_insert_disjoint finite insertI1)
    then show ?thesis using w by (auto simp: enqueue_def walk_ok_def tw_room_def split: if_splits)
  qed (use w in \<open>auto simp: enqueue_def split: if_splits\<close>)
qed

lemma op_ok_vote [walk]: "op_ok (tw_vote c off t k)"
  by (auto intro!: op_okI simp: tw_vote_def walk_ok_def tw_room_def split: if_splits)

lemma op_ok_put32 [walk]: "op_ok (tw_put32 c off v)"
  by (auto intro!: op_okI simp: tw_put32_def walk_ok_def tw_room_def bindR_eq_Inr split: if_splits option.splits)

lemma op_ok_rewrite [walk]: "op_ok (rewrite_field c off m)"
  using op_okD[OF op_ok_put32] by (fastforce intro!: op_okI simp: rewrite_field_def bindR_eq_Inr split: option.splits)

lemma op_ok_seq2 [walk]: "op_ok f \<Longrightarrow> op_ok g \<Longrightarrow> op_ok (\<lambda>w. seqR [f, g] w)" "op_ok f \<Longrightarrow> op_ok g \<Longrightarrow> op_ok h \<Longrightarrow> op_ok (\<lambda>w. seqR [f, g, h] w)"
  by (auto intro!: op_ok_seqR)

lemma op_ok_doName [walk]: "op_ok (doName c off)"
  unfolding doName_def by (intro walk)

lemma op_ok_doNameData [walk]: "op_ok (doNameData c a)"
  using op_okD[OF op_ok_doName] by (fastforce intro!: op_okI simp: doNameData_def bindR_eq_Inr split: option.splits)

lemma op_ok_doNameDataAt [walk]: "op_ok (doNameDataAt c off)"
  unfolding doNameDataAt_def by (intro walk)

lemma op_ok_enqueue_at [walk]: "op_ok (enqueue_at c off)"
  unfolding enqueue_at_def by (intro walk)

lemma op_ok_doNameOff [walk]: "op_ok (doNameOff c off)"
  unfolding doNameOff_def by (intro walk)

lemma op_ok_doType [walk]: "op_ok (doType c off)"
  unfolding doType_def Let_def by (intro walk)

lemma op_ok_doText [walk]: "op_ok (doText c off)"
  unfolding doText_def by (intro walk)

lemma op_ok_members [walk]: "(\<And>q. op_ok (f q)) \<Longrightarrow> op_ok (desc_members c p sz f)"
  unfolding desc_members_def Let_def by (intro walk)

lemma op_ok_desc_func [walk]: "op_ok (desc_func c p addStart)"
  unfolding desc_func_def Let_def by (intro walk)

lemma op_ok_kinds [walk]: "op_ok (desc_kinds c p kind addStart)"
  unfolding desc_kinds_def by (intro walk)

lemma op_ok_methods [walk]: "op_ok (desc_methods c ut)"
  unfolding desc_methods_def Let_def by (intro walk op_ok_seqR) (auto intro: walk)

lemma op_ok_descriptor: "op_ok (descriptor c p)"
  unfolding descriptor_def Let_def by (intro walk op_ok_seqR) (auto intro: walk)
section \<open>The whole walk\<close>

definition align8 :: "uint64 \<Rightarrow> uint64" where
  "align8 x = (x + 7) AND NOT 7"

text \<open>
  The two loops that seed the walk go up the section.  \<open>n\<close> bounds their rounds; \<open>seed_fuel\<close> is never
  used up (\<open>seed_types_fuel\<close>, \<open>seed_itabs_fuel\<close>).
\<close>

fun seed_types :: "nat \<Rightarrow> walk_ctx \<Rightarrow> uint64 \<Rightarrow> uint64 \<Rightarrow> walk_op" where
  "seed_types 0 c stop a w = Inl Panic"
| "seed_types (Suc n) c stop a w =
     (if a < stop \<and> inSect c a then
        let a = align8 a; p = a - sc_addr (tc_os c) in
        if past_end c (p + sizeType) then Inr w
        else bindR (enqueue c a w) (\<lambda>w. bindR (descSize (tc_d c) p) (\<lambda>sz.
          if sz \<le> 0 then Inr w else seed_types n c stop (a + word_of_int sz) w))
      else Inr w)"

definition itab_methods :: "walk_ctx \<Rightarrow> uint64 \<Rightarrow> derror + uint64" where
  "itab_methods c itf =
     (let p = itf - sc_addr (tc_os c) in
      if inSect c itf \<and> \<not> past_end c (p + 72) then u64at (tc_d c) (p + 64) else Inr 0)"

fun seed_itabs :: "nat \<Rightarrow> walk_ctx \<Rightarrow> uint64 \<Rightarrow> uint64 \<Rightarrow> walk_op" where
  "seed_itabs 0 c stop a w = Inl Panic"
| "seed_itabs (Suc n) c stop a w =
     (if a + 24 \<le> stop \<and> inSect c a then
        let p = a - sc_addr (tc_os c) in
        bindR (u64at (tc_d c) p) (\<lambda>itf. bindR (u64at (tc_d c) (p + 8)) (\<lambda>typ.
          bindR (seqR [enqueue c itf, enqueue c typ] w) (\<lambda>w.
          bindR (itab_methods c itf) (\<lambda>k.
            if sint k < 0 \<or> sint k > 2 ^ 16 then Inr w else seed_itabs n c stop (a + (24 + 8 * k)) w))))
      else Inr w)"

definition seed_fuel :: "walk_ctx \<Rightarrow> nat" where
  "seed_fuel c = unat (sc_size (tc_os c)) + 2"

definition roots :: "walk_ctx \<Rightarrow> walk_op" where
  "roots c =
     (let om = bn_mod (tc_old c); a = md_types om + 8; it = md_types om + md_itaboffset om in
      seqR [seed_types (seed_fuel c) c (md_types om + md_typedesclen om) a,
            seed_itabs (seed_fuel c) c (it + md_itabsize om) it])"

lemma bindR_cong [fundef_cong]: "m = m' \<Longrightarrow> (\<And>x. m' = Inr x \<Longrightarrow> f x = g x) \<Longrightarrow> bindR m f = bindR m' g"
  by (cases m) auto

function visit :: "walk_ctx \<Rightarrow> walk_op" where
  "visit c w = (case tw_queue w of [] \<Rightarrow> Inr w
     | a # rest \<Rightarrow> bindR (descriptor c (a - sc_addr (tc_os c)) (w\<lparr>tw_queue := rest\<rparr>)) (visit c))"
  by pat_completeness auto
termination
proof (relation "measure (tw_room \<circ> snd)", goal_cases)
  case (2 c w a rest w')
  have "walk_ok (w\<lparr>tw_queue := rest\<rparr>) w'" by (rule op_okD[OF op_ok_descriptor 2(2)])
  then show ?case using 2 by (simp add: walk_ok_def tw_room_def)
qed simp

declare visit.simps [simp del]

definition rewriteTypeOffsets ::
    "bin \<Rightarrow> bin \<Rightarrow> bytes \<Rightarrow> dataMap \<Rightarrow> mapper \<Rightarrow> bytes option \<Rightarrow> bool \<Rightarrow> derror + bytes option \<times> (uint64 \<times> uint64 \<times> voteKind) list" where
  "rewriteTypeOffsets old new sect dm mp pred vote =
     (case (bn_sects old sect, bn_sects new sect) of
        (Some os, Some _) \<Rightarrow>
          let c = \<lparr>tc_old = old, tc_new = new, tc_os = os, tc_dm = dm, tc_mp = mp, tc_vote = vote\<rparr> in
          bindR (seqR [roots c, visit c] \<lparr>tw_pred = pred, tw_votes = [], tw_visited = {}, tw_queue = []\<rparr>) (\<lambda>w.
            Inr (tw_pred w, tw_votes w))
      | _ \<Rightarrow> Inr (pred, []))"

section \<open>The loops end\<close>

lemma inSect_nat:
  assumes "inSect c a"
  shows "unat (sc_addr (tc_os c)) \<le> unat a" "unat a < unat (sc_addr (tc_os c)) + unat (sc_size (tc_os c))"
    "unat (sc_addr (tc_os c)) + unat (sc_size (tc_os c)) < 2 ^ 64"
proof -
  let ?A = "sc_addr (tc_os c)" and ?S = "sc_size (tc_os c)"
  have a: "unat ?A \<le> unat a" "unat a < unat (?A + ?S)" using assms by (auto simp: inSect_def word_le_nat_alt word_less_nat_alt)
  have w: "unat (?A + ?S) = (unat ?A + unat ?S) mod 2 ^ 64" by (simp add: unat_word_ariths)
  have "unat ?A + unat ?S < 2 ^ 64"
  proof (rule ccontr)
    assume "\<not> unat ?A + unat ?S < 2 ^ 64"
    then have "(unat ?A + unat ?S) mod 2 ^ 64 = unat ?A + unat ?S - 2 ^ 64"
      using unsigned_less[of ?A, where 'a = nat] unsigned_less[of ?S, where 'a = nat] by (simp add: mod_if)
    then show False using a w unsigned_less[of ?S, where 'a = nat] by simp
  qed
  then show "unat ?A \<le> unat a" "unat a < unat ?A + unat ?S" "unat ?A + unat ?S < 2 ^ 64" using a w by auto
qed

text \<open>A step forward by less than \<open>3 * 2 ^ 62\<close> that stays in the section moves up.\<close>

lemma inSect_forward:
  assumes "inSect c a" "inSect c (a + x)" "0 < x" "unat x < 3 * 2 ^ 62" "unat (sc_size (tc_os c)) < 2 ^ 62"
  shows "unat a < unat (a + x)"
proof (cases "unat a + unat x < 2 ^ 64")
  case True
  then have "unat (a + x) = unat a + unat x" by (simp add: unat_word_ariths)
  then show ?thesis using assms(3) by (simp add: word_less_nat_alt)
next
  case False
  then have "unat (a + x) = unat a + unat x - 2 ^ 64"
    using unsigned_less[of a, where 'a = nat] unsigned_less[of x, where 'a = nat] by (simp add: unat_word_ariths mod_if)
  then show ?thesis using False assms(4,5) inSect_nat[OF assms(1)] inSect_nat[OF assms(2)] by auto
qed

lemma align8_diff: "unat (align8 a - a) \<le> 7"
proof -
  have "(a + 7) - ((a + 7) AND 7) = (a + 7) AND NOT ((a + 7) AND 7)"
    by (rule disjunctive_diff_eq_and_not) (simp add: bit_eq_iff bit_simps)
  also have "\<dots> = align8 a" unfolding align8_def by (rule bit_eqI) (auto simp: bit_simps)
  finally have "align8 a - a = 7 - ((a + 7) AND 7)" by (simp add: algebra_simps)
  moreover have "(a + 7) AND 7 \<le> 7" by (rule word_and_le1)
  ultimately show ?thesis by (simp add: word_le_nat_alt unat_sub)
qed

lemma seed_types_fuel:
  assumes "unat (sc_size (tc_os c)) < 2 ^ 62"
    and "inSect c a \<Longrightarrow> unat (sc_addr (tc_os c)) + unat (sc_size (tc_os c)) < n + unat a" "0 < n"
  shows "seed_types (Suc n) c stop a w = seed_types n c stop a w"
  using assms(2,3)
proof (induction n arbitrary: a w)
  case (Suc n)
  show ?case
  proof (cases "a < stop \<and> inSect c a \<and> \<not> past_end c (align8 a - sc_addr (tc_os c) + sizeType)")
    case True
    have step: "seed_types (Suc n) c stop (align8 a + word_of_int sz) w' = seed_types n c stop (align8 a + word_of_int sz) w'"
      if sz: "descSize (tc_d c) p = Inr sz" "0 < sz" for sz w' p
    proof (rule Suc.IH)
      let ?x = "(align8 a - a) + word_of_int sz"
      have "sz < 2 ^ 63" using sz sint_less[of "_ :: uint64"] by (auto simp: descSize_def bindR_eq_Inr Let_def split: if_splits)
      then have u: "unat (word_of_int sz :: uint64) = nat sz" using sz(2) by (simp add: unsigned_of_int take_bit_int_eq_self nat_take_bit_eq)
      have "unat ?x = unat (align8 a - a) + nat sz"
        using align8_diff[of a] u \<open>sz < 2 ^ 63\<close> by (simp add: unat_word_ariths)
      then have x: "0 < ?x" "unat ?x < 3 * 2 ^ 62" using align8_diff[of a] \<open>sz < 2 ^ 63\<close> sz(2) by (auto simp: word_less_nat_alt)
      have e: "align8 a + word_of_int sz = a + ?x" by simp
      show "unat (sc_addr (tc_os c)) + unat (sc_size (tc_os c)) < n + unat (align8 a + word_of_int sz)"
        if "inSect c (align8 a + word_of_int sz)"
        using inSect_forward[OF _ _ x assms(1), of a] True that Suc.prems(1) unfolding e by auto
      show "0 < n" using True Suc.prems(1) inSect_nat(2)[of c a] by (cases n) auto
    qed
    show ?thesis using True step by (auto simp: Let_def bindR_def split: sum.splits)
  next
    case False
    then show ?thesis by (auto simp: Let_def)
  qed
qed simp

lemma sint_nonneg_unat: "\<not> sint k < 0 \<Longrightarrow> int (unat k) = sint k" for k :: uint64
proof -
  assume "\<not> sint k < 0"
  moreover have "sint k < 2 ^ 63" using sint_less[of k] by simp
  ultimately have "unat (word_of_int (sint k) :: uint64) = nat (sint k)"
    by (simp add: unsigned_of_int take_bit_int_eq_self nat_take_bit_eq del: of_int_sint)
  then show ?thesis using \<open>\<not> sint k < 0\<close> by simp
qed

lemma seed_itabs_fuel:
  assumes "unat (sc_size (tc_os c)) < 2 ^ 62"
    and "inSect c a \<Longrightarrow> unat (sc_addr (tc_os c)) + unat (sc_size (tc_os c)) < n + unat a" "0 < n"
  shows "seed_itabs (Suc n) c stop a w = seed_itabs n c stop a w"
  using assms(2,3)
proof (induction n arbitrary: a w)
  case (Suc n)
  show ?case
  proof (cases "a + 24 \<le> stop \<and> inSect c a")
    case True
    have step: "seed_itabs (Suc n) c stop (a + (24 + 8 * k)) w' = seed_itabs n c stop (a + (24 + 8 * k)) w'"
      if k: "\<not> sint k < 0" "\<not> sint k > 2 ^ 16" for k w'
    proof (rule Suc.IH)
      have "unat k \<le> 2 ^ 16" unfolding of_nat_le_iff[where 'a = int, symmetric] using k(2) sint_nonneg_unat[OF k(1)] by (simp only: of_nat_power of_nat_numeral)
      note u = this
      then have "unat (24 + 8 * k) = 24 + 8 * unat k" by (simp add: unat_word_ariths)
      then have x: "0 < 24 + 8 * k" "unat (24 + 8 * k) < 3 * 2 ^ 62" using u by (auto simp: word_less_nat_alt)
      show "unat (sc_addr (tc_os c)) + unat (sc_size (tc_os c)) < n + unat (a + (24 + 8 * k))" if "inSect c (a + (24 + 8 * k))"
        using inSect_forward[OF _ that x assms(1)] True Suc.prems(1) by auto
      show "0 < n" using True Suc.prems(1) inSect_nat(2)[of c a] by (cases n) auto
    qed
    show ?thesis using True step by (auto simp: Let_def bindR_def split: sum.splits)
  next
    case False
    then show ?thesis by auto
  qed
qed simp

text \<open>More fuel than \<open>seed_fuel\<close> changes nothing.\<close>

lemma roots_fuel:
  assumes "unat (sc_size (tc_os c)) < 2 ^ 62"
  shows "seed_types (seed_fuel c + k) c stop a w = seed_types (seed_fuel c) c stop a w"
    and "seed_itabs (seed_fuel c + k) c stop a w = seed_itabs (seed_fuel c) c stop a w"
proof -
  have f: "inSect c a \<Longrightarrow> unat (sc_addr (tc_os c)) + unat (sc_size (tc_os c)) < (seed_fuel c + k) + unat a" for k
    using inSect_nat(1)[of c a] by (simp add: seed_fuel_def)
  show "seed_types (seed_fuel c + k) c stop a w = seed_types (seed_fuel c) c stop a w"
    by (induction k) (use seed_types_fuel[OF assms f] in \<open>auto simp: seed_fuel_def\<close>)
  show "seed_itabs (seed_fuel c + k) c stop a w = seed_itabs (seed_fuel c) c stop a w"
    by (induction k) (use seed_itabs_fuel[OF assms f] in \<open>auto simp: seed_fuel_def\<close>)
qed

lemma rewriteTypeOffsets_length:
  assumes "rewriteTypeOffsets old new sect dm mp (Some pred) v = Inr (pred', vs)"
  shows "\<exists>q. pred' = Some q \<and> length q = length pred"
proof -
  have v: "op_ok (visit c)" for c
  proof (rule op_okI)
    fix w w' assume "visit c w = Inr w'" then show "walk_ok w w'"
    proof (induction c w rule: visit.induct)
      case (1 c w)
      show ?case
      proof (cases "tw_queue w")
        case Nil
        then show ?thesis using "1.prems" by (simp add: visit.simps)
      next
        case (Cons a rest)
        then obtain w1 where w1: "descriptor c (a - sc_addr (tc_os c)) (w\<lparr>tw_queue := rest\<rparr>) = Inr w1" "visit c w1 = Inr w'"
          using "1.prems" by (subst (asm) visit.simps) (auto simp: bindR_eq_Inr)
        have "walk_ok w (w\<lparr>tw_queue := rest\<rparr>)" using Cons by (simp add: walk_ok_def tw_room_def)
        then show ?thesis using op_okD[OF op_ok_descriptor w1(1)] "1.IH"[OF Cons w1] walk_ok_trans by blast
      qed
    qed
  qed
  have ty: "op_ok (seed_types n c stop a)" for n c stop a
  proof (induction n arbitrary: a)
    case (Suc n)
    show ?case
      by (rule op_okI) (use op_okD[OF op_ok_enqueue] op_okD[OF Suc.IH] walk_ok_trans in
        \<open>fastforce simp: Let_def bindR_eq_Inr split: if_splits\<close>)
  qed (simp add: op_ok_def)
  have it: "op_ok (seed_itabs n c stop a)" for n c stop a
  proof (induction n arbitrary: a)
    case (Suc n)
    have e: "op_ok (seqR [enqueue c x, enqueue c y])" for x y by (rule op_ok_seqR) (auto intro: walk)
    show ?case
      by (rule op_okI) (use op_okD[OF e] op_okD[OF Suc.IH] walk_ok_trans in
        \<open>fastforce simp: Let_def bindR_eq_Inr split: if_splits\<close>)
  qed (simp add: op_ok_def)
  have r: "op_ok (roots c)" for c unfolding roots_def Let_def by (rule op_ok_seqR) (use ty it in auto)
  show ?thesis
  proof (cases "bn_sects old sect = None \<or> bn_sects new sect = None")
    case True
    then show ?thesis using assms by (auto simp: rewriteTypeOffsets_def split: option.splits)
  next
    case False
    then obtain c w where w: "seqR [roots c, visit c] \<lparr>tw_pred = Some pred, tw_votes = [], tw_visited = {}, tw_queue = []\<rparr> = Inr w" "pred' = tw_pred w"
      using assms by (auto simp: rewriteTypeOffsets_def Let_def bindR_eq_Inr)
    have "op_ok (seqR [roots c, visit c])" by (rule op_ok_seqR) (use r v in auto)
    from op_okD[OF this w(1)] show ?thesis by (auto simp: walk_ok_def w(2))
  qed
qed

end
