(* ===== verification/Blobs.thy ===== *)
theory Blobs
  imports TypeDesc
begin

text \<open>
  \<^verbatim>\<open>delta/blobs.go\<close>: the prediction of \<^verbatim>\<open>cutab\<close>, \<^verbatim>\<open>pctab\<close> and \<^verbatim>\<open>go:func.*\<close>, replaying the linker's layout of the
  old tables in the new function order.  Go maps with offset keys are partial functions here.
  Tables are shorter than 4 GiB, so that an offset into one is a \<^verbatim>\<open>uint32\<close>.
\<close>

record blobPred =
  bp_cutab :: bytes
  bp_pctab :: bytes
  bp_gofunc :: bytes
  bp_pcOff :: "uint32 \<Rightarrow> uint32 option"
  bp_gfOff :: "uint32 \<Rightarrow> uint32 option"

definition bp_concat :: "blobPred \<Rightarrow> bytes" where
  "bp_concat b = bp_cutab b @ bp_pctab b @ bp_gofunc b"

definition stage1aBlobs :: "bin \<Rightarrow> bytes" where
  "stage1aBlobs b = concatRanges b (stage1aRanges (bn_pcln b))"

definition stage1bBlobs :: "bin \<Rightarrow> bytes" where
  "stage1bBlobs b = concatRanges b (stage1bRanges (bn_pcln b))"

section \<open>Name tables\<close>

text \<open>The names of a table with their offsets, as \<^verbatim>\<open>forEachName\<close> passes them on.\<close>

function names_from :: "bytes \<Rightarrow> nat \<Rightarrow> (nat \<times> bytes) list" where
  "names_from tab off =
     (if off < length tab then
        (case index_byte 0 (drop off tab) of None \<Rightarrow> []
         | Some e \<Rightarrow> (off, slice off (off + e) tab) # names_from tab (off + e + 1))
      else [])"
  by pat_completeness auto
termination by (relation "measure (\<lambda>(tab, off). length tab - off)") auto

declare names_from.simps [simp del]

definition forEachName :: "bytes \<Rightarrow> (nat \<times> bytes) list" where
  "forEachName tab = names_from tab 0"

definition nameAt :: "bytes \<Rightarrow> uint32 \<Rightarrow> bytes option" where
  "nameAt tab off =
     (if unat off \<ge> length tab then None
      else map_option (\<lambda>e. slice (unat off) (unat off + e) tab) (index_byte 0 (drop (unat off) tab)))"

record nameOffMap =
  nm_old :: bytes
  nm_new :: bytes
  nm_map :: dataMap
  nm_newOccs :: "bytes \<Rightarrow> uint32 list"
  nm_oldOcc :: "uint32 \<Rightarrow> nat"

definition name_offsets :: "bytes \<Rightarrow> bytes \<Rightarrow> uint32 list" where
  "name_offsets tab n = map (of_nat \<circ> fst) (filter (\<lambda>(_, m). m = n) (forEachName tab))"

text \<open>How many names equal to it come before the one at \<open>off\<close>; 0 where no name starts.\<close>

definition occurrence :: "bytes \<Rightarrow> uint32 \<Rightarrow> nat" where
  "occurrence tab off =
     (let ns = forEachName tab in
      foldl (\<lambda>k i. if of_nat (fst (ns ! i)) = off then length (filter (\<lambda>m. snd m = snd (ns ! i)) (take i ns)) else k) 0 [0..<length ns])"

definition newNameOffMap :: "bytes \<Rightarrow> bytes \<Rightarrow> nameOffMap" where
  "newNameOffMap oldTab newTab =
     \<lparr>nm_old = oldTab, nm_new = newTab, nm_map = buildDataMap oldTab newTab 16 None 0,
      nm_newOccs = name_offsets newTab, nm_oldOcc = occurrence oldTab\<rparr>"

text \<open>Whether the name at \<open>c\<close> is \<open>name\<close>; the sum may wrap, and then the slice is out of order.\<close>

definition name_is :: "bytes \<Rightarrow> uint64 \<Rightarrow> bytes \<Rightarrow> derror + bool" where
  "name_is tab c name =
     (let e = c + of_nat (length name) in
      if e \<ge> of_nat (length tab) then Inr False
      else bindR (cutR tab [] (unat c) (unat e)) (\<lambda>s. Inr (s = name \<and> tab ! unat e = 0)))"

definition nm_Map :: "nameOffMap \<Rightarrow> uint32 \<Rightarrow> derror + uint32 option" where
  "nm_Map nm off =
     (case nameAt (nm_old nm) off of None \<Rightarrow> Inr None
      | Some name \<Rightarrow>
          bindR (dm_Map (nm_map nm) (ucast off)) (\<lambda>c. bindR (name_is (nm_new nm) c name) (\<lambda>ok.
            let occs = nm_newOccs nm name in
            Inr (if ok then Some (ucast c) else if occs = [] then None
                 else Some (occs ! min (nm_oldOcc nm off) (length occs - 1))))))"

section \<open>cutab\<close>

definition padTo :: "bytes \<Rightarrow> uint64 \<Rightarrow> bytes" where
  "padTo b n = b @ replicate (unat n - length b) 0"

text \<open>The new offset of one entry, or the entry itself.\<close>

definition cutab_entry :: "bytes \<Rightarrow> (bytes \<Rightarrow> uint32 option) \<Rightarrow> uint32 \<Rightarrow> uint32" where
  "cutab_entry oldFiletab newFile e =
     (if e = - 1 then e
      else case nameAt oldFiletab e of None \<Rightarrow> e
        | Some name \<Rightarrow> (case newFile name of None \<Rightarrow> e | Some x \<Rightarrow> x))"

definition predictCutab :: "bytes \<Rightarrow> bytes \<Rightarrow> bytes \<Rightarrow> bytes" where
  "predictCutab oldCutab oldFiletab newFiletab =
     (let newFile = map_of (map (\<lambda>(off, n). (n, of_nat off)) (forEachName newFiletab)) in
      foldl (\<lambda>out i. overwrite (4 * i) (le_bytes 4 (unat (cutab_entry oldFiletab newFile (le32at oldCutab (4 * i))))) out)
        oldCutab [0..<length oldCutab div 4])"

section \<open>pctab\<close>

record pctab_state =
  ps_tab :: bytes
  ps_seen :: "bytes \<Rightarrow> uint32 option"
  ps_off :: "uint32 \<Rightarrow> uint32 option"

text \<open>
  The table \<open>content\<close> at \<open>off\<close> is emitted the first time it is met.  An unterminated table runs past
  the end of \<open>pctab\<close>, into \<open>after\<close>.
\<close>

definition emit_table :: "bytes \<Rightarrow> bytes \<Rightarrow> uint32 \<Rightarrow> pctab_state \<Rightarrow> derror + pctab_state" where
  "emit_table oldPctab after off s =
     (if off = 0 \<or> unat off \<ge> length oldPctab \<or> ps_off s off \<noteq> None then Inr s
      else bindR (cutR oldPctab after (unat off) (unat off + PcTableLen oldPctab (unat off))) (\<lambda>content.
        case ps_seen s content of
          Some p \<Rightarrow> Inr (s\<lparr>ps_off := (ps_off s)(off \<mapsto> p)\<rparr>)
        | None \<Rightarrow> let p = of_nat (length (ps_tab s)) in
            Inr \<lparr>ps_tab = ps_tab s @ content, ps_seen = (ps_seen s)(content \<mapsto> p), ps_off = (ps_off s)(off \<mapsto> p)\<rparr>))"

definition emit_at :: "bytes \<Rightarrow> bytes \<Rightarrow> bytes \<Rightarrow> nat \<Rightarrow> pctab_state \<Rightarrow> derror + pctab_state" where
  "emit_at oldPctab after rec o' s = bindR (get32 rec o') (\<lambda>off. emit_table oldPctab after off s)"

text \<open>The fields of a record in the linker's order: the third pcdata table comes last.\<close>

definition pc_fields :: "uint32 \<Rightarrow> nat list" where
  "pc_fields npc =
     [16, 20, 24] @ map (\<lambda>k. FuncSize + 4 * k) (filter (\<lambda>k. k \<noteq> 2) [0..<unat npc]) @
     (if npc > 2 then [FuncSize + 8] else [])"

definition pctab_func :: "bin \<Rightarrow> bytes \<Rightarrow> funcmatch \<Rightarrow> nat \<Rightarrow> pctab_state \<Rightarrow> derror + pctab_state" where
  "pctab_func old oft m j s =
     (let p = bn_pcln old in
      bindR (atR (mt_newToOld m) j) (\<lambda>i.
      if i < 0 then Inr s
      else bindR (atR (bn_funcs old) (nat i)) (\<lambda>f. bindR (fn_Record p (fn_off f)) (\<lambda>(npc, _, _).
        bindR (dropR oft (unat (fn_off f))) (\<lambda>rec.
          foldR (emit_at (pc_table p (pc_pctab p)) (pc_after p (pc_pctab p)) rec) (pc_fields npc) s)))))"

definition predictPctab :: "bin \<Rightarrow> bin \<Rightarrow> funcmatch \<Rightarrow> bytes \<Rightarrow> derror + pctab_state" where
  "predictPctab old new m oft =
     foldR (pctab_func old oft m) [0..<length (bn_funcs new)] \<lparr>ps_tab = [0], ps_seen = (\<lambda>_. None), ps_off = (\<lambda>_. None)\<rparr>"

section \<open>\<^verbatim>\<open>go:func.*\<close>\<close>

record fdSym =
  fd_off :: uint32
  fd_size :: uint32
  fd_kind :: nat
  fd_first :: nat
  fd_class :: uint32

text \<open>Offset \<open>k\<close> of a record's funcdata array.\<close>

definition fd_at :: "bytes \<Rightarrow> uint32 \<Rightarrow> nat \<Rightarrow> derror + uint32" where
  "fd_at rec npc k = get32 rec (FuncSize + 4 * unat npc + 4 * k)"

definition find_sym :: "fdSym list \<Rightarrow> uint32 \<Rightarrow> fdSym option" where
  "find_sym syms off = find (\<lambda>s. fd_off s = off) syms"

definition collect_sym :: "nat \<Rightarrow> nat \<Rightarrow> bytes \<Rightarrow> uint32 \<Rightarrow> nat \<Rightarrow> fdSym list \<Rightarrow> derror + fdSym list" where
  "collect_sym tot fi rec npc k syms =
     bindR (fd_at rec npc k) (\<lambda>off.
       Inr (if off = - 1 \<or> unat off \<ge> tot \<or> find_sym syms off \<noteq> None then syms
            else syms @ [\<lparr>fd_off = off, fd_size = 0, fd_kind = k, fd_first = fi, fd_class = 0\<rparr>]))"

definition collect_func :: "bin \<Rightarrow> bytes \<Rightarrow> nat \<Rightarrow> fdSym list \<Rightarrow> derror + fdSym list" where
  "collect_func old oft fi syms =
     (let f = bn_funcs old ! fi in
      bindR (fn_Record (bn_pcln old) (fn_off f)) (\<lambda>(npc, nfd, _). bindR (dropR oft (unat (fn_off f))) (\<lambda>rec.
        foldR (collect_sym (length (bn_Gofunc old)) fi rec npc) [0..<unat nfd] syms)))"

text \<open>The first symbol, in offset order, whose first user comes before its predecessor's.\<close>

fun first_break :: "nat \<Rightarrow> int \<Rightarrow> fdSym list \<Rightarrow> nat" where
  "first_break k prevFirst [] = k"
| "first_break k prevFirst (s # ss) = (if int (fd_first s) < prevFirst then k else first_break (k + 1) (int (fd_first s)) ss)"

definition align_class :: "bool \<Rightarrow> fdSym \<Rightarrow> uint32" where
  "align_class early s =
     (if fd_kind s = 2 then 8
      else if fd_kind s = 0 then (if early \<and> fd_size s mod 8 = 0 then 8 else 4)
      else if fd_kind s \<in> {1, 3, 7} then 4 else 1)"

definition classify :: "fdSym list \<Rightarrow> uint32 \<Rightarrow> fdSym list" where
  "classify ss tot =
     (let fb = first_break 0 (- 1) ss in
      map (\<lambda>k. let s = ss ! k;
                   s' = s\<lparr>fd_size := (if k + 1 < length ss then fd_off (ss ! (k + 1)) else tot) - fd_off s\<rparr> in
               s'\<lparr>fd_class := align_class (k < fb) s'\<rparr>) [0..<length ss])"

definition classIdx :: "uint32 \<Rightarrow> nat" where
  "classIdx c = (if c = 32 then 0 else if c = 16 then 1 else if c = 8 then 2 else if c = 4 then 3 else if c = 2 then 4 else 5)"

text \<open>The symbols the new functions use, in first-use order.\<close>

definition use_sym :: "fdSym list \<Rightarrow> bytes \<Rightarrow> uint32 \<Rightarrow> nat \<Rightarrow> fdSym list \<Rightarrow> derror + fdSym list" where
  "use_sym syms rec npc k used =
     bindR (fd_at rec npc k) (\<lambda>off. Inr (case find_sym syms off of None \<Rightarrow> used
       | Some s \<Rightarrow> if find_sym used off \<noteq> None then used else used @ [s]))"

definition use_func :: "bin \<Rightarrow> bytes \<Rightarrow> funcmatch \<Rightarrow> fdSym list \<Rightarrow> nat \<Rightarrow> fdSym list \<Rightarrow> derror + fdSym list" where
  "use_func old oft m syms j used =
     bindR (atR (mt_newToOld m) j) (\<lambda>i.
     if i < 0 then Inr used
     else bindR (atR (bn_funcs old) (nat i)) (\<lambda>f. bindR (fn_Record (bn_pcln old) (fn_off f)) (\<lambda>(npc, nfd, _).
       bindR (dropR oft (unat (fn_off f))) (\<lambda>rec. foldR (use_sym syms rec npc) [0..<unat nfd] used))))"

definition in_classes :: "fdSym list \<Rightarrow> fdSym list" where
  "in_classes used = concat (map (\<lambda>c. filter (\<lambda>s. classIdx (fd_class s) = c) used) [0..<6])"

text \<open>The references embedded in one symbol's bytes.\<close>

definition inline_entry :: "nameOffMap \<Rightarrow> nat \<Rightarrow> bytes \<Rightarrow> derror + bytes" where
  "inline_entry nmap i d =
     bindR (get32 d (16 * i + 4)) (\<lambda>v. bindR (nm_Map nmap v) (\<lambda>r. case r of None \<Rightarrow> Inr d | Some x \<Rightarrow> put32 (16 * i + 4) x d))"

definition stack_entry :: "mapper \<Rightarrow> nat \<Rightarrow> bytes \<Rightarrow> derror + bytes" where
  "stack_entry mp r d =
     (let q = 8 + 16 * r + 12 in
      bindR (get32 d q) (\<lambda>v. bindR (mapAddr mp (md_rodata (bn_mod (mp_src mp)) + ucast v) None) (\<lambda>(nv, cls).
        if cls = rcData then put32 q (ucast (nv - md_rodata (bn_mod (mp_dst mp)))) d else Inr d)))"

definition wrap_entry :: "mapper \<Rightarrow> bytes \<Rightarrow> derror + bytes" where
  "wrap_entry mp d =
     bindR (get32 d 0) (\<lambda>v. bindR (mapAddr mp (md_text (bn_mod (mp_src mp)) + ucast v) None) (\<lambda>(nv, cls).
       if cls \<noteq> rcTextUnmatch \<and> cls \<noteq> rcOutside then put32 0 (ucast (nv - md_text (bn_mod (mp_dst mp)))) d else Inr d))"

definition retarget_sym :: "nameOffMap \<Rightarrow> mapper \<Rightarrow> nat \<Rightarrow> bytes \<Rightarrow> derror + bytes" where
  "retarget_sym nmap mp kind d =
     (if kind = 3 then foldR (inline_entry nmap) [0..<length d div 16] d
      else if kind = 2 then
        (if length d \<ge> 8 then foldR (stack_entry mp) [0..<min (le_nat (take 8 d)) ((length d - 8) div 16)] d else Inr d)
      else if kind = 7 \<and> length d \<ge> 4 then wrap_entry mp d
      else Inr d)"

definition pad_class :: "uint32 \<Rightarrow> bytes \<Rightarrow> bytes" where
  "pad_class c gf = gf @ replicate (nat ((- int (length gf)) mod int (unat c))) 0"

definition emit_sym :: "bytes \<Rightarrow> nameOffMap \<Rightarrow> mapper \<Rightarrow> fdSym \<Rightarrow> bytes \<times> (uint32 \<Rightarrow> uint32 option) \<Rightarrow>
    derror + bytes \<times> (uint32 \<Rightarrow> uint32 option)" where
  "emit_sym oldGf nmap mp s = (\<lambda>(gf, offs).
     let gf = pad_class (fd_class s) gf in
     bindR (cutR oldGf [] (unat (fd_off s)) (unat (fd_off s + fd_size s))) (\<lambda>d.
     bindR (retarget_sym nmap mp (fd_kind s) d) (\<lambda>d'.
       Inr (gf @ d', offs(fd_off s \<mapsto> of_nat (length gf))))))"

definition predictGofunc :: "bin \<Rightarrow> bin \<Rightarrow> funcmatch \<Rightarrow> mapper \<Rightarrow> bytes \<Rightarrow> derror + bytes \<times> (uint32 \<Rightarrow> uint32 option)" where
  "predictGofunc old new m mp oft =
     (let op = bn_pcln old; np = bn_pcln new; oldGf = bn_Gofunc old in
      bindR (foldR (collect_func old oft) [0..<length (bn_funcs old)] []) (\<lambda>syms.
        let syms = classify (sort_key fd_off syms) (of_nat (length oldGf)) in
        bindR (foldR (use_func old oft m syms) [0..<length (bn_funcs new)] []) (\<lambda>used.
          let nmap = newNameOffMap (pc_table op (pc_funcnametab op)) (pc_table np (pc_funcnametab np)) in
          foldR (emit_sym oldGf nmap mp) (in_classes used) ([], \<lambda>_. None))))"

definition predictBlobs :: "bin \<Rightarrow> bin \<Rightarrow> funcmatch \<Rightarrow> mapper \<Rightarrow> derror + blobPred" where
  "predictBlobs old new m mp =
     (let op = bn_pcln old; np = bn_pcln new; oft = pc_table op (pc_functab op) in
      bindR (predictPctab old new m oft) (\<lambda>ps.
      bindR (predictGofunc old new m mp oft) (\<lambda>(gf, gfOff).
        Inr \<lparr>bp_cutab = padTo (predictCutab (pc_table op (pc_cutab op)) (pc_table op (pc_filetab op)) (pc_table np (pc_filetab np))) (rg_len (pc_cutab np)),
          bp_pctab = padTo (ps_tab ps) (rg_len (pc_pctab np)), bp_gofunc = padTo gf (rg_len (pc_gofunc np)),
          bp_pcOff = ps_off ps, bp_gfOff = gfOff\<rparr>)))"

end
