(* ===== verification/Pcln.thy ===== *)
theory Pcln
  imports Blobs
begin

text \<open>
  \<^verbatim>\<open>delta/pcln.go\<close>: the predicted \<^verbatim>\<open>.gopclntab\<close>: the old records in the new function order with every offset
  re-targeted, the regenerated lookup table, and the stage-1 tables at their places.
\<close>

definition gfBlock :: nat where "gfBlock = 16"
definition gfTol :: nat where "gfTol = 4"

section \<open>Names\<close>

record name_state =
  ns_off :: "uint32 list"
  ns_taken :: "uint32 list"
  ns_groups :: "(bytes \<times> nat list) list"

definition add_group :: "bytes \<Rightarrow> nat \<Rightarrow> (bytes \<times> nat list) list \<Rightarrow> (bytes \<times> nat list) list" where
  "add_group name j gs =
     (if name \<in> fst ` set gs then map (\<lambda>(n, js). if n = name then (n, js @ [j]) else (n, js)) gs else gs @ [(name, [j])])"

text \<open>A matched function keeps its old name; a new one has only the name in the layout.\<close>

definition name_step :: "bin \<Rightarrow> bin \<Rightarrow> funcmatch \<Rightarrow> dataMap \<Rightarrow> bytes \<Rightarrow> nat \<Rightarrow> name_state \<Rightarrow> derror + name_state" where
  "name_step old new m fnmap fnt j s =
     bindR (atR (mt_newToOld m) j) (\<lambda>i.
     if i < 0 then Inr (s\<lparr>ns_groups := add_group (fn_name (bn_funcs new ! j)) j (ns_groups s)\<rparr>)
     else bindR (atR (bn_funcs old) (nat i)) (\<lambda>f.
       bindR (dm_Map fnmap (scast (fn_nameOff f))) (\<lambda>c. bindR (name_is fnt c (fn_name f)) (\<lambda>ok.
         Inr (if ok \<and> ucast c \<notin> set (ns_taken s)
              then s\<lparr>ns_off := (ns_off s)[j := ucast c], ns_taken := ucast c # ns_taken s\<rparr>
              else s\<lparr>ns_groups := add_group (fn_name f) j (ns_groups s)\<rparr>)))))"

text \<open>Matched functions in the order of their old names, then the new ones.\<close>

definition group_key :: "bin \<Rightarrow> funcmatch \<Rightarrow> nat \<Rightarrow> int" where
  "group_key old m j = (let i = mt_newToOld m ! j in if i < 0 then 2 ^ 32 else sint (fn_nameOff (bn_funcs old ! nat i)))"

definition place_group :: "bin \<Rightarrow> funcmatch \<Rightarrow> bytes \<Rightarrow> uint32 list \<Rightarrow> bytes \<times> nat list \<Rightarrow> uint32 list \<Rightarrow> uint32 list" where
  "place_group old m fnt taken = (\<lambda>(name, js) nameOff.
     let js = sort_key (group_key old m) js;
         all = name_offsets fnt name;
         unused = filter (\<lambda>x. x \<notin> set taken) all;
         offs = (if unused = [] then all else unused) in
     foldl (\<lambda>no (k, j). if k < length offs then no[j := offs ! k]
         else if offs \<noteq> [] then no[j := last offs] else no) nameOff (enumerate 0 js))"

definition resolveNameOffs :: "bin \<Rightarrow> bin \<Rightarrow> funcmatch \<Rightarrow> derror + uint32 list" where
  "resolveNameOffs old new m =
     (let fnt = pc_table (bn_pcln new) (pc_funcnametab (bn_pcln new));
          fnmap = buildDataMap (pc_table (bn_pcln old) (pc_funcnametab (bn_pcln old))) fnt 16 None 0 in
      bindR (foldR (name_step old new m fnmap fnt) [0..<length (bn_funcs new)]
          \<lparr>ns_off = replicate (length (bn_funcs new)) 0, ns_taken = [], ns_groups = []\<rparr>) (\<lambda>s.
        Inr (fold (place_group old m fnt (ns_taken s)) (ns_groups s) (ns_off s))))"

section \<open>Records\<close>

text \<open>An offset goes through the exact old-to-predicted map and then the content map.\<close>

definition map_offset :: "(uint32 \<Rightarrow> uint32 option) \<Rightarrow> dataMap \<Rightarrow> uint32 \<Rightarrow> derror + uint32" where
  "map_offset offs dm x =
     (case offs x of None \<Rightarrow> Inr x | Some p \<Rightarrow> bindR (dm_Map dm (ucast p)) (\<lambda>y. Inr (ucast y)))"

text \<open>Rewrites the field at \<open>q\<close> unless it has the value \<open>skip\<close>.\<close>

definition map_field :: "uint32 \<Rightarrow> (uint32 \<Rightarrow> derror + uint32) \<Rightarrow> nat \<Rightarrow> bytes \<Rightarrow> derror + bytes" where
  "map_field skip f q rec =
     bindR (get32 rec q) (\<lambda>x. if x = skip then Inr rec else bindR (f x) (\<lambda>y. put32 q y rec))"

definition reshape :: "bytes \<Rightarrow> uint32 \<Rightarrow> uint32 \<Rightarrow> uint32 \<times> uint32 \<Rightarrow> derror + bytes" where
  "reshape rec npc nfd = (\<lambda>(npc', nfd').
     let F = of_nat FuncSize :: uint32; nr = replicate (unat (F + 4 * npc' + 4 * nfd')) 0 in
     bindR (cutR rec [] 0 FuncSize) (\<lambda>hd.
     bindR (foldR (\<lambda>k nr. let q = F + 4 * of_nat k in
         bindR (cutR rec [] (unat q) (unat (q + 4))) (\<lambda>x. copyFrom (unat q) x nr)) [0..<min (unat npc') (unat npc)] (overwrite 0 hd nr)) (\<lambda>nr.
     bindR (foldR (\<lambda>k nr. let q = F + 4 * npc' + 4 * of_nat k; r = F + 4 * npc + 4 * of_nat k in
         if k < unat nfd then bindR (cutR rec [] (unat r) (unat (r + 4))) (\<lambda>x. copyFrom (unat q) x nr)
         else put32 (unat q) (- 1) nr) [0..<unat nfd'] nr) (\<lambda>nr.
     bindR (put32 28 npc' nr) (\<lambda>nr.
     bindR (atR nr 43) (\<lambda>_. Inr (nr[43 := ucast nfd'])))))))"

record pcln_maps =
  pm_pc :: "uint32 \<Rightarrow> derror + uint32"
  pm_gf :: "uint32 \<Rightarrow> derror + uint32"
  pm_cu :: "uint32 \<Rightarrow> derror + uint32"

text \<open>The record of a function with an old counterpart \<open>f\<close>.\<close>

definition moved_record :: "bin \<Rightarrow> bytes \<Rightarrow> pcln_maps \<Rightarrow> (uint32 \<times> uint32) option \<Rightarrow> gofunc \<Rightarrow> derror + bytes" where
  "moved_record old oft M shape f =
     (let p = bn_pcln old in
      bindR (fn_Record p (fn_off f)) (\<lambda>(npc, nfd, sz).
      bindR (cutR oft (pc_after p (pc_functab p)) (unat (fn_off f)) (unat (ucast (fn_off f) + ucast sz :: uint64))) (\<lambda>rec.
      bindR (foldR (map_field 0 (pm_pc M)) ([16, 20, 24] @ map (\<lambda>k. FuncSize + 4 * k) [0..<unat npc]) rec) (\<lambda>rec.
      bindR (foldR (map_field (- 1) (pm_gf M)) (map (\<lambda>k. FuncSize + 4 * unat npc + 4 * k) [0..<unat nfd]) rec) (\<lambda>rec.
      bindR (map_field (- 1) (pm_cu M) 32 rec) (\<lambda>rec.
        case shape of Some sh \<Rightarrow> if sh \<noteq> (npc, nfd) then reshape rec npc nfd sh else Inr rec
          | None \<Rightarrow> Inr rec))))))"

text \<open>The record of a new function, with no pc tables and empty funcdata.\<close>

definition fresh_record :: "uint32 \<times> uint32 \<Rightarrow> uint32 \<Rightarrow> derror + bytes" where
  "fresh_record = (\<lambda>(npc, nfd) prevCU.
     bindR (put32 28 npc (replicate (unat (of_nat FuncSize + 4 * npc + 4 * nfd)) 0)) (\<lambda>rec.
     bindR (put32 32 prevCU rec) (\<lambda>rec.
     bindR (atR rec 43) (\<lambda>_.
       foldR (\<lambda>k. put32 (FuncSize + 4 * unat npc + 4 * k) (- 1)) [0..<unat nfd] (rec[43 := ucast nfd])))))"

record recs_state =
  rc_recs :: "(uint64 \<times> bytes) list"
  rc_size :: uint64
  rc_cu :: uint32

definition add_record :: "bin \<Rightarrow> bin \<Rightarrow> funcmatch \<Rightarrow> bytes \<Rightarrow> pcln_maps \<Rightarrow> (nat \<Rightarrow> (uint32 \<times> uint32) option) \<Rightarrow> uint32 \<times> uint32 \<Rightarrow>
    uint32 list \<Rightarrow> nat \<Rightarrow> recs_state \<Rightarrow> derror + recs_state" where
  "add_record old new m oft M shapes mode nameOff j s =
     (let g = bn_funcs new ! j in
      bindR (atR (mt_newToOld m) j) (\<lambda>i.
      bindR (if i < 0 then fresh_record (case shapes j of Some sh \<Rightarrow> sh | None \<Rightarrow> mode) (rc_cu s)
             else bindR (atR (bn_funcs old) (nat i)) (moved_record old oft M (shapes j))) (\<lambda>rec.
      bindR (if i < 0 then Inr (rc_cu s) else get32 rec 32) (\<lambda>cu.
      bindR (put32 0 (ucast (fn_entry g - md_text (bn_mod new))) rec) (\<lambda>rec.
      bindR (atR nameOff j) (\<lambda>no. bindR (put32 4 no rec) (\<lambda>rec.
        let off = align8 (rc_size s) in
        Inr \<lparr>rc_recs = rc_recs s @ [(off, rec)], rc_size = off + of_nat (length rec), rc_cu = cu\<rparr>)))))))"

definition put_record :: "bin \<Rightarrow> (uint64 \<times> bytes) list \<Rightarrow> nat \<Rightarrow> bytes \<Rightarrow> derror + bytes" where
  "put_record new recs j functab =
     (case recs ! j of (off, rec) \<Rightarrow>
      bindR (put32 (8 * j) (ucast (fn_entry (bn_funcs new ! j) - md_text (bn_mod new))) functab) (\<lambda>ft.
      bindR (put32 (8 * j + 4) (ucast off) ft) (\<lambda>ft. copyFrom (unat off) rec ft)))"

definition build_functab :: "bin \<Rightarrow> recs_state \<Rightarrow> derror + bytes" where
  "build_functab new s =
     (let n = length (bn_funcs new) in
      bindR (foldR (put_record new (rc_recs s)) [0..<n] (replicate (unat (rc_size s)) 0)) (\<lambda>ft.
        if n = 0 then Inl Panic
        else put32 (8 * n) (ucast (fn_end (last (bn_funcs new)) - md_text (bn_mod new))) ft))"

section \<open>The section\<close>

definition place_table :: "bytes \<times> uint64 \<Rightarrow> bytes \<Rightarrow> derror + bytes" where
  "place_table = (\<lambda>(tab, at) out.
     let n = of_nat (length out) :: uint64 in
     bindR (if at + of_nat (length tab) > n then cutR tab [] 0 (unat (n - min at n)) else Inr tab) (\<lambda>tab.
       copyFrom (unat at) tab out))"

definition mapCu :: "dataMap \<Rightarrow> uint32 \<Rightarrow> derror + uint32" where
  "mapCu dm x = bindR (dm_Map dm (ucast x * 4)) (\<lambda>y. Inr (ucast (y div 4)))"

definition pcln_maps_of :: "bin \<Rightarrow> blobPred \<Rightarrow> pcln_maps" where
  "pcln_maps_of new bp =
     (let np = bn_pcln new in
      \<lparr>pm_pc = map_offset (bp_pcOff bp) (buildDataMap (bp_pctab bp) (pc_table np (pc_pctab np)) gfBlock None gfTol),
       pm_gf = map_offset (bp_gfOff bp) (buildDataMap (bp_gofunc bp) (bn_Gofunc new) gfBlock None gfTol),
       pm_cu = mapCu (buildDataMap (bp_cutab bp) (pc_table np (pc_cutab np)) gfBlock None 0)\<rparr>)"

definition predict_functab :: "bin \<Rightarrow> bin \<Rightarrow> funcmatch \<Rightarrow> layout \<Rightarrow> blobPred \<Rightarrow> derror + bytes" where
  "predict_functab old new m l bp =
     (let shapes = map_of (rev (map (\<lambda>r. (rs_idx r, (rs_npcdata r, rs_nfuncdata r))) (ly_recShapes l)));
          nfunc = length (bn_funcs new) in
      bindR (resolveNameOffs old new m) (\<lambda>nameOff. bindR (ModalShape old) (\<lambda>mode.
      bindR (foldR (add_record old new m (pc_table (bn_pcln old) (pc_functab (bn_pcln old))) (pcln_maps_of new bp) shapes mode nameOff)
          [0..<nfunc] \<lparr>rc_recs = [], rc_size = of_nat (nfunc * 8 + 4), rc_cu = 0\<rparr>) (build_functab new))))"

definition predictPcln :: "bin \<Rightarrow> bin \<Rightarrow> funcmatch \<Rightarrow> layout \<Rightarrow> blobPred \<Rightarrow> derror + bytes" where
  "predictPcln old new m l bp =
     (let op = bn_pcln old; np = bn_pcln new; t = ly_tabOff l in
      bindR (predict_functab old new m l bp) (\<lambda>functab.
      bindR (cutR (pc_data op) (pc_tail op) 0 (unat (pc_funcnameOff op))) (\<lambda>hdr.
      bindR (GenFindfunctab (bn_funcs new)) (\<lambda>fft.
      bindR (foldR place_table
          [(pc_table np (pc_funcnametab np), t ! 0), (pc_table np (pc_cutab np), t ! 1), (pc_table np (pc_filetab np), t ! 2),
           (pc_table np (pc_pctab np), t ! 3), (functab, t ! 4), (bn_Gofunc new, t ! 5), (fft, t ! 6)]
          (overwrite 0 hdr (replicate (unat (ly_pclnLen l)) 0))) (\<lambda>out.
      bindR (put64 8 (of_nat (length (bn_funcs new))) out) (\<lambda>out.
      bindR (put64 16 (ly_nfiles l) out) (\<lambda>out.
        foldR (\<lambda>(k, off). put64 (32 + 8 * k) off) (enumerate 0 (take 5 t)) out)))))))"

end
