(* ===== verification/Predict.thy ===== *)
theory Predict
  imports Pcln
begin

text \<open>
  \<^verbatim>\<open>delta/predict.go\<close>: the predicted new file, and what the encoder derives from both binaries.  Sections
  are predicted in order here and at once in the code; in a file whose sections do not overlap
  they write to disjoint ranges.
\<close>

definition dataBlock :: nat where "dataBlock = 16"

section \<open>A data section\<close>

definition block_shift :: "dataMap option \<Rightarrow> nat \<Rightarrow> int" where
  "block_shift dm q =
     (case dm of None \<Rightarrow> 0
      | Some m \<Rightarrow> if dm_delta m = [] then 0 else dm_delta m ! min (q div dm_block m) (length (dm_delta m) - 1))"

definition copy_block :: "bytes \<Rightarrow> dataMap option \<Rightarrow> nat \<Rightarrow> nat \<Rightarrow> bytes \<Rightarrow> derror + bytes" where
  "copy_block d dm block i dst =
     (let q = i * block; e = min (q + block) (length d); p = wrap64 (int q + block_shift dm q) in
      if p < 0 \<or> wrap64 (p + int (e - q)) > int (length dst) then Inr dst
      else copyFrom (nat p) (slice q e d) dst)"

definition move_pointer :: "uint64 \<times> uint64 \<Rightarrow> mapper \<Rightarrow> bytes \<Rightarrow> dataMap option \<Rightarrow> nat \<Rightarrow> bytes \<Rightarrow> derror + bytes" where
  "move_pointer = (\<lambda>(olo, ohi) mp d dm i dst.
     let q = 8 * i; v = le64at d q in
     if v < olo \<or> v \<ge> ohi then Inr dst
     else let p = wrap64 (int q + block_shift dm q) in
       if p < 0 \<or> wrap64 (p + 8) > int (length dst) then Inr dst
       else bindR (mapAddr mp v None) (\<lambda>(nv, cls).
         if cls = rcTextUnmatch \<or> cls = rcOutside then Inr dst else put64 (nat p) nv dst))"

text \<open>\<open>d\<close> is the old section's bytes, \<open>dst\<close> the new section, zeroed.\<close>

definition predictDataSection :: "bin \<Rightarrow> bytes \<Rightarrow> dataMap option \<Rightarrow> mapper \<Rightarrow> bytes \<Rightarrow> derror + bytes" where
  "predictDataSection old d dm mp dst =
     (let block = (case dm of None \<Rightarrow> dataBlock | Some m \<Rightarrow> dm_block m) in
      bindR (foldR (copy_block d dm block) [0..<num_blocks (length d) block] dst)
        (foldR (move_pointer (ImageRange old) mp d dm) [0..<length d div 8]))"

section \<open>Between the sections\<close>

definition clear_range :: "nat \<Rightarrow> nat \<Rightarrow> bytes \<Rightarrow> bytes" where
  "clear_range lo hi b = overwrite lo (replicate (hi - lo) 0) b"

definition file_spans :: "nat \<Rightarrow> gosect list \<Rightarrow> (nat \<times> nat) list" where
  "file_spans n secs =
     sort_key fst (map (\<lambda>s. (unat (sc_off s), unat (sc_off s + sc_size s)))
       (filter (\<lambda>s. \<not> (sc_nobits s \<or> sc_size s = 0 \<or> sc_off s + sc_size s > of_nat n)) secs))"

definition old_end :: "gosect list \<Rightarrow> nat" where
  "old_end secs = foldl (\<lambda>m s. if \<not> sc_nobits s \<and> sc_size s \<noteq> 0 then max m (unat (sc_off s + sc_size s)) else m) 0 secs"

definition clear_gap :: "(nat \<times> nat) list \<Rightarrow> nat \<Rightarrow> bytes \<Rightarrow> bytes" where
  "clear_gap sp i pred =
     (if snd (sp ! (i - 1)) < fst (sp ! i) then clear_range (snd (sp ! (i - 1))) (fst (sp ! i)) pred else pred)"

definition copy_tail :: "bin \<Rightarrow> nat \<Rightarrow> bytes \<Rightarrow> bytes" where
  "copy_tail old at pred =
     (let n = length pred - at; src = drop (old_end (bn_order old)) (bn_file old);
          src = (if length src > n then drop (length src - n) src else src) in
      overwrite (at + (n - length src)) src pred)"

definition predictHoles :: "bytes \<Rightarrow> bin \<Rightarrow> bin \<Rightarrow> bytes" where
  "predictHoles pred old new =
     (let sp = file_spans (length pred) (bn_order new) in
      if sp = [] then pred
      else
        let pred = fold (clear_gap sp) [1..<length sp] pred; at = snd (last sp);
            pred = clear_range at (length pred) pred in
        if old_end (bn_order old) < length (bn_file old) then copy_tail old at pred else pred)"

section \<open>The whole file\<close>

definition type_sect :: "bin \<Rightarrow> bytes" where
  "type_sect old = (case SectionOf old (md_types (bn_mod old)) of None \<Rightarrow> [] | Some s \<Rightarrow> sc_name s)"

definition predict_mapped :: "bin \<Rightarrow> bin \<Rightarrow> gosect \<Rightarrow> dataMap \<Rightarrow> mapper \<Rightarrow> bytes \<Rightarrow> derror + bytes" where
  "predict_mapped old new os dm mp dst =
     bindR (predictDataSection old (sc_data os) (Some dm) mp dst) (\<lambda>dst.
       if sc_name os = type_sect old
       then bindR (rewriteTypeOffsets old new (sc_name os) dm mp (Some dst) False) (\<lambda>(p, _). Inr (case p of Some q \<Rightarrow> q | None \<Rightarrow> dst))
       else Inr dst)"

definition predict_section :: "golib \<Rightarrow> bin \<Rightarrow> bin \<Rightarrow> layout \<Rightarrow> mapper \<Rightarrow> blobPred \<Rightarrow> gosect \<Rightarrow> bytes \<Rightarrow> derror + bytes" where
  "predict_section L old new l mp bp ns dst =
     (if sc_name ns = to_bytes ''.text'' then bindR (predictText L mp (length dst)) (\<lambda>(out, _). Inr out)
      else if sc_name ns = to_bytes ''.gopclntab'' then bindR (predictPcln old new (mp_match mp) l bp) (\<lambda>b. Inr (overwrite 0 b dst))
      else case bn_sects old (sc_name ns) of None \<Rightarrow> Inr dst
      | Some os \<Rightarrow>
          if sc_name ns = to_bytes ''.plt''
          then bindR (Relocate L (sc_data os) (length dst) (sc_addr os) (sc_addr ns) (mp_lookup mp None) xstats0) (\<lambda>(out, _). Inr out)
          else case map_of (mp_dataMaps mp) (sc_name ns) of
            Some dm \<Rightarrow> predict_mapped old new os dm mp dst
          | None \<Rightarrow>
              if sc_name ns \<in> set ptrRewriteSects then predictDataSection old (sc_data os) None mp dst
              else Inr (overwrite 0 (sc_data os) dst))"

definition predict_step :: "golib \<Rightarrow> bin \<Rightarrow> bin \<Rightarrow> layout \<Rightarrow> mapper \<Rightarrow> blobPred \<Rightarrow> gosect \<Rightarrow> bytes \<Rightarrow> derror + bytes" where
  "predict_step L old new l mp bp ns pred =
     (if sc_nobits ns \<or> sc_off ns + sc_size ns > of_nat (length pred) then Inr pred
      else patchAt (unat (sc_off ns)) (unat (sc_off ns + sc_size ns))
        (\<lambda>dst. predict_section L old new l mp bp ns (replicate (length dst) 0)) pred)"

definition predictWhole :: "golib \<Rightarrow> bin \<Rightarrow> bin \<Rightarrow> layout \<Rightarrow> mapper \<Rightarrow> blobPred \<Rightarrow> derror + bytes" where
  "predictWhole L old new l mp bp =
     foldR (predict_step L old new l mp bp) (bn_order new)
       (predictHoles (overwrite 0 (bn_file old) (replicate (unat (ly_newLen l)) 0)) old new)"

section \<open>Maps\<close>

definition section_pair :: "bin \<Rightarrow> bin \<Rightarrow> bytes \<Rightarrow> (gosect \<times> gosect) option" where
  "section_pair old new n =
     (case (bn_sects old n, bn_sects new n) of (Some os, Some ns) \<Rightarrow> Some (os, ns) | _ \<Rightarrow> None)"

definition buildMaps :: "golib \<Rightarrow> bin \<Rightarrow> bin \<Rightarrow> funcmatch \<Rightarrow> derror + (bytes \<times> dataMap) list \<times> (bytes \<times> shiftTable) list" where
  "buildMaps L old new m =
     (let dmaps = concat (map (\<lambda>n. case section_pair old new n of None \<Rightarrow> []
            | Some (os, ns) \<Rightarrow> if sc_nobits os then [] else [(n, buildSectionMap old new os ns dataBlock)]) dataMapSects) in
      bindR (deriveShiftTables L old new m) (\<lambda>shifts. Inr (dmaps, shifts)))"

section \<open>Votes\<close>

definition ovMinVotes :: nat where "ovMinVotes = 2"
definition ovRounds :: nat where "ovRounds = 2"

type_synonym vote = "uint64 \<times> uint64"

record majority =
  maj_o :: uint64
  maj_n :: uint64
  maj_count :: nat
  maj_total :: nat

definition in_image :: "uint64 \<times> uint64 \<Rightarrow> uint64 \<Rightarrow> bool" where
  "in_image r v \<longleftrightarrow> fst r \<le> v \<and> v < snd r"

text \<open>Where the field at \<open>q\<close> of an old section is in the new one, when its block can be trusted.\<close>

definition voted_place :: "dataMap option \<Rightarrow> int \<Rightarrow> int option" where
  "voted_place dm q =
     (case dm of None \<Rightarrow> Some q
      | Some m \<Rightarrow> let i = tdiv q (int (dm_block m)) in
          if reliable m i then Some (wrap64 (q + dm_delta m ! nat i)) else None)"

definition pointer_vote :: "uint64 \<times> uint64 \<Rightarrow> uint64 \<times> uint64 \<Rightarrow> bytes \<Rightarrow> bytes \<Rightarrow> dataMap option \<Rightarrow> nat \<Rightarrow> derror + vote list" where
  "pointer_vote ro rn d nd dm k =
     (let v = le64at d (8 * k) in
      if \<not> in_image ro v then Inr []
      else case voted_place dm (int (8 * k)) of None \<Rightarrow> Inr []
      | Some p \<Rightarrow>
          if p < 0 \<or> wrap64 (p + 8) > int (length nd) then Inr []
          else bindR (get64 nd (nat p)) (\<lambda>nv. Inr (if in_image rn nv then [(v, nv)] else [])))"

definition section_votes :: "bin \<Rightarrow> bin \<Rightarrow> (bytes \<times> dataMap) list \<Rightarrow> bytes \<Rightarrow> derror + vote list" where
  "section_votes old new dmaps n =
     (case section_pair old new n of None \<Rightarrow> Inr []
      | Some (os, ns) \<Rightarrow>
          if sc_nobits os \<or> sc_nobits ns then Inr []
          else bindR (mapR (pointer_vote (ImageRange old) (ImageRange new) (sc_data os) (sc_data ns) (map_of dmaps n))
                 [0..<length (sc_data os) div 8]) (\<lambda>vs. Inr (concat vs)))"

definition field_vote :: "bin \<Rightarrow> uint64 \<times> uint64 \<Rightarrow> bytes \<Rightarrow> dataMap \<Rightarrow> uint64 \<times> uint64 \<times> voteKind \<Rightarrow> derror + vote list" where
  "field_vote new rn nd dm = (\<lambda>(off, t, kind).
     case voted_place (Some dm) (sint off) of None \<Rightarrow> Inr []
     | Some p \<Rightarrow>
         if p < 0 \<or> wrap64 (p + 4) > int (length nd) then Inr []
         else bindR (get32 nd (nat p)) (\<lambda>v.
           let nt = (if kind = TextOff then md_text (bn_mod new) else md_types (bn_mod new)) + ucast v in
           Inr (if in_image rn nt then [(t, nt)] else [])))"

definition type_votes :: "bin \<Rightarrow> bin \<Rightarrow> (bytes \<times> dataMap) list \<Rightarrow> mapper \<Rightarrow> derror + vote list" where
  "type_votes old new dmaps mp =
     (let n = type_sect old in
      if SectionOf old (md_types (bn_mod old)) = None then Inr []
      else case (map_of dmaps n, bn_sects new n) of
        (Some dm, Some ns) \<Rightarrow>
          bindR (rewriteTypeOffsets old new n dm mp None True) (\<lambda>(_, fs).
          bindR (mapR (field_vote new (ImageRange new) (sc_data ns) dm) fs) (\<lambda>vs. Inr (concat vs)))
      | _ \<Rightarrow> Inr [])"

definition collectVotes :: "bin \<Rightarrow> bin \<Rightarrow> (bytes \<times> dataMap) list \<Rightarrow> mapper \<Rightarrow> derror + vote list" where
  "collectVotes old new dmaps mp =
     bindR (mapR (section_votes old new dmaps) (dataMapSects @ ptrRewriteSects)) (\<lambda>vss.
     bindR (type_votes old new dmaps mp) (\<lambda>vs.
       Inr (sort_key (\<lambda>(a, b). unat a * 2 ^ 64 + unat b) (concat vss @ vs))))"

text \<open>
  The runs of equal new targets.  A run is not cut where the old target changes, so it can reach
  into the votes of the next one.
\<close>

definition run_length :: "vote list \<Rightarrow> nat" where
  "run_length vs = length (takeWhile (\<lambda>v. snd v = snd (hd vs)) vs)"

lemma run_length_pos: "vs \<noteq> [] \<Longrightarrow> 0 < run_length vs"
  by (cases vs) (simp_all add: run_length_def)

text \<open>The best new target of the old target \<open>t\<close> at the head of \<open>vs\<close>, its count, and how many votes were read.\<close>

function best_run :: "uint64 \<Rightarrow> vote list \<Rightarrow> uint64 \<Rightarrow> nat \<Rightarrow> nat \<Rightarrow> uint64 \<times> nat \<times> nat" where
  "best_run t vs best bestN seen =
     (if vs \<noteq> [] \<and> fst (hd vs) = t then
        let k = run_length vs; b = (if k > bestN then (snd (hd vs), k) else (best, bestN)) in
        best_run t (drop k vs) (fst b) (snd b) (seen + k)
      else (best, bestN, seen))"
  by pat_completeness auto
termination by (relation "measure (\<lambda>(t, vs, best, bestN, seen). length vs)") (auto simp: run_length_pos)

declare best_run.simps [simp del]

lemma best_run_seen: "seen \<le> snd (snd (best_run t vs best bestN seen))"
proof (induction t vs best bestN seen rule: best_run.induct)
  case (1 t vs best bestN seen)
  then show ?case by (subst best_run.simps) (fastforce simp: Let_def dest: add_leD1)
qed

lemma best_run_pos: "vs \<noteq> [] \<Longrightarrow> 0 < snd (snd (best_run (fst (hd vs)) vs best bestN 0))"
  using best_run_seen[of "run_length vs"] run_length_pos[of vs]
  by (subst best_run.simps) (auto simp: Let_def intro: less_le_trans)

function majorities :: "vote list \<Rightarrow> majority list" where
  "majorities vs =
     (if vs = [] then []
      else case best_run (fst (hd vs)) vs 0 0 0 of (best, bestN, seen) \<Rightarrow>
        \<lparr>maj_o = fst (hd vs), maj_n = best, maj_count = bestN, maj_total = seen\<rparr> # majorities (drop seen vs))"
  by pat_completeness auto
termination
proof (relation "measure length", goal_cases)
  case (2 vs best bestN_seen bestN seen)
  then have "seen = snd (snd (best_run (fst (hd vs)) vs 0 0 0))" by (cases "best_run (fst (hd vs)) vs 0 0 0") auto
  then show ?case using best_run_pos[of vs 0 0] 2(1) by (cases vs) auto
qed simp

declare majorities.simps [simp del]

section \<open>Moving blocks\<close>

text \<open>A target that agrees on a shift votes for its block.\<close>

record block_vote =
  bv_sect :: bytes
  bv_block :: nat
  bv_shift :: int
  bv_count :: nat

definition block_vote_of :: "bin \<Rightarrow> bin \<Rightarrow> (bytes \<times> dataMap) list \<Rightarrow> majority \<Rightarrow> derror + block_vote list" where
  "block_vote_of old new dmaps mj =
     (if 2 * maj_count mj \<le> maj_total mj then Inr []
      else case SectionOf old (maj_o mj) of None \<Rightarrow> Inr []
      | Some s \<Rightarrow> (case (map_of dmaps (sc_name s), bn_sects new (sc_name s)) of
          (Some dm, Some ns) \<Rightarrow>
            let off = maj_o mj - sc_addr s; i = tdiv (sint off) (int (dm_block dm)) in
            if i \<ge> int (length (dm_delta dm)) then Inr []
            else if i < 0 then Inl Panic
            else if dm_matched dm ! nat i then Inr []
            else Inr [\<lparr>bv_sect = sc_name s, bv_block = nat i,
              bv_shift = wrap64 (sint (maj_n mj - sc_addr ns) - sint off), bv_count = maj_count mj\<rparr>]
        | _ \<Rightarrow> Inr []))"

definition shift_count :: "block_vote list \<Rightarrow> int \<Rightarrow> nat" where
  "shift_count bvs d = sum_list (map bv_count (filter (\<lambda>v. bv_shift v = d) bvs))"

text \<open>The shift with the most votes, the smallest one among equals.\<close>

definition best_shift :: "block_vote list \<Rightarrow> int \<times> nat" where
  "best_shift bvs = foldl (\<lambda>(best, bestN) d. let c = shift_count bvs d in
     if c > bestN \<or> c = bestN \<and> d < best then (d, c) else (best, bestN)) (0, 0) (remdups (map bv_shift bvs))"

definition fixed_shift :: "dataMap \<Rightarrow> block_vote list \<Rightarrow> nat \<Rightarrow> int option" where
  "fixed_shift dm bvs i =
     (let vs = filter (\<lambda>v. bv_block v = i) bvs; tot = sum_list (map bv_count vs) in
      case best_shift vs of (best, bestN) \<Rightarrow>
      if vs = [] \<or> 2 * bestN \<le> tot \<or> best = dm_delta dm ! i then None else Some best)"

text \<open>The shift of a fixed or matched block carries over the plain unmatched blocks after it.\<close>

fun carry_shift :: "int \<Rightarrow> (int \<times> bool \<times> bool) list \<Rightarrow> int list" where
  "carry_shift cur [] = []"
| "carry_shift cur ((d, keep, ambig) # bs) =
     (if keep then d # carry_shift d bs else if ambig then d # carry_shift cur bs else cur # carry_shift cur bs)"

definition fix_map :: "dataMap \<Rightarrow> block_vote list \<Rightarrow> dataMap" where
  "fix_map dm bvs =
     (let n = length (dm_delta dm); fx = map (fixed_shift dm bvs) [0..<n] in
      if \<forall>x \<in> set fx. x = None then dm
      else dm\<lparr>dm_delta := carry_shift 0 (map (\<lambda>i. (case fx ! i of Some d \<Rightarrow> d | None \<Rightarrow> dm_delta dm ! i,
          dm_matched dm ! i \<or> fx ! i \<noteq> None, dm_ambig dm ! i)) [0..<n])\<rparr>)"

definition fixBlocks :: "bin \<Rightarrow> bin \<Rightarrow> majority list \<Rightarrow> (bytes \<times> dataMap) list \<Rightarrow> derror + (bytes \<times> dataMap) list" where
  "fixBlocks old new maj dmaps =
     bindR (mapR (block_vote_of old new dmaps) maj) (\<lambda>bvss.
       Inr (map (\<lambda>(n, dm). (n, fix_map dm (filter (\<lambda>v. bv_sect v = n) (concat bvss)))) dmaps))"

section \<open>Overrides\<close>

text \<open>A round of votes; the maps it moves are the ones the next round and the layout use.\<close>

definition vote_round :: "bin \<Rightarrow> bin \<Rightarrow> funcmatch \<Rightarrow> (bytes \<times> shiftTable) list \<Rightarrow> nat \<Rightarrow>
    majority list \<times> (bytes \<times> dataMap) list \<Rightarrow> derror + majority list \<times> (bytes \<times> dataMap) list" where
  "vote_round old new m shifts k = (\<lambda>(_, dmaps).
     let mp = \<lparr>mp_src = old, mp_dst = new, mp_match = m, mp_dataMaps = dmaps, mp_shifts = shifts, mp_overrides = (\<lambda>_. None)\<rparr> in
     bindR (collectVotes old new dmaps mp) (\<lambda>votes. let maj = majorities votes in
     bindR (fixBlocks old new maj dmaps) (\<lambda>dmaps'. Inr (maj, dmaps'))))"

definition override_of :: "mapper \<Rightarrow> majority \<Rightarrow> derror + addrOverride list" where
  "override_of mp mj =
     bindR (mapAddr mp (maj_o mj) None) (\<lambda>(pred, cls).
       Inr (if cls = rcOutside \<or> cls = rcTextUnmatch \<or> maj_n mj = pred then []
            else if maj_count mj \<ge> ovMinVotes \<and> 2 * maj_count mj > maj_total mj then [\<lparr>ov_old = maj_o mj, ov_new = maj_n mj\<rparr>]
            else []))"

definition deriveOverrides :: "bin \<Rightarrow> bin \<Rightarrow> funcmatch \<Rightarrow> (bytes \<times> dataMap) list \<Rightarrow> (bytes \<times> shiftTable) list \<Rightarrow>
    derror + addrOverride list \<times> (bytes \<times> dataMap) list" where
  "deriveOverrides old new m dmaps shifts =
     bindR (foldR (vote_round old new m shifts) [0..<ovRounds] ([], dmaps)) (\<lambda>(maj, dmaps).
       let mp = \<lparr>mp_src = old, mp_dst = new, mp_match = m, mp_dataMaps = dmaps, mp_shifts = shifts, mp_overrides = (\<lambda>_. None)\<rparr> in
       bindR (mapR (override_of mp) maj) (\<lambda>ovs. Inr (concat ovs, dmaps)))"

end
