(* ===== verification/BlobsProof.thy ===== *)
theory BlobsProof
  imports Blobs "HOL-Library.Multiset"
begin

text \<open>
  What the predicted tables hold: every offset map entry points at a copy of the old pc table
  (\<open>predictPctab_copies\<close>), the name map finds equal names (\<open>nm_Map_name\<close>), the funcdata symbols keep
  their alignment (\<open>predictGofunc_aligned\<close>), and the prediction is bounded by the old file.
\<close>

section \<open>pc tables\<close>

definition old_table :: "bytes \<Rightarrow> bytes \<Rightarrow> uint32 \<Rightarrow> bytes" where
  "old_table tab after off = slice (unat off) (unat off + PcTableLen tab (unat off)) (tab @ after)"

definition holds_at :: "bytes \<Rightarrow> uint32 \<Rightarrow> bytes \<Rightarrow> bool" where
  "holds_at tab p c \<longleftrightarrow> unat p + length c \<le> length tab \<and> slice (unat p) (unat p + length c) tab = c"

lemma holds_at_append: "holds_at tab p c \<Longrightarrow> holds_at (tab @ xs) p c"
  by (auto simp: holds_at_def slice_def)

lemma holds_at_new: "length tab < 2 ^ 32 \<Longrightarrow> holds_at (tab @ c) (of_nat (length tab)) c"
  by (simp add: holds_at_def slice_def unat_of_nat take_bit_nat_eq_self)

definition pctab_ok :: "bytes \<Rightarrow> bytes \<Rightarrow> pctab_state \<Rightarrow> bool" where
  "pctab_ok tab after s \<longleftrightarrow>
     (length (ps_tab s) < 2 ^ 32 \<longrightarrow>
        (\<forall>off p. ps_off s off = Some p \<longrightarrow> holds_at (ps_tab s) p (old_table tab after off)) \<and>
        (\<forall>c p. ps_seen s c = Some p \<longrightarrow> holds_at (ps_tab s) p c)) \<and>
     dom (ps_off s) \<subseteq> {off. unat off < length tab} \<and>
     length (ps_tab s) \<le> 1 + card (dom (ps_off s)) * (length tab + length after)"

lemma emit_table_ok:
  assumes "emit_table tab after off s = Inr s'" "pctab_ok tab after s"
  shows "pctab_ok tab after s' \<and> (0 < unat off \<and> unat off < length tab \<longrightarrow> ps_off s' off \<noteq> None) \<and> dom (ps_off s) \<subseteq> dom (ps_off s')"
proof (cases "off = 0 \<or> unat off \<ge> length tab \<or> ps_off s off \<noteq> None")
  case True
  then show ?thesis using assms by (auto simp: emit_table_def)
next
  case False
  then have f: "unat off < length tab" "off \<notin> dom (ps_off s)" by auto
  let ?c = "old_table tab after off"
  obtain c where c: "cutR tab after (unat off) (unat off + PcTableLen tab (unat off)) = Inr c"
    "(case ps_seen s c of Some p \<Rightarrow> Inr (s\<lparr>ps_off := (ps_off s)(off \<mapsto> p)\<rparr>)
        | None \<Rightarrow> let p = of_nat (length (ps_tab s)) in
            Inr \<lparr>ps_tab = ps_tab s @ c, ps_seen = (ps_seen s)(c \<mapsto> p), ps_off = (ps_off s)(off \<mapsto> p)\<rparr>) = (Inr s' :: derror + pctab_state)"
    using assms(1)[unfolded emit_table_def if_not_P[OF False] bindR_eq_Inr] by (elim exE conjE) (rule that)
  have cc: "c = ?c" "length c \<le> length tab + length after"
    using c(1) by (auto simp: cutR_def old_table_def split: if_splits)
  have card: "card (insert off (dom (ps_off s))) = Suc (card (dom (ps_off s)))" using f(2) by simp
  have ok: "dom (ps_off s) \<subseteq> {off. unat off < length tab}"
    "length (ps_tab s) \<le> 1 + card (dom (ps_off s)) * (length tab + length after)"
    "length (ps_tab s) < 2 ^ 32 \<Longrightarrow> ps_off s o1 = Some p \<Longrightarrow> holds_at (ps_tab s) p (old_table tab after o1)"
    "length (ps_tab s) < 2 ^ 32 \<Longrightarrow> ps_seen s c1 = Some p \<Longrightarrow> holds_at (ps_tab s) p c1" for o1 c1 p
    using assms(2) by (auto simp: pctab_ok_def)
  show ?thesis
  proof (cases "ps_seen s c")
    case None
    let ?p = "of_nat (length (ps_tab s)) :: uint32"
    have s': "ps_tab s' = ps_tab s @ c" "ps_seen s' = (ps_seen s)(c \<mapsto> ?p)" "ps_off s' = (ps_off s)(off \<mapsto> ?p)"
      using c(2) None by (auto simp: Let_def)
    have "holds_at (ps_tab s') p (old_table tab after o1)" if "length (ps_tab s') < 2 ^ 32" "ps_off s' o1 = Some p" for o1 p
      using that ok(3)[of o1 p] holds_at_append holds_at_new[of "ps_tab s" c] by (auto simp: s' cc(1) split: if_splits)
    moreover have "holds_at (ps_tab s') p c1" if "length (ps_tab s') < 2 ^ 32" "ps_seen s' c1 = Some p" for c1 p
      using that ok(4)[of c1 p] holds_at_append holds_at_new[of "ps_tab s" c] by (auto simp: s' split: if_splits)
    moreover have "length (ps_tab s') \<le> 1 + card (dom (ps_off s')) * (length tab + length after)"
      using ok(2) cc(2) card by (simp add: s')
    ultimately show ?thesis using ok(1) f by (simp add: pctab_ok_def s' subset_insertI)
  next
    case (Some p)
    have s': "ps_tab s' = ps_tab s" "ps_seen s' = ps_seen s" "ps_off s' = (ps_off s)(off \<mapsto> p)" using c(2) Some by auto
    have "holds_at (ps_tab s') q (old_table tab after o1)" if "length (ps_tab s') < 2 ^ 32" "ps_off s' o1 = Some q" for o1 q
      using that ok(3)[of o1 q] ok(4)[of c q] Some by (auto simp: s' cc(1) split: if_splits)
    moreover have "holds_at (ps_tab s') q c1" if "length (ps_tab s') < 2 ^ 32" "ps_seen s' c1 = Some q" for c1 q
      using that ok(4)[of c1 q] by (simp add: s')
    moreover have "length (ps_tab s') \<le> 1 + card (dom (ps_off s')) * (length tab + length after)"
      using ok(2) card by (simp add: s')
    ultimately show ?thesis using ok(1) f by (simp add: pctab_ok_def s' subset_insertI)
  qed
qed

text \<open>Every pc table of a matched function is in the prediction.\<close>

lemma emit_tables_dom:
  assumes "foldR (emit_at tab after rec) qs s = Inr s'" "pctab_ok tab after s"
  shows "pctab_ok tab after s' \<and> dom (ps_off s) \<subseteq> dom (ps_off s') \<and>
    (\<forall>q \<in> set qs. \<forall>off. get32 rec q = Inr off \<longrightarrow> 0 < unat off \<longrightarrow> unat off < length tab \<longrightarrow> off \<in> dom (ps_off s'))"
  using assms
proof (induction qs arbitrary: s)
  case (Cons q qs)
  obtain s1 where s1: "emit_at tab after rec q s = Inr s1" "foldR (emit_at tab after rec) qs s1 = Inr s'"
    using Cons.prems(1) by (auto simp: bindR_eq_Inr)
  then obtain off where o: "get32 rec q = Inr off" "emit_table tab after off s = Inr s1" by (auto simp: emit_at_def bindR_eq_Inr)
  note e = emit_table_ok[OF o(2) Cons.prems(2)]
  have r: "pctab_ok tab after s'" "dom (ps_off s1) \<subseteq> dom (ps_off s')"
    "\<forall>q \<in> set qs. \<forall>off. get32 rec q = Inr off \<longrightarrow> 0 < unat off \<longrightarrow> unat off < length tab \<longrightarrow> off \<in> dom (ps_off s')"
    using Cons.IH[OF s1(2)] e by blast+
  have "0 < unat off \<longrightarrow> unat off < length tab \<longrightarrow> off \<in> dom (ps_off s')" using e r(2) by blast
  moreover have "dom (ps_off s) \<subseteq> dom (ps_off s')" using e r(2) by blast
  ultimately show ?case using r o(1) by (simp del: domIff)
qed simp

lemma pctab_func_cases:
  assumes "pctab_func old oft m j s = Inr s'"
  obtains "s' = s" "mt_newToOld m ! j < 0"
  | i npc x where "mt_newToOld m ! j = int i" "fn_Record (bn_pcln old) (fn_off (bn_funcs old ! i)) = Inr (npc, x)"
    "foldR (emit_at (pc_table (bn_pcln old) (pc_pctab (bn_pcln old))) (pc_after (bn_pcln old) (pc_pctab (bn_pcln old)))
       (drop (unat (fn_off (bn_funcs old ! i))) oft)) (pc_fields npc) s = Inr s'"
proof (cases "mt_newToOld m ! j < 0")
  case True
  then show ?thesis using assms that(1) by (auto simp: pctab_func_def bindR_eq_Inr atR_def split: if_splits)
next
  case False
  then have i: "mt_newToOld m ! j = int (nat (mt_newToOld m ! j))" by simp
  from False obtain npc x where "fn_Record (bn_pcln old) (fn_off (bn_funcs old ! nat (mt_newToOld m ! j))) = Inr (npc, x)"
    "foldR (emit_at (pc_table (bn_pcln old) (pc_pctab (bn_pcln old))) (pc_after (bn_pcln old) (pc_pctab (bn_pcln old)))
       (drop (unat (fn_off (bn_funcs old ! nat (mt_newToOld m ! j)))) oft)) (pc_fields npc) s = Inr s'"
    using assms by (auto simp: pctab_func_def Let_def bindR_eq_Inr atR_def dropR_def split: if_splits prod.splits)
  then show ?thesis by (rule that(2)[OF i])
qed

lemma pctab_func_dom:
  assumes "pctab_func old oft m j s = Inr s'" "pctab_ok (pc_table (bn_pcln old) (pc_pctab (bn_pcln old))) (pc_after (bn_pcln old) (pc_pctab (bn_pcln old))) s"
  shows "pctab_ok (pc_table (bn_pcln old) (pc_pctab (bn_pcln old))) (pc_after (bn_pcln old) (pc_pctab (bn_pcln old))) s'"
    and "dom (ps_off s) \<subseteq> dom (ps_off s')"
    and "mt_newToOld m ! j = int i \<Longrightarrow> fn_Record (bn_pcln old) (fn_off (bn_funcs old ! i)) = Inr (npc, x) \<Longrightarrow> q \<in> set (pc_fields npc) \<Longrightarrow>
      get32 (drop (unat (fn_off (bn_funcs old ! i))) oft) q = Inr off \<Longrightarrow> 0 < unat off \<Longrightarrow> unat off < length (pc_table (bn_pcln old) (pc_pctab (bn_pcln old))) \<Longrightarrow>
      off \<in> dom (ps_off s')"
  using assms(1)
proof (induction rule: pctab_func_cases[consumes 1, case_names skip run])
  case skip
  case 1 show ?case using assms(2) skip by simp
  case 2 show ?case using skip by simp
  case 3 then show ?case using skip by simp
next
  case (run i' npc' x')
  note e = emit_tables_dom[OF run(3) assms(2)]
  case 1 show ?case using e by blast
  case 2 show ?case using e by blast
  case 3
  then have "i' = i" using run(1) by simp
  then show ?case using e 3 run(2) by auto
qed

lemma predictPctab_ok:
  assumes "predictPctab old new m oft = Inr ps"
  shows "pctab_ok (pc_table (bn_pcln old) (pc_pctab (bn_pcln old))) (pc_after (bn_pcln old) (pc_pctab (bn_pcln old))) ps"
  by (rule foldR_inv[OF assms[unfolded predictPctab_def], where I = "pctab_ok _ _"]) (simp add: pctab_ok_def, blast intro: pctab_func_dom(1))

lemma predictPctab_copies:
  assumes "predictPctab old new m oft = Inr ps" "length (ps_tab ps) < 2 ^ 32"
    and "j < length (bn_funcs new)" "mt_newToOld m ! j = int i" "fn_Record (bn_pcln old) (fn_off (bn_funcs old ! i)) = Inr (npc, x)"
    and "q \<in> set (pc_fields npc)" "get32 (drop (unat (fn_off (bn_funcs old ! i))) oft) q = Inr off"
    and "0 < unat off" "unat off < length (pc_table (bn_pcln old) (pc_pctab (bn_pcln old)))"
  shows "\<exists>p. ps_off ps off = Some p \<and>
    holds_at (ps_tab ps) p (old_table (pc_table (bn_pcln old) (pc_pctab (bn_pcln old))) (pc_after (bn_pcln old) (pc_pctab (bn_pcln old))) off)"
proof -
  let ?t = "pc_table (bn_pcln old) (pc_pctab (bn_pcln old))" and ?a = "pc_after (bn_pcln old) (pc_pctab (bn_pcln old))"
  define s0 where "s0 = \<lparr>ps_tab = [0 :: byte], ps_seen = (\<lambda>_. None), ps_off = (\<lambda>_. None :: uint32 option)\<rparr>"
  have split: "[0..<length (bn_funcs new)] = [0..<j] @ j # [Suc j..<length (bn_funcs new)]"
    using assms(3) upt_conv_Cons[of j] upt_add_eq_append[of 0 j "length (bn_funcs new) - j"] by simp
  obtain s1 s2 where s: "foldR (pctab_func old oft m) [0..<j] s0 = Inr s1" "pctab_func old oft m j s1 = Inr s2"
    "foldR (pctab_func old oft m) [Suc j..<length (bn_funcs new)] s2 = Inr ps"
    using assms(1) unfolding predictPctab_def split s0_def[symmetric] by (auto simp: foldR_append bindR_eq_Inr)
  have o0: "pctab_ok ?t ?a s0" by (simp add: s0_def pctab_ok_def)
  have o1: "pctab_ok ?t ?a s1" by (rule foldR_inv[OF s(1), where I = "pctab_ok ?t ?a", OF o0]) (rule pctab_func_dom(1))
  have o2: "pctab_ok ?t ?a s2" by (rule pctab_func_dom(1)[OF s(2) o1])
  have "off \<in> dom (ps_off s2)" by (rule pctab_func_dom(3)[OF s(2) o1 assms(4-9)])
  moreover have "pctab_ok ?t ?a ps \<and> dom (ps_off s2) \<subseteq> dom (ps_off ps)"
    by (rule foldR_inv[OF s(3), where I = "\<lambda>t. pctab_ok ?t ?a t \<and> dom (ps_off s2) \<subseteq> dom (ps_off t)"])
      (use o2 pctab_func_dom(1,2) in blast)+
  ultimately show ?thesis using assms(2) unfolding pctab_ok_def by blast
qed

lemma card_offsets: "card {off :: uint32. unat off < n} \<le> n"
proof -
  have "{off :: uint32. unat off < n} \<subseteq> of_nat ` {..<n}" by (auto intro!: image_eqI[of _ of_nat "unat _"])
  then have "card {off :: uint32. unat off < n} \<le> card (of_nat ` {..<n} :: uint32 set)" by (intro card_mono) auto
  also have "\<dots> \<le> n" using card_image_le[of "{..<n}" "of_nat :: nat \<Rightarrow> uint32"] by simp
  finally show ?thesis .
qed

lemma predictPctab_length:
  assumes "predictPctab old new m oft = Inr ps" "length (pc_data (bn_pcln old)) + length (pc_tail (bn_pcln old)) \<le> K"
  shows "length (ps_tab ps) \<le> 1 + K * (2 * K)"
proof -
  let ?p = "bn_pcln old" let ?t = "pc_table ?p (pc_pctab ?p)" and ?a = "pc_after ?p (pc_pctab ?p)"
  have ok: "dom (ps_off ps) \<subseteq> {off. unat off < length ?t}" "length (ps_tab ps) \<le> 1 + card (dom (ps_off ps)) * (length ?t + length ?a)"
    using predictPctab_ok[OF assms(1)] by (auto simp: pctab_ok_def)
  have t: "length ?t \<le> K" "length ?a \<le> K" using assms(2) by (auto simp: pc_table_def pc_after_def)
  have "card (dom (ps_off ps)) \<le> card {off :: uint32. unat off < length ?t}" by (rule card_mono[OF _ ok(1)]) simp
  then have "card (dom (ps_off ps)) \<le> K" using card_offsets[of "length ?t"] t by linarith
  then have "card (dom (ps_off ps)) * (length ?t + length ?a) \<le> K * (2 * K)" using t by (intro mult_le_mono) auto
  then show ?thesis using ok(2) by linarith
qed

section \<open>Names\<close>

lemma nth_slice: "i < hi - lo \<Longrightarrow> lo + i < length xs \<Longrightarrow> slice lo hi xs ! i = xs ! (lo + i)"
  by (simp add: slice_def)

lemma index_byte_Some: "index_byte x xs = Some k \<longleftrightarrow> k < length xs \<and> xs ! k = x \<and> (\<forall>i < k. xs ! i \<noteq> x)"
proof (induction x xs arbitrary: k rule: index_byte.induct)
  case (2 c b bs)
  show ?case
  proof (cases k)
    case 0
    then show ?thesis by auto
  next
    case (Suc k')
    have "(\<forall>i < Suc k'. (b # bs) ! i \<noteq> c) \<longleftrightarrow> b \<noteq> c \<and> (\<forall>i < k'. bs ! i \<noteq> c)"
      using less_Suc_eq_0_disj by auto
    then show ?thesis using 2 Suc by auto
  qed
qed simp

lemma nameAt_eq:
  "nameAt tab off = Some n \<longleftrightarrow> unat off + length n < length tab \<and> slice (unat off) (unat off + length n) tab = n \<and>
     tab ! (unat off + length n) = 0 \<and> 0 \<notin> set n"
proof
  assume "nameAt tab off = Some n"
  then obtain e where e: "unat off < length tab" "index_byte 0 (drop (unat off) tab) = Some e" "n = slice (unat off) (unat off + e) tab"
    by (auto simp: nameAt_def split: if_splits)
  then have i: "e < length tab - unat off" "tab ! (unat off + e) = 0" "\<And>i. i < e \<Longrightarrow> tab ! (unat off + i) \<noteq> 0"
    by (auto simp: index_byte_Some)
  then have l: "length n = e" by (simp add: e(3))
  have "0 \<notin> set n"
  proof
    assume "0 \<in> set n"
    then obtain k where "k < length n" "n ! k = 0" unfolding in_set_conv_nth by blast
    then show False using i(1,3) l by (simp add: e(3) nth_slice)
  qed
  then show "unat off + length n < length tab \<and> slice (unat off) (unat off + length n) tab = n \<and> tab ! (unat off + length n) = 0 \<and> 0 \<notin> set n"
    using i l e(1,3) by auto
next
  assume a: "unat off + length n < length tab \<and> slice (unat off) (unat off + length n) tab = n \<and> tab ! (unat off + length n) = 0 \<and> 0 \<notin> set n"
  have "tab ! (unat off + i) \<noteq> 0" if "i < length n" for i
  proof -
    have "tab ! (unat off + i) = slice (unat off) (unat off + length n) tab ! i"
      using nth_slice[of i "unat off + length n" "unat off" tab] a that by simp
    also have "\<dots> \<in> set n" using a that nth_mem[OF that] by simp
    finally show ?thesis using a by auto
  qed
  then have "index_byte 0 (drop (unat off) tab) = Some (length n)" using a by (auto simp: index_byte_Some)
  then show "nameAt tab off = Some n" using a by (simp add: nameAt_def)
qed

lemma names_from_nameAt:
  "(o', n) \<in> set (names_from tab off) \<Longrightarrow> length tab < 2 ^ 32 \<Longrightarrow> nameAt tab (of_nat o') = Some n"
proof (induction tab off rule: names_from.induct)
  case (1 tab off)
  then show ?case
  proof (cases "off < length tab \<and> index_byte 0 (drop off tab) \<noteq> None")
    case True
    then obtain e where e: "index_byte 0 (drop off tab) = Some e" by auto
    have u: "unat (of_nat off :: uint32) = off" using True "1.prems"(2) by (simp add: unat_of_nat take_bit_nat_eq_self)
    have "nameAt tab (of_nat off) = Some (slice off (off + e) tab)" using True e u by (simp add: nameAt_def)
    moreover have "names_from tab off = (off, slice off (off + e) tab) # names_from tab (off + e + 1)"
      using True e by (subst names_from.simps) simp
    ultimately show ?thesis using "1.prems" "1.IH"[OF _ e] True by auto
  next
    case False
    then have "names_from tab off = []" by (subst names_from.simps) (auto split: option.splits)
    then show ?thesis using "1.prems"(1) by simp
  qed
qed

text \<open>A mapped name offset is the offset of an equal name.\<close>

lemma nm_Map_name:
  assumes "nm_Map (newNameOffMap oldTab newTab) off = Inr (Some off')" "length newTab < 2 ^ 32"
  shows "nameAt newTab off' = nameAt oldTab off \<and> nameAt oldTab off \<noteq> None"
proof -
  obtain name c ok where n: "nameAt oldTab off = Some name" "name_is newTab c name = Inr ok"
    "(if ok then Some (ucast c) else if name_offsets newTab name = [] then None
      else Some (name_offsets newTab name ! min (occurrence oldTab off) (length (name_offsets newTab name) - 1))) = Some off'"
    using assms(1) unfolding nm_Map_def newNameOffMap_def nameOffMap.simps Let_def
    by (auto simp: bindR_eq_Inr split: option.splits)
  have "nameAt newTab off' = Some name"
  proof (cases ok)
    case True
    let ?e = "c + of_nat (length name)"
    have e: "?e < of_nat (length newTab)" "unat c \<le> unat ?e" "slice (unat c) (unat ?e) newTab = name" "newTab ! unat ?e = 0"
      using n(2) True by (auto simp: name_is_def Let_def bindR_eq_Inr cutR_def split: if_splits)
    have "unat (of_nat (length newTab) :: uint64) = length newTab" using assms(2) by (simp add: unat_of_nat take_bit_nat_eq_self)
    then have lt: "unat ?e < length newTab" using e(1) by (simp add: word_less_nat_alt)
    then have "unat ?e = unat c + length name" using e(2) arg_cong[OF e(3), of length] by simp
    moreover have "unat (ucast c :: uint32) = unat c" using lt e(2) assms(2) by (simp add: unsigned_ucast_eq take_bit_nat_eq_self)
    moreover have "off' = ucast c" using n(3) True by simp
    ultimately show ?thesis using e(3,4) lt n(1) by (simp add: nameAt_eq)
  next
    case False
    then have "off' \<in> set (name_offsets newTab name)" using n(3) by (auto split: if_splits intro!: nth_mem simp: min_less_iff_disj)
    then show ?thesis using names_from_nameAt[OF _ assms(2), of _ name 0] by (auto simp: name_offsets_def forEachName_def)
  qed
  then show ?thesis using n(1) by simp
qed

section \<open>Funcdata symbols\<close>

lemma foldR_length:
  assumes "foldR f xs d = Inr d'" "\<And>x t t'. f x t = Inr t' \<Longrightarrow> length t' = length t"
  shows "length d' = length d"
  by (rule foldR_inv[OF assms(1), where I = "\<lambda>t. length t = length d"]) (use assms(2) in auto)

lemma retarget_sym_length: "retarget_sym nmap mp k d = Inr d' \<Longrightarrow> length d' = length d"
  by (auto simp: retarget_sym_def inline_entry_def stack_entry_def wrap_entry_def Let_def bindR_eq_Inr
      split: if_splits option.splits prod.splits elim!: foldR_length)

definition placed_sym :: "bytes \<Rightarrow> nameOffMap \<Rightarrow> mapper \<Rightarrow> bytes \<Rightarrow> (uint32 \<Rightarrow> uint32 option) \<Rightarrow> fdSym \<Rightarrow> bool" where
  "placed_sym oldGf nmap mp gf offs s \<longleftrightarrow>
     (\<exists>p d. offs (fd_off s) = Some p \<and> unat p mod unat (fd_class s) = 0 \<and> holds_at gf p d \<and>
        retarget_sym nmap mp (fd_kind s) (slice (unat (fd_off s)) (unat (fd_off s + fd_size s)) oldGf) = Inr d)"

lemma pad_class_aligned: "0 < c \<Longrightarrow> length (pad_class c gf) mod unat c = 0"
proof -
  assume "0 < c"
  then have c: "0 < int (unat c)" unfolding of_nat_0_less_iff by (simp add: word_less_nat_alt)
  have "int (length (pad_class c gf)) mod int (unat c) = (int (length gf) + (- int (length gf)) mod int (unat c)) mod int (unat c)"
    using pos_mod_sign[OF c] by (simp add: pad_class_def)
  also have "\<dots> = 0" by (simp add: mod_simps)
  finally show ?thesis by (metis of_nat_0_eq_iff zmod_int)
qed

lemma length_pad_class: "0 < c \<Longrightarrow> length gf \<le> length (pad_class c gf) \<and> length (pad_class c gf) \<le> length gf + unat c"
proof -
  assume "0 < c"
  then have "0 < int (unat c)" unfolding of_nat_0_less_iff by (simp add: word_less_nat_alt)
  from pos_mod_bound[OF this, of "- int (length gf)"] have "nat ((- int (length gf)) mod int (unat c)) \<le> unat c" by linarith
  then show ?thesis by (simp add: pad_class_def)
qed

lemma emit_sym_placed:
  assumes "emit_sym oldGf nmap mp s (gf, offs) = Inr (gf', offs')" "0 < fd_class s" "length gf' < 2 ^ 32"
  shows "placed_sym oldGf nmap mp gf' offs' s"
    and "placed_sym oldGf nmap mp gf offs t \<Longrightarrow> fd_off t \<noteq> fd_off s \<Longrightarrow> placed_sym oldGf nmap mp gf' offs' t"
proof -
  let ?g = "pad_class (fd_class s) gf"
  obtain d where d: "retarget_sym nmap mp (fd_kind s) (slice (unat (fd_off s)) (unat (fd_off s + fd_size s)) oldGf) = Inr d"
    "gf' = ?g @ d" "offs' = offs(fd_off s \<mapsto> of_nat (length ?g))"
    using assms(1) by (auto simp: emit_sym_def Let_def bindR_eq_Inr cutR_def split: if_splits)
  have l: "length ?g < 2 ^ 32" using assms(3) d(2) by simp
  then have u: "unat (of_nat (length ?g) :: uint32) = length ?g" by (simp add: unat_of_nat take_bit_nat_eq_self)
  show "placed_sym oldGf nmap mp gf' offs' s"
    using d(1) holds_at_new[OF l] pad_class_aligned[OF assms(2), of gf] u by (auto simp: placed_sym_def d(2,3))
  have "\<exists>xs. ?g = gf @ xs" by (simp add: pad_class_def)
  then show "placed_sym oldGf nmap mp gf' offs' t" if "placed_sym oldGf nmap mp gf offs t" "fd_off t \<noteq> fd_off s"
    using that holds_at_append by (fastforce simp: placed_sym_def d(2,3))
qed

lemma emit_sym_length:
  assumes "emit_sym oldGf nmap mp s (gf, offs) = Inr (gf', offs')" "0 < fd_class s" "fd_class s \<le> 8"
  shows "length gf \<le> length gf'" "length gf' \<le> length gf + (length oldGf + 8)"
  using assms length_pad_class[OF assms(2), of gf]
  by (auto simp: emit_sym_def Let_def bindR_eq_Inr cutR_def word_le_nat_alt dest!: retarget_sym_length split: if_splits)

lemma emit_syms:
  assumes "foldR (emit_sym oldGf nmap mp) ss (gf, offs) = Inr (gf', offs')" "\<forall>s \<in> set ss. 0 < fd_class s \<and> fd_class s \<le> 8"
    and "distinct (map fd_off ss)"
  shows "length gf \<le> length gf' \<and> length gf' \<le> length gf + length ss * (length oldGf + 8) \<and>
    (length gf' < 2 ^ 32 \<longrightarrow> (\<forall>s \<in> set ss. placed_sym oldGf nmap mp gf' offs' s) \<and>
      (\<forall>t. fd_off t \<notin> fd_off ` set ss \<longrightarrow> placed_sym oldGf nmap mp gf offs t \<longrightarrow> placed_sym oldGf nmap mp gf' offs' t))"
  using assms
proof (induction ss arbitrary: gf offs)
  case (Cons s ss)
  obtain g1 o1 where s1: "emit_sym oldGf nmap mp s (gf, offs) = Inr (g1, o1)" "foldR (emit_sym oldGf nmap mp) ss (g1, o1) = Inr (gf', offs')"
    using Cons.prems(1) by (auto simp: bindR_eq_Inr)
  have c: "0 < fd_class s" "fd_class s \<le> 8" using Cons.prems(2) by auto
  note l = emit_sym_length[OF s1(1) c] and p = emit_sym_placed[OF s1(1) c(1)]
  have IH: "length g1 \<le> length gf'" "length gf' \<le> length g1 + length ss * (length oldGf + 8)"
    "length gf' < 2 ^ 32 \<Longrightarrow> s \<in> set ss \<Longrightarrow> placed_sym oldGf nmap mp gf' offs' s"
    "length gf' < 2 ^ 32 \<Longrightarrow> fd_off t \<notin> fd_off ` set ss \<Longrightarrow> placed_sym oldGf nmap mp g1 o1 t \<Longrightarrow> placed_sym oldGf nmap mp gf' offs' t" for s t
    using Cons.IH[OF s1(2)] Cons.prems(2,3) by auto
  have s: "fd_off s \<notin> fd_off ` set ss" using Cons.prems(3) by simp
  show ?case
  proof (intro conjI impI ballI allI)
    fix t assume f: "length gf' < 2 ^ 32"
    then have g1: "length g1 < 2 ^ 32" using IH(1) by simp
    show "placed_sym oldGf nmap mp gf' offs' t" if "t \<in> set (s # ss)"
      using that IH(3)[OF f, of t] IH(4)[OF f s p(1)[OF g1]] by auto
    show "placed_sym oldGf nmap mp gf' offs' t" if "fd_off t \<notin> fd_off ` set (s # ss)" "placed_sym oldGf nmap mp gf offs t"
      using that IH(4)[OF f, of t] p(2)[OF g1, of t] by auto
  qed (use l IH(1,2) in auto)
qed simp

lemma mset_classes: "mset (concat (map (\<lambda>c. filter (\<lambda>s. f s = c) xs) [0..<n])) = mset (filter (\<lambda>s. f s < n) xs)"
proof (induction n)
  case (Suc n)
  have "mset (filter (\<lambda>s. f s < Suc n) xs) = mset (filter (\<lambda>s. f s < n) xs) + mset (filter (\<lambda>s. f s = n) xs)"
    by (induction xs) (auto simp: less_Suc_eq)
  then show ?case using Suc by simp
qed simp

lemma mset_in_classes: "mset (in_classes used) = mset used"
proof -
  have "filter (\<lambda>s. classIdx (fd_class s) < 6) used = used" by (simp add: classIdx_def filter_id_conv)
  then show ?thesis using mset_classes[of "\<lambda>s. classIdx (fd_class s)" used 6] by (simp only: in_classes_def)
qed

definition syms_ok :: "nat \<Rightarrow> fdSym list \<Rightarrow> bool" where
  "syms_ok n ss \<longleftrightarrow> distinct (map fd_off ss) \<and> (\<forall>s \<in> set ss. unat (fd_off s) < n)"

lemma syms_ok_length: "syms_ok n ss \<Longrightarrow> length ss \<le> n"
proof -
  assume ok: "syms_ok n ss"
  have "length ss = card (set (map fd_off ss))" using ok distinct_card[of "map fd_off ss"] by (simp add: syms_ok_def)
  also have "\<dots> \<le> card {off :: uint32. unat off < n}" by (rule card_mono) (use ok in \<open>auto simp: syms_ok_def\<close>)
  finally show ?thesis using card_offsets[of n] by linarith
qed

lemma find_sym_None: "find_sym ss off = None \<longleftrightarrow> off \<notin> fd_off ` set ss"
  by (auto simp: find_sym_def find_None_iff)

lemma find_sym_Some: "find_sym ss off = Some s \<Longrightarrow> s \<in> set ss \<and> fd_off s = off"
  by (auto simp: find_sym_def find_Some_iff)

lemma collect_ok:
  assumes "foldR (collect_func old oft) fis [] = Inr syms"
  shows "syms_ok (length (bn_Gofunc old)) syms"
proof -
  have k: "syms_ok n t'" if "collect_sym n fi rec npc k t = Inr t'" "syms_ok n t" for n fi rec npc k t t'
    using that by (auto simp: collect_sym_def syms_ok_def bindR_eq_Inr find_sym_None split: if_splits)
  have f: "syms_ok (length (bn_Gofunc old)) t'" if c: "collect_func old oft fi t = Inr t'" and t: "syms_ok (length (bn_Gofunc old)) t" for fi t t'
  proof -
    obtain rec npc ks where "foldR (collect_sym (length (bn_Gofunc old)) fi rec npc) ks t = Inr t'"
      using c by (auto simp: collect_func_def Let_def bindR_eq_Inr split: prod.splits)
    then show ?thesis by (rule foldR_inv[where I = "syms_ok _", OF _ t]) (rule k)
  qed
  show ?thesis by (rule foldR_inv[OF assms, where I = "syms_ok _"]) (simp add: syms_ok_def, rule f)
qed

lemma classify_ok:
  assumes "syms_ok n ss"
  shows "syms_ok n (classify ss tot)" "\<forall>s \<in> set (classify ss tot). 0 < fd_class s \<and> fd_class s \<le> 8"
proof -
  have m: "map fd_off (classify ss tot) = map fd_off ss" by (rule nth_equalityI) (auto simp: classify_def Let_def)
  have "fd_off ` set (classify ss tot) = fd_off ` set ss" using arg_cong[OF m, of set] by simp
  then have "unat (fd_off s) < n" if "s \<in> set (classify ss tot)" for s using that assms by (force simp: syms_ok_def)
  then show "syms_ok n (classify ss tot)" using assms m by (simp add: syms_ok_def)
  show "\<forall>s \<in> set (classify ss tot). 0 < fd_class s \<and> fd_class s \<le> 8"
    by (auto simp: classify_def Let_def align_class_def)
qed

lemma use_ok:
  assumes "foldR (use_func old oft m syms) js [] = Inr used" "syms_ok n syms"
  shows "syms_ok n used \<and> set used \<subseteq> set syms"
proof -
  let ?I = "\<lambda>t. syms_ok n t \<and> set t \<subseteq> set syms"
  have k: "?I t'" if "use_sym syms rec npc k t = Inr t'" "?I t" for rec npc k t t'
  proof -
    from that(1) obtain off where off: "t' = (case find_sym syms off of None \<Rightarrow> t | Some s \<Rightarrow> if find_sym t off \<noteq> None then t else t @ [s])"
      by (auto simp: use_sym_def bindR_eq_Inr)
    show ?thesis
    proof (cases "find_sym syms off")
      case (Some s)
      from find_sym_Some[OF this] have s: "s \<in> set syms" "fd_off s = off" by auto
      then have "unat off < n" using assms(2) by (auto simp: syms_ok_def)
      then show ?thesis using off Some s that(2) by (auto simp: syms_ok_def find_sym_None)
    qed (use off that(2) in simp)
  qed
  have f: "?I t'" if u: "use_func old oft m syms j t = Inr t'" and t: "?I t" for j t t'
  proof (cases "t' = t")
    case False
    obtain rec npc ks where "foldR (use_sym syms rec npc) ks t = Inr t'"
      using u False by (auto simp: use_func_def Let_def bindR_eq_Inr split: prod.splits if_splits)
    then show ?thesis by (rule foldR_inv[where I = ?I, OF _ t]) (rule k)
  qed (use t in simp)
  show ?thesis by (rule foldR_inv[OF assms(1), where I = ?I]) (simp add: syms_ok_def, rule f)
qed

text \<open>
  The symbols the prediction places, each at a multiple of its alignment with its embedded
  references re-targeted; and the bound on the blob.
\<close>

lemma predictGofunc_placed:
  assumes "predictGofunc old new m mp oft = Inr (gf, offs)"
  obtains syms used where "foldR (collect_func old oft) [0..<length (bn_funcs old)] [] = Inr syms"
    "foldR (use_func old oft m (classify (sort_key fd_off syms) (of_nat (length (bn_Gofunc old))))) [0..<length (bn_funcs new)] [] = Inr used"
    "length gf \<le> length (bn_Gofunc old) * (length (bn_Gofunc old) + 8)"
    "length gf < 2 ^ 32 \<longrightarrow> (\<forall>s \<in> set used.
      placed_sym (bn_Gofunc old) (newNameOffMap (pc_table (bn_pcln old) (pc_funcnametab (bn_pcln old))) (pc_table (bn_pcln new) (pc_funcnametab (bn_pcln new)))) mp gf offs s)"
proof -
  let ?n = "length (bn_Gofunc old)"
  let ?nm = "newNameOffMap (pc_table (bn_pcln old) (pc_funcnametab (bn_pcln old))) (pc_table (bn_pcln new) (pc_funcnametab (bn_pcln new)))"
  obtain syms used where u: "foldR (collect_func old oft) [0..<length (bn_funcs old)] [] = Inr syms"
    "foldR (use_func old oft m (classify (sort_key fd_off syms) (of_nat ?n))) [0..<length (bn_funcs new)] [] = Inr used"
    "foldR (emit_sym (bn_Gofunc old) ?nm mp) (in_classes used) ([], \<lambda>_. None) = Inr (gf, offs)"
    using assms by (auto simp: predictGofunc_def Let_def bindR_eq_Inr)
  have "distinct (map fd_off (sort_key fd_off syms)) = distinct (map fd_off syms)"
    by (rule mset_eq_imp_distinct_iff) simp
  then have "syms_ok ?n (sort_key fd_off syms)" using collect_ok[OF u(1)] by (simp add: syms_ok_def)
  note c = classify_ok[OF this, of "of_nat ?n"]
  note us = use_ok[OF u(2) c(1)]
  have ms: "set (in_classes used) = set used" "length (in_classes used) = length used"
    using mset_in_classes[of used] mset_eq_setD mset_eq_length by blast+
  have d: "distinct (map fd_off (in_classes used))"
    using us mset_eq_imp_distinct_iff[of "map fd_off (in_classes used)" "map fd_off used"] mset_in_classes[of used] by (simp add: syms_ok_def)
  have e: "length gf \<le> length used * (?n + 8)" "length gf < 2 ^ 32 \<Longrightarrow> s \<in> set used \<Longrightarrow> placed_sym (bn_Gofunc old) ?nm mp gf offs s" for s
    using emit_syms[OF u(3) _ d] us c(2) ms by auto
  have "length used * (?n + 8) \<le> ?n * (?n + 8)" using syms_ok_length us by (intro mult_le_mono1) auto
  then have "length gf \<le> ?n * (?n + 8)" using e(1) by linarith
  then show ?thesis by (rule that[OF u(1,2)]) (use e(2) in blast)
qed

section \<open>Bounds\<close>

lemma length_predictCutab: "length (predictCutab oc oft nft) = length oc"
proof -
  have "length (foldl (\<lambda>out i. overwrite (4 * i) (g i) out) b is) = length b" for g :: "nat \<Rightarrow> bytes" and b "is"
    by (induction "is" arbitrary: b) (auto simp: overwrite_def)
  then show ?thesis by (simp add: predictCutab_def Let_def)
qed

lemma length_padTo: "length (padTo b n) = max (length b) (unat n)"
  by (simp add: padTo_def)

lemma predictBlobs_length:
  assumes "predictBlobs old new m mp = Inr bp" "length (pc_data (bn_pcln old)) + length (pc_tail (bn_pcln old)) \<le> 2 ^ 29"
    and "unat (rg_len (pc_cutab (bn_pcln new))) \<le> 2 ^ 48" "unat (rg_len (pc_pctab (bn_pcln new))) \<le> 2 ^ 48" "unat (rg_len (pc_gofunc (bn_pcln new))) \<le> 2 ^ 48"
  shows "length (bp_concat bp) < 2 ^ 61"
proof -
  let ?op = "bn_pcln old" and ?np = "bn_pcln new"
  obtain ps gf offs where p: "predictPctab old new m (pc_table ?op (pc_functab ?op)) = Inr ps"
    "predictGofunc old new m mp (pc_table ?op (pc_functab ?op)) = Inr (gf, offs)"
    "bp = \<lparr>bp_cutab = padTo (predictCutab (pc_table ?op (pc_cutab ?op)) (pc_table ?op (pc_filetab ?op)) (pc_table ?np (pc_filetab ?np))) (rg_len (pc_cutab ?np)),
          bp_pctab = padTo (ps_tab ps) (rg_len (pc_pctab ?np)), bp_gofunc = padTo gf (rg_len (pc_gofunc ?np)),
          bp_pcOff = ps_off ps, bp_gfOff = offs\<rparr>"
    using assms(1) by (auto simp: predictBlobs_def Let_def bindR_eq_Inr)
  have "length (ps_tab ps) \<le> 1 + 2 ^ 29 * (2 * 2 ^ 29)" by (rule predictPctab_length[OF p(1) assms(2)])
  moreover have "length gf \<le> 2 ^ 29 * (2 ^ 29 + 8)"
  proof (rule predictGofunc_placed[OF p(2)])
    have "length (bn_Gofunc old) \<le> 2 ^ 29" using assms(2) by (simp add: bn_Gofunc_def pc_table_def)
    then have "length (bn_Gofunc old) * (length (bn_Gofunc old) + 8) \<le> 2 ^ 29 * (2 ^ 29 + 8)" by (intro mult_le_mono) auto
    moreover assume "length gf \<le> length (bn_Gofunc old) * (length (bn_Gofunc old) + 8)"
    ultimately show "length gf \<le> 2 ^ 29 * (2 ^ 29 + 8)" by linarith
  qed
  moreover have "length (pc_table ?op (pc_cutab ?op)) \<le> 2 ^ 29" using assms(2) by (simp add: pc_table_def)
  ultimately show ?thesis using assms(3-5) unfolding p(3) bp_concat_def blobPred.simps length_append length_padTo length_predictCutab
    by (simp add: max_def)
qed

end
