(* ===== verification/Go127.thy ===== *)
theory Go127
  imports Predict BlobsProof Delta
begin

text \<open>
  \<^verbatim>\<open>delta/go127.go\<close>: the Go-aware transform.  The encoder runs the decoder's predictors on the
  decoder's inputs, so what it encodes the decoder rebuilds (\<open>go_roundtrip\<close>), and the whole codec
  round-trips with this transform in it (\<open>Encode_Apply_go\<close>).  Statistics and notes are not modelled.
\<close>

section \<open>Shared by both sides\<close>

definition skeletonFrom :: "bin \<Rightarrow> bytes \<Rightarrow> derror + bin \<times> funcmatch" where
  "skeletonFrom old layRaw = bindR (decodeLayout layRaw old) (skeleton old)"

definition newMapper :: "bin \<Rightarrow> bin \<Rightarrow> funcmatch \<Rightarrow> layout \<Rightarrow> mapper" where
  "newMapper old skel m l =
     \<lparr>mp_src = old, mp_dst = skel, mp_match = m, mp_dataMaps = ly_dataMaps l, mp_shifts = ly_shifts l,
      mp_overrides = overrideMap (ly_overrides l)\<rparr>"

section \<open>Encoding\<close>

text \<open>Every refusal of the parser is the codec's own sentinel; a panic stays one.\<close>

definition asUnsupported :: "string \<Rightarrow> derror \<Rightarrow> derror" where
  "asUnsupported which e = (case e of Panic \<Rightarrow> Panic | Unsupported why \<Rightarrow> Unsupported (which @ '' binary: '' @ why)
     | _ \<Rightarrow> Unsupported (which @ '' binary''))"

definition onErr :: "(derror \<Rightarrow> derror) \<Rightarrow> derror + 'a \<Rightarrow> derror + 'a" where
  "onErr f r = (case r of Inl e \<Rightarrow> Inl (f e) | Inr x \<Rightarrow> Inr x)"

definition encode_layout :: "golib \<Rightarrow> bin \<Rightarrow> bin \<Rightarrow> derror + bytes" where
  "encode_layout L ob nb =
     bindR (matchFuncs L ob nb) (\<lambda>m.
     bindR (buildMaps L ob nb m) (\<lambda>(dmaps, shifts).
     bindR (deriveOverrides ob nb m dmaps shifts) (\<lambda>(ov, dmaps).
     bindR (buildLayout ob nb m dmaps shifts ov) (ly_encode ob))))"

definition encodeGoAMD64 :: "prims \<Rightarrow> golib \<Rightarrow> bytes \<Rightarrow> bytes \<Rightarrow> derror + bytes" where
  "encodeGoAMD64 P L old new =
     bindR (onErr (asUnsupported ''old'') (Parse L old)) (\<lambda>ob.
     bindR (onErr (asUnsupported ''new'') (Parse L new)) (\<lambda>nb.
     bindR (encode_layout L ob nb) (\<lambda>layRaw.
     bindR (skeletonFrom ob layRaw) (\<lambda>(skel, m).
     bindR (decodeLayout layRaw ob) (\<lambda>lay.
     let s1aNew = stage1aBlobs nb; s1a = plainDiff (stage1aBlobs ob) s1aNew in
     bindR (fillTables skel stage1aRanges s1aNew) (\<lambda>skel.
     let mp = newMapper ob skel m lay in
     bindR (predictBlobs ob skel m mp) (\<lambda>bp.
     let s1bNew = stage1bBlobs nb; s1b = plainDiff (bp_concat bp) s1bNew in
     bindR (fillTables skel stage1bRanges s1bNew) (\<lambda>skel.
     bindR (predictWhole L ob skel lay (mp\<lparr>mp_dst := skel\<rparr>) bp) (\<lambda>pred.
     bindR (encodeCorrection pred new) (\<lambda>s2.
       Inr (w_raw s2 (w_raw (hashOf P pred) (w_bytes s1b (w_u (length s1bNew)
         (w_bytes s1a (w_u (length s1aNew) (w_bytes layRaw [])))))))))))))))))"

section \<open>Applying\<close>

definition notGo :: "derror \<Rightarrow> derror" where
  "notGo e = (case e of Panic \<Rightarrow> Panic | _ \<Rightarrow> NotGoBinary e)"

definition applyGoAMD64 :: "prims \<Rightarrow> golib \<Rightarrow> bytes \<Rightarrow> bytes \<Rightarrow> header \<Rightarrow> derror + bytes" where
  "applyGoAMD64 P L old body h =
     bindR (onErr notGo (Parse L old)) (\<lambda>ob.
     case r_bytes (rbuf_of body) of (layRaw, r) \<Rightarrow>
     case r_un (h_newsize h) ''stage 1a table length'' r of (s1aLen, r) \<Rightarrow> case r_bytes r of (s1a, r) \<Rightarrow>
     case r_un (h_newsize h) ''stage 1b table length'' r of (s1bLen, r) \<Rightarrow> case r_bytes r of (s1b, r) \<Rightarrow>
     case r_take 32 r of (s, r) \<Rightarrow>
     (case rerr r of Some e \<Rightarrow> Inl e | None \<Rightarrow>
     let s2 = rb r in
     bindR (skeletonFrom ob layRaw) (\<lambda>(skel, m).
     bindR (decodeLayout layRaw ob) (\<lambda>lay.
     bindR (plainPatch (stage1aBlobs ob) s1a s1aLen) (\<lambda>s1aNew.
     bindR (fillTables skel stage1aRanges s1aNew) (\<lambda>skel.
     let mp = newMapper ob skel m lay in
     bindR (predictBlobs ob skel m mp) (\<lambda>bp.
     bindR (plainPatch (bp_concat bp) s1b s1bLen) (\<lambda>s1bNew.
     bindR (fillTables skel stage1bRanges s1bNew) (\<lambda>skel.
     bindR (predictWhole L ob skel lay (mp\<lparr>mp_dst := skel\<rparr>) bp) (\<lambda>pred.
       if hashOf P pred \<noteq> s then Inl PredictedBaseMismatch
       else applyCorrection pred s2))))))))))"

definition go_codec :: "prims \<Rightarrow> golib \<Rightarrow> gocodec" where
  "go_codec P L = \<lparr>encodeGo = encodeGoAMD64 P L, applyGo = applyGoAMD64 P L\<rparr>"

section \<open>Sizes of what is parsed\<close>

lemma case_option_Inr: "(case x of None \<Rightarrow> Inl e | Some a \<Rightarrow> f a) = Inr y \<longleftrightarrow> (\<exists>a. x = Some a \<and> f a = Inr y)"
  by (cases x) auto

lemma if_Inl_Inr: "(if c then Inl e else m) = Inr y \<longleftrightarrow> \<not> c \<and> m = Inr y"
  by simp

lemma read_section_length: "read_section raw s = Inr x \<Longrightarrow> length (sc_data x) + length (sc_tail x) \<le> length raw"
  by (auto simp: read_section_def Let_def bindR_eq_Inr cutR_def split: if_splits)

lemma parsePcln_tables:
  assumes "parsePcln d tail addr m = Inr p"
  obtains t lastLen q where "p = with_tables t lastLen q" "pc_data p = d" "pc_tail p = tail"
    "\<forall>r \<in> set (pcln_ranges p). rg_off r \<le> rg_end r \<and> rg_end r \<le> of_nat (length d)"
proof -
  let ?t = "[le64at d 32, le64at d 40, le64at d 48, le64at d 56, le64at d 64, md_gofunc m - addr, md_findfunctab m - addr]"
  let ?q = "emptyPcln\<lparr>pc_data := d, pc_tail := tail, pc_addr := addr, pc_minLC := d ! 6, pc_ptrSize := d ! 7,
             pc_nfunc := sint (le64at d 8), pc_nfiles := sint (le64at d 16)\<rparr>"
  let ?p = "with_tables ?t (md_epclntab m - md_findfunctab m) ?q"
  have p: "p = ?p" and r: "\<not> list_ex (\<lambda>r. rg_off r > rg_end r \<or> rg_end r > of_nat (length d)) (pcln_ranges ?p)"
    using assms by (auto simp: parsePcln_def Let_def bindR_eq_Inr split: if_splits)
  show ?thesis
  proof (rule that[OF p])
    show "pc_data p = d" "pc_tail p = tail" by (simp_all add: p with_tables_def)
    show "\<forall>r \<in> set (pcln_ranges p). rg_off r \<le> rg_end r \<and> rg_end r \<le> of_nat (length d)"
      using r unfolding p list_ex_iff by (meson not_le)
  qed
qed

lemma stage1_length:
  assumes "p = with_tables t lastLen q" "\<forall>r \<in> set (pcln_ranges p). rg_off r \<le> rg_end r \<and> rg_end r \<le> of_nat (length (pc_data p))"
    and "length (pc_data p) < 2 ^ 64" "bn_pcln b = p"
  shows "length (stage1aBlobs b) \<le> length (pc_data p)" "length (stage1bBlobs b) \<le> length (pc_data p)"
proof -
  have u: "unat (of_nat (length (pc_data p)) :: uint64) = length (pc_data p)" using assms(3) by (simp add: unat_of_nat take_bit_nat_eq_self)
  have l: "length (pc_table p r) = unat (rg_end r) - unat (rg_off r)" if "r \<in> set (pcln_ranges p)" for r
    using assms(2) that u by (auto simp: pc_table_def word_le_nat_alt)
  have e: "rg_off (pc_funcnametab p) = t ! 0" "rg_end (pc_funcnametab p) = t ! 1" "rg_off (pc_cutab p) = t ! 1" "rg_end (pc_cutab p) = t ! 2"
    "rg_off (pc_filetab p) = t ! 2" "rg_end (pc_filetab p) = t ! 3" "rg_off (pc_pctab p) = t ! 3" "rg_end (pc_pctab p) = t ! 4"
    "rg_off (pc_functab p) = t ! 4" "rg_end (pc_functab p) = t ! 5" "rg_off (pc_gofunc p) = t ! 5" "rg_end (pc_gofunc p) = t ! 6"
    by (simp_all add: assms(1) with_tables_def rg_end_def)
  have ins: "pc_funcnametab p \<in> set (pcln_ranges p)" "pc_cutab p \<in> set (pcln_ranges p)" "pc_filetab p \<in> set (pcln_ranges p)"
    "pc_pctab p \<in> set (pcln_ranges p)" "pc_functab p \<in> set (pcln_ranges p)" "pc_gofunc p \<in> set (pcln_ranges p)"
    by (simp_all add: pcln_ranges_def)
  have mono: "unat (rg_off r) \<le> unat (rg_end r)" "unat (rg_end r) \<le> length (pc_data p)" if "r \<in> set (pcln_ranges p)" for r
    using assms(2) that u by (auto simp: word_le_nat_alt)
  note mono = mono[OF ins(1)] mono[OF ins(2)] mono[OF ins(3)] mono[OF ins(4)] mono[OF ins(5)] mono[OF ins(6)]
  note le = l[OF ins(1)] l[OF ins(2)] l[OF ins(3)] l[OF ins(4)] l[OF ins(6)]
  show "length (stage1aBlobs b) \<le> length (pc_data p)" "length (stage1bBlobs b) \<le> length (pc_data p)"
    using mono[unfolded e] le[unfolded e] by (simp_all add: stage1aBlobs_def stage1bBlobs_def concatRanges_def stage1aRanges_def stage1bRanges_def assms(4))
qed

lemma Parse_sizes:
  assumes "Parse L raw = Inr b" "length raw < 2 ^ 64"
  shows "length (pc_data (bn_pcln b)) + length (pc_tail (bn_pcln b)) \<le> length raw"
    "length (stage1aBlobs b) \<le> length raw" "length (stage1bBlobs b) \<le> length raw"
proof -
  obtain f :: go_elf and secs pcs m p where s: "mapR (read_section raw) (filter (\<lambda>s. es_name s \<noteq> [] \<and> es_alloc s) (ge_sections f)) = Inr secs"
    "sects_of secs (to_bytes ''.gopclntab'') = Some pcs" "parsePcln (sc_data pcs) (sc_tail pcs) (sc_addr pcs) m = Inr p" "bn_pcln b = p"
    using assms(1) unfolding Parse_def Let_def bindR_eq_Inr case_option_Inr if_Inl_Inr prod.case_eq_if by auto
  have "pcs \<in> set secs" using s(2) by (auto simp: sects_of_def find_Some_iff intro: nth_mem[of _ "rev secs", simplified])
  then obtain x where "read_section raw x = Inr pcs" using mapR_set[OF s(1)] by blast
  note len = read_section_length[OF this]
  obtain t lastLen q where p: "p = with_tables t lastLen q" "pc_data p = sc_data pcs" "pc_tail p = sc_tail pcs"
    "\<forall>r \<in> set (pcln_ranges p). rg_off r \<le> rg_end r \<and> rg_end r \<le> of_nat (length (sc_data pcs))"
    by (rule parsePcln_tables[OF s(3)])
  show "length (pc_data (bn_pcln b)) + length (pc_tail (bn_pcln b)) \<le> length raw" using len by (simp add: s(4) p(2,3))
  have "length (pc_data p) < 2 ^ 64" using len assms(2) by (simp add: p(2))
  from stage1_length[OF p(1) p(4)[folded p(2)] this s(4)] show "length (stage1aBlobs b) \<le> length raw" "length (stage1bBlobs b) \<le> length raw"
    using len by (auto simp: p(2))
qed

lemma skeleton_tables:
  assumes "skeletonFrom old layRaw = Inr (skel, m)" "r \<in> {pc_cutab (bn_pcln skel), pc_pctab (bn_pcln skel), pc_gofunc (bn_pcln skel)}"
  shows "unat (rg_len r) \<le> 2 ^ 48"
proof -
  obtain l a p where p: "skel_pcln old l a = Inr p" "bn_pcln skel = p"
    using assms(1) by (auto simp: skeletonFrom_def skeleton_def Let_def bindR_eq_Inr split: if_splits option.splits)
  define q where "q = with_tables (ly_tabOff l) (ly_pclnLen l - ly_tabOff l ! 6)
            (emptyPcln\<lparr>pc_addr := a, pc_nfunc := int (ly_nfunc l), pc_nfiles := sint (ly_nfiles l), pc_minLC := pc_minLC (bn_pcln old), pc_ptrSize := 8\<rparr>)"
  obtain hdr where "\<not> list_ex (\<lambda>r. rg_off r > rg_end r \<or> rg_end r > ly_pclnLen l) (pcln_ranges q)" "\<not> ly_pclnLen l > 2 ^ 48"
    "p = q\<lparr>pc_data := hdr\<rparr>"
    using p(1) unfolding skel_pcln_def Let_def q_def[symmetric] bindR_eq_Inr if_Inl_Inr by auto
  then have le: "\<forall>r \<in> set (pcln_ranges p). rg_off r \<le> rg_end r \<and> rg_end r \<le> ly_pclnLen l" "ly_pclnLen l \<le> 2 ^ 48"
    by (auto simp: list_ex_iff pcln_ranges_def not_less)
  have "r \<in> set (pcln_ranges p)" using assms(2) p(2) by (auto simp: pcln_ranges_def)
  then have r: "rg_off r \<le> rg_end r" "rg_end r \<le> 2 ^ 48" using le by (auto intro: order_trans)
  have "rg_len r = rg_end r - rg_off r" by (simp add: rg_end_def)
  then have "unat (rg_len r) = unat (rg_end r) - unat (rg_off r)" using r(1) by (simp add: unat_sub)
  moreover have "unat (rg_end r) \<le> 2 ^ 48" using r(2) by (simp add: word_le_nat_alt)
  ultimately show ?thesis by linarith
qed

section \<open>The round trip\<close>

text \<open>The streams of a body, as the decoder reads them back.\<close>

lemma go_body_streams:
  assumes "body = w_raw s2 (w_raw s (w_bytes s1b (w_u n1b (w_bytes s1a (w_u n1a (w_bytes layRaw []))))))"
    and "length body < 2 ^ 64" "n1a \<le> k" "n1b \<le> k" "k < 2 ^ 64" "length s = 32"
  obtains r1 r2 r3 r4 r5 where "r_bytes (rbuf_of body) = (layRaw, r1)" "r_un k what r1 = (n1a, r2)" "r_bytes r2 = (s1a, r3)"
    "r_un k what' r3 = (n1b, r4)" "r_bytes r4 = (s1b, r5)" "r_take 32 r5 = (s, rbuf_of s2)"
proof -
  have b: "body = put_uvarint (length layRaw) @ layRaw @ put_uvarint n1a @ put_uvarint (length s1a) @ s1a @
      put_uvarint n1b @ put_uvarint (length s1b) @ s1b @ s @ s2"
    using assms(1) by (simp add: writer_defs)
  have "length layRaw < 2 ^ 64" "length s1a < 2 ^ 64" "length s1b < 2 ^ 64" "n1a < 2 ^ 64" "n1b < 2 ^ 64"
    using assms(2-5) by (auto simp: b)
  then show ?thesis using that assms(3,4,6) unfolding b by (simp add: wire)
qed

lemma go_roundtrip:
  assumes "encodeGoAMD64 P L old new = Inr body" "prims_ok P" "length old \<le> 2 ^ 29" "length new \<le> maxPatchSize"
    and "length body \<le> maxPatchSize" "h_newsize h = length new"
  shows "applyGoAMD64 P L old body h = Inr new"
proof -
  obtain ob nb layRaw skel m lay skel1 bp skel2 pred s2 where
    p: "Parse L old = Inr ob" "Parse L new = Inr nb" and sk: "skeletonFrom ob layRaw = Inr (skel, m)"
    and lay: "decodeLayout layRaw ob = Inr lay" and f1: "fillTables skel stage1aRanges (stage1aBlobs nb) = Inr skel1"
    and bp: "predictBlobs ob skel1 m (newMapper ob skel1 m lay) = Inr bp"
    and f2: "fillTables skel1 stage1bRanges (stage1bBlobs nb) = Inr skel2"
    and w: "predictWhole L ob skel2 lay ((newMapper ob skel1 m lay)\<lparr>mp_dst := skel2\<rparr>) bp = Inr pred"
    and c: "encodeCorrection pred new = Inr s2"
    and body: "body = w_raw s2 (w_raw (hashOf P pred) (w_bytes (plainDiff (bp_concat bp) (stage1bBlobs nb)) (w_u (length (stage1bBlobs nb))
         (w_bytes (plainDiff (stage1aBlobs ob) (stage1aBlobs nb)) (w_u (length (stage1aBlobs nb)) (w_bytes layRaw []))))))"
    using assms(1) unfolding encodeGoAMD64_def Let_def bindR_eq_Inr onErr_def
    by (auto simp: bindR_eq_Inr split: sum.splits)
  have lt: "length old < 2 ^ 64" "length new < 2 ^ 56" "length new < 2 ^ 64" "length body < 2 ^ 64"
    using assms(3-5) by (auto simp: maxPatchSize_def)
  note so = Parse_sizes[OF p(1) lt(1)] and sn = Parse_sizes[OF p(2) lt(3)]
  have a: "plainPatch (stage1aBlobs ob) (plainDiff (stage1aBlobs ob) (stage1aBlobs nb)) (length (stage1aBlobs nb)) = Inr (stage1aBlobs nb)"
    by (rule plainPatch_plainDiff) (use so sn lt assms(3) in auto)
  have tabs: "pc_cutab (bn_pcln skel1) = pc_cutab (bn_pcln skel)" "pc_pctab (bn_pcln skel1) = pc_pctab (bn_pcln skel)"
    "pc_gofunc (bn_pcln skel1) = pc_gofunc (bn_pcln skel)"
    using f1 by (auto simp: fillTables_def bindR_eq_Inr split: if_splits)
  have "length (bp_concat bp) < 2 ^ 61"
    by (rule predictBlobs_length[OF bp]) (use so(1) assms(3) skeleton_tables[OF sk] in \<open>auto simp: tabs\<close>)
  then have b: "plainPatch (bp_concat bp) (plainDiff (bp_concat bp) (stage1bBlobs nb)) (length (stage1bBlobs nb)) = Inr (stage1bBlobs nb)"
    by (rule plainPatch_plainDiff) (use sn lt in auto)
  have h: "length (hashOf P pred) = 32" using assms(2) by (simp add: hashOf_def prims_ok_def)
  have "applyCorrection pred s2 = Inr new" by (rule applyCorrection_encode[OF _ c]) (use assms(4) in \<open>simp add: maxPatchSize_def\<close>)
  then show ?thesis
    by (rule_tac go_body_streams[OF body lt(4) sn(2,3) lt(3) h, of "''stage 1a table length''" "''stage 1b table length''"])
      (simp add: applyGoAMD64_def onErr_def p(1) assms(6) sk lay a f1 bp b f2 w Let_def)
qed

text \<open>The whole codec, with the Go-aware transform in it.\<close>

lemma Encode_Apply_go:
  assumes "prims_ok P" "encode_body (go_codec P L) old new o' = Inr (tr, body)" "length body \<le> maxPatchSize"
    and "length old \<le> 2 ^ 29" "length new \<le> maxPatchSize"
  shows "\<exists>patch. Encode P (go_codec P L) old new o' = Inr patch \<and> Apply P (go_codec P L) old patch = Inr new"
proof (rule Encode_Apply_body[OF assms(1-3) _ assms(5)])
  show le: "length old \<le> maxPatchSize" using assms(4) by (simp add: maxPatchSize_def)
  show "applyPlain old body h = Inr new" if "h_newsize h = length new" "tr = TransformPlain" for h
    using that encode_body_plain assms(2) applyPlain_plainDiff[OF le assms(5)] by blast
  show "applyGo (go_codec P L) old body h = Inr new" if "h_newsize h = length new" "tr = TransformGoAMD64" for h
    using go_roundtrip[OF _ assms(1,4,5,3) that(1)] encode_body_go assms(2) that(2) by (simp add: go_codec_def) (metis gocodec.select_convs(1))
qed

end
