(* ===== verification/LayoutProof.thy ===== *)
theory LayoutProof
  imports Layout "HOL-Library.Multiset"
begin

text \<open>
  What \<^verbatim>\<open>delta/layout.go\<close> promises: a layout reads back as it was written (\<open>decodeLayout_encode\<close>),
  and the function list gives the new functions' addresses and the pairing (\<open>decodeFuncLayout_build\<close>).
\<close>

section \<open>Values written as deltas\<close>

lemma word_of_int_wrap64: "(word_of_int (wrap64 x) :: uint64) = word_of_int x"
  by (simp only: word_of_int_eq_iff take_bit_eq_mod wrap64_def) (simp add: mod_simps)

lemma add_delta64: "a + word_of_int (delta64 v a) = v"
  by (simp add: delta64_def word_of_int_wrap64 flip: wi_hom_sub)

lemma delta64_range [simp]: "in_int64 (delta64 v a)"
  by (simp add: delta64_def wrap64_range)

lemma r_delta_put [wire]: "r_delta a (rbuf_of (put_delta v a @ rest)) = (v, rbuf_of rest)"
  by (simp add: r_delta_def put_delta_def wire add_delta64)

lemma read_deltas_put [wire]:
  "length vs = length as \<Longrightarrow> read_deltas as (rbuf_of (put_deltas vs as @ rest)) = (vs, rbuf_of rest)"
  by (induction vs as rule: list_induct2) (simp_all add: put_deltas_def wire)

lemma unat64_less [simp]: "unat (x :: uint64) < 18446744073709551616"
  using unsigned_less[of x, where 'a = nat] by simp

lemma put_pos: "Suc 0 \<le> length (put_uvarint v)" "Suc 0 \<le> length (put_varint x)"
  by (simp_all add: Suc_leI)

section \<open>Sections\<close>

lemma sect_index_Some:
  assumes "sect_index order n = Some k"
  shows "k < length order" "sc_name (order ! k) = n"
proof -
  have "k = length (takeWhile (\<lambda>s. sc_name s \<noteq> n) order)" and k: "k < length order"
    using assms by (auto simp: sect_index_def Let_def split: if_splits)
  then show "k < length order" "sc_name (order ! k) = n" using nth_length_takeWhile[of "\<lambda>s. sc_name s \<noteq> n" order] by auto
qed

definition sect_ok :: "gosect list \<Rightarrow> sectInfo \<Rightarrow> bool" where
  "sect_ok order s \<longleftrightarrow> (sect_index order (si_name s) = None \<longrightarrow> length (si_name s) \<le> 256)"

lemma read_sects_put:
  assumes "length order < 2 ^ 64" "list_all (sect_ok order) ss"
  shows "read_sects order (length ss) expect (rbuf_of (put_sects order expect ss @ rest)) = (ss, rbuf_of rest)"
  using assms(2)
proof (induction ss arbitrary: expect)
  case (Cons s ss)
  show ?case
  proof (cases "sect_index order (si_name s)")
    case None
    then show ?thesis using Cons
      by (simp add: put_sect_def next_expect_def read_sect_head_def sect_ok_def writer_defs wire)
  next
    case (Some k)
    note k = sect_index_Some[OF Some]
    show ?thesis using Cons Some k assms(1)
      by (cases "k = expect") (simp_all add: put_sect_def next_expect_def read_sect_head_def wire)
  qed
qed simp

section \<open>Overrides\<close>

lemma read_overrides_put:
  "read_overrides (length ovs) po pd (rbuf_of (put_overrides po pd ovs @ rest)) = (ovs, rbuf_of rest)"
  by (induction ovs arbitrary: po pd) (simp_all add: Let_def wire wrap64_range wrap64_add_diff add_delta64)

lemma length_put_overrides: "length ovs \<le> length (put_overrides po pd ovs)"
proof (induction ovs arbitrary: po pd)
  case (Cons ov ovs)
  have "length ovs \<le> length (put_overrides (ov_old ov) (delta64 (ov_new ov) (ov_old ov)) ovs)" by (rule Cons)
  then show ?case using put_pos(1)[of "unat (ov_old ov - po)"] by (simp add: Let_def)
qed simp

lemma decodeOverrides_put [wire]:
  "length ovs < 2 ^ 64 \<Longrightarrow> decodeOverrides (rbuf_of (encodeOverrides ovs)) = (ovs, rbuf_of [])"
proof -
  assume l: "length ovs < 2 ^ 64"
  have "length ovs \<le> length (put_uvarint (length ovs) @ put_overrides 0 0 ovs) + 1"
    using length_put_overrides[of ovs 0 0] by simp
  from r_un_put[OF this l] read_overrides_put[of ovs 0 0 "[]"] show ?thesis
    by (simp add: decodeOverrides_def encodeOverrides_def)
qed

section \<open>Data maps\<close>

definition expand :: "(nat \<times> int) list \<Rightarrow> int list" where
  "expand rs = concat (map (\<lambda>(n, d). replicate n d) rs)"

lemma expand_runs: "expand (delta_runs ds) = ds"
  by (induction ds rule: delta_runs.induct) (auto simp: expand_def split: list.splits)

lemma snd_delta_runs: "(n, d) \<in> set (delta_runs ds) \<Longrightarrow> d \<in> set ds"
  by (induction ds arbitrary: n d rule: delta_runs.induct) (auto split: list.splits if_splits)

lemma read_runs_put:
  assumes "list_all (\<lambda>e. in_int64 (snd e)) rs" "length acc + length (expand rs) \<le> nb" "nb < 2 ^ 63"
  shows "read_runs nb (length rs) prev acc (rbuf_of (put_runs prev rs @ rest)) = Inr (acc @ expand rs, rbuf_of rest)"
  using assms(1,2)
proof (induction rs arbitrary: prev acc)
  case (Cons e rs)
  obtain n d where e: "e = (n, d)" by fastforce
  have "n \<le> nb + 1" "n < 2 ^ 64" "length acc + n \<le> nb" using Cons.prems(2) assms(3) by (auto simp: e expand_def)
  then show ?case using Cons assms(3)
    by (simp add: e wire wrap64_range wrap64_add_diff Let_def expand_def)
qed (simp add: expand_def)

definition map_ok :: "dataMap \<Rightarrow> bool" where
  "map_ok m \<longleftrightarrow> 0 < dm_block m \<and> dm_block m \<le> 2 ^ 16 \<and> dm_oldLen m \<le> maxPatchSize \<and>
     length (dm_delta m) \<le> num_blocks (dm_oldLen m) (dm_block m) \<and> list_all in_int64 (dm_delta m)"

text \<open>A map is written without its evidence: the decoder only needs the shifts.\<close>

definition bare_map :: "dataMap \<Rightarrow> dataMap" where
  "bare_map m = \<lparr>dm_block = dm_block m, dm_delta = dm_delta m, dm_matched = replicate (length (dm_delta m)) False,
     dm_ambig = [], dm_oldLen = dm_oldLen m\<rparr>"

lemma length_put_runs: "length rs \<le> length (put_runs prev rs)"
proof (induction rs arbitrary: prev)
  case (Cons e rs)
  obtain n d where e: "e = (n, d)" by fastforce
  show ?case using Cons[of d] put_pos(1)[of n] by (simp add: e)
qed simp

lemma length_delta_runs: "length (delta_runs ds) \<le> length ds"
  by (induction ds rule: delta_runs.induct) (auto split: list.splits)

lemma num_blocks_le:
  assumes "0 < block"
  shows "num_blocks n block \<le> n"
proof -
  have "n + block - 1 \<le> (block - 1) + n * block" using assms by (cases block) auto
  then have "(n + block - 1) div block \<le> ((block - 1) + n * block) div block" by (rule div_le_mono)
  also have "\<dots> = n" using assms by (subst div_mult_self1) auto
  finally show ?thesis by (simp add: num_blocks_def)
qed

lemma decodeDataMapRLE_encode:
  assumes "map_ok m"
  shows "decodeDataMapRLE (encodeRLE m) = Inr (bare_map m)"
proof -
  let ?rs = "delta_runs (dm_delta m)"
  let ?n = "num_blocks (dm_oldLen m) (dm_block m)"
  have n: "?n < 2 ^ 63" using num_blocks_le[of "dm_block m" "dm_oldLen m"] assms by (auto simp: map_ok_def maxPatchSize_def)
  have l: "length ?rs < 2 ^ 64" using length_delta_runs[of "dm_delta m"] n assms by (auto simp: map_ok_def)
  have r: "list_all (\<lambda>e. in_int64 (snd e)) ?rs"
    using assms by (auto simp: map_ok_def list_all_iff dest: snd_delta_runs)
  have "length ?rs \<le> length (encodeRLE m) + 1"
    using length_put_runs[of ?rs 0] by (simp add: encodeRLE_def)
  then have "r_un (length (encodeRLE m) + 1) w (rbuf_of (put_uvarint (length ?rs) @ put_runs 0 ?rs)) = (length ?rs, rbuf_of (put_runs 0 ?rs))" for w
    by (rule r_un_put[OF _ l])
  moreover have "read_runs ?n (length ?rs) 0 [] (rbuf_of (put_runs 0 ?rs)) = Inr (dm_delta m, rbuf_of [])"
    using read_runs_put[OF r _ n, of "[]" 0 "[]"] assms by (simp add: expand_runs map_ok_def)
  ultimately show ?thesis using assms
    by (simp add: decodeDataMapRLE_def encodeRLE_def[of m] bare_map_def map_ok_def wire maxPatchSize_def)
qed

section \<open>Record shapes\<close>

fun shapes_ok :: "nat \<Rightarrow> recShape list \<Rightarrow> bool" where
  "shapes_ok prev [] = True"
| "shapes_ok prev (x # xs) = (prev \<le> rs_idx x \<and> rs_idx x - prev \<le> maxFuncs \<and> unat (rs_npcdata x) \<le> 2 ^ 16 \<and>
     unat (rs_nfuncdata x) \<le> 256 \<and> shapes_ok (rs_idx x) xs)"

lemma read_shapes_put:
  "shapes_ok prev xs \<Longrightarrow> read_shapes (length xs) prev (rbuf_of (put_shapes prev xs @ rest)) = (xs, rbuf_of rest)"
  by (induction xs arbitrary: prev) (simp_all add: wire maxFuncs_def)

section \<open>Named values\<close>

text \<open>
  What the list of named values asks of an entry's encoding: it decodes to the part of the value
  the reader keeps.
\<close>

locale named_format =
  fixes enc :: "'a \<Rightarrow> bytes"
    and dec :: "bytes \<Rightarrow> derror + 'a"
    and ok :: "'a \<Rightarrow> bool"
    and view :: "'a \<Rightarrow> 'a"
  assumes dec_enc: "ok x \<Longrightarrow> dec (enc x) = Inr (view x)"
begin

lemma read_named_put:
  assumes "\<forall>(n, x) \<in> set xs. length n \<le> 256 \<and> ok x \<and> length (enc x) < 2 ^ 64" "distinct (map fst (acc @ xs))"
  shows "read_named dec (length xs) acc (rbuf_of (concat (map (\<lambda>(n, x). w_str n [] @ w_bytes (enc x) []) xs) @ rest)) =
    Inr (acc @ map (map_prod id view) xs, rbuf_of rest)"
  using assms
proof (induction xs arbitrary: acc)
  case (Cons e xs)
  obtain n x where e: "e = (n, x)" by fastforce
  have p: "length n \<le> 256" "ok x" "length (enc x) < 2 ^ 64" using Cons.prems(1) by (simp_all add: e)
  have "kv_put n (view x) acc = acc @ [(n, view x)]"
    using Cons.prems(2) by (force simp: kv_put_def e filter_id_conv)
  moreover have "distinct (map fst ((acc @ [(n, view x)]) @ xs))" using Cons.prems(2) by (simp add: e)
  ultimately show ?case using p Cons.IH[of "acc @ [(n, view x)]"] Cons.prems(1)
    by (simp add: e writer_defs wire dec_enc)
qed simp

end

interpretation nshift: named_format st_encode decodeShiftTable st_ok id
  by unfold_locales (simp add: decodeShiftTable_encode)

interpretation nmap: named_format encodeRLE decodeDataMapRLE map_ok bare_map
  by unfold_locales (simp add: decodeDataMapRLE_encode)

lemma mset_sort_keys: "mset (sort_keys xs) = mset xs"
proof -
  have "mset (insert_key x ys) = add_mset x (mset ys)" for x :: "bytes \<times> 'a" and ys
    by (induction x ys rule: insert_key.induct) auto
  then show ?thesis by (induction xs) (simp_all add: sort_keys_def)
qed

lemma sort_keys_facts: "set (sort_keys xs) = set xs" "length (sort_keys xs) = length xs"
  "distinct (map fst (sort_keys xs)) = distinct (map fst xs)"
proof -
  show "set (sort_keys xs) = set xs" by (metis mset_sort_keys set_mset_mset)
  show "length (sort_keys xs) = length xs" by (metis mset_sort_keys size_mset)
  have "mset (map fst (sort_keys xs)) = mset (map fst xs)" by (simp add: mset_sort_keys)
  then show "distinct (map fst (sort_keys xs)) = distinct (map fst xs)" by (rule mset_eq_imp_distinct_iff)
qed

section \<open>The whole layout\<close>

definition named_ok :: "('a \<Rightarrow> bool) \<Rightarrow> ('a \<Rightarrow> bytes) \<Rightarrow> (bytes \<times> 'a) list \<Rightarrow> bool" where
  "named_ok ok enc xs \<longleftrightarrow> length xs \<le> 64 \<and> distinct (map fst xs) \<and>
     (\<forall>(n, x) \<in> set xs. length n \<le> 256 \<and> ok x \<and> length (enc x) < 2 ^ 64)"

text \<open>The sizes the reader accepts; Go's maps have distinct keys.\<close>

definition layout_ok :: "bin \<Rightarrow> layout \<Rightarrow> bool" where
  "layout_ok old l \<longleftrightarrow> bn_funcs old \<noteq> [] \<and> ly_newLen l \<le> of_nat maxPatchSize \<and>
     length (bn_order old) < 2 ^ 64 \<and> length (ly_sects l) \<le> 2 ^ 12 \<and> list_all (sect_ok (bn_order old)) (ly_sects l) \<and>
     length (ly_mod l) = 12 \<and> ly_nfunc l \<le> maxFuncs \<and> length (ly_funcs l) < 2 ^ 64 \<and> length (ly_tabOff l) = 7 \<and>
     length (ly_recShapes l) \<le> maxFuncs \<and> shapes_ok 0 (ly_recShapes l) \<and>
     named_ok st_ok st_encode (sortedNonEmpty (ly_shifts l)) \<and> named_ok map_ok encodeRLE (sort_keys (ly_dataMaps l)) \<and>
     length (ly_overrides l) < 2 ^ 64"

lemma decodeLayout_encode:
  assumes "layout_ok old l"
  shows "\<exists>b. ly_encode old l = Inr b \<and>
    decodeLayout b old = Inr (l\<lparr>ly_shifts := sortedNonEmpty (ly_shifts l),
      ly_dataMaps := map (map_prod id bare_map) (sort_keys (ly_dataMaps l))\<rparr>)"
proof -
  have lens: "length (modValues (bn_mod old)) = 12" "length (oldTabOffs (bn_pcln old)) = 7"
    by (simp_all add: modValues_def oldTabOffs_def pcln_ranges_def)
  have magic: "r_take 4 (rbuf_of (layoutMagic @ rest)) = (layoutMagic, rbuf_of rest)" for rest
    by (rule r_take_put) (simp add: layoutMagic_def to_bytes_def)
  have sects: "decodeSects old (rbuf_of (encodeSects old (ly_sects l) @ rest)) = (ly_sects l, rbuf_of rest)" for rest
    using assms read_sects_put[of "bn_order old" "ly_sects l" 0 rest]
    by (simp add: decodeSects_def encodeSects_def layout_ok_def wire)
  have shift: "read_named decodeShiftTable (length xs) [] (rbuf_of (concat (map (\<lambda>(n, x). w_str n [] @ w_bytes (st_encode x) []) xs) @ rest)) =
      Inr (xs, rbuf_of rest)" if "named_ok st_ok st_encode xs" for xs rest
    using nshift.read_named_put[of xs "[]" rest] that by (simp add: named_ok_def prod.map_id0)
  have maps: "read_named decodeDataMapRLE (length xs) [] (rbuf_of (concat (map (\<lambda>(n, x). w_str n [] @ w_bytes (encodeRLE x) []) xs) @ rest)) =
      Inr (map (map_prod id bare_map) xs, rbuf_of rest)" if "named_ok map_ok encodeRLE xs" for xs rest
    using nmap.read_named_put[of xs "[]" rest] that by (simp add: named_ok_def)
  note ok = assms[unfolded layout_ok_def]
  have l64: "length (sortedNonEmpty (ly_shifts l)) \<le> 64" "length (sort_keys (ly_dataMaps l)) \<le> 64"
    using ok by (auto simp: named_ok_def)
  have cnt: "r_un 64 w (rbuf_of (put_uvarint (length (sortedNonEmpty (ly_shifts l))) @ rest)) = (length (sortedNonEmpty (ly_shifts l)), rbuf_of rest)"
    "r_un 64 w (rbuf_of (put_uvarint (length (sort_keys (ly_dataMaps l))) @ rest)) = (length (sort_keys (ly_dataMaps l)), rbuf_of rest)" for w rest
    using l64 by (simp_all add: r_un_put)
  have funcs: "w_bytes (ly_funcs l) [] = put_uvarint (length (ly_funcs l)) @ ly_funcs l" by (simp add: writer_defs)
  have "ly_newLen l \<le> of_nat maxPatchSize" using ok by blast
  then show ?thesis using ok lens
    by (simp add: ly_encode_def decodeLayout_def magic sects shift maps cnt put_named_def funcs wire maxFuncs_def
        read_shapes_put not_less)
qed

section \<open>The function list\<close>

definition entry_at :: "gofunc list \<Rightarrow> nat \<Rightarrow> uint64" where
  "entry_at fs k = (if k = 0 then fn_entry (hd fs) else fn_end (fs ! (k - 1)))"

text \<open>Functions that follow each other, as the linker places them.\<close>

definition contiguous :: "gofunc list \<Rightarrow> bool" where
  "contiguous fs \<longleftrightarrow> (\<forall>k < length fs. fn_entry (fs ! k) = entry_at fs k \<and> fn_entry (fs ! k) \<le> fn_end (fs ! k) \<and> 0 \<le> sint (fn_size (fs ! k)))"

definition seen_func :: "bin \<Rightarrow> gofunc list \<Rightarrow> int list \<Rightarrow> nat \<Rightarrow> gofunc" where
  "seen_func old fs ms k = \<lparr>fn_idx = k, fn_name = (if ms ! k < 0 then fn_name (fs ! k) else fn_name (bn_funcs old ! nat (ms ! k))),
     fn_entry = fn_entry (fs ! k), fn_end = fn_end (fs ! k), fn_off = 0, fn_nameOff = 0\<rparr>"

text \<open>The reader's state before function \<open>k\<close>.\<close>

definition state_at :: "bin \<Rightarrow> gofunc list \<Rightarrow> funcmatch \<Rightarrow> nat \<Rightarrow> int \<Rightarrow> func_state" where
  "state_at old fs m k e =
     \<lparr>fs_funcs = map (seen_func old fs (mt_newToOld m)) [0..<k],
      fs_match = \<lparr>mt_newToOld = take k (mt_newToOld m) @ replicate (length fs - k) 0,
        mt_oldToNew = map (\<lambda>x. if x < int k then x else - 1) (mt_oldToNew m)\<rparr>,
      fs_expect = e, fs_entry = entry_at fs k\<rparr>"

definition func_list_ok :: "bin \<Rightarrow> gofunc list \<Rightarrow> funcmatch \<Rightarrow> bool" where
  "func_list_ok old fs m \<longleftrightarrow> fs \<noteq> [] \<and> contiguous fs \<and> is_pairing (length (bn_funcs old)) (length fs) m \<and>
     length (bn_funcs old) < 2 ^ 64 \<and> (\<forall>k < length fs. mt_newToOld m ! k < 0 \<longrightarrow> length (fn_name (fs ! k)) \<le> 2 ^ 16)"

lemma state_at_match:
  assumes "is_pairing no (length fs) m" "k < length fs" "mt_newToOld m ! k = i"
  shows "(take k (mt_newToOld m) @ replicate (length fs - k) 0)[k := i] = take (Suc k) (mt_newToOld m) @ replicate (length fs - Suc k) 0"
    "(if i < 0 then map (\<lambda>x. if x < int k then x else - 1) (mt_oldToNew m)
      else (map (\<lambda>x. if x < int k then x else - 1) (mt_oldToNew m))[nat i := int k]) =
     map (\<lambda>x. if x < int (Suc k) then x else - 1) (mt_oldToNew m)"
proof -
  have p: "length (mt_newToOld m) = length fs" "points_back (mt_newToOld m) (mt_oldToNew m)" "points_back (mt_oldToNew m) (mt_newToOld m)"
    using assms(1) by (simp_all add: is_pairing_def)
  have "replicate (length fs - k) 0 = (0 :: int) # replicate (length fs - Suc k) 0"
    using assms(2) by (metis Suc_diff_Suc replicate_Suc)
  then show "(take k (mt_newToOld m) @ replicate (length fs - k) 0)[k := i] = take (Suc k) (mt_newToOld m) @ replicate (length fs - Suc k) 0"
    using assms(2,3) p(1) by (simp add: list_update_append take_Suc_conv_app_nth)
  have bwd: "\<not> i < 0 \<and> nat i = a" if a: "a < length (mt_oldToNew m)" "mt_oldToNew m ! a = int k" for a
    using p(3) a assms(3) unfolding points_back_def by (auto dest!: spec[of _ a])
  have fwd: "mt_oldToNew m ! nat i = int k" if "\<not> i < 0"
    using p(2) that assms(2,3) p(1) unfolding points_back_def by (auto dest!: spec[of _ k])
  show "(if i < 0 then map (\<lambda>x. if x < int k then x else - 1) (mt_oldToNew m)
      else (map (\<lambda>x. if x < int k then x else - 1) (mt_oldToNew m))[nat i := int k]) =
     map (\<lambda>x. if x < int (Suc k) then x else - 1) (mt_oldToNew m)" (is "?l = ?r")
  proof (rule nth_equalityI)
    show "length ?l = length ?r" by simp
    fix a assume "a < length ?l"
    then have a: "a < length (mt_oldToNew m)" by (simp split: if_splits)
    have lt: "x < int (Suc k) \<longleftrightarrow> x < int k \<or> x = int k" for x by auto
    show "?l ! a = ?r ! a"
    proof (cases "mt_oldToNew m ! a = int k")
      case True
      then show ?thesis using bwd[OF a True] a by simp
    next
      case False
      then have "i < 0 \<or> a \<noteq> nat i" using fwd by blast
      then show ?thesis using False a by (auto simp: lt simp del: of_nat_Suc)
    qed
  qed
qed

lemma read_func_step:
  assumes "func_list_ok old fs m" "k < length fs" "i = mt_newToOld m ! k"
  shows "read_func old k (state_at old fs m k e, rbuf_of (put_funcs old e ((fs ! k, i) # rest) @ ys)) =
    Inr (state_at old fs m (Suc k) (if i < 0 then e else i + 1), rbuf_of (put_funcs old (if i < 0 then e else i + 1) rest @ ys))"
proof -
  let ?f = "fs ! k"
  have c: "fn_entry ?f = entry_at fs k" "fn_entry ?f \<le> fn_end ?f" "0 \<le> sint (fn_size ?f)"
    using assms(1,2) by (auto simp: func_list_ok_def contiguous_def)
  have pairing: "is_pairing (length (bn_funcs old)) (length fs) m" and l64: "length (bn_funcs old) < 2 ^ 64"
    and nm: "i < 0 \<Longrightarrow> length (fn_name ?f) \<le> 2 ^ 16" using assms by (auto simp: func_list_ok_def)
  have i: "i = - 1 \<or> 0 \<le> i \<and> i < int (length (bn_funcs old))"
    using pairing assms(2,3) unfolding is_pairing_def points_back_def by (auto dest!: spec[of _ k])
  have size: "wrap64 (old_size old i + wrap64 (sint (fn_size ?f) - old_size old i)) = sint (fn_size ?f)"
    by (rule wrap64_add_diff) (use sint_range_size[of "fn_size ?f"] in \<open>simp add: in_int64_def word_size\<close>)
  have ends: "entry_at fs k + fn_size ?f = fn_end ?f" by (simp add: fn_size_def flip: c(1))
  have head: "read_func_head old e (rbuf_of ((if i < 0 then [2] @ w_str (fn_name ?f) [] else if i = e then [0] else [1] @ put_uvarint (nat i)) @ y)) =
      (Some (i, if i < 0 then fn_name ?f else []), rbuf_of y)" for y
  proof (cases "i < 0")
    case True
    then have "i = - 1" "length (fn_name ?f) \<le> 65536" "length (fn_name ?f) < 18446744073709551616" using i nm by auto
    then show ?thesis by (simp add: read_func_head_def writer_defs wire)
  next
    case False
    then have "nat i \<le> length (bn_funcs old)" "nat i < 2 ^ 64" "int (nat i) = i" using i l64 by linarith+
    then show ?thesis using False by (simp add: read_func_head_def wire)
  qed
  have new: "seen_func old fs (mt_newToOld m) k = \<lparr>fn_idx = k, fn_name = (if i < 0 then fn_name ?f else fn_name (bn_funcs old ! nat i)),
      fn_entry = entry_at fs k, fn_end = fn_end ?f, fn_off = 0, fn_nameOff = 0\<rparr>"
    by (simp add: seen_func_def assms(3) flip: c(1))
  have nxt: "entry_at fs (Suc k) = fn_end ?f" by (simp add: entry_at_def)
  note up = state_at_match[OF pairing assms(2) assms(3)[symmetric]]
  have st: "state_at old fs m (Suc k) e' =
     \<lparr>fs_funcs = map (seen_func old fs (mt_newToOld m)) [0..<k] @ [seen_func old fs (mt_newToOld m) k],
      fs_match = \<lparr>mt_newToOld = (take k (mt_newToOld m) @ replicate (length fs - k) 0)[k := i],
        mt_oldToNew = (if i < 0 then map (\<lambda>x. if x < int k then x else - 1) (mt_oldToNew m)
          else (map (\<lambda>x. if x < int k then x else - 1) (mt_oldToNew m))[nat i := int k])\<rparr>,
      fs_expect = e', fs_entry = fn_end ?f\<rparr>" for e'
    unfolding state_at_def up nxt by simp
  have p: "put_funcs old e ((?f, i) # rest) @ ys = (if i < 0 then [2] @ w_str (fn_name ?f) [] else if i = e then [0] else [1] @ put_uvarint (nat i)) @
      put_varint (wrap64 (sint (fn_size ?f) - old_size old i)) @ put_funcs old (if i < 0 then e else i + 1) rest @ ys" by simp
  have step: "read_func old k (state_at old fs m k e, rbuf_of (put_funcs old e ((?f, i) # rest) @ ys)) =
      Inr (\<lparr>fs_funcs = fs_funcs (state_at old fs m k e) @ [seen_func old fs (mt_newToOld m) k],
         fs_match = \<lparr>mt_newToOld = (mt_newToOld (fs_match (state_at old fs m k e)))[k := i],
           mt_oldToNew = (if i < 0 then mt_oldToNew (fs_match (state_at old fs m k e)) else (mt_oldToNew (fs_match (state_at old fs m k e)))[nat i := int k])\<rparr>,
         fs_expect = (if i < 0 then e else i + 1), fs_entry = fn_end ?f\<rparr>, rbuf_of (put_funcs old (if i < 0 then e else i + 1) rest @ ys))"
  proof -
    have fields: "fs_expect (state_at old fs m k e) = e" "fs_entry (state_at old fs m k e) = entry_at fs k" by (simp_all add: state_at_def)
    have "\<not> (sint (fn_size ?f) < 0 \<or> fn_end ?f < entry_at fs k)" using c by (simp add: not_less)
    moreover have "entry_at fs k + word_of_int (sint (fn_size ?f)) = fn_end ?f" using ends by simp
    moreover have "\<not> int (length (bn_funcs old)) \<le> i" using i by linarith
    ultimately show ?thesis unfolding p read_func_def prod.case fields head
      by (simp add: r_s_put wrap64_range size new Let_def del: put_funcs.simps)
  qed
  show ?thesis unfolding step st by (simp add: state_at_def)
qed

lemma read_funcs_put:
  assumes "func_list_ok old fs m" "k \<le> length fs"
  shows "\<exists>e'. foldR (read_func old) [k..<length fs] (state_at old fs m k e, rbuf_of (put_funcs old e (drop k (zip fs (mt_newToOld m))))) =
    Inr (state_at old fs m (length fs) e', rbuf_of [])"
  using assms(2)
proof (induction "length fs - k" arbitrary: k e)
  case 0
  then show ?case using assms(1) by (auto simp: func_list_ok_def is_pairing_def)
next
  case (Suc n)
  then have k: "k < length fs" by simp
  have l: "length (mt_newToOld m) = length fs" using assms(1) by (simp add: func_list_ok_def is_pairing_def)
  have "[k..<length fs] = k # [Suc k..<length fs]" by (rule upt_conv_Cons[OF k])
  moreover have "drop k (zip fs (mt_newToOld m)) = (fs ! k, mt_newToOld m ! k) # drop (Suc k) (zip fs (mt_newToOld m))"
    using k l by (subst Cons_nth_drop_Suc[symmetric]) auto
  moreover note read_func_step[OF assms(1) k refl, of e _ "[]", unfolded append_Nil2]
  moreover have "n = length fs - Suc k" "Suc k \<le> length fs" using Suc.hyps(2) k by auto
  note Suc.hyps(1)[OF this]
  ultimately show ?case by simp
qed

lemma decodeFuncLayout_encode:
  assumes "func_list_ok old (bn_funcs new) m" "ly_nfunc l = length (bn_funcs new)" "ly_firstEntry l = fn_entry (hd (bn_funcs new))"
    and "ly_funcs l = encodeFuncLayout old new m"
  shows "decodeFuncLayout old l = Inr (map (seen_func old (bn_funcs new) (mt_newToOld m)) [0..<length (bn_funcs new)], m)"
proof -
  let ?fs = "bn_funcs new"
  have p: "length (mt_newToOld m) = length ?fs" "length (mt_oldToNew m) = length (bn_funcs old)" "points_back (mt_oldToNew m) (mt_newToOld m)"
    using assms(1) by (simp_all add: func_list_ok_def is_pairing_def)
  have range: "- 1 \<le> x \<and> x < int (length ?fs)" if x: "x \<in> set (mt_oldToNew m)" for x
  proof -
    obtain a where a: "a < length (mt_oldToNew m)" "x = mt_oldToNew m ! a" using x by (auto simp: in_set_conv_nth)
    then show ?thesis using p(1,3) by (auto simp: points_back_def dest!: spec[of _ a])
  qed
  have "map (\<lambda>x. if x < int 0 then x else - 1) (mt_oldToNew m) = replicate (length (bn_funcs old)) (- 1)"
  proof (rule nth_equalityI)
    fix a assume "a < length (map (\<lambda>x. if x < int 0 then x else - 1) (mt_oldToNew m))"
    then have a: "a < length (mt_oldToNew m)" by simp
    then have "- 1 \<le> mt_oldToNew m ! a" using range nth_mem by blast
    then show "map (\<lambda>x. if x < int 0 then x else - 1) (mt_oldToNew m) ! a = replicate (length (bn_funcs old)) (- 1) ! a"
      using a p(2) by simp
  qed (use p(2) in simp)
  then have first: "state_at old ?fs m 0 0 = \<lparr>fs_funcs = [], fs_match = \<lparr>mt_newToOld = replicate (ly_nfunc l) 0,
      mt_oldToNew = replicate (length (bn_funcs old)) (- 1)\<rparr>, fs_expect = 0, fs_entry = ly_firstEntry l\<rparr>"
    by (simp add: state_at_def entry_at_def assms(2,3))
  have "map (\<lambda>x. if x < int (length ?fs) then x else - 1) (mt_oldToNew m) = mt_oldToNew m"
    using range by (intro map_idI) auto
  then have last: "fs_match (state_at old ?fs m (length ?fs) e) = m" for e by (simp add: state_at_def p(1))
  have funcs: "fs_funcs (state_at old ?fs m (length ?fs) e) = map (seen_func old ?fs (mt_newToOld m)) [0..<length ?fs]" for e
    by (simp add: state_at_def)
  obtain e' where "foldR (read_func old) [0..<length ?fs] (state_at old ?fs m 0 0, rbuf_of (encodeFuncLayout old new m)) =
      Inr (state_at old ?fs m (length ?fs) e', rbuf_of [])"
    using read_funcs_put[OF assms(1), of 0 0] by (auto simp: encodeFuncLayout_def)
  note r = this[unfolded first assms(2)]
  show ?thesis unfolding decodeFuncLayout_def assms(2,4) r by (simp add: last funcs)
qed

end
