(* ===== verification/PredictProof.thy ===== *)
theory PredictProof
  imports Predict
begin

text \<open>
  The predicted file, section by section and function by function.  The code fills sections and
  functions with concurrent workers; each writes its own slot from inputs no other one changes,
  so in a file whose slots do not overlap the order does not matter (\<open>predictWhole_sections\<close>,
  \<open>predictText_functions\<close>).
\<close>

section \<open>Slots\<close>

text \<open>
  A step \<open>k\<close> writes the slot \<open>lo k \<dots> hi k\<close> of a buffer of \<open>n\<close> bytes and nothing else, and what it
  leaves there does not depend on the rest of the buffer.
\<close>

locale slot_writer =
  fixes n :: nat
    and lo hi :: "'k \<Rightarrow> nat"
    and step :: "'k \<Rightarrow> 's \<Rightarrow> derror + 's"
    and out :: "'s \<Rightarrow> bytes"
    and good :: "'k \<Rightarrow> bytes \<Rightarrow> bool"
  assumes step_length: "step k s = Inr s' \<Longrightarrow> length (out s) = n \<Longrightarrow> length (out s') = n"
    and step_outside: "step k s = Inr s' \<Longrightarrow> length (out s) = n \<Longrightarrow> i < n \<Longrightarrow> \<not> (lo k \<le> i \<and> i < hi k) \<Longrightarrow> out s' ! i = out s ! i"
    and step_good: "step k s = Inr s' \<Longrightarrow> length (out s) = n \<Longrightarrow> good k (slice (lo k) (hi k) (out s'))"
begin

lemma steps_outside:
  assumes "foldR step ks s = Inr s'" "length (out s) = n"
  shows "length (out s') = n \<and> (\<forall>i < n. (\<forall>k \<in> set ks. \<not> (lo k \<le> i \<and> i < hi k)) \<longrightarrow> out s' ! i = out s ! i)"
  using assms
proof (induction ks arbitrary: s)
  case (Cons k ks)
  then obtain t where t: "step k s = Inr t" "foldR step ks t = Inr s'" by (auto simp: bindR_eq_Inr)
  have "length (out t) = n" by (rule step_length[OF t(1) Cons.prems(2)])
  then show ?case using Cons.IH[OF t(2)] step_outside[OF t(1) Cons.prems(2)] by simp
qed simp

lemma steps_good:
  assumes "foldR step (as @ k # bs) s = Inr s'" "length (out s) = n" "\<forall>b \<in> set bs. hi k \<le> lo b \<or> hi b \<le> lo k"
  shows "good k (slice (lo k) (hi k) (out s'))"
proof -
  obtain t u where t: "foldR step as s = Inr t" "step k t = Inr u" "foldR step bs u = Inr s'"
    using assms(1) by (auto simp: foldR_append bindR_eq_Inr)
  have lt: "length (out t) = n" using steps_outside[OF t(1) assms(2)] by blast
  note lu = step_length[OF t(2) lt]
  note after = steps_outside[OF t(3) lu]
  have "out s' ! (lo k + i) = out u ! (lo k + i)" if "i < hi k - lo k" "lo k + i < n" for i
  proof -
    have "\<forall>b \<in> set bs. \<not> (lo b \<le> lo k + i \<and> lo k + i < hi b)" using assms(3) that(1) by (auto dest!: bspec)
    then show ?thesis using after that(2) by blast
  qed
  then have "slice (lo k) (hi k) (out s') = slice (lo k) (hi k) (out u)"
    using lu after by (intro nth_equalityI) auto
  then show ?thesis using step_good[OF t(2) lt] by simp
qed

end

section \<open>Lengths\<close>

lemma reloc_loop_length:
  "reloc_loop L code src dst lookup i (out, st) = Inr (out', st') \<Longrightarrow> length code \<le> length out \<Longrightarrow> length out' = length out"
proof (induction L code src dst lookup i arbitrary: out st rule: reloc_loop.induct)
  case (1 L code src dst lookup i)
  show ?case
  proof (cases "i < length code")
    case False
    then show ?thesis using "1.prems" by (simp add: reloc_loop.simps)
  next
    case True
    show ?thesis
    proof (cases "decode_at L code i")
      case None
      then show ?thesis using "1.prems" "1.IH"(1)[OF True None] True by (simp add: reloc_loop.simps[of L code src dst lookup i])
    next
      case (Some ins)
      obtain o1 s1 where s: "(if has_field code i ins then relocOne code i ins src dst lookup (out, st\<lparr>xs_insns := Suc (xs_insns st)\<rparr>)
          else Inr (out, st\<lparr>xs_insns := Suc (xs_insns st)\<rparr>)) = Inr (o1, s1)"
        "reloc_loop L code src dst lookup (i + in_len ins) (o1, s1) = Inr (out', st')"
        using "1.prems"(1) True Some by (auto simp: reloc_loop.simps[of L code src dst lookup i] bindR_eq_Inr Let_def)
      have "length o1 = length out"
        using s(1) "1.prems"(2) by (auto simp: relocOne_def has_field_def bindR_eq_Inr Let_def split: if_splits)
      then show ?thesis using "1.IH"(2)[OF True Some refl s(2)] "1.prems"(2) by simp
    qed
  qed
qed

lemma Relocate_length: "Relocate L code n src dst lookup st = Inr (out, st') \<Longrightarrow> length out = n"
  by (auto simp: Relocate_def Let_def dest: reloc_loop_length)

lemma text_frame_length: "text_frame mp n = Inr out \<Longrightarrow> length out = n"
  by (auto simp: text_frame_def Let_def bindR_eq_Inr dest: length_copyFrom split: if_splits)

lemma reloc_func_length: "reloc_func L mp j (out, st) = Inr (out', st') \<Longrightarrow> length out' = length out"
  by (auto simp: reloc_func_def Let_def bindR_eq_Inr cutR_def split: if_splits)

lemma predictText_length:
  assumes "predictText L mp n = Inr (out, st)"
  shows "length out = n"
proof -
  obtain out0 where f: "text_frame mp n = Inr out0" "foldR (reloc_func L mp) [0..<length (bn_funcs (mp_dst mp))] (out0, xstats0) = Inr (out, st)"
    using assms by (auto simp: predictText_def bindR_eq_Inr)
  have "length (fst (out, st)) = n"
    by (rule foldR_inv[OF f(2)]) (use text_frame_length[OF f(1)] in \<open>auto dest: reloc_func_length\<close>)
  then show ?thesis by simp
qed

lemma predictDataSection_length:
  assumes "predictDataSection old d dm mp dst = Inr dst'"
  shows "length dst' = length dst"
proof -
  define block where "block = (case dm of None \<Rightarrow> dataBlock | Some m \<Rightarrow> dm_block m)"
  obtain d1 where p: "foldR (copy_block d dm block) [0..<num_blocks (length d) block] dst = Inr d1"
    "foldR (move_pointer (ImageRange old) mp d dm) [0..<length d div 8] d1 = Inr dst'"
    using assms by (auto simp: predictDataSection_def block_def bindR_eq_Inr Let_def)
  have "length d1 = length dst"
    by (rule foldR_inv[OF p(1), of "\<lambda>x. length x = length dst"])
      (auto simp: copy_block_def Let_def split: if_splits dest: length_copyFrom)
  moreover have "length dst' = length d1"
    by (rule foldR_inv[OF p(2), of "\<lambda>x. length x = length d1"])
      (auto simp: move_pointer_def Let_def bindR_eq_Inr split: if_splits prod.splits)
  ultimately show ?thesis by simp
qed

lemma predict_mapped_length:
  assumes "predict_mapped old new os dm mp dst = Inr dst'"
  shows "length dst' = length dst"
proof -
  obtain d1 where d1: "predictDataSection old (sc_data os) (Some dm) mp dst = Inr d1"
    "(if sc_name os = type_sect old
      then bindR (rewriteTypeOffsets old new (sc_name os) dm mp (Some d1) False) (\<lambda>(p, _). Inr (case p of Some q \<Rightarrow> q | None \<Rightarrow> d1))
      else Inr d1) = Inr dst'"
    using assms by (auto simp: predict_mapped_def bindR_eq_Inr)
  have "length dst' = length d1"
    using d1(2) by (auto simp: bindR_eq_Inr split: if_splits dest!: rewriteTypeOffsets_length)
  then show ?thesis using predictDataSection_length[OF d1(1)] by simp
qed

lemma predict_section_length:
  assumes "predict_section L old new l mp bp s dst = Inr dst'"
  shows "length dst' = length dst"
  using assms
  by (auto simp: predict_section_def bindR_eq_Inr split: if_splits option.splits
      dest: predictText_length predictDataSection_length predict_mapped_length Relocate_length)

section \<open>Sections\<close>

definition skipped :: "nat \<Rightarrow> gosect \<Rightarrow> bool" where
  "skipped n s \<longleftrightarrow> sc_nobits s \<or> sc_off s + sc_size s > of_nat n"

definition s_lo :: "gosect \<Rightarrow> nat" where "s_lo s = unat (sc_off s)"
definition s_hi :: "gosect \<Rightarrow> nat" where "s_hi s = unat (sc_off s + sc_size s)"

text \<open>The section's own prediction, from a zeroed buffer of its size.\<close>

definition is_predicted :: "golib \<Rightarrow> bin \<Rightarrow> bin \<Rightarrow> layout \<Rightarrow> mapper \<Rightarrow> blobPred \<Rightarrow> nat \<Rightarrow> gosect \<Rightarrow> bytes \<Rightarrow> bool" where
  "is_predicted L old new l mp bp n s d \<longleftrightarrow> skipped n s \<or>
     length d = s_hi s - s_lo s \<and> predict_section L old new l mp bp s (replicate (s_hi s - s_lo s) 0) = Inr d"

lemma predict_step_slot:
  assumes "predict_step L old new l mp bp s p = Inr p'" "length p = n"
  shows "length p' = n \<and> (\<forall>i < n. \<not> (s_lo s \<le> i \<and> i < s_hi s) \<longrightarrow> p' ! i = p ! i) \<and>
    is_predicted L old new l mp bp n s (slice (s_lo s) (s_hi s) p')"
proof (cases "skipped n s")
  case True
  then show ?thesis using assms by (auto simp: predict_step_def skipped_def is_predicted_def)
next
  case False
  obtain d where d: "s_lo s \<le> s_hi s" "s_hi s \<le> n" "predict_section L old new l mp bp s (replicate (s_hi s - s_lo s) 0) = Inr d"
    "p' = overwrite (s_lo s) d p"
    using assms False by (auto simp: predict_step_def skipped_def patchAt_def cutR_def bindR_eq_Inr s_lo_def s_hi_def split: if_splits)
  have len: "length d = s_hi s - s_lo s" using predict_section_length[OF d(3)] by simp
  have "slice (s_lo s) (s_hi s) p' = d"
    using slice_overwrite[of "s_lo s" d p] d len assms(2) by simp
  then show ?thesis using d len assms(2) by (auto simp: is_predicted_def nth_overwrite)
qed

interpretation sections: slot_writer n s_lo s_hi "predict_step L old new l mp bp" "\<lambda>p. p" "is_predicted L old new l mp bp n"
  by unfold_locales (use predict_step_slot in blast)+

lemma clear_range_length: "lo \<le> length b \<Longrightarrow> length (clear_range lo hi b) = length b"
  by (simp add: clear_range_def)

lemma predictHoles_length: "length (predictHoles p old new) = length p"
proof -
  define sp where "sp = file_spans (length p) (bn_order new)"
  have ends: "snd x \<le> length p" if "x \<in> set sp" for x
    using that by (auto simp: sp_def file_spans_def not_less word_le_nat_alt unat_of_nat take_bit_nat_less_eq_self intro: order_trans)
  have gaps: "length (fold (clear_gap sp) js q) = length p" if "set js \<subseteq> {1..<length sp}" "length q = length p" for js q
    using that
  proof (induction js arbitrary: q)
    case (Cons j js)
    have "sp ! (j - 1) \<in> set sp" using Cons.prems(1) by auto
    then have "length (clear_gap sp j q) = length p" using ends Cons.prems(2) by (simp add: clear_gap_def clear_range_length)
    then show ?case using Cons by simp
  qed simp
  define q where "q = clear_range (snd (last sp)) (length p) (fold (clear_gap sp) [1..<length sp] p)"
  have "length q = length p" if "sp \<noteq> []"
    using ends[of "last sp"] gaps[of "[1..<length sp]" p] that by (simp add: q_def clear_range_length)
  moreover have "length (copy_tail old at r) = length r" if "at \<le> length r" for at r
    using that by (simp add: copy_tail_def Let_def)
  moreover have "snd (last sp) \<le> length p" if "sp \<noteq> []" using ends[of "last sp"] that by simp
  moreover have "length (fold (clear_gap sp) [1..<length sp] p) = length p" using gaps by simp
  ultimately show ?thesis by (simp add: predictHoles_def Let_def flip: sp_def) (simp add: q_def)
qed

lemma predictWhole_sections:
  assumes "predictWhole L old new l mp bp = Inr pred"
    and "bn_order new = as @ s # bs" "\<forall>b \<in> set bs. s_hi s \<le> s_lo b \<or> s_hi b \<le> s_lo s"
  shows "is_predicted L old new l mp bp (unat (ly_newLen l)) s (slice (s_lo s) (s_hi s) pred)"
  using sections.steps_good[OF assms(1)[unfolded predictWhole_def assms(2)] _ assms(3)] by (simp add: predictHoles_length)

lemma predictWhole_frame:
  assumes "predictWhole L old new l mp bp = Inr pred"
  shows "length pred = unat (ly_newLen l) \<and>
    (\<forall>i < length pred. (\<forall>s \<in> set (bn_order new). \<not> (s_lo s \<le> i \<and> i < s_hi s)) \<longrightarrow>
      pred ! i = predictHoles (overwrite 0 (bn_file old) (replicate (unat (ly_newLen l)) 0)) old new ! i)"
  using sections.steps_outside[OF assms(1)[unfolded predictWhole_def], of "unat (ly_newLen l)"] by (simp add: predictHoles_length)

section \<open>Functions\<close>

definition f_lo :: "mapper \<Rightarrow> nat \<Rightarrow> nat" where
  "f_lo mp j = unat (func_lo (mp_dst mp) (bn_funcs (mp_dst mp) ! j))"

definition f_hi :: "mapper \<Rightarrow> nat \<Rightarrow> nat" where
  "f_hi mp j = unat (func_lo (mp_dst mp) (bn_funcs (mp_dst mp) ! j) + fn_size (bn_funcs (mp_dst mp) ! j))"

text \<open>A matched function's bytes are its old code, relocated to where the new function is.\<close>

definition is_relocated :: "golib \<Rightarrow> mapper \<Rightarrow> nat \<Rightarrow> bytes \<Rightarrow> bool" where
  "is_relocated L mp j d \<longleftrightarrow> mt_newToOld (mp_match mp) ! j < 0 \<or>
     (let f = bn_funcs (mp_src mp) ! nat (mt_newToOld (mp_match mp) ! j) in
      \<exists>code st st'. FuncBytes (mp_src mp) f = Inr code \<and>
        Relocate L code (f_hi mp j - f_lo mp j) (fn_entry f) (fn_entry (bn_funcs (mp_dst mp) ! j)) (mp_lookup mp (Some f)) st = Inr (d, st'))"

lemma reloc_func_slot:
  assumes "reloc_func L mp j (p, st) = Inr (p', st')" "length p = n"
  shows "length p' = n \<and> (\<forall>i < n. \<not> (f_lo mp j \<le> i \<and> i < f_hi mp j) \<longrightarrow> p' ! i = p ! i) \<and>
    is_relocated L mp j (slice (f_lo mp j) (f_hi mp j) p')"
proof (cases "mt_newToOld (mp_match mp) ! j < 0")
  case True
  then show ?thesis using assms by (auto simp: reloc_func_def is_relocated_def atR_def bindR_eq_Inr split: if_splits)
next
  case False
  let ?f = "bn_funcs (mp_src mp) ! nat (mt_newToOld (mp_match mp) ! j)"
  obtain code seg where d: "f_lo mp j \<le> f_hi mp j" "f_hi mp j \<le> n" "FuncBytes (mp_src mp) ?f = Inr code"
    "Relocate L code (f_hi mp j - f_lo mp j) (fn_entry ?f) (fn_entry (bn_funcs (mp_dst mp) ! j)) (mp_lookup mp (Some ?f)) st = Inr (seg, st')"
    "p' = overwrite (f_lo mp j) seg p"
    using assms False by (auto simp: reloc_func_def cutR_def atR_def bindR_eq_Inr f_lo_def f_hi_def Let_def split: if_splits)
  have len: "length seg = f_hi mp j - f_lo mp j" by (rule Relocate_length[OF d(4)])
  have "slice (f_lo mp j) (f_hi mp j) p' = seg"
    using slice_overwrite[of "f_lo mp j" seg p] d len assms(2) by simp
  then show ?thesis using d len assms(2) by (auto simp: is_relocated_def nth_overwrite Let_def)
qed

interpretation code: slot_writer n "f_lo mp" "f_hi mp" "reloc_func L mp" fst "is_relocated L mp"
  by unfold_locales (use reloc_func_slot in force)+

lemma predictText_functions:
  assumes "predictText L mp n = Inr (out, st)" "j < length (bn_funcs (mp_dst mp))"
    and "\<forall>k < length (bn_funcs (mp_dst mp)). j < k \<longrightarrow> f_hi mp j \<le> f_lo mp k"
  shows "is_relocated L mp j (slice (f_lo mp j) (f_hi mp j) out)"
proof -
  obtain out0 where f: "text_frame mp n = Inr out0" "foldR (reloc_func L mp) [0..<length (bn_funcs (mp_dst mp))] (out0, xstats0) = Inr (out, st)"
    using assms(1) by (auto simp: predictText_def bindR_eq_Inr)
  have split: "[0..<length (bn_funcs (mp_dst mp))] = [0..<j] @ j # [Suc j..<length (bn_funcs (mp_dst mp))]"
    using assms(2) upt_conv_Cons[of j] upt_add_eq_append[of 0 j "length (bn_funcs (mp_dst mp)) - j"] by simp
  show ?thesis
    using code.steps_good[OF f(2)[unfolded split], of n] text_frame_length[OF f(1)] assms(3) by simp
qed

section \<open>Votes\<close>

text \<open>
  A run of equal new targets is counted past the end of its old target: two votes for one new target
  become a majority of two for the first old target, and the second old target is lost.
\<close>

lemma majorities_swallow:
  "majorities [(1, 5), (2, 5)] = [\<lparr>maj_o = 1, maj_n = 5, maj_count = 2, maj_total = 2\<rparr>]"
  by (simp add: majorities.simps best_run.simps run_length_def)

end
