(* ===== verification/GoSample.thy ===== *)
theory GoSample
  imports Go127 LayoutProof PredictProof
begin

text \<open>
  A Go binary small enough to run the whole Go-aware encoder on inside the logic: one function, a
  pclntab with its seven tables and a moduledata, linked at two addresses.  What \<^verbatim>\<open>debug/elf\<close>,
  \<^verbatim>\<open>debug/buildinfo\<close> and \<^verbatim>\<open>x86asm\<close> say of it is the library \<open>goLib\<close>.  The stages are evaluated one by
  one; that all of them succeed (\<open>go_encodes\<close>) makes the round trip's hypotheses true of a Go binary.
\<close>

section \<open>The binaries\<close>

definition goPcln :: bytes where
  "goPcln = [0xF1, 0xFF, 0xFF, 0xFF] @ [0, 0, 1, 8] @ concat (map (le_bytes 8) [1, 1, 0, 72, 74, 74, 74, 75])
    @ [109, 0] @ [0] @ concat (map (le_bytes 4) [0, 16, 16]) @ replicate 48 0 @ replicate 5 0"

text \<open>The words of the moduledata of a binary with its code at \<open>tx\<close>.\<close>

definition goWords :: "nat \<Rightarrow> nat list" where
  "goWords tx = [0, 72, 2, 2, 74, 0, 0, 74, 0, 0, 74, 1, 1, 75, 60, 60, 75, 2, 2, 135, 0, 0, tx, 0,
     0, 0, 0, 0, 0, 0, 0, 0, 0, 0, 0, 0, 0, 0, 8, 0, 8, 8, 0, 135, 140]"

definition goModule :: "nat \<Rightarrow> bytes" where
  "goModule tx = concat (map (le_bytes 8) (goWords tx))"

definition goFile :: "nat \<Rightarrow> bytes \<Rightarrow> bytes" where
  "goFile tx code = code @ goPcln @ goModule tx"

definition elfSect :: "string \<Rightarrow> bool \<Rightarrow> uint64 \<Rightarrow> uint64 \<Rightarrow> uint64 \<Rightarrow> elf_section" where
  "elfSect name nobits a off sz = \<lparr>es_name = to_bytes name, es_alloc = True, es_nobits = nobits, es_addr = a, es_off = off, es_size = sz\<rparr>"

definition goElf :: "uint64 \<Rightarrow> go_elf" where
  "goElf tx = \<lparr>ge_machine = 62, ge_class = 2, ge_little = True, ge_type = 2, ge_sections =
     [elfSect ''.text'' False tx 0 16, elfSect ''.gopclntab'' False 0 16 140, elfSect ''.go.module'' False 0 156 360,
      elfSect ''.go.type'' True 0 516 16]\<rparr>"

definition goOld :: bytes where "goOld = goFile 200 (replicate 16 0x90)"
definition goNew :: bytes where "goNew = goFile 240 (replicate 15 0x90 @ [0xC3])"

definition goLib :: golib where
  "goLib = \<lparr>elf_NewFile = (\<lambda>b. Some (goElf (if b ! 15 = 0xC3 then 240 else 200))),
     buildinfo_Read = (\<lambda>_. Some \<lparr>gi_goVersion = SupportedGo, gi_path = [], gi_version = [], gi_settings = []\<rparr>),
     x86_Decode = (\<lambda>b. Some \<lparr>in_len = 1, in_pcrel = 0, in_pcrelOff = 0\<rparr>)\<rparr>"

section \<open>What the parser makes of it\<close>

definition goSecs :: "nat \<Rightarrow> bytes \<Rightarrow> gosect list" where
  "goSecs tx code =
     [\<lparr>sc_name = to_bytes ''.text'', sc_addr = of_nat tx, sc_off = 0, sc_size = 16, sc_data = code, sc_tail = goPcln @ goModule tx, sc_nobits = False\<rparr>,
      \<lparr>sc_name = to_bytes ''.gopclntab'', sc_addr = 0, sc_off = 16, sc_size = 140, sc_data = goPcln, sc_tail = goModule tx, sc_nobits = False\<rparr>,
      \<lparr>sc_name = to_bytes ''.go.module'', sc_addr = 0, sc_off = 156, sc_size = 360, sc_data = goModule tx, sc_tail = [], sc_nobits = False\<rparr>,
      \<lparr>sc_name = to_bytes ''.go.type'', sc_addr = 0, sc_off = 516, sc_size = 16, sc_data = [], sc_tail = [], sc_nobits = True\<rparr>]"

definition goMod :: "nat \<Rightarrow> moduledata" where
  "goMod tx = \<lparr>md_pcHeader = 0, md_funcnametab = \<lparr>gs_ptr = 72, gs_len = 2, gs_cap = 2\<rparr>, md_cutab = \<lparr>gs_ptr = 74, gs_len = 0, gs_cap = 0\<rparr>,
     md_filetab = \<lparr>gs_ptr = 74, gs_len = 0, gs_cap = 0\<rparr>, md_pctab = \<lparr>gs_ptr = 74, gs_len = 1, gs_cap = 1\<rparr>,
     md_pclntable = \<lparr>gs_ptr = 75, gs_len = 60, gs_cap = 60\<rparr>, md_ftab = \<lparr>gs_ptr = 75, gs_len = 2, gs_cap = 2\<rparr>,
     md_findfunctab = 135, md_minpc = 0, md_maxpc = 0, md_text = of_nat tx, md_etext = 0, md_noptrdata = 0, md_enoptrdata = 0,
     md_data = 0, md_edata = 0, md_bss = 0, md_ebss = 0, md_noptrbss = 0, md_enoptrbss = 0,
     md_types = 0, md_typedesclen = 8, md_etypes = 0, md_itaboffset = 8, md_itabsize = 8, md_rodata = 0, md_gofunc = 135, md_epclntab = 140\<rparr>"

definition goTab :: "nat \<Rightarrow> pcln" where
  "goTab tx = \<lparr>pc_data = goPcln, pc_tail = goModule tx, pc_addr = 0, pc_nfunc = 1, pc_nfiles = 1, pc_minLC = 1, pc_ptrSize = 8,
     pc_funcnameOff = 72, pc_cuOff = 74, pc_filetabOff = 74, pc_pctabOff = 74, pc_functabOff = 75,
     pc_funcnametab = \<lparr>rg_off = 72, rg_len = 2\<rparr>, pc_cutab = \<lparr>rg_off = 74, rg_len = 0\<rparr>, pc_filetab = \<lparr>rg_off = 74, rg_len = 0\<rparr>,
     pc_pctab = \<lparr>rg_off = 74, rg_len = 1\<rparr>, pc_functab = \<lparr>rg_off = 75, rg_len = 60\<rparr>, pc_gofunc = \<lparr>rg_off = 135, rg_len = 0\<rparr>,
     pc_findfunctab = \<lparr>rg_off = 135, rg_len = 5\<rparr>\<rparr>"

definition goBin :: "nat \<Rightarrow> bytes \<Rightarrow> bin" where
  "goBin tx code = \<lparr>bn_file = goFile tx code, bn_sects = sects_of (goSecs tx code),
     bn_order = [goSecs tx code ! 1, goSecs tx code ! 2, goSecs tx code ! 3, goSecs tx code ! 0], bn_text = goSecs tx code ! 0,
     bn_pcln = goTab tx, bn_mod = goMod tx,
     bn_funcs = [\<lparr>fn_idx = 0, fn_name = [109], fn_entry = of_nat tx, fn_end = of_nat tx + 16, fn_off = 16, fn_nameOff = 0\<rparr>],
     bn_goVer = SupportedGo, bn_module = [], bn_vers = []\<rparr>"

lemma slice_words:
  assumes "i < length vs"
  shows "slice (8 * i) (8 * i + 8) (concat (map (le_bytes 8) vs)) = le_bytes 8 (vs ! i)"
proof -
  have "concat (map (le_bytes 8) vs) = concat (map (le_bytes 8) (take i vs)) @ le_bytes 8 (vs ! i) @ concat (map (le_bytes 8) (drop (Suc i) vs))"
    by (subst id_take_nth_drop[OF assms]) simp
  moreover have "length (concat (map (le_bytes 8) (take i vs))) = 8 * i"
    using assms by (simp add: length_concat o_def sum_list_triv)
  ultimately show ?thesis by (simp add: slice_def)
qed

lemma goModule_word:
  assumes "k div 8 < 45" "8 dvd k" "tx < 2 ^ 64"
  shows "le64at (goModule tx) k = of_nat (goWords tx ! (k div 8))"
proof -
  have i: "k div 8 < length (goWords tx)" using assms(1) by (simp add: goWords_def)
  have "list_all (\<lambda>v. v < 2 ^ 64) (goWords tx)" using assms(3) by (simp add: goWords_def)
  then have "goWords tx ! (k div 8) < 2 ^ 64" using i by (auto simp: list_all_iff)
  then show ?thesis using slice_words[OF i] assms(2) by (simp add: le64at_def goModule_def le_nat_bytes)
qed

lemma lengths: "length goPcln = 140" "length (goModule tx) = 360" "length (goFile tx code) = length code + 500"
  by (simp_all add: goPcln_def goModule_def goWords_def goFile_def)

lemma goModule_parsed: "tx < 2 ^ 64 \<Longrightarrow> parseModuledata (goModule tx) = Inr (goMod tx)"
  by (simp add: parseModuledata_def slice_at_def goMod_def lengths goModule_word) (simp add: goWords_def)

text \<open>The fields of the pclntab header.\<close>

lemma goPcln_header:
  "map (le64at goPcln) [8, 16, 32, 40, 48, 56, 64] = [1, 1, 72, 74, 74, 74, 75]" "le32at goPcln 0 = PclnMagic" "goPcln ! 6 = 1" "goPcln ! 7 = 8"
proof -
  show "map (le64at goPcln) [8, 16, 32, 40, 48, 56, 64] = [1, 1, 72, 74, 74, 74, 75]" by code_simp
  show "le32at goPcln 0 = PclnMagic" by (simp add: le32at_def goPcln_def slice_def PclnMagic_def)
qed (simp_all add: goPcln_def)

lemma goPcln_parsed: "parsePcln goPcln (goModule tx) 0 (goMod tx) = Inr (goTab tx)"
  using goPcln_header
  by (simp add: parsePcln_def lengths goMod_def goTab_def with_tables_def emptyPcln_def pcln_ranges_def rg_end_def Let_def)

lemma goTab_funcs:
  "pc_funcs (goTab 200) 200 = Inr [\<lparr>fn_idx = 0, fn_name = [109], fn_entry = 200, fn_end = 216, fn_off = 16, fn_nameOff = 0\<rparr>]"
  "pc_funcs (goTab 240) 240 = Inr [\<lparr>fn_idx = 0, fn_name = [109], fn_entry = 240, fn_end = 256, fn_off = 16, fn_nameOff = 0\<rparr>]"
  by (code_simp, code_simp)

lemma goFile_slices:
  assumes "length code = 16"
  shows "slice 0 16 (goFile tx code) = code" "slice 16 156 (goFile tx code) = goPcln" "slice 156 516 (goFile tx code) = goModule tx"
    "drop 16 (goFile tx code) = goPcln @ goModule tx" "drop 156 (goFile tx code) = goModule tx" "drop 516 (goFile tx code) = []"
  using assms by (simp_all add: goFile_def slice_def lengths)

lemma by_addr_go: "0 < (of_nat tx :: uint64) \<Longrightarrow> by_addr (goSecs tx code) = [goSecs tx code ! 1, goSecs tx code ! 2, goSecs tx code ! 3, goSecs tx code ! 0]"
  by (simp add: by_addr_def goSecs_def)

lemma go_sections:
  assumes "length code = 16"
  shows "mapR (read_section (goFile tx code)) (filter (\<lambda>s. es_name s \<noteq> [] \<and> es_alloc s) (ge_sections (goElf (of_nat tx)))) = Inr (goSecs tx code)"
  using assms by (simp add: goElf_def elfSect_def read_section_def cutR_def lengths goFile_slices to_bytes_def goSecs_def)

lemma go_parsed:
  assumes "length code = 16" "elf_NewFile L (goFile tx code) = Some (goElf (of_nat tx))" "buildinfo_Read L = buildinfo_Read goLib"
    and "tx \<in> {200, 240}"
  shows "Parse L (goFile tx code) = Inr (goBin tx code)"
proof -
  have sects: "sects_of (goSecs tx code) (to_bytes ''.text'') = Some (goSecs tx code ! 0)" "sects_of (goSecs tx code) (to_bytes ''.gopclntab'') = Some (goSecs tx code ! 1)"
    "sects_of (goSecs tx code) (to_bytes ''.go.module'') = Some (goSecs tx code ! 2)" "sects_of (goSecs tx code) (to_bytes ''.go.type'') = Some (goSecs tx code ! 3)"
    by (simp_all add: sects_of_def goSecs_def to_bytes_def)
  have "0 < (of_nat tx :: uint64)" "tx < 2 ^ 64" using assms(4) by auto
  note facts = by_addr_go[OF this(1)] goModule_parsed[OF this(2)] go_sections[OF assms(1)] sects
  have flds: "ge_machine (goElf (of_nat tx)) = EM_X86_64" "ge_class (goElf (of_nat tx)) = ELFCLASS64" "ge_little (goElf (of_nat tx))" "ge_type (goElf (of_nat tx)) = ET_EXEC"
    by (simp_all add: goElf_def EM_X86_64_def ELFCLASS64_def ET_EXEC_def)
  have sec: "sc_data (goSecs tx code ! 2) = goModule tx" "sc_data (goSecs tx code ! 1) = goPcln" "sc_tail (goSecs tx code ! 1) = goModule tx"
    "sc_addr (goSecs tx code ! 1) = 0" "sc_size (goSecs tx code ! 1) = 140" "sc_addr (goSecs tx code ! 0) = of_nat tx" "sc_size (goSecs tx code ! 0) = 16"
    by (simp_all add: goSecs_def)
  have md: "md_pcHeader (goMod tx) = 0" "md_epclntab (goMod tx) = 140" "md_text (goMod tx) = of_nat tx" by (simp_all add: goMod_def)
  show ?thesis using assms(4)
    by (auto simp: Parse_def assms(2,3) goLib_def has_prefix_def flds facts sec sec[unfolded One_nat_def] md goPcln_parsed goTab_funcs pick_vers_def goBin_def)
qed

text \<open>A layout without maps, well within the reader's limits.\<close>

definition small_layout :: "bin \<Rightarrow> layout \<Rightarrow> bool" where
  "small_layout old l \<longleftrightarrow> bn_funcs old \<noteq> [] \<and> ly_newLen l \<le> 1024 \<and>
     length (bn_order old) \<le> 64 \<and> length (ly_sects l) \<le> 64 \<and> list_all (\<lambda>s. length (si_name s) \<le> 64) (ly_sects l) \<and>
     length (ly_mod l) = 12 \<and> ly_nfunc l \<le> 64 \<and> length (ly_funcs l) \<le> 64 \<and> length (ly_tabOff l) = 7 \<and>
     ly_recShapes l = [] \<and> ly_shifts l = [] \<and> ly_dataMaps l = [] \<and> ly_overrides l = []"


section \<open>The encoder's steps\<close>

definition oldCode :: bytes where "oldCode = replicate 16 0x90"
definition newCode :: bytes where "newCode = replicate 15 0x90 @ [0xC3]"

definition gOB :: bin where "gOB = goBin 200 oldCode"
definition gNB :: bin where "gNB = goBin 240 newCode"

definition goFn :: "uint64 \<Rightarrow> gofunc" where
  "goFn a = \<lparr>fn_idx = 0, fn_name = [109], fn_entry = a, fn_end = a + 16, fn_off = 16, fn_nameOff = 0\<rparr>"

definition goPair :: funcmatch where "goPair = \<lparr>mt_newToOld = [0], mt_oldToNew = [0]\<rparr>"

lemma gOld_parsed: "Parse goLib goOld = Inr gOB" "Parse goLib goNew = Inr gNB"
proof -
  have "elf_NewFile goLib (goFile 200 oldCode) = Some (goElf (of_nat 200))" "elf_NewFile goLib (goFile 240 newCode) = Some (goElf (of_nat 240))"
    by (simp_all add: goLib_def goFile_def oldCode_def newCode_def nth_append)
  moreover have "goOld = goFile 200 oldCode" "goNew = goFile 240 newCode" by (simp_all add: goOld_def goNew_def oldCode_def newCode_def)
  ultimately show "Parse goLib goOld = Inr gOB" "Parse goLib goNew = Inr gNB"
    using go_parsed[of oldCode goLib 200] go_parsed[of newCode goLib 240] by (simp_all add: gOB_def gNB_def oldCode_def newCode_def)
qed

lemma go_fields:
  "bn_funcs gOB = [goFn 200]" "bn_funcs gNB = [goFn 240]" "bn_pcln gOB = goTab 200" "bn_pcln gNB = goTab 240"
  "bn_mod gOB = goMod 200" "bn_mod gNB = goMod 240" "bn_text gOB = goSecs 200 oldCode ! 0" "bn_text gNB = goSecs 240 newCode ! 0"
  "bn_sects gOB = sects_of (goSecs 200 oldCode)" "bn_sects gNB = sects_of (goSecs 240 newCode)"
  "bn_file gOB = goOld" "bn_file gNB = goNew"
  by (simp_all add: gOB_def gNB_def goBin_def goFn_def goOld_def goNew_def oldCode_def newCode_def)

lemma go_order:
  "bn_order gOB = [goSecs 200 oldCode ! 1, goSecs 200 oldCode ! 2, goSecs 200 oldCode ! 3, goSecs 200 oldCode ! 0]"
  "bn_order gNB = [goSecs 240 newCode ! 1, goSecs 240 newCode ! 2, goSecs 240 newCode ! 3, goSecs 240 newCode ! 0]"
  by (simp_all add: gOB_def gNB_def goBin_def)

lemma go_sects:
  "sects_of (goSecs tx code) n = (if n = to_bytes ''.go.type'' then Some (goSecs tx code ! 3) else if n = to_bytes ''.go.module'' then Some (goSecs tx code ! 2)
     else if n = to_bytes ''.gopclntab'' then Some (goSecs tx code ! 1) else if n = to_bytes ''.text'' then Some (goSecs tx code ! 0) else None)"
  by (auto simp: sects_of_def goSecs_def)

lemma go_match: "matchFuncs goLib gOB gNB = Inr goPair"
  by (simp add: matchFuncs_def go_fields goFn_def pair_by_def unpaired_def pair_step_def contentHashes_def goPair_def Let_def)

lemma go_code:
  "FuncBytes gOB (goFn 200) = Inr oldCode" "FuncBytes gNB (goFn 240) = Inr newCode"
  by (simp_all add: FuncBytes_def go_fields goFn_def goSecs_def cutR_def slice_def oldCode_def newCode_def)

lemma go_insn: "decode_at goLib code k = Some \<lparr>in_len = 1, in_pcrel = 0, in_pcrelOff = 0\<rparr>"
  by (simp add: decode_at_def goLib_def)

lemma go_samples: "k \<le> length oc \<Longrightarrow> \<exists>ss. func_samples goLib old new f g oc nc k [] = Inr ss \<and> ss = []"
proof (induction "length oc - k" arbitrary: k)
  case 0
  then show ?case by (simp add: func_samples.simps)
next
  case (Suc n)
  then have "n = length oc - (k + 1)" "k + 1 \<le> length oc" by auto
  note Suc.hyps(1)[OF this]
  then show ?case using Suc.hyps(2) by (subst func_samples.simps) (simp add: go_insn has_field_def Let_def)
qed

lemma go_maps: "buildMaps goLib gOB gNB goPair = Inr ([], [])"
proof -
  have "deriveShiftTables goLib gOB gNB goPair = Inr []"
    using go_samples[of 0 oldCode gOB gNB "goFn 200" "goFn 240" newCode] go_code
    by (simp add: deriveShiftTables_def go_fields pair_samples_def goPair_def fn_size_def) (simp add: goFn_def)
  then show ?thesis
    by (simp add: buildMaps_def dataMapSects_def section_pair_def go_fields go_sects to_bytes_def) (simp add: goSecs_def)
qed

section \<open>Votes\<close>

lemma mapR_all: "(\<And>x. x \<in> set xs \<Longrightarrow> f x = Inr (g x)) \<Longrightarrow> mapR f xs = Inr (map g xs)"
  by (induction xs) simp_all

lemma goWords_small: "k < 45 \<Longrightarrow> k \<noteq> 22 \<Longrightarrow> goWords tx ! k \<le> 140"
proof -
  assume k: "k < 45" "k \<noteq> 22"
  have "goWords tx = (goWords 0)[22 := tx]" by (simp add: goWords_def)
  then have "goWords tx ! k = goWords 0 ! k" using k(2) by simp
  moreover have "list_all (\<lambda>v. v \<le> 140) (goWords 0)" "length (goWords 0) = 45" by (simp_all add: goWords_def)
  ultimately show ?thesis using k(1) by (simp add: list_all_length)
qed

lemma goWords_text: "goWords tx ! 22 = tx"
  by (simp add: goWords_def)

lemma go_le64at: "k < 45 \<Longrightarrow> tx < 2 ^ 64 \<Longrightarrow> le64at (goModule tx) (8 * k) = of_nat (goWords tx ! k)"
  using goModule_word[of "8 * k" tx] by simp

lemma go_get64: "k < 45 \<Longrightarrow> tx < 2 ^ 64 \<Longrightarrow> get64 (goModule tx) (8 * k) = Inr (of_nat (goWords tx ! k))"
  using go_le64at[of k tx] by (simp add: get64_def le64at_def lengths)

lemma of_nat_small: "v \<le> 140 \<Longrightarrow> (of_nat v :: uint64) < 200"
  by (simp add: word_less_nat_alt unat_of_nat take_bit_nat_eq_self)

lemma go_sec:
  "sc_addr (goSecs tx code ! 0) = of_nat tx" "sc_size (goSecs tx code ! 0) = 16" "sc_data (goSecs tx code ! 0) = code"
  "sc_addr (goSecs tx code ! Suc 0) = 0" "sc_size (goSecs tx code ! Suc 0) = 140" "sc_data (goSecs tx code ! Suc 0) = goPcln"
  "sc_addr (goSecs tx code ! 2) = 0" "sc_size (goSecs tx code ! 2) = 360" "sc_data (goSecs tx code ! 2) = goModule tx"
  "sc_addr (goSecs tx code ! 3) = 0" "sc_size (goSecs tx code ! 3) = 16"
  "\<not> sc_nobits (goSecs tx code ! 0)" "\<not> sc_nobits (goSecs tx code ! Suc 0)" "\<not> sc_nobits (goSecs tx code ! 2)" "sc_nobits (goSecs tx code ! 3)"
  by (simp_all add: goSecs_def)

lemma top_word: "\<not> (- 1 :: uint64) \<le> 200" "\<not> (- 1 :: uint64) \<le> 240"
  by (code_simp, code_simp)

lemma go_image: "ImageRange gOB = (200, 216)" "ImageRange gNB = (240, 256)"
  by (simp_all add: ImageRange_def go_order go_sec min_def max_def top_word)

lemma go_pointer_vote:
  assumes "k < 45"
  shows "pointer_vote (200, 216) (240, 256) (goModule 200) (goModule 240) None k = Inr (if k = 22 then [(200, 240)] else [])"
proof (cases "k = 22")
  case True
  then show ?thesis
    by (simp add: pointer_vote_def go_le64at[of 22, simplified] go_get64[of 22, simplified] goWords_text in_image_def voted_place_def lengths int64 Let_def)
next
  case False
  have "\<not> in_image (200, 216) (le64at (goModule 200) (8 * k))"
    using of_nat_small[OF goWords_small[OF assms False]] go_le64at[OF assms, of 200] by (simp add: in_image_def not_le)
  then show ?thesis using False by (simp add: pointer_vote_def Let_def)
qed

lemma go_section_votes:
  "section_votes gOB gNB [] n = Inr (if n = to_bytes ''.go.module'' then [(200, 240)] else [])" if "n \<in> set (dataMapSects @ ptrRewriteSects)"
proof (cases "n = to_bytes ''.go.module''")
  case True
  have "concat (map (\<lambda>k. if k = 22 then [(200 :: uint64, 240 :: uint64)] else []) [0..<45]) = [(200, 240)]"
    by (simp add: upt_rec)
  moreover have "mapR (pointer_vote (200, 216) (240, 256) (goModule 200) (goModule 240) None) [0..<45] = Inr (map (\<lambda>k. if k = 22 then [(200, 240)] else []) [0..<45])"
    by (rule mapR_all) (simp add: go_pointer_vote)
  ultimately show ?thesis using True
    by (simp add: section_votes_def section_pair_def go_fields go_sects go_image go_sec lengths to_bytes_def)
next
  case False
  have "to_bytes ''.gopclntab'' \<notin> set (dataMapSects @ ptrRewriteSects)" "to_bytes ''.text'' \<notin> set (dataMapSects @ ptrRewriteSects)"
    by (simp_all add: dataMapSects_def ptrRewriteSects_def to_bytes_def)
  then have "n \<noteq> to_bytes ''.gopclntab''" "n \<noteq> to_bytes ''.text''" using that by metis+
  then show ?thesis using False
    by (cases "n = to_bytes ''.go.type''") (simp_all add: section_votes_def section_pair_def go_fields go_sects go_sec)
qed

lemma go_votes: "collectVotes gOB gNB [] mp = Inr [(200, 240)]"
proof -
  have "mapR (section_votes gOB gNB []) (dataMapSects @ ptrRewriteSects) =
      Inr (map (\<lambda>n. if n = to_bytes ''.go.module'' then [(200, 240)] else []) (dataMapSects @ ptrRewriteSects))"
    by (rule mapR_all) (rule go_section_votes)
  moreover have "concat (map (\<lambda>n. if n = to_bytes ''.go.module'' then [(200 :: uint64, 240 :: uint64)] else []) (dataMapSects @ ptrRewriteSects)) = [(200, 240)]"
    by (simp add: dataMapSects_def ptrRewriteSects_def to_bytes_def)
  moreover have "type_votes gOB gNB [] mp = Inr []" by (simp add: type_votes_def Let_def)
  ultimately show ?thesis by (simp add: collectVotes_def)
qed

lemma go_overrides: "deriveOverrides gOB gNB goPair [] [] = Inr ([], [])"
proof -
  define maj where "maj = \<lparr>maj_o = 200 :: uint64, maj_n = 240, maj_count = 1, maj_total = 1\<rparr>"
  have m: "majorities [(200, 240)] = [maj]" by (simp add: majorities.simps best_run.simps run_length_def maj_def)
  have b: "block_vote_of gOB gNB [] mj = Inr []" for mj by (simp add: block_vote_of_def split: option.splits)
  have r: "vote_round gOB gNB goPair [] k (x, []) = Inr ([maj], [])" for k x
    by (simp add: vote_round_def go_votes m b fixBlocks_def Let_def)
  have a: "mapAddr \<lparr>mp_src = gOB, mp_dst = gNB, mp_match = goPair, mp_dataMaps = [], mp_shifts = [], mp_overrides = \<lambda>_. None\<rparr> 200 None = Inr (240, rcTextMatched)"
  proof -
    have "FuncAt gOB 200 = Some (goFn 200)" by (simp add: FuncAt_def go_fields sort_Search_def search_loop.simps goFn_def)
    then show ?thesis by (simp add: mapAddr_def mapAddrBase_def in_text_def go_fields go_sec map_func_def goPair_def atR_def) (simp add: goFn_def)
  qed
  show ?thesis by (simp add: deriveOverrides_def ovRounds_def upt_rec r override_of_def a maj_def Let_def)
qed

section \<open>The layout\<close>

definition goLay :: layout where
  "goLay = \<lparr>ly_newLen = 516,
     ly_sects = [\<lparr>si_name = to_bytes ''.gopclntab'', si_addr = 0, si_off = 16, si_size = 140, si_nobits = False\<rparr>,
       \<lparr>si_name = to_bytes ''.go.module'', si_addr = 0, si_off = 156, si_size = 360, si_nobits = False\<rparr>,
       \<lparr>si_name = to_bytes ''.go.type'', si_addr = 0, si_off = 516, si_size = 16, si_nobits = True\<rparr>,
       \<lparr>si_name = to_bytes ''.text'', si_addr = 240, si_off = 0, si_size = 16, si_nobits = False\<rparr>],
     ly_mod = [240, 0, 0, 8, 8, 8, 0, 135, 135, 140, 0, 0], ly_firstEntry = 240, ly_nfunc = 1, ly_funcs = [0, 0],
     ly_nfiles = 1, ly_pclnLen = 140, ly_tabOff = [72, 74, 74, 74, 75, 135, 135], ly_recShapes = [], ly_shifts = [],
     ly_dataMaps = [], ly_overrides = []\<rparr>"

lemma le_nat_zeros: "le_nat (replicate n 0) = 0"
  by (induction n) simp_all

lemma go_record: "fn_Record (goTab tx) 16 = Inr (0, 0, 44)"
proof -
  have "drop 91 goPcln = replicate 49 0" by code_simp
  then show ?thesis
    by (simp add: fn_Record_def goTab_def dropR_def lengths get32_def atR_def FuncSize_def slice_def le_nat_zeros)
qed

lemma go_layout: "buildLayout gOB gNB goPair [] [] [] = Inr goLay"
proof -
  have mode: "ModalShape gOB = Inr (0, 0)"
    by (simp add: ModalShape_def go_fields goFn_def go_record better_shape_def)
  have fs: "encodeFuncLayout gOB gNB goPair = [0, 0]"
    by (simp add: encodeFuncLayout_def go_fields goPair_def goFn_def fn_size_def old_size_def int64 put_varint_def zigzag_def put_uvarint.simps[of 0])
  have sh: "shape_of (goTab tx) (goFn a) = Inr (0, 0)" for tx a by (simp add: shape_of_def goFn_def go_record)
  show ?thesis
    by (simp add: buildLayout_def go_fields mode fs add_shape_def sh goPair_def go_order goLay_def lengths goNew_def Let_def)
      (simp add: goSecs_def goMod_def modValues_def goTab_def oldTabOffs_def pcln_ranges_def goFn_def lengths fs[unfolded goPair_def])
qed

lemma put_delta_length: "length (put_delta v a) \<le> 10"
  unfolding put_delta_def put_varint_def by (rule length_put_uvarint[OF zigzag_less]) simp

lemma put_deltas_length: "length (put_deltas vs as) \<le> 10 * length vs"
proof (induction vs arbitrary: as)
  case (Cons v vs)
  then show ?case using put_delta_length[of v] by (cases as) (auto simp: put_deltas_def intro: add_mono order_trans)
qed (simp add: put_deltas_def)

lemma put_sect_length:
  assumes "length order < 2 ^ 64" "length (si_name s) < 2 ^ 64"
  shows "length (put_sect order e s) \<le> 52 + length (si_name s)"
proof (cases "sect_index order (si_name s)")
  case None
  then show ?thesis
    using length_put_uvarint[OF assms(2)] put_delta_length[of "si_addr s" 0] put_delta_length[of "si_off s" 0] put_delta_length[of "si_size s" 0]
    by (simp add: put_sect_def writer_defs)
next
  case (Some k)
  then have "length (put_uvarint k) \<le> 10" using sect_index_Some(1)[OF Some] assms by (intro length_put_uvarint) simp
  then show ?thesis
    using Some put_delta_length[of "si_addr s" "sc_addr (order ! k)"] put_delta_length[of "si_off s" "sc_off (order ! k)"] put_delta_length[of "si_size s" "sc_size (order ! k)"]
    by (cases "k = e") (simp_all add: put_sect_def)
qed

lemma no_keys: "sortedNonEmpty [] = []" "sort_keys [] = []"
  by (simp_all add: sortedNonEmpty_def sort_keys_def)

lemma go_encoded: "\<exists>b. ly_encode gOB goLay = Inr b \<and> length b \<le> 1024"
proof -
  have sec: "length (put_sect (bn_order gOB) e s) \<le> 62" if "s \<in> set (ly_sects goLay)" for e s
  proof -
    have "length (si_name s) \<le> 10" using that by (auto simp: goLay_def to_bytes_def)
    then show ?thesis using put_sect_length[of "bn_order gOB" s e] by (simp add: go_order)
  qed
  have "length (put_sects (bn_order gOB) e ss) \<le> 62 * length ss" if "set ss \<subseteq> set (ly_sects goLay)" for e ss
    using that
  proof (induction ss arbitrary: e)
    case (Cons s ss)
    have "length (put_sect (bn_order gOB) e s) \<le> 62" using Cons.prems by (intro sec) simp
    moreover have "length (put_sects (bn_order gOB) (next_expect (bn_order gOB) e s) ss) \<le> 62 * length ss"
      using Cons.prems by (intro Cons.IH) simp
    ultimately show ?case by simp
  qed simp
  moreover have n: "length (ly_sects goLay) = 4" by (simp add: goLay_def)
  ultimately have "length (put_sects (bn_order gOB) 0 (ly_sects goLay)) \<le> 62 * 4" by (metis order_refl)
  then have "length (encodeSects gOB (ly_sects goLay)) \<le> 258"
    using length_put_uvarint[of 4] n by (simp add: encodeSects_def)
  moreover have "length (put_deltas (ly_mod goLay) (modValues (bn_mod gOB))) \<le> 120" "length (put_deltas (ly_tabOff goLay) (oldTabOffs (bn_pcln gOB))) \<le> 70"
    using put_deltas_length[of "ly_mod goLay" "modValues (bn_mod gOB)"] put_deltas_length[of "ly_tabOff goLay" "oldTabOffs (bn_pcln gOB)"] by (simp_all add: goLay_def)
  moreover have "length (put_uvarint (ly_nfunc goLay)) \<le> 10" "length (put_uvarint 0) \<le> 10" "length (put_uvarint 2) \<le> 10"
    "length (ly_funcs goLay) = 2" "ly_recShapes goLay = []" "ly_shifts goLay = []" "ly_dataMaps goLay = []" "ly_overrides goLay = []"
    by (simp_all add: length_put_uvarint goLay_def)
  moreover have "bn_funcs gOB \<noteq> []" by (simp add: go_fields)
  moreover note put_delta_length[of "ly_newLen goLay" "of_nat (length (bn_file gOB))"] put_delta_length[of "ly_firstEntry goLay" "fn_entry (hd (bn_funcs gOB))"]
    put_delta_length[of "ly_nfiles goLay" "word_of_int (pc_nfiles (bn_pcln gOB))"] put_delta_length[of "ly_pclnLen goLay" "of_nat (length (pc_data (bn_pcln gOB)))"]
  moreover have "length layoutMagic = 4" by (simp add: layoutMagic_def to_bytes_def)
  ultimately show ?thesis
    unfolding ly_encode_def by (simp add: put_named_def encodeOverrides_def no_keys writer_defs)
qed

lemma go_small_layout: "small_layout gOB goLay"
  by (simp add: small_layout_def go_fields go_order goLay_def to_bytes_def)

section \<open>The skeleton\<close>

definition skText :: gosect where
  "skText = \<lparr>sc_name = to_bytes ''.text'', sc_addr = 240, sc_off = 0, sc_size = 16, sc_data = [], sc_tail = [], sc_nobits = False\<rparr>"

definition skPcln :: gosect where
  "skPcln = \<lparr>sc_name = to_bytes ''.gopclntab'', sc_addr = 0, sc_off = 16, sc_size = 140, sc_data = [], sc_tail = [], sc_nobits = False\<rparr>"

definition skModule :: gosect where
  "skModule = \<lparr>sc_name = to_bytes ''.go.module'', sc_addr = 0, sc_off = 156, sc_size = 360, sc_data = [], sc_tail = [], sc_nobits = False\<rparr>"

definition skType :: gosect where
  "skType = \<lparr>sc_name = to_bytes ''.go.type'', sc_addr = 0, sc_off = 516, sc_size = 16, sc_data = [], sc_tail = [], sc_nobits = True\<rparr>"

definition skFn :: gofunc where
  "skFn = \<lparr>fn_idx = 0, fn_name = [109], fn_entry = 240, fn_end = 256, fn_off = 0, fn_nameOff = 0\<rparr>"

definition skTab :: "bytes \<Rightarrow> pcln" where
  "skTab d = (goTab 240)\<lparr>pc_data := d, pc_tail := []\<rparr>"

definition goSkel :: "bytes \<Rightarrow> bin" where
  "goSkel d = \<lparr>bn_file = [], bn_sects = sects_of [skPcln, skModule, skType, skText], bn_order = [skPcln, skModule, skType, skText],
     bn_text = skText, bn_pcln = skTab d, bn_mod = skel_mod (ly_mod goLay), bn_funcs = [skFn], bn_goVer = SupportedGo, bn_module = [], bn_vers = []\<rparr>"

lemma go_func_list: "decodeFuncLayout gOB goLay = Inr ([skFn], goPair)"
proof -
  have ok: "func_list_ok gOB (bn_funcs gNB) goPair"
    by (simp add: func_list_ok_def contiguous_def entry_at_def is_pairing_def points_back_def go_fields goPair_def fn_size_def)
      (simp add: goFn_def)
  have fs: "encodeFuncLayout gOB gNB goPair = [0, 0]"
    by (simp add: encodeFuncLayout_def go_fields goPair_def goFn_def fn_size_def old_size_def int64 put_varint_def zigzag_def put_uvarint.simps[of 0])
  have "decodeFuncLayout gOB goLay = Inr (map (seen_func gOB (bn_funcs gNB) (mt_newToOld goPair)) [0..<length (bn_funcs gNB)], goPair)"
    by (rule decodeFuncLayout_encode[OF ok]) (simp_all add: goLay_def go_fields goFn_def fs)
  then show ?thesis by (simp add: go_fields seen_func_def goPair_def skFn_def) (simp add: goFn_def)
qed

lemma go_skel_pcln: "skel_pcln gOB goLay 0 = Inr (skTab (take 72 goPcln @ replicate 68 0))"
  by (simp add: skel_pcln_def goLay_def go_fields goTab_def with_tables_def emptyPcln_def pcln_ranges_def rg_end_def cutR_def slice_def lengths Let_def skTab_def)

lemma go_skeleton: "skeleton gOB goLay = Inr (goSkel (take 72 goPcln @ replicate 68 0), goPair)"
proof -
  have secs: "map skel_sect (ly_sects goLay) = [skPcln, skModule, skType, skText]"
    by (simp add: goLay_def skel_sect_def skPcln_def skModule_def skType_def skText_def)
  have order: "by_addr [skPcln, skModule, skType, skText] = [skPcln, skModule, skType, skText]"
    by (simp add: by_addr_def skPcln_def skModule_def skType_def skText_def)
  have find: "sects_of [skPcln, skModule, skType, skText] (to_bytes ''.text'') = Some skText"
    "sects_of [skPcln, skModule, skType, skText] (to_bytes ''.gopclntab'') = Some skPcln"
    by (simp_all add: sects_of_def skPcln_def skModule_def skType_def skText_def to_bytes_def)
  have inside: "\<not> list_ex (sect_outside (ly_newLen goLay)) (ly_sects goLay)" by (simp add: goLay_def sect_outside_def)
  have addrs: "sc_addr skText = 240" "sc_size skText = 16" "sc_addr skPcln = 0" "fn_end skFn = 256" "fn_entry skFn = 240"
    by (simp_all add: skText_def skPcln_def skFn_def)
  show ?thesis
    using inside by (simp add: skeleton_def secs order find go_func_list addrs go_skel_pcln Let_def goSkel_def) (simp add: gOB_def goBin_def)
qed

section \<open>Tables\<close>

definition goFilled :: bytes where
  "goFilled = take 72 goPcln @ [109, 0] @ replicate 66 0"

lemma go_tables: "drop 72 goPcln = [109, 0, 0] @ concat (map (le_bytes 4) [0, 16, 16]) @ replicate 53 0"
  by code_simp

lemma go_blobs: "stage1aBlobs gNB = [109, 0]" "stage1bBlobs gNB = [0]"
proof -
  have s: "slice 72 74 goPcln = [109, 0]" "slice 74 75 goPcln = [0]" by code_simp+
  then show "stage1aBlobs gNB = [109, 0]" "stage1bBlobs gNB = [0]"
    by (simp_all add: stage1aBlobs_def stage1bBlobs_def concatRanges_def stage1aRanges_def stage1bRanges_def go_fields pc_table_def rg_end_def)
      (simp_all add: goTab_def)
qed

lemma go_fill:
  "fillTables (goSkel (take 72 goPcln @ replicate 68 0)) stage1aRanges (stage1aBlobs gNB) = Inr (goSkel goFilled)"
  "fillTables (goSkel goFilled) stage1bRanges (stage1bBlobs gNB) = Inr (goSkel goFilled)"
proof -
  have r: "bn_pcln (goSkel d) = skTab d" "(goSkel d)\<lparr>bn_pcln := (skTab d)\<lparr>pc_data := d'\<rparr>\<rparr> = goSkel d'" "pc_data (skTab d) = d" for d d'
    by (simp_all add: goSkel_def skTab_def)
  have ranges: "stage1aRanges (skTab d) = [\<lparr>rg_off = 72, rg_len = 2\<rparr>, \<lparr>rg_off = 74, rg_len = 0\<rparr>]"
    "stage1bRanges (skTab d) = [\<lparr>rg_off = 74, rg_len = 0\<rparr>, \<lparr>rg_off = 74, rg_len = 1\<rparr>, \<lparr>rg_off = 135, rg_len = 0\<rparr>]" for d
    by (simp_all add: stage1aRanges_def stage1bRanges_def skTab_def goTab_def)
  have l: "length (take 72 goPcln) = 72" by (simp add: lengths)
  have "replicate 60 0 @ replicate 5 0 = (replicate 65 0 :: bytes)" by (simp flip: replicate_add)
  moreover have "replicate 68 0 = (0 :: byte) # 0 # replicate 66 0" "replicate 66 0 = (0 :: byte) # replicate 65 0" by (simp_all add: numeral_eq_Suc)
  ultimately show "fillTables (goSkel (take 72 goPcln @ replicate 68 0)) stage1aRanges (stage1aBlobs gNB) = Inr (goSkel goFilled)"
    "fillTables (goSkel goFilled) stage1bRanges (stage1bBlobs gNB) = Inr (goSkel goFilled)"
    using l by (simp_all add: fillTables_def r ranges go_blobs cutR_def rg_end_def overwrite_def slice_def goFilled_def)
qed

definition goMapper :: mapper where
  "goMapper = newMapper gOB (goSkel goFilled) goPair goLay"

definition goBlobs :: blobPred where
  "goBlobs = \<lparr>bp_cutab = [], bp_pctab = [0], bp_gofunc = [], bp_pcOff = (\<lambda>_. None), bp_gfOff = (\<lambda>_. None)\<rparr>"

lemma concat_nils: "concat (map (\<lambda>_. []) xs) = []"
  by (induction xs) simp_all

lemma go_predictBlobs: "predictBlobs gOB (goSkel goFilled) goPair goMapper = Inr goBlobs"
proof -
  define oft where "oft = slice 75 135 goPcln"
  have table: "pc_table (goTab 200) (pc_functab (goTab 200)) = oft" by (simp add: pc_table_def rg_end_def oft_def) (simp add: goTab_def)
  have len: "length oft = 60" by (simp add: oft_def lengths)
  have rec: "drop 16 oft = replicate 44 0"
  proof -
    have "drop 16 (slice 75 135 goPcln) = replicate 44 0" by code_simp
    then show ?thesis by (simp add: oft_def)
  qed
  have g: "get32 (replicate 44 0) q = Inr 0" if "q + 4 \<le> 44" for q
    using that by (simp add: get32_def slice_def le_nat_zeros)
  have tabs: "pc_table (goTab 200) (pc_pctab (goTab 200)) = [0]" "bn_Gofunc gOB = []" "pc_table (goTab 200) (pc_cutab (goTab 200)) = []"
  proof -
    have "slice 74 75 goPcln = [0]" by code_simp
    then show "pc_table (goTab 200) (pc_pctab (goTab 200)) = [0]" by (simp add: pc_table_def rg_end_def) (simp add: goTab_def)
  qed (simp_all add: bn_Gofunc_def go_fields pc_table_def rg_end_def goTab_def)
  have new: "rg_len (pc_cutab (bn_pcln (goSkel goFilled))) = 0" "rg_len (pc_pctab (bn_pcln (goSkel goFilled))) = 1" "rg_len (pc_gofunc (bn_pcln (goSkel goFilled))) = 0"
    "bn_funcs (goSkel goFilled) = [skFn]"
    by (simp_all add: goSkel_def skTab_def goTab_def)
  have off: "fn_off (goFn 200) = 16" by (simp add: goFn_def)
  have "predictPctab gOB (goSkel goFilled) goPair oft =
      Inr \<lparr>ps_tab = [0], ps_seen = (\<lambda>_. None), ps_off = (\<lambda>_. None)\<rparr>"
    by (simp add: predictPctab_def new pctab_func_def goPair_def atR_def go_fields off go_record dropR_def len rec pc_fields_def emit_at_def g emit_table_def)
  moreover have "predictGofunc gOB (goSkel goFilled) goPair goMapper oft = Inr ([], \<lambda>_. None)"
    by (simp add: predictGofunc_def new collect_func_def use_func_def goPair_def atR_def go_fields off go_record dropR_def len classify_def in_classes_def concat_nils Let_def)
  ultimately show ?thesis
    by (simp add: predictBlobs_def go_fields table new tabs predictCutab_def padTo_def goBlobs_def Let_def)
qed

section \<open>The prediction\<close>

lemma foldR_ok:
  assumes "I s" "\<And>x t. x \<in> set xs \<Longrightarrow> I t \<Longrightarrow> \<exists>t'. f x t = Inr t' \<and> I t'"
  shows "\<exists>s'. foldR f xs s = Inr s' \<and> I s'"
  using assms
proof (induction xs arbitrary: s)
  case (Cons x xs)
  then obtain t where "f x s = Inr t" "I t" by (metis list.set_intros(1))
  then show ?case using Cons.IH[of t] Cons.prems(2) by simp
qed simp

lemma put_ok:
  "q + 4 \<le> length d \<Longrightarrow> \<exists>e. put32 q v d = Inr e \<and> length e = length d"
  "q + 8 \<le> length d \<Longrightarrow> \<exists>e. put64 q w d = Inr e \<and> length e = length d"
  unfolding put32_def put64_def by auto

lemma go_skel_fields:
  "bn_funcs (goSkel d) = [skFn]" "bn_text (goSkel d) = skText" "bn_pcln (goSkel d) = skTab d"
  "bn_order (goSkel d) = [skPcln, skModule, skType, skText]"
  by (simp_all add: goSkel_def)

lemma go_mapper:
  "mp_src (goMapper\<lparr>mp_dst := s\<rparr>) = gOB" "mp_dst (goMapper\<lparr>mp_dst := s\<rparr>) = s" "mp_match (goMapper\<lparr>mp_dst := s\<rparr>) = goPair"
  "mp_dataMaps (goMapper\<lparr>mp_dst := s\<rparr>) = []" "mp_overrides (goMapper\<lparr>mp_dst := s\<rparr>) v = None"
  by (simp_all add: goMapper_def newMapper_def goLay_def overrideMap_def)

lemma go_mode: "ModalShape gOB = Inr (0, 0)"
  by (simp add: ModalShape_def go_fields goFn_def go_record better_shape_def)

lemma go_old_tables:
  "pc_table (goTab 200) (pc_funcnametab (goTab 200)) = [109, 0]" "pc_table (goTab 200) (pc_functab (goTab 200)) = slice 75 135 goPcln"
proof -
  have "slice 72 74 goPcln = [109, 0]" by code_simp
  then show "pc_table (goTab 200) (pc_funcnametab (goTab 200)) = [109, 0]" by (simp add: pc_table_def rg_end_def) (simp add: goTab_def)
qed (simp add: pc_table_def rg_end_def goTab_def)

lemma go_new_tables:
  "pc_table (skTab goFilled) (pc_funcnametab (skTab goFilled)) = [109, 0]" "pc_table (skTab goFilled) (pc_cutab (skTab goFilled)) = []"
  "pc_table (skTab goFilled) (pc_filetab (skTab goFilled)) = []" "length (pc_table (skTab goFilled) (pc_pctab (skTab goFilled))) = 1"
  "bn_Gofunc (goSkel goFilled) = []"
  by (simp_all add: pc_table_def rg_end_def skTab_def goTab_def bn_Gofunc_def go_skel_fields goFilled_def slice_def lengths)

lemma go_names: "\<exists>no. resolveNameOffs gOB (goSkel goFilled) goPair = Inr no \<and> length no = 1"
proof -
  have m: "dm_Map (buildDataMap [109, 0] [109, 0] 16 None 0) 0 = Inr 0"
    by (simp add: buildDataMap_def dm_Map_def num_blocks_def tdiv_def Let_def)
  have "name_is [109, 0] 0 [109] = Inr True" by (simp add: name_is_def cutR_def slice_def word_le_nat_alt Let_def)
  then show ?thesis
    by (simp add: resolveNameOffs_def go_skel_fields go_fields go_old_tables go_new_tables name_step_def goPair_def atR_def m goFn_def Let_def)
qed

lemma go_oft:
  "length (slice 75 135 goPcln) = 60" "slice 16 60 (slice 75 135 goPcln) = replicate 44 0"
proof -
  have "slice 91 135 goPcln = replicate 44 0" by code_simp
  moreover have "slice 16 60 (slice 75 135 goPcln) = slice 91 135 goPcln" by (simp add: slice_def drop_take)
  ultimately show "slice 16 60 (slice 75 135 goPcln) = replicate 44 0" by simp
qed (simp add: lengths)

lemma go_moved: "\<exists>rec. moved_record gOB (slice 75 135 goPcln) (pcln_maps_of (goSkel goFilled) goBlobs) None (goFn 200) = Inr rec \<and> length rec = 44"
proof -
  define z :: bytes where "z = replicate 44 0"
  have g: "get32 z q = Inr 0" if "q + 4 \<le> 44" for q
    using that by (simp add: z_def get32_def slice_def le_nat_zeros)
  have cut: "cutR (slice 75 135 goPcln) x 16 60 = Inr z" for x
  proof -
    define oft where "oft = slice 75 135 goPcln"
    have "slice 16 60 (oft @ x) = slice 16 60 oft" using go_oft(1) by (simp add: oft_def slice_def)
    then show ?thesis using go_oft by (simp add: cutR_def z_def oft_def)
  qed
  have cu: "pm_cu (pcln_maps_of (goSkel goFilled) goBlobs) 0 = Inr 0"
    by (simp add: pcln_maps_of_def mapCu_def go_skel_fields go_new_tables goBlobs_def buildDataMap_def dm_Map_def num_blocks_def gfBlock_def Let_def)
  have len: "length z = 44" by (simp add: z_def)
  obtain e where e: "put32 32 0 z = Inr e" "length e = 44" using put_ok(1)[of 32 z 0] len by auto
  show ?thesis
    by (simp add: moved_record_def go_fields goFn_def go_record cut map_field_def g cu e)
qed

lemma go_record_added:
  assumes "length no = 1"
  shows "\<exists>s rec. add_record gOB (goSkel goFilled) goPair (slice 75 135 goPcln) (pcln_maps_of (goSkel goFilled) goBlobs) (\<lambda>_. None) (0, 0) no 0
      \<lparr>rc_recs = [], rc_size = 12, rc_cu = 0\<rparr> = Inr s \<and> rc_recs s = [(16, rec)] \<and> rc_size s = 60"
proof -
  obtain rec where r: "moved_record gOB (slice 75 135 goPcln) (pcln_maps_of (goSkel goFilled) goBlobs) None (goFn 200) = Inr rec" "length rec = 44"
    using go_moved by blast
  have al: "align8 12 = 16" by (simp add: align8_def)
  have i: "atR (mt_newToOld goPair) 0 = Inr 0" "atR (bn_funcs gOB) 0 = Inr (goFn 200)" "atR no 0 = Inr (no ! 0)"
    using assms by (simp_all add: goPair_def atR_def go_fields)
  obtain c where g: "get32 rec 32 = Inr c" using r(2) by (simp add: get32_def)
  obtain e where e: "put32 0 (ucast (fn_entry skFn - md_text (bn_mod (goSkel goFilled)))) rec = Inr e" "length e = 44"
    using put_ok(1)[of 0 rec] r(2) by fastforce
  obtain e' where e': "put32 4 (no ! 0) e = Inr e'" "length e' = 44" using put_ok(1)[of 4 e] e(2) by fastforce
  show ?thesis
    by (simp add: add_record_def go_skel_fields i r g e e' al Let_def)
qed

lemma go_functab: "\<exists>ft. predict_functab gOB (goSkel goFilled) goPair goLay goBlobs = Inr ft \<and> length ft = 60"
proof -
  obtain no where no: "resolveNameOffs gOB (goSkel goFilled) goPair = Inr no" "length no = 1" using go_names by blast
  obtain s rec where s: "add_record gOB (goSkel goFilled) goPair (slice 75 135 goPcln) (pcln_maps_of (goSkel goFilled) goBlobs) (\<lambda>_. None) (0, 0) no 0
      \<lparr>rc_recs = [], rc_size = 12, rc_cu = 0\<rparr> = Inr s" "rc_recs s = [(16, rec)]" "rc_size s = 60"
    using go_record_added[OF no(2)] by blast
  have f: "ly_recShapes goLay = []" "length (bn_funcs (goSkel goFilled)) = 1" by (simp_all add: goLay_def go_skel_fields)
  have n: "bn_funcs (goSkel goFilled) = [skFn]" by (simp add: go_skel_fields)
  define e0 e1 :: uint32 where "e0 = ucast (fn_entry skFn - md_text (bn_mod (goSkel goFilled)))" and "e1 = ucast (fn_end skFn - md_text (bn_mod (goSkel goFilled)))"
  obtain f1 where f1: "put32 0 e0 (replicate 60 0) = Inr f1" "length f1 = 60" using put_ok(1)[of 0 "replicate 60 0" e0] by auto
  obtain f2 where f2: "put32 4 16 f1 = Inr f2" "length f2 = 60" using put_ok(1)[of 4 f1 16] f1(2) by auto
  obtain f3 where f3: "copyFrom 16 rec f2 = Inr f3" "length f3 = 60" using f2(2) by (simp add: copyFrom_def)
  obtain f4 where f4: "put32 8 e1 f3 = Inr f4" "length f4 = 60" using put_ok(1)[of 8 f3 e1] f3(2) by auto
  have "put_record (goSkel goFilled) (rc_recs s) 0 (replicate 60 0) = Inr f3"
    by (simp add: put_record_def s(2) n e0_def[symmetric] f1 f2 f3)
  then have b: "build_functab (goSkel goFilled) s = Inr f4"
    by (simp add: build_functab_def s(3) n e1_def[symmetric] f4 Let_def)
  show ?thesis
    by (simp add: predict_functab_def no(1) go_mode go_fields go_old_tables f s(1) b f4)
qed

lemma go_findfunctab: "GenFindfunctab [skFn] = Inr [0, 0, 0, 0, 0]"
proof -
  have w: "((240 :: uint64) - 240) div subbucketSize = 0" "((256 :: uint64) - 1 - 240) div subbucketSize = 0" "(240 :: uint64) + subbucketSize = 496"
    "(15 + subbucketSize) div subbucketSize = (1 :: uint64)" "(15 + bucketSize) div bucketSize = (1 :: uint64)"
    "(15 :: uint64) div subbucketSize = 0"
    by (code_simp, code_simp, code_simp, code_simp, code_simp, code_simp)
  have o: "\<not> (496 :: uint64) < 256" "\<not> (496 :: uint64) < 240" "(240 :: uint64) < 256" by (code_simp, code_simp, code_simp)
  have st: "set_slot 0 0 [- 1] = Inr [0]" "set_slot 0 0 [0] = Inr [0]"
    by (simp_all add: set_slot_def atR_def int32_of_def Let_def)
  have c: "claim_slots 240 0 256 240 [- 1] = Inr [0]"
    by (simp add: claim_slots.simps[of 240 0 256 240] claim_slots.simps[of 240 0 256 496] st w o)
  have f: "fn_entry skFn = 240" "fn_end skFn = 256" by (simp_all add: skFn_def)
  have b: "put_bucket [0] 0 [0, 0, 0, 0, 0] = Inr [0, 0, 0, 0, 0]"
    by code_simp
  have "replicate 5 0 = [0, 0, 0, 0, 0 :: byte]" by (simp add: numeral_eq_Suc)
  then show ?thesis
    by (simp add: GenFindfunctab_def f w claim_func_def c st b Let_def)
qed

lemma place_table_ok:
  assumes "unat at + length tab < 2 ^ 64" "unat at \<le> length out" "length out < 2 ^ 64"
  shows "\<exists>out'. place_table (tab, at) out = Inr out' \<and> length out' = length out"
proof -
  have n: "unat (of_nat (length out) :: uint64) = length out" using assms(3) by (simp add: unat_of_nat take_bit_nat_eq_self)
  have t: "unat (at + of_nat (length tab)) = unat at + length tab"
    using assms(1) by (simp add: unat_word_ariths unat_of_nat mod_less)
  have m: "min (of_nat (length out)) at = at" "min at (of_nat (length out)) = at" using assms(2) n by (auto simp: min_def word_le_nat_alt)
  have s: "unat (of_nat (length out) - at) = length out - unat at" using assms(2) n by (simp add: unat_sub word_le_nat_alt)
  define cond where "cond \<longleftrightarrow> of_nat (length out) < at + of_nat (length tab)"
  have "cond \<Longrightarrow> length out - unat at \<le> length tab" using n t by (simp add: cond_def word_less_nat_alt)
  then have c: "\<exists>x. (if cond then cutR tab [] 0 (length out - unat at) else Inr tab) = Inr x"
    by (simp add: cutR_def)
  show ?thesis using c assms(2)
    unfolding place_table_def prod.case Let_def cond_def[symmetric] m s by (auto simp: copyFrom_def)
qed

lemma go_predictPcln: "\<exists>b. predictPcln gOB (goSkel goFilled) goPair goLay goBlobs = Inr b"
proof -
  let ?np = "skTab goFilled"
  obtain ft where ft: "predict_functab gOB (goSkel goFilled) goPair goLay goBlobs = Inr ft" "length ft = 60" using go_functab by blast
  have hdr: "cutR goPcln x 0 72 = Inr (slice 0 72 (goPcln @ x))" for x by (simp add: cutR_def lengths)
  have t: "ly_tabOff goLay = [72, 74, 74, 74, 75, 135, 135]" "unat (ly_pclnLen goLay) = 140" "pc_data (goTab 200) = goPcln" "unat (pc_funcnameOff (goTab 200)) = 72"
    by (simp_all add: goLay_def goTab_def)
  have n1: "of_nat (length [skFn]) = (1 :: uint64)" by simp
  define tabs where "tabs = [(pc_table ?np (pc_funcnametab ?np), 72 :: uint64), (pc_table ?np (pc_cutab ?np), 74), (pc_table ?np (pc_filetab ?np), 74),
      (pc_table ?np (pc_pctab ?np), 74), (ft, 75), (bn_Gofunc (goSkel goFilled), 135), ([0, 0, 0, 0, 0], 135)]"
  have small: "unat (snd x) \<le> 135 \<and> length (fst x) \<le> 60" if "x \<in> set tabs" for x
    using that ft(2) go_new_tables by (auto simp: tabs_def)
  have "\<exists>out. foldR place_table tabs o1 = Inr out \<and> length out = 140" if "length o1 = 140" for o1
  proof (rule foldR_ok[of "\<lambda>o2. length o2 = 140"])
    show "length o1 = 140" by (rule that)
  next
    fix x and o2 :: bytes
    assume "x \<in> set tabs" "length o2 = 140"
    then show "\<exists>o3. place_table x o2 = Inr o3 \<and> length o3 = 140"
      using place_table_ok[of "snd x" "fst x" o2] small[of x] by simp
  qed
  from this[of "overwrite 0 (slice 0 72 (goPcln @ pc_tail (goTab 200))) (replicate 140 0)"] obtain out where
    out: "foldR place_table tabs (overwrite 0 (slice 0 72 (goPcln @ pc_tail (goTab 200))) (replicate 140 0)) = Inr out" "length out = 140" by auto
  have tabs': "[(pc_table ?np (pc_funcnametab ?np), ly_tabOff goLay ! 0), (pc_table ?np (pc_cutab ?np), ly_tabOff goLay ! 1), (pc_table ?np (pc_filetab ?np), ly_tabOff goLay ! 2),
      (pc_table ?np (pc_pctab ?np), ly_tabOff goLay ! 3), (ft, ly_tabOff goLay ! 4), (bn_Gofunc (goSkel goFilled), ly_tabOff goLay ! 5), ([0, 0, 0, 0, 0], ly_tabOff goLay ! 6)] = tabs"
    by (simp add: t(1) tabs_def)
  obtain o1 where o1: "put64 8 1 out = Inr o1" "length o1 = 140" using put_ok(2)[of 8 out 1] out(2) by auto
  obtain o2 where o2: "put64 16 (ly_nfiles goLay) o1 = Inr o2" "length o2 = 140" using put_ok(2)[of 16 o1] o1(2) by fastforce
  have "\<exists>o3. foldR (\<lambda>(k, off). put64 (32 + 8 * k) off) (enumerate 0 (take 5 (ly_tabOff goLay))) o2 = Inr o3 \<and> length o3 = 140"
  proof (rule foldR_ok[of "\<lambda>o2. length o2 = 140"])
    fix x and o3 :: bytes
    assume "x \<in> set (enumerate 0 (take 5 (ly_tabOff goLay)))" "length o3 = 140"
    moreover from this have "fst x < 5" by (auto simp: in_set_enumerate_eq)
    ultimately show "\<exists>o4. (\<lambda>(k, off). put64 (32 + 8 * k) off) x o3 = Inr o4 \<and> length o4 = 140"
      using put_ok(2)[of "32 + 8 * fst x" o3 "snd x"] by (simp add: split_beta)
  qed (rule o2(2))
  then obtain o3 where o3: "foldR (\<lambda>(k, off). put64 (32 + 8 * k) off) (enumerate 0 (take 5 (ly_tabOff goLay))) o2 = Inr o3" by blast
  show ?thesis
    unfolding predictPcln_def Let_def
    by (simp only: go_fields go_skel_fields ft(1) t(2-4) hdr go_findfunctab bindR_Inr n1 tabs' out(1) o1(1) o2(1) o3) simp
qed

section \<open>Sections\<close>

lemma go_mapAddr: "mapAddr (goMapper\<lparr>mp_dst := goSkel goFilled\<rparr>) 200 None = Inr (240, rcTextMatched)"
proof -
  have "FuncAt gOB 200 = Some (goFn 200)" by (simp add: FuncAt_def go_fields sort_Search_def search_loop.simps goFn_def)
  moreover have "mp_match goMapper = goPair" "mp_src goMapper = gOB" "mp_overrides goMapper = (\<lambda>_. None)"
    by (simp_all add: goMapper_def newMapper_def goLay_def overrideMap_def)
  ultimately show ?thesis
    by (simp add: mapAddr_def mapAddrBase_def in_text_def go_fields go_sec map_func_def goPair_def atR_def go_skel_fields) (simp add: goFn_def skFn_def)
qed

lemma go_predict_module:
  assumes "length dst = 360"
  shows "\<exists>d. predictDataSection gOB (goModule 200) None (goMapper\<lparr>mp_dst := goSkel goFilled\<rparr>) dst = Inr d"
proof -
  let ?mp = "goMapper\<lparr>mp_dst := goSkel goFilled\<rparr>"
  have c: "\<exists>d. foldR (copy_block (goModule 200) None 16) [0..<23] dst = Inr d \<and> length d = 360"
  proof (rule foldR_ok[of "\<lambda>d. length d = 360"])
    fix i and d :: bytes
    assume "i \<in> set [0..<23]" and d: "length d = 360"
    define q e where "q = i * 16" and "e = min (q + 16) 360"
    have q: "q \<le> 352" using \<open>i \<in> set [0..<23]\<close> by (simp add: q_def)
    then have e: "q \<le> e" "e \<le> 360" by (simp_all add: e_def)
    have w: "wrap64 (int q) = int q" "wrap64 (int q + int (e - q)) = int e" "wrap64 (int e) = int e" using q e by (simp_all add: wrap64_id_le)
    have "copy_block (goModule 200) None 16 i d = copyFrom q (slice q e (goModule 200)) d"
      using d e by (simp add: copy_block_def block_shift_def lengths w flip: q_def e_def)
    then show "\<exists>d'. copy_block (goModule 200) None 16 i d = Inr d' \<and> length d' = 360"
      using d q by (simp add: copyFrom_def)
  qed (rule assms)
  have m: "\<exists>d'. foldR (move_pointer (200, 216) ?mp (goModule 200) None) [0..<45] d = Inr d' \<and> length d' = 360" if "length d = 360" for d
  proof (rule foldR_ok[of "\<lambda>d. length d = 360"])
    fix i and d :: bytes
    assume i: "i \<in> set [0..<45]" and d: "length d = 360"
    show "\<exists>d'. move_pointer (200, 216) ?mp (goModule 200) None i d = Inr d' \<and> length d' = 360"
    proof (cases "i = 22")
      case True
      obtain e where "put64 176 240 d = Inr e" "length e = 360" using put_ok(2)[of 176 d 240] d by auto
      then show ?thesis using True d
        by (simp add: move_pointer_def go_le64at[of 22, simplified] goWords_text block_shift_def int64 go_mapAddr Let_def)
    next
      case False
      have "le64at (goModule 200) (8 * i) < 200" using i False of_nat_small[OF goWords_small[of i 200]] go_le64at[of i 200] by simp
      then show ?thesis using d by (simp add: move_pointer_def Let_def)
    qed
  qed (rule that)
  from c obtain d where d: "foldR (copy_block (goModule 200) None 16) [0..<23] dst = Inr d" "length d = 360" by blast
  from m[OF d(2)] show ?thesis
    by (auto simp: predictDataSection_def go_image lengths num_blocks_def dataBlock_def d(1))
qed

lemma go_relocates: "k \<le> length code \<Longrightarrow> \<exists>r. reloc_loop goLib code src dst lookup k s = Inr r"
proof (induction "length code - k" arbitrary: k s)
  case 0
  then show ?case by (cases s) (simp add: reloc_loop.simps)
next
  case (Suc n)
  then have "n = length code - (k + 1)" "k + 1 \<le> length code" by auto
  note Suc.hyps(1)[OF this]
  then show ?case using Suc.hyps(2) by (cases s) (subst reloc_loop.simps, simp add: go_insn has_field_def Let_def)
qed

lemma go_predictText: "\<exists>out st. predictText goLib (goMapper\<lparr>mp_dst := goSkel goFilled\<rparr>) 16 = Inr (out, st)"
proof -
  let ?mp = "goMapper\<lparr>mp_dst := goSkel goFilled\<rparr>"
  have m: "mp_match goMapper = goPair" "mp_src goMapper = gOB" by (simp_all add: goMapper_def newMapper_def)
  have lo: "func_lo gOB (goFn 200) = 0" "func_lo (goSkel goFilled) skFn = 0" "fn_size skFn = 16" "fn_end (goFn 200) = 216" "fn_end skFn = 256"
    "fn_entry (goFn 200) = 200" "fn_entry skFn = 240"
    by (simp_all add: func_lo_def go_fields go_sec goFn_def skFn_def go_skel_fields skText_def fn_size_def)
  have code: "length oldCode = 16" by (simp add: oldCode_def)
  have a: "sc_addr skText = 240" by (simp add: skText_def)
  obtain out where out: "text_frame ?mp 16 = Inr out" "length out = 16"
    using code by (auto simp: text_frame_def m go_fields go_skel_fields lo go_sec a cutR_def dropR_def copyFrom_def Let_def)
  obtain r where "Relocate goLib oldCode 16 200 240 (mp_lookup ?mp (Some (goFn 200))) xstats0 = Inr r"
    using go_relocates[of 0 oldCode 200 240 "mp_lookup ?mp (Some (goFn 200))" "(oldCode, xstats0)"] code by (auto simp: Relocate_def Let_def)
  then have "\<exists>p. reloc_func goLib ?mp 0 (out, xstats0) = Inr p"
    by (cases r) (simp add: reloc_func_def m goPair_def atR_def go_fields go_skel_fields lo go_code cutR_def out(2) Let_def)
  then show ?thesis by (auto simp: predictText_def out go_skel_fields)
qed

lemma go_predicts: "\<exists>pred. predictWhole goLib gOB (goSkel goFilled) goLay (goMapper\<lparr>mp_dst := goSkel goFilled\<rparr>) goBlobs = Inr pred"
proof -
  let ?mp = "goMapper\<lparr>mp_dst := goSkel goFilled\<rparr>"
  define p0 where "p0 = predictHoles (overwrite 0 (bn_file gOB) (replicate (unat (ly_newLen goLay)) 0)) gOB (goSkel goFilled)"
  have p0: "length p0 = 516" by (simp add: p0_def predictHoles_length goLay_def)
  have sect: "\<exists>d'. predict_section goLib gOB (goSkel goFilled) goLay ?mp goBlobs s d = Inr d'"
    if "s \<in> {skPcln, skModule, skText}" "length d = unat (sc_size s)" for s d
  proof -
    have n: "sc_name skText = to_bytes ''.text''" "sc_name skPcln = to_bytes ''.gopclntab''" "sc_name skModule = to_bytes ''.go.module''"
      "sc_size skText = 16" "sc_size skModule = 360"
      by (simp_all add: skText_def skPcln_def skModule_def)
    have ne: "to_bytes ''.gopclntab'' \<noteq> to_bytes ''.text''" "to_bytes ''.go.module'' \<noteq> to_bytes ''.text''" "to_bytes ''.go.module'' \<noteq> to_bytes ''.gopclntab''"
      "to_bytes ''.go.module'' \<noteq> to_bytes ''.plt''" "to_bytes ''.go.module'' \<in> set ptrRewriteSects" "to_bytes ''.go.module'' \<noteq> to_bytes ''.go.type''"
      by (simp_all add: to_bytes_def ptrRewriteSects_def)
    obtain b where b: "predictPcln gOB (goSkel goFilled) goPair goLay goBlobs = Inr b" using go_predictPcln by blast
    obtain t st where t: "predictText goLib ?mp 16 = Inr (t, st)" using go_predictText by blast
    consider "s = skPcln" | "s = skModule" | "s = skText" using \<open>s \<in> {skPcln, skModule, skText}\<close> by blast
    then show ?thesis
    proof cases
      case 1
      then show ?thesis by (simp add: predict_section_def n ne go_mapper b)
    next
      case 2
      then have "length d = 360" using that(2) n by simp
      then show ?thesis using 2 go_predict_module
        by (simp add: predict_section_def n ne go_mapper go_fields go_sects go_sec)
    next
      case 3
      then have "length d = 16" using that(2) n by simp
      then show ?thesis using 3 by (simp add: predict_section_def n t)
    qed
  qed
  have "\<exists>p. foldR (predict_step goLib gOB (goSkel goFilled) goLay ?mp goBlobs) [skPcln, skModule, skType, skText] p0 = Inr p \<and> length p = 516"
  proof (rule foldR_ok[of "\<lambda>p. length p = 516"])
    fix s and p :: bytes
    assume s: "s \<in> set [skPcln, skModule, skType, skText]" and p: "length p = 516"
    show "\<exists>p'. predict_step goLib gOB (goSkel goFilled) goLay ?mp goBlobs s p = Inr p' \<and> length p' = 516"
    proof (cases "s = skType")
      case True
      then show ?thesis using p by (simp add: predict_step_def skType_def)
    next
      case False
      define lo hi where "lo = unat (sc_off s)" and "hi = unat (sc_off s + sc_size s)"
      have b: "lo \<le> hi" "hi \<le> 516" "hi - lo = unat (sc_size s)" "\<not> sc_nobits s" "\<not> sc_off s + sc_size s > 516"
        using s False by (auto simp: lo_def hi_def skPcln_def skModule_def skText_def)
      have "s \<in> {skPcln, skModule, skText}" using s False by auto
      then obtain d where d: "predict_section goLib gOB (goSkel goFilled) goLay ?mp goBlobs s (replicate (hi - lo) 0) = Inr d"
        using sect[of s "replicate (hi - lo) 0"] b(3) by auto
      show ?thesis using p b d
        by (simp add: predict_step_def patchAt_def cutR_def flip: lo_def hi_def)
    qed
  qed (rule p0)
  then show ?thesis by (auto simp: predictWhole_def go_skel_fields simp flip: p0_def)
qed

section \<open>The encoder's result\<close>

lemma small_layout_ok:
  assumes "small_layout old l"
  shows "layout_ok old l" "ly_encode old l = Inr b \<Longrightarrow> decodeLayout b old = Inr l"
proof -
  have "ly_newLen l \<le> of_nat maxPatchSize" using assms by (auto simp: small_layout_def maxPatchSize_def intro: order_trans)
  moreover have "length (ly_sects l) \<le> 2 ^ 12" "length (bn_order old) < 2 ^ 64" using assms by (simp_all add: small_layout_def)
  moreover have "list_all (sect_ok (bn_order old)) (ly_sects l)" using assms by (force simp: small_layout_def list_all_iff sect_ok_def)
  ultimately show ok: "layout_ok old l" using assms
    by (simp add: small_layout_def layout_ok_def named_ok_def sortedNonEmpty_def sort_keys_def maxFuncs_def)
  have "l\<lparr>ly_shifts := sortedNonEmpty (ly_shifts l), ly_dataMaps := map (map_prod id bare_map) (sort_keys (ly_dataMaps l))\<rparr> = l"
    using assms by (simp add: small_layout_def sortedNonEmpty_def sort_keys_def)
  then show "ly_encode old l = Inr b \<Longrightarrow> decodeLayout b old = Inr l" using decodeLayout_encode[OF ok] by auto
qed

lemma encodeCorrection_length:
  assumes "length pred = length want" "length want < 2 ^ 59"
  shows "\<exists>s. encodeCorrection pred want = Inr s \<and> length s \<le> 21 * length want + 40"
proof -
  have eq: "half pred want 0 = half pred want 0" by simp
  obtain k c l where k: "correct_loop pred want 0 0 0 ([], []) = (k, c, l)" "k \<le> length want" "length c + length l \<le> 21 * length want"
    using correct_loop_apply[OF assms(1) _ _ _ eq, of 0 "[]" "[]"] assms(2) by auto
  have "length (put_uvarint (length want)) \<le> 10" "length (put_uvarint k) \<le> 10" "length (put_uvarint (length c)) \<le> 10" "length (put_uvarint (length l)) \<le> 10"
    using k(2,3) assms(2) by (auto intro!: length_put_uvarint)
  then show ?thesis using k assms(1) by (simp add: encodeCorrection_def writer_defs)
qed

text \<open>All the stages succeed, so the encoder returns a body, within the patch limit.\<close>

lemma go_encodes:
  assumes "prims_ok P"
  shows "\<exists>body. encodeGoAMD64 P goLib goOld goNew = Inr body \<and> length body \<le> maxPatchSize"
proof -
  obtain b where b: "ly_encode gOB goLay = Inr b" "length b \<le> 1024" using go_encoded by blast
  have d: "decodeLayout b gOB = Inr goLay" by (rule small_layout_ok(2)[OF go_small_layout b(1)])
  have el: "encode_layout goLib gOB gNB = Inr b" by (simp add: encode_layout_def go_match go_maps go_overrides go_layout b(1))
  have sk: "skeletonFrom gOB b = Inr (goSkel (take 72 goPcln @ replicate 68 0), goPair)" by (simp add: skeletonFrom_def d go_skeleton)
  obtain pred where w: "predictWhole goLib gOB (goSkel goFilled) goLay (goMapper\<lparr>mp_dst := goSkel goFilled\<rparr>) goBlobs = Inr pred"
    using go_predicts by blast
  have new: "length goNew = 516" by (simp add: goNew_def lengths)
  have "length pred = 516" using predictWhole_frame[OF w] by (simp add: goLay_def)
  then obtain s2 where s2: "encodeCorrection pred goNew = Inr s2" "length s2 \<le> 21 * 516 + 40"
    using encodeCorrection_length[of pred goNew] new by auto
  have blobs: "stage1aBlobs gOB = [109, 0]" "bp_concat goBlobs = [0]"
  proof -
    have "slice 72 74 goPcln = [109, 0]" by code_simp
    then show "stage1aBlobs gOB = [109, 0]"
      by (simp add: stage1aBlobs_def concatRanges_def stage1aRanges_def go_fields pc_table_def rg_end_def) (simp add: goTab_def)
  qed (simp add: bp_concat_def goBlobs_def)
  let ?a = "plainDiff [109, 0] [109, 0]" and ?b = "plainDiff [0] [0]"
  let ?body = "w_raw s2 (w_raw (hashOf P pred) (w_bytes ?b (w_u 1 (w_bytes ?a (w_u 2 (w_bytes b []))))))"
  have "encodeGoAMD64 P goLib goOld goNew = Inr ?body"
    unfolding encodeGoAMD64_def onErr_def gOld_parsed
    by (simp add: el sk d go_blobs go_fill[unfolded go_blobs] go_predictBlobs goMapper_def[symmetric] blobs w s2(1) numeral_2_eq_2 Let_def)
  moreover have "length ?body \<le> maxPatchSize"
  proof -
    have ab: "length ?a \<le> 284" "length ?b \<le> 202" using length_plainDiff[of "[109, 0]" "[109, 0]"] length_plainDiff[of "[0]" "[0]"] by simp_all
    then have "length (put_uvarint (length b)) \<le> 10" "length (put_uvarint 1) \<le> 10" "length (put_uvarint 2) \<le> 10"
      "length (put_uvarint (length ?a)) \<le> 10" "length (put_uvarint (length ?b)) \<le> 10"
      using b(2) by (auto intro!: length_put_uvarint)
    moreover have "length (hashOf P pred) = 32" using assms by (simp add: hashOf_def prims_ok_def)
    ultimately show ?thesis using ab b(2) s2(2) by (simp add: writer_defs maxPatchSize_def)
  qed
  ultimately show ?thesis by blast
qed

end
