(* ===== verification/Transform.thy ===== *)
theory Transform
  imports GoSample PredictProof
begin

text \<open>
  What the Go-aware transform promises, over all its parts: properties with examples.  The
  lemmas they rest on are in the theories of the parts.
\<close>

section \<open>Examples\<close>

definition tinySect :: "string \<Rightarrow> uint64 \<Rightarrow> uint64 \<Rightarrow> bytes \<Rightarrow> gosect" where
  "tinySect name addr off d = \<lparr>sc_name = to_bytes name, sc_addr = addr, sc_off = off, sc_size = of_nat (length d),
     sc_data = d, sc_tail = [], sc_nobits = False\<rparr>"

definition tinyFunc :: "string \<Rightarrow> uint64 \<Rightarrow> uint64 \<Rightarrow> gofunc" where
  "tinyFunc name a e = \<lparr>fn_idx = 0, fn_name = to_bytes name, fn_entry = a, fn_end = e, fn_off = 0, fn_nameOff = 0\<rparr>"

definition tinyBin :: "gosect list \<Rightarrow> gofunc list \<Rightarrow> bin" where
  "tinyBin secs fs = \<lparr>bn_file = concat (map sc_data secs), bn_sects = sects_of secs, bn_order = secs, bn_text = hd secs,
     bn_pcln = emptyPcln, bn_mod = skel_mod (replicate 12 0), bn_funcs = fs, bn_goVer = [], bn_module = [], bn_vers = []\<rparr>"

definition tinyMapper :: "bin \<Rightarrow> bin \<Rightarrow> funcmatch \<Rightarrow> mapper" where
  "tinyMapper old new m = \<lparr>mp_src = old, mp_dst = new, mp_match = m, mp_dataMaps = [], mp_shifts = [], mp_overrides = (\<lambda>_. None)\<rparr>"

text \<open>A machine of two instructions: a call with a four-byte operand, and one-byte ones.\<close>

definition callLib :: golib where
  "callLib = \<lparr>elf_NewFile = (\<lambda>_. None), buildinfo_Read = (\<lambda>_. None),
     x86_Decode = (\<lambda>b. case b of [] \<Rightarrow> None
       | c # _ \<Rightarrow> if c = 0xE8 \<and> 5 \<le> length b then Some \<lparr>in_len = 5, in_pcrel = 4, in_pcrelOff = 1\<rparr>
           else Some \<lparr>in_len = 1, in_pcrel = 0, in_pcrelOff = 0\<rparr>)\<rparr>"

text \<open>Third-party primitives: a digest of 32 bytes, and compressors that copy.\<close>

definition copyPrims :: prims where
  "copyPrims = \<lparr>blake3 = (\<lambda>x. take 32 (x @ replicate 32 0)), zstd_enc = (\<lambda>x. x), zstd_dec = Some,
     brotli_enc = (\<lambda>q x. None), brotli_dec = (\<lambda>z. (z, True)), cap_grow = (\<lambda>n. 2 * n)\<rparr>"

lemma copyPrims_ok: "prims_ok copyPrims"
  by (auto simp: prims_ok_def copyPrims_def min_def)

section \<open>The transform\<close>

text \<open>
  C4.  Whatever \<open>Encode\<close> makes with the Go-aware transform available, by the Go-aware
  encoder or by the fallback, \<open>Apply\<close> turns the old release into exactly the new one, provided the
  digest has 32 bytes, the old file at most \<open>2 ^ 29\<close> bytes, and new file and body at most the patch limit.
\<close>

theorem encode_apply_go:
  assumes "prims_ok P" "encode_body (go_codec P L) old new o' = Inr (tr, body)" "length body \<le> maxPatchSize"
    and "length old \<le> 2 ^ 29" "length new \<le> maxPatchSize"
  shows "\<exists>patch. Encode P (go_codec P L) old new o' = Inr patch \<and> Apply P (go_codec P L) old patch = Inr new"
  by (rule Encode_Apply_go[OF assms])

text \<open>The sample binaries go through the Go-aware encoder itself.\<close>

theorem encode_apply_go_witness:
  "\<exists>body patch. encodeGoAMD64 copyPrims goLib goOld goNew = Inr body \<and>
     Encode copyPrims (go_codec copyPrims goLib) goOld goNew \<lparr>MaxTransform = 0, PlainOnly = False\<rparr> = Inr patch \<and>
     Apply copyPrims (go_codec copyPrims goLib) goOld patch = Inr goNew"
proof -
  have len: "length goOld = 516" "length goNew = 516" by (simp_all add: goOld_def goNew_def lengths)
  obtain body where b: "encodeGoAMD64 copyPrims goLib goOld goNew = Inr body" "length body \<le> maxPatchSize"
    using go_encodes[OF copyPrims_ok] by blast
  have "encode_body (go_codec copyPrims goLib) goOld goNew \<lparr>MaxTransform = 0, PlainOnly = False\<rparr> = Inr (TransformGoAMD64, body)"
    by (simp add: encode_body_def transformCap_def maxTransform_def TransformGoAMD64_def go_codec_def b(1))
  from encode_apply_go[OF copyPrims_ok this b(2)] len b(1) show ?thesis by (auto simp: maxPatchSize_def)
qed

section \<open>The layout\<close>

text \<open>
  C18.  A layout within the reader's limits is read back as it was written, up to what the
  writer leaves out: empty shift tables, the order of the maps, and the evidence of the data maps.
\<close>

theorem layout_roundtrip:
  assumes "layout_ok old l"
  shows "\<exists>b. ly_encode old l = Inr b \<and>
    decodeLayout b old = Inr (l\<lparr>ly_shifts := sortedNonEmpty (ly_shifts l),
      ly_dataMaps := map (map_prod id bare_map) (sort_keys (ly_dataMaps l))\<rparr>)"
  by (rule decodeLayout_encode[OF assms])

definition sampleMap :: dataMap where
  "sampleMap = \<lparr>dm_block = 16, dm_delta = [0, 5], dm_matched = [False, False], dm_ambig = [], dm_oldLen = 32\<rparr>"

definition sampleLayout :: layout where
  "sampleLayout = \<lparr>ly_newLen = 9, ly_sects = [\<lparr>si_name = to_bytes ''.text'', si_addr = 64, si_off = 4, si_size = 5, si_nobits = False\<rparr>,
       \<lparr>si_name = to_bytes ''.new'', si_addr = 80, si_off = 0, si_size = 8, si_nobits = True\<rparr>],
     ly_mod = replicate 12 7, ly_firstEntry = 64, ly_nfunc = 2, ly_funcs = [1, 2, 3], ly_nfiles = 1, ly_pclnLen = 100,
     ly_tabOff = replicate 7 3, ly_recShapes = [\<lparr>rs_idx = 1, rs_npcdata = 2, rs_nfuncdata = 3\<rparr>],
     ly_shifts = [(to_bytes ''.bss'', \<lparr>st_offs = [8], st_deltas = [- 3]\<rparr>)],
     ly_dataMaps = [(to_bytes ''.data'', sampleMap)], ly_overrides = [\<lparr>ov_old = 1, ov_new = 2\<rparr>]\<rparr>"

definition sampleOld :: bin where
  "sampleOld = tinyBin [tinySect ''.text'' 32 0 [1, 2, 3]] [tinyFunc ''f'' 32 35]"

lemma sample_lengths: "length (st_encode \<lparr>st_offs = [8], st_deltas = [- 3]\<rparr>) = 2" "length (encodeRLE sampleMap) = 7"
  by (code_simp, code_simp)

lemma sampleLayout_ok: "layout_ok sampleOld sampleLayout"
proof -
  have s: "sortedNonEmpty (ly_shifts sampleLayout) = ly_shifts sampleLayout" "sort_keys (ly_dataMaps sampleLayout) = ly_dataMaps sampleLayout"
    by (simp_all add: sampleLayout_def sortedNonEmpty_def sort_keys_def)
  have "named_ok st_ok st_encode (ly_shifts sampleLayout)" "named_ok map_ok encodeRLE (ly_dataMaps sampleLayout)"
    using sample_lengths
    by (simp_all add: named_ok_def sampleLayout_def st_ok_def in_int64_def map_ok_def maxPatchSize_def to_bytes_def)
      (simp_all add: sampleMap_def num_blocks_def in_int64_def)
  then show ?thesis unfolding layout_ok_def s
    by (simp add: sampleOld_def sampleLayout_def tinyBin_def maxPatchSize_def maxFuncs_def sect_ok_def to_bytes_def)
qed

theorem layout_roundtrip_witness: "\<exists>b. ly_encode sampleOld sampleLayout = Inr b \<and> decodeLayout b sampleOld = Inr sampleLayout"
proof -
  have "sampleLayout\<lparr>ly_shifts := sortedNonEmpty (ly_shifts sampleLayout),
      ly_dataMaps := map (map_prod id bare_map) (sort_keys (ly_dataMaps sampleLayout))\<rparr> = sampleLayout"
    by (simp add: sampleLayout_def sortedNonEmpty_def sort_keys_def bare_map_def sampleMap_def numeral_2_eq_2)
  then show ?thesis using layout_roundtrip[OF sampleLayout_ok] by simp
qed

text \<open>
  C19.  From the encoded function list the decoder gets every new function's address
  range, the name of its counterpart, and exactly the encoder's pairing.
\<close>

theorem function_list_roundtrip:
  assumes "func_list_ok old (bn_funcs new) m" "ly_nfunc l = length (bn_funcs new)" "ly_firstEntry l = fn_entry (hd (bn_funcs new))"
    and "ly_funcs l = encodeFuncLayout old new m"
  shows "decodeFuncLayout old l = Inr (map (seen_func old (bn_funcs new) (mt_newToOld m)) [0..<length (bn_funcs new)], m)"
  by (rule decodeFuncLayout_encode[OF assms])

definition sampleNew :: bin where
  "sampleNew = tinyBin [tinySect ''.text'' 64 0 [1, 2, 3, 4, 5]] [tinyFunc ''g'' 64 66, tinyFunc ''f'' 66 69]"

definition samplePairs :: funcmatch where
  "samplePairs = \<lparr>mt_newToOld = [- 1, 0], mt_oldToNew = [1]\<rparr>"

lemma sample_func_list: "func_list_ok sampleOld (bn_funcs sampleNew) samplePairs"
  by (simp add: func_list_ok_def contiguous_def sampleOld_def sampleNew_def samplePairs_def tinyBin_def tinyFunc_def is_pairing_def
      points_back_def entry_at_def fn_size_def to_bytes_def All_less_Suc)

theorem function_list_roundtrip_witness:
  "\<exists>fs. decodeFuncLayout sampleOld (sampleLayout\<lparr>ly_funcs := encodeFuncLayout sampleOld sampleNew samplePairs\<rparr>) = Inr (fs, samplePairs) \<and>
     map fn_entry fs = [64, 66] \<and> map fn_end fs = [66, 69]"
proof -
  have n: "bn_funcs sampleNew = [tinyFunc ''g'' 64 66, tinyFunc ''f'' 66 69]" by (simp add: sampleNew_def tinyBin_def)
  have l: "ly_nfunc sampleLayout = length (bn_funcs sampleNew)" "ly_firstEntry sampleLayout = fn_entry (hd (bn_funcs sampleNew))"
    by (simp_all add: sampleLayout_def n tinyFunc_def)
  show ?thesis
    using function_list_roundtrip[OF sample_func_list, of "sampleLayout\<lparr>ly_funcs := encodeFuncLayout sampleOld sampleNew samplePairs\<rparr>"] l
    by (simp add: n seen_func_def tinyFunc_def samplePairs_def)
qed

section \<open>Matching, names and tables\<close>

text \<open>
  C23.  Matching functions by name, by normalised name and by code hash gives a one-to-one
  pairing: each paired function points back at the one that points at it, and \<open>-1\<close> is the only other index.
\<close>

theorem function_pairing:
  assumes "matchFuncs L old new = Inr m"
  shows "is_pairing (length (bn_funcs old)) (length (bn_funcs new)) m"
  by (rule matchFuncs_pairing[OF assms])

definition swapped :: bin where
  "swapped = tinyBin [tinySect ''.text'' 64 0 [1, 2, 3, 4, 5]] [tinyFunc ''f'' 64 66, tinyFunc ''g'' 66 69]"

theorem function_pairing_witness:
  "\<exists>m. matchFuncs callLib swapped sampleNew = Inr m \<and> mt_newToOld m = [1, 0] \<and> is_pairing 2 2 m"
proof -
  have m: "matchFuncs callLib swapped sampleNew = Inr \<lparr>mt_newToOld = [1, 0], mt_oldToNew = [1, 0]\<rparr>" by code_simp
  have "length (bn_funcs swapped) = 2" "length (bn_funcs sampleNew) = 2" by (simp_all add: swapped_def sampleNew_def tinyBin_def)
  then show ?thesis using function_pairing[OF m] m by simp
qed

text \<open>
  C24.  The map of name offsets never confuses names: where it gives an offset of the new name
  table, the name there is the one at the old offset.
\<close>

theorem name_offset_map:
  assumes "nm_Map (newNameOffMap oldTab newTab) off = Inr (Some off')" "length newTab < 2 ^ 32"
  shows "nameAt newTab off' = nameAt oldTab off \<and> nameAt oldTab off \<noteq> None"
  by (rule nm_Map_name[OF assms])

theorem name_offset_map_witness:
  "nm_Map (newNameOffMap [65, 0, 66, 0] [66, 0, 65, 0]) 0 = Inr (Some 2) \<and> nameAt [66, 0, 65, 0] 2 = nameAt [65, 0, 66, 0] 0"
proof -
  have m: "nm_Map (newNameOffMap [65, 0, 66, 0] [66, 0, 65, 0]) 0 = Inr (Some 2)" by code_simp
  from name_offset_map[OF this] m show ?thesis by simp
qed

text \<open>
  C21.  The regenerated findfunctab answers the runtime's lookup: for a function list as the
  linker lays it out, the entry found for a program counter is the function that covers the start of
  its 256-byte bucket, from which the runtime scans forward.
\<close>

theorem findfunctab_lookup:
  assumes "laid_out fs" "unat (fn_end (last fs)) - unat (fn_entry (hd fs)) < 2 ^ 48"
    and "fn_entry (hd fs) \<le> pc" "pc < fn_end (last fs)"
  shows "\<exists>tab. GenFindfunctab fs = Inr tab \<and>
    (let k = findfunc tab (fn_entry (hd fs)) pc; x = unat (pc - fn_entry (hd fs)); start = unat (fn_entry (hd fs)) + x div 256 * 256 in
       k < length fs \<and> unat (fn_entry (fs ! k)) \<le> start \<and> start < unat (fn_end (fs ! k)))"
  using GenFindfunctab_lookup[OF assms(1,2)] assms(3,4) by blast

theorem findfunctab_lookup_witness:
  "\<exists>tab. GenFindfunctab [tinyFunc ''g'' 4096 4352, tinyFunc ''f'' 4352 4400] = Inr tab \<and>
    (let k = findfunc tab 4096 4360 in k < 2 \<and> unat (fn_entry ([tinyFunc ''g'' 4096 4352, tinyFunc ''f'' 4352 4400] ! k)) \<le> 4352)"
proof -
  have "laid_out [tinyFunc ''g'' 4096 4352, tinyFunc ''f'' 4352 4400]"
    by (simp add: laid_out_def tinyFunc_def All_less_Suc)
  from findfunctab_lookup[OF this, of 4360] show ?thesis by (auto simp: tinyFunc_def Let_def)
qed

section \<open>Code\<close>

text \<open>
  C22.  Moving code re-targets it and nothing else: the result has the wanted length, every
  PC-relative operand whose target is known and in reach refers to where the target went, every other
  operand keeps its displacement, and all bytes outside the operands are those of the old code or padding.
\<close>

theorem relocate_operands:
  assumes "dec_ok L" "Relocate L code n srcPC dstPC lookup st = Inr (out, st')"
  shows "length out = n \<and> list_all (retargeted (take n code) lookup srcPC dstPC out) (insns L (take n code) 0) \<and>
    (\<forall>k < n. list_all (\<lambda>pi. \<not> in_field (take n code) k pi) (insns L (take n code) 0) \<longrightarrow>
      out ! k = (if k < length code then code ! k else 0xCC))"
  by (rule Relocate_out[OF assms])

lemma callLib_ok: "dec_ok callLib"
  by (auto simp: dec_ok_def callLib_def split: list.splits if_splits)

definition upLookup :: "uint64 \<Rightarrow> derror + xtarget" where
  "upLookup t = Inr \<lparr>xt_addr = t + 0x1100, xt_known = True\<rparr>"

theorem relocate_operands_witness:
  "\<exists>st'. Relocate callLib [0x90, 0xE8, 10, 0, 0, 0] 7 0x1000 0x2000 upLookup xstats0 = Inr ([0x90, 0xE8, 10, 1, 0, 0, 0xCC], st') \<and>
     list_all (retargeted [0x90, 0xE8, 10, 0, 0, 0] upLookup 0x1000 0x2000 [0x90, 0xE8, 10, 1, 0, 0, 0xCC]) (insns callLib [0x90, 0xE8, 10, 0, 0, 0] 0)"
proof -
  have r: "Relocate callLib [0x90, 0xE8, 10, 0, 0, 0] 7 0x1000 0x2000 upLookup xstats0 =
      Inr ([0x90, 0xE8, 10, 1, 0, 0, 0xCC], xstats0\<lparr>xs_insns := 2, xs_refs := 1\<rparr>)" by code_simp
  from relocate_operands[OF callLib_ok r] r show ?thesis by simp
qed

section \<open>Data\<close>

text \<open>
  C25.  The sharded search for block matches gives the result of the sequential scan:
  after each shard is repaired from the last shift of the one before, the placements are those of a
  single pass over all blocks, whatever the step does and however many shards there are.
\<close>

theorem forward_pass_is_sequential:
  assumes "0 < nw"
  shows "forward_pass step nb nw = run_range step 0 nb 0"
  by (rule forward_pass_sequential[OF assms])

theorem forward_pass_is_sequential_witness:
  "forward_pass (\<lambda>i prev. if i = 0 then (7, True, False) else (prev, False, False)) 3 2 = [(7, True, False), (7, False, False), (7, False, False)]"
  by (subst forward_pass_is_sequential) (simp, code_simp)




section \<open>The predicted file\<close>

text \<open>
  C16.  The predicted file has the length the layout claims, and in a new file whose sections
  do not overlap every section with content is exactly its own prediction from a zeroed buffer, so that
  the workers may fill them in any order; bytes outside all sections are those of the hole prediction.
\<close>

theorem predicted_sections:
  assumes "predictWhole L old new l mp bp = Inr pred"
    and "bn_order new = as @ s # bs" "\<forall>b \<in> set bs. s_hi s \<le> s_lo b \<or> s_hi b \<le> s_lo s"
  shows "length pred = unat (ly_newLen l) \<and>
    is_predicted L old new l mp bp (unat (ly_newLen l)) s (slice (s_lo s) (s_hi s) pred) \<and>
    (\<forall>i < length pred. (\<forall>s \<in> set (bn_order new). \<not> (s_lo s \<le> i \<and> i < s_hi s)) \<longrightarrow>
      pred ! i = predictHoles (overwrite 0 (bn_file old) (replicate (unat (ly_newLen l)) 0)) old new ! i)"
  using predictWhole_sections[OF assms] predictWhole_frame[OF assms(1)] by blast

definition dataOld :: bin where
  "dataOld = tinyBin [tinySect ''.a'' 64 0 [1, 2], tinySect ''.b'' 80 2 [3, 4, 5]] []"

definition dataNew :: bin where
  "dataNew = tinyBin [tinySect ''.b'' 80 0 [0, 0, 0], tinySect ''.a'' 96 3 [0, 0]] []"

definition emptyBlobs :: blobPred where
  "emptyBlobs = \<lparr>bp_cutab = [], bp_pctab = [], bp_gofunc = [], bp_pcOff = (\<lambda>_. None), bp_gfOff = (\<lambda>_. None)\<rparr>"

definition noPairs :: funcmatch where
  "noPairs = \<lparr>mt_newToOld = [], mt_oldToNew = []\<rparr>"

theorem predicted_sections_witness:
  "\<exists>pred. predictWhole callLib dataOld dataNew (sampleLayout\<lparr>ly_newLen := 5\<rparr>) (tinyMapper dataOld dataNew noPairs) emptyBlobs = Inr pred \<and>
     length pred = 5 \<and> slice 0 3 pred = [3, 4, 5]"
proof -
  have p: "predictWhole callLib dataOld dataNew (sampleLayout\<lparr>ly_newLen := 5\<rparr>) (tinyMapper dataOld dataNew noPairs) emptyBlobs = Inr [3, 4, 5, 1, 2]"
    by code_simp
  have o': "bn_order dataNew = [] @ tinySect ''.b'' 80 0 [0, 0, 0] # [tinySect ''.a'' 96 3 [0, 0]]" by (simp add: dataNew_def tinyBin_def)
  show ?thesis
    using predicted_sections[OF p o'] p by (simp add: s_lo_def s_hi_def tinySect_def sampleLayout_def slice_def)
qed

text \<open>
  C17.  In the predicted code section every matched function is its old code, relocated to
  its new address, provided the functions after it do not overlap it.
\<close>

theorem predicted_functions:
  assumes "predictText L mp n = Inr (out, st)" "j < length (bn_funcs (mp_dst mp))"
    and "\<forall>k < length (bn_funcs (mp_dst mp)). j < k \<longrightarrow> f_hi mp j \<le> f_lo mp k"
  shows "is_relocated L mp j (slice (f_lo mp j) (f_hi mp j) out)"
  by (rule predictText_functions[OF assms])

definition codeMapper :: mapper where
  "codeMapper = tinyMapper swapped sampleNew \<lparr>mt_newToOld = [1, 0], mt_oldToNew = [1, 0]\<rparr>"

theorem predicted_functions_witness:
  "\<exists>out st. predictText callLib codeMapper 5 = Inr (out, st) \<and> is_relocated callLib codeMapper 0 (slice 0 2 out)"
proof -
  have p: "predictText callLib codeMapper 5 = Inr ([3, 4, 1, 2, 0xCC], xstats0\<lparr>xs_insns := 4\<rparr>)" by code_simp
  have l: "length (bn_funcs (mp_dst codeMapper)) = 2" "f_lo codeMapper 0 = 0" "f_hi codeMapper 0 = 2" "f_lo codeMapper 1 = 2"
    by (simp_all add: codeMapper_def tinyMapper_def sampleNew_def tinyBin_def tinySect_def tinyFunc_def f_lo_def f_hi_def func_lo_def fn_size_def)
  then show ?thesis using predicted_functions[OF p, of 0] p by (simp add: less_2_cases_iff)
qed

end
