(* ===== verification/Spec2Isabelle.thy ===== *)
theory Spec2Isabelle
  imports Cli Race Transform
begin

text \<open>
  go-binsync: a verification development.

  The program distributes new releases of one binary.  A publisher (\<^verbatim>\<open>go-binsync publish\<close>) encodes the
  difference between the newest release and its own (\<^verbatim>\<open>delta\<close>), stores the patch and the whole
  release as a framed blob in an object store (\<^verbatim>\<open>store\<close>), and replaces one small pointer
  object by compare-and-swap.  A target (\<^verbatim>\<open>agent\<close>, or \<^verbatim>\<open>selfupdate\<close> inside the program itself)
  polls the pointer, plans the cheapest way from the installed release to the head
  (\<^verbatim>\<open>release\<close>), rebuilds it from patches or from the blob, verifies it, installs it with a
  rename, restarts the service and rolls back if it does not become healthy.

  \<^bold>\<open>Theories\<close>, from the bottom:

  \<^item> \<open>Prelude\<close>: bytes, Go's 64-bit integers with their wrap-around, slices, the error-or-value
    monad, \<^verbatim>\<open>sort.Search\<close>.
  \<^item> \<open>Buf\<close> (\<^verbatim>\<open>delta/buf.go\<close>): varints, the append-only writer and the error-sticky reader; locale
    \<open>wire_format\<close>, interpreted for every serialised value.
  \<^item> \<open>Lz\<close> (\<^verbatim>\<open>delta/internal/lz\<close>): the content index with its counting sort, \<open>Find\<close>, the emitter and
    the checked decoder; locale \<open>match_index\<close>: what a search returns is a real match.
  \<^item> \<open>Cz\<close> (\<^verbatim>\<open>internal/cz\<close>): frame compression.  zstd, brotli and BLAKE3 are the record \<open>prims\<close>, and
    \<open>prims_ok\<close> is what is relied on: a decompressor inverts its compressor, a digest has 32 bytes.
  \<^item> \<open>Container\<close> (\<^verbatim>\<open>delta/container.go\<close>), \<open>Runs\<close> and \<open>Plain\<close> and \<open>PlainProof\<close> (\<^verbatim>\<open>delta/plain.go\<close>), \<open>Correct\<close>
    (\<^verbatim>\<open>delta/correct.go\<close>), \<open>Delta\<close> (\<^verbatim>\<open>delta/delta.go\<close>): the codec.
  \<^item> The Go-aware transform.  \<open>Le\<close>: little-endian integers, Go's slices with capacity, loops that can fail
    (\<open>foldR\<close>, \<open>mapR\<close>).  \<open>Gobin\<close>, \<open>Regen\<close> (\<^verbatim>\<open>delta/gobin\<close>): a parsed Go executable, and the findfunctab made
    anew.  \<open>X86\<close> (\<^verbatim>\<open>delta/x86\<close>): relocation over an instruction decoder.  \<open>DataMap\<close> (\<^verbatim>\<open>datamap.go\<close>): how
    data moved, block by block.  \<open>Match\<close> (\<^verbatim>\<open>match.go\<close>): which function is which.  \<open>Shift\<close>
    (\<^verbatim>\<open>shifttab.go\<close>): how variables moved.  \<open>Layout\<close> and \<open>LayoutProof\<close> (\<^verbatim>\<open>layout.go\<close>): what the decoder is told,
    its encoding (locale \<open>named_format\<close>, interpreted for shift tables and data maps) and the skeleton
    built from it.  \<open>Mapper\<close> (\<^verbatim>\<open>reloc.go\<close>): where an address went, and the predicted code.
    \<open>TypeDesc\<close> (\<^verbatim>\<open>typedesc.go\<close>): the walk over type descriptors.  \<open>Blobs\<close> and \<open>BlobsProof\<close>
    (\<^verbatim>\<open>blobs.go\<close>): cutab, pctab and go:func.  \<open>Pcln\<close> (\<^verbatim>\<open>pcln.go\<close>): the pclntab.  \<open>Predict\<close> and \<open>PredictProof\<close>
    (\<^verbatim>\<open>predict.go\<close>): the predicted file and the encoder's votes; locale \<open>slot_writer\<close>: steps that each
    write their own slot, interpreted for sections and for functions.  \<open>Go127\<close> (\<^verbatim>\<open>go127.go\<close>): both
    directions.  \<open>GoSample\<close>: a binary on which the encoder runs.  \<open>Transform\<close>: the transform's properties.
  \<^item> \<open>Release\<close> (\<^verbatim>\<open>release/hash.go\<close>, \<^verbatim>\<open>pointer.go\<close>, \<^verbatim>\<open>plan.go\<close>, \<^verbatim>\<open>blob.go\<close>): hashes, pointer, plan and blob.
  \<^item> \<open>Fs\<close>: the file system the program acts on, as a state monad \<open>sys\<close> in which every call may
    fail or be the last thing the process does, with weakest preconditions \<open>wp m Q C s\<close> (\<open>Q\<close> at
    the end, \<open>C\<close> after a crash).  \<open>Keep\<close>: invariants of whole programs (\<open>keeps\<close>).
  \<^item> \<open>Install\<close> (\<^verbatim>\<open>release/install.go\<close>), \<open>HashCache\<close> (\<^verbatim>\<open>release/hashcache.go\<close>).
  \<^item> \<open>Path\<close> (keys and \<^verbatim>\<open>path/filepath\<close>), \<open>Store\<close> (\<^verbatim>\<open>store/store.go\<close>, \<^verbatim>\<open>file.go\<close>; locales \<open>object_source\<close> and
    \<open>object_store\<close>), \<open>Remote\<close> (\<^verbatim>\<open>store/https.go\<close>, \<^verbatim>\<open>ssh.go\<close>, \<^verbatim>\<open>s3/s3.go\<close>).
  \<^item> \<open>Agent\<close>, \<open>AgentProof\<close>, \<open>AgentFetch\<close> (\<^verbatim>\<open>agent/agent.go\<close>, \<^verbatim>\<open>fetch.go\<close>): the update loop; locale
    \<open>target_env\<close>, interpreted on the directory store and the web store.
  \<^item> \<open>SelfUpdate\<close> (\<^verbatim>\<open>selfupdate/*.go\<close>): the handoff between processes, and the start-up check;
    \<open>target_env\<close> interpreted for the embedded updater.
  \<^item> \<open>Publish\<close>, \<open>PublishProof\<close>, \<open>PublishFs\<close> (\<^verbatim>\<open>cmd/go-binsync/publish.go\<close>, \<^verbatim>\<open>blob.go\<close>, \<^verbatim>\<open>cache.go\<close>): a publish;
    locale \<open>publisher_env\<close>, interpreted on the directory store with the release cache beside it.
    \<open>Race\<close>: several publishers interleaved, as a step relation.
  \<^item> \<open>Cli\<close> (\<^verbatim>\<open>cmd/go-binsync/main.go\<close>, \<^verbatim>\<open>codec.go\<close>, \<^verbatim>\<open>agent.go\<close>): commands and exit codes.

  \<^bold>\<open>What is shown.\<close>  The codec: every encoder has its decoder as an inverse
  (\<open>plain_roundtrip\<close>, \<open>encode_apply_plain\<close>, \<open>encode_apply_go\<close>, \<open>correction_roundtrip\<close>, \<open>lz_roundtrip\<close>,
  \<open>container_roundtrip\<close>, \<open>blob_serves_release\<close>), the optimised parts agree with their
  specification (\<open>matchlen_spec\<close>, \<open>index_buckets\<close>, \<open>forward_pass_is_sequential\<close>), and \<open>Apply\<close> hands out
  verified bytes only, for any transform (\<open>apply_verified\<close>).  The transform: encoder and decoder run the
  same predictors on the same inputs, so the decoder rebuilds the encoder's prediction; what they
  exchange reads back (\<open>layout_roundtrip\<close>, \<open>function_list_roundtrip\<close>), the predictors do what they
  claim (\<open>relocate_operands\<close>, \<open>function_pairing\<close>, \<open>name_offset_map\<close>, \<open>findfunctab_lookup\<close>), the order of the
  workers does not matter (\<open>predicted_sections\<close>, \<open>predicted_functions\<close>), and the type walk ends
  (\<open>type_roots_end\<close>).  The target: for every fault and at every crash point the path holds the
  old or the verified new binary (\<open>install_atomic\<close>, \<open>revert_restores\<close>, \<open>startup_check\<close>), and so
  over any number of cycles (\<open>agent_never_strays\<close>, \<open>cycle_outcome\<close>); a fetch from a store that
  answers succeeds (\<open>fetch_blob_live\<close>).  The store: a put is atomic, conditional and local
  (\<open>store_put_atomic\<close>), read back whole (\<open>store_put_get\<close>), and keys cannot leave the root
  (\<open>key_stays_inside\<close>).  The publisher: every edge of the pointer stays served
  (\<open>publish_stream\<close>), and racing publishers form one line (\<open>race_one_line\<close>).  Six facts
  record behaviour the code does not intend: \<open>cancelled_fetch\<close> and the lemmas \<open>lz_apply_wraps\<close>,
  \<open>plainPatch_wraps\<close>, \<open>Blob_Check_zlen_unbounded\<close>, \<open>majorities_swallow\<close> and \<open>GenFindfunctab_empty_first\<close>.

  \<^bold>\<open>Conventions.\<close>  A Go \<^verbatim>\<open>int64\<close> is an \<open>int\<close> and a \<^verbatim>\<open>uint64\<close> a \<open>nat\<close>, wrapped with \<open>wrap64\<close> and \<open>u64\<close> where the
  arithmetic can leave the range; in the Go-aware transform addresses are \<^verbatim>\<open>uint64\<close> words.  A run-time
  panic of the codec is the error \<open>Panic\<close>.  Loops are recursions with a measure; loops bounded by a
  clock or by retries recurse on the number of rounds the clock allows, which is a parameter, so that
  the statements hold for every deadline.  The two loops that seed the type walk have fuel
  (\<open>seed_fuel\<close>, the section's size and two more rounds), and \<open>type_roots_end\<close> shows that more fuel changes
  nothing for sections below \<open>2 ^ 62\<close> bytes.  Goroutines that fill disjoint slots (blob frames, fetch workers,
  sections, functions, shards of a search) run in order.  \<open>encode_apply_go\<close> bounds the old file by
  \<open>2 ^ 29\<close> bytes, so that the tables predicted from it stay within the plain codec's range.

  \<^bold>\<open>Not modelled.\<close>  JSON, ELF reading, build information, the instruction decoder, HTTP, ssh and the cloud
  SDK are parameters; JSON with the law that encoding and decoding are inverse.  Statistics the encoder
  reports, logging, flag parsing, number formatting (\<^verbatim>\<open>cmd/go-binsync/format.go\<close>), the registry of store
  schemes, and process control below the calls named here are left out, and so are the benchmarks and
  the earlier prototypes of the transform under \<^verbatim>\<open>bench\<close>, which the program does not use.  The file
  system does not lose unsynced data at a power failure.
\<close>

section \<open>Results of programs\<close>

lemma wp_Ret: "wp m Q C s \<Longrightarrow> m s = (Ret r, s') \<Longrightarrow> Q r s'"
  by (simp add: wp_def)

lemma wp_result: "wp m Q C s \<Longrightarrow> m s = (r, s') \<Longrightarrow> (\<exists>x. r = Ret x \<and> Q x s') \<or> r = Crash \<and> C s'"
  by (cases r) (simp_all add: wp_def)

section \<open>Example primitives\<close>

text \<open>
  A Go-aware transform that declines every input; \<open>copyPrims\<close> of \<open>Transform\<close> is a digest of 32 bytes
  with compressors that copy.
\<close>

definition declineGo :: gocodec where
  "declineGo = \<lparr>encodeGo = (\<lambda>old new. Inl (Unsupported ''not a Go binary'')),
     applyGo = (\<lambda>old body h. Inl (Unsupported ''not a Go binary''))\<rparr>"

definition sampleHeader :: "frame list \<Rightarrow> header" where
  "sampleHeader fs = \<lparr>h_transform = 0, h_flags = 0, h_from = replicate 32 0, h_to = replicate 32 1, h_oldsize = 3, h_newsize = 3,
     h_frames = fs, h_bodyoff = 0\<rparr>"

section \<open>The patch codec\<close>

text \<open>
  C1.  \<open>Apply\<close> hands out bytes only when the old file has the hash and the length
  the patch names and the bytes have the hash and the length the patch promises, whatever
  the Go-aware transform and the body of the patch do.
\<close>

theorem apply_verified:
  assumes "Apply P G old patch = Inr out"
  shows "\<exists>h. ParseHeader patch = Inr h \<and> hashOf P old = h_from h \<and> hashOf P out = h_to h \<and>
    length old = h_oldsize h \<and> length out = h_newsize h \<and> length patch = Size h"
  by (rule Apply_checked[OF assms]) blast



theorem apply_verified_witness:
  "\<exists>patch h. ParseHeader patch = Inr h \<and> hashOf copyPrims [1, 2, 3] = h_from h \<and> hashOf copyPrims [1, 2, 4] = h_to h"
proof -
  have "\<exists>patch. Encode copyPrims declineGo [1, 2, 3] [1, 2, 4] \<lparr>MaxTransform = 0, PlainOnly = True\<rparr> = Inr patch \<and>
      Apply copyPrims declineGo [1, 2, 3] patch = Inr [1, 2, 4]"
    by (rule Encode_Apply_plain[OF copyPrims_ok]) (simp_all add: MaxPlainSize_def)
  then show ?thesis using apply_verified by blast
qed

text \<open>
  C3.  \<open>plainPatch\<close> replays \<open>plainDiff\<close>: for every pair of files the difference
  stream, the literals and the triples rebuild the new file from the old one.
\<close>

theorem plain_roundtrip:
  assumes "length old < 2 ^ 61" "length new < 2 ^ 56"
  shows "plainPatch old (plainDiff old new) (length new) = Inr new"
  by (rule plainPatch_plainDiff[OF assms])

theorem plain_roundtrip_witness:
  "plainPatch [1, 2, 3] (plainDiff [1, 2, 3] [1, 9, 3, 7]) (length [1, 9, 3, 7 :: byte]) = Inr [1, 9, 3, 7]"
  by (rule plain_roundtrip) simp_all

text \<open>
  C6.  A correction encoded over a predicted image turns that prediction into the
  wanted bytes, whatever the prediction got wrong.
\<close>

theorem correction_roundtrip:
  assumes "length want < 2 ^ 59" "encodeCorrection pred want = Inr stream"
  shows "applyCorrection pred stream = Inr want"
  by (rule applyCorrection_encode[OF assms])

theorem correction_roundtrip_witness:
  "\<exists>stream. encodeCorrection [1, 2, 3] [1, 9, 3] = Inr stream \<and> applyCorrection [1, 2, 3] stream = Inr [1, 9, 3 :: byte]"
proof -
  have "\<exists>stream. encodeCorrection [1, 2, 3] [1, 9, 3 :: byte] = Inr stream" by (simp add: encodeCorrection_def split: prod.split)
  then obtain stream where e: "encodeCorrection [1, 2, 3] [1, 9, 3 :: byte] = Inr stream" by blast
  then show ?thesis using correction_roundtrip[OF _ e] by simp
qed

text \<open>
  C7.  The matcher's control and literal streams, each followed by anything, rebuild the
  target from the source and leave exactly what followed.
\<close>

theorem lz_roundtrip:
  assumes "length src < 2 ^ 63" "length dst < 2 ^ 63"
  shows "\<exists>c l. lz_Emit src dst ctrl lit = (ctrl @ c, lit @ l) \<and>
    (\<forall>c' l'. lz_apply src (length dst) 0 [] (c @ c') (l @ l') = Inr (dst, c', l'))"
  by (rule lz_Emit_apply[OF assms])

theorem lz_roundtrip_witness:
  "\<exists>c l. lz_Emit [1, 2] [2, 1, 2] [] [] = (c, l) \<and> lz_apply [1, 2] 3 0 [] c l = Inr ([2, 1, 2], [], [])"
proof -
  have "\<exists>c l. lz_Emit [1, 2] [2, 1, 2] [] [] = ([] @ c, [] @ l) \<and>
      (\<forall>c' l'. lz_apply [1, 2] (length [2, 1, 2 :: byte]) 0 [] (c @ c') (l @ l') = Inr ([2, 1, 2], c', l'))"
    by (rule lz_roundtrip) simp_all
  then obtain c l where cl: "lz_Emit [1, 2] [2, 1, 2] [] [] = (c, l)"
    and ap: "\<And>c' l'. lz_apply [1, 2] (length [2, 1, 2 :: byte]) 0 [] (c @ c') (l @ l') = Inr ([2, 1, 2], c', l')" by auto
  from ap[of "[]" "[]"] have "lz_apply [1, 2] 3 0 [] c l = Inr ([2, 1, 2], [], [])" by (simp add: numeral_3_eq_3)
  with cl show ?thesis by blast
qed

text \<open>
  C20.  A patch body that was framed and put behind a header parses back to that header,
  and its frames, each checked and decompressed, give the body.
\<close>

theorem container_roundtrip:
  assumes "prims_ok P" "length body \<le> maxPatchSize" "frameBody P body = (fs, z)"
    and "h_frames h = fs" "length (h_from h) = 32" "length (h_to h) = 32"
    and "h_oldsize h \<le> maxPatchSize" "h_newsize h \<le> maxPatchSize"
  shows "\<exists>h'. ParseHeader (marshalHeader h z) = Inr h' \<and> readBody P h' (marshalHeader h z) = Inr body \<and>
    h' = h\<lparr>h_bodyoff := h_bodyoff h'\<rparr>"
  by (rule patch_roundtrip[OF assms]) blast

theorem container_roundtrip_witness:
  "\<exists>h h' z. ParseHeader (marshalHeader h z) = Inr h' \<and> readBody copyPrims h' (marshalHeader h z) = Inr [1, 2, 3]"
proof -
  obtain fs z where fz: "frameBody copyPrims [1, 2, 3] = (fs, z)" by fastforce
  show ?thesis
    using container_roundtrip[OF copyPrims_ok _ fz, of "sampleHeader fs"]
    by (auto simp: maxPatchSize_def sampleHeader_def)
qed



text \<open>
  C39.  The eight-bytes-at-a-time \<open>matchLen\<close> is the length of the longest common prefix.
\<close>

theorem matchlen_spec: "matchLen a b = common_prefix a b"
  by (rule matchLen_common_prefix)

text \<open>
  C40.  After the counting sort of \<open>NewIndex\<close>, each bucket holds exactly the positions whose
  eight bytes hash to it, in increasing order.
\<close>

theorem index_buckets:
  assumes "length src < 2 ^ 32" "b < 2 ^ hashBitsFor (length src)"
  shows "slice (ix_bucket (NewIndex src) ! b) (ix_bucket (NewIndex src) ! (b + 1)) (ix_pos (NewIndex src)) =
    filter (\<lambda>i. ix_hash (ix_shift (NewIndex src)) (drop i src) = b) [0..<length src - 7]"
  by (rule NewIndex_bucket[OF assms])

theorem index_buckets_witness:
  "slice (ix_bucket (NewIndex [1, 2, 3]) ! 0) (ix_bucket (NewIndex [1, 2, 3]) ! (0 + 1)) (ix_pos (NewIndex [1, 2, 3])) =
    filter (\<lambda>i. ix_hash (ix_shift (NewIndex [1, 2, 3])) (drop i [1, 2, 3]) = 0) [0..<length [1, 2, 3 :: byte] - 7]"
  by (rule index_buckets) simp_all

section \<open>Releases\<close>

text \<open>
  C10.  From a pointer that parsed, a chain plan is a path of the pointer's own edges from
  the current release to the head, oldest first, within \<open>MaxChain\<close> and smaller than the blob.
\<close>

theorem plan_chain_leads:
  assumes "ParsePointer u b = Inr p" "pl_kind (MakePlan p current) = PlanChain"
  shows "leads current (rel_hash (pt_head p)) (pl_edges (MakePlan p current)) \<and>
    pl_edges (MakePlan p current) \<noteq> [] \<and> length (pl_edges (MakePlan p current)) \<le> MaxChain \<and>
    set (pl_edges (MakePlan p current)) \<subseteq> set (pt_chain p) \<and>
    (\<forall>bl. rel_blob (pt_head p) = Some bl \<longrightarrow> pl_bytes (MakePlan p current) < bl_size bl)"
  using MakePlan_chain[OF _ assms(2)] ParsePointer_ok[OF assms(1)] by blast

definition samplePointer :: pointer where
  "samplePointer = \<lparr>pt_format = 1, pt_seq = 5,
     pt_head = \<lparr>rel_hash = replicate 32 2, rel_version = ''v2'', rel_size = 3, rel_blob = None\<rparr>,
     pt_chain = [\<lparr>ed_from = replicate 32 1, ed_to = replicate 32 2, ed_key = ''p'', ed_size = 9, ed_b3 = replicate 32 4\<rparr>],
     pt_etag = []\<rparr>"

lemma samplePointer_parses: "ParsePointer (\<lambda>_. Some samplePointer) [] = Inr samplePointer"
  by (simp add: ParsePointer_def samplePointer_def Format_def IsZero_def zeroHash_def)

lemma samplePointer_plan: "pl_kind (MakePlan samplePointer (replicate 32 1)) = PlanChain"
  by (simp add: MakePlan_def samplePointer_def chain_from_def MaxChain_def Let_def)

theorem plan_chain_leads_witness:
  "leads (replicate 32 1) (replicate 32 2) (pl_edges (MakePlan samplePointer (replicate 32 1)))"
  using plan_chain_leads[OF samplePointer_parses samplePointer_plan] by (simp add: samplePointer_def)

text \<open>
  C11.  The blob a publisher makes passes the target's check, describes the release's
  length, and every frame's byte range decodes to that frame's place in the release.
\<close>

theorem blob_serves_release:
  assumes "prims_ok P" "0 < frame" "int frame \<le> blobFrameSize" "length data < 2 ^ 61" "encodeBlob P h data frame = (obj, b)"
  shows "Blob_Check b = Inr () \<and> PlainSize b = int (length data) \<and> bl_size b = int (length obj) \<and>
    (\<forall>f \<in> set (bl_frames b). blob_serves P data obj f)"
  by (rule encodeBlob_serves[OF assms])

theorem blob_serves_release_witness:
  "\<exists>obj b. encodeBlob copyPrims (replicate 32 1) [1, 2, 3] 2 = (obj, b) \<and> Blob_Check b = Inr () \<and> PlainSize b = 3"
proof -
  obtain obj b where "encodeBlob copyPrims (replicate 32 1) [1, 2, 3] 2 = (obj, b)" by fastforce
  with blob_serves_release[OF copyPrims_ok _ _ _ this] show ?thesis by (auto simp: blobFrameSize_def)
qed

section \<open>Installing\<close>

text \<open>
  C2.  Whatever system call fails and wherever the process dies, the path holds
  what it held before or the whole new file, and the new file only with the wanted hash.
  When \<open>Install\<close> returns success the new file is there, the pending marker names it, and the
  previous file, if there was one, is what \<open>.old\<close> holds.
\<close>

theorem install_atomic:
  assumes "before path c0 s" "Install P path data want s = (r, s')"
  shows "(content s' path = c0 \<or> content s' path = Some data \<and> HashBytes P data = want) \<and>
    (r = Ret (Inr ()) \<longrightarrow> content s' path = Some data \<and> HashBytes P data = want \<and>
       content s' (PendingPath path) = Some (to_bytes (Hash_String want)) \<and>
       content s' (OldPath path) = c0)"
  using wp_Install[OF assms(1), of P data want] assms(2)
  by (auto simp: wp_def atomic_def installed_def split: out.splits)

definition emptyFs :: fsys where
  "emptyFs = \<lparr>fs_name = (\<lambda>p. None), fs_node = (\<lambda>i. \<lparr>i_data = [], i_mode = 0, i_symlink = False, i_mtime = 0\<rparr>), fs_next = 0,
     fs_tick = 0, fs_fault = (\<lambda>t. Good), fs_torn = (\<lambda>t. 0), fs_rand = (\<lambda>t. ''7''), fs_now = (\<lambda>t. 0)\<rparr>"

theorem install_atomic_witness:
  "content (snd (Install copyPrims ''svc'' [7] (HashBytes copyPrims [7]) emptyFs)) ''svc'' \<in> {None, Some [7]}"
proof -
  have "before ''svc'' None emptyFs" by (simp add: before_def fs_wf_def content_def emptyFs_def)
  from install_atomic[OF this] show ?thesis by (metis insertCI surjective_pairing)
qed

text \<open>
  C8.  With the previous binary kept under \<open>.old\<close>, \<open>Revert\<close> that succeeds leaves it at the path
  and no pending marker; one that fails or dies leaves the path with what it had or with the
  previous binary.
\<close>

theorem revert_restores:
  assumes "content s path = c0" "content s (OldPath path) = Some c1" "Revert path s = (r, s')"
  shows "(content s' path = c0 \<or> content s' path = Some c1) \<and>
    (r = Ret (Inr ()) \<longrightarrow> content s' path = Some c1 \<and> fs_name s' (PendingPath path) = None)"
  using wp_Revert[OF assms(1,2)] assms(3) by (auto simp: wp_def split: out.splits)

definition twoFs :: fsys where
  "twoFs = emptyFs\<lparr>fs_name := (\<lambda>p. if p = ''svc'' then Some 0 else if p = ''svc.old'' then Some 1 else None),
     fs_node := (\<lambda>i. \<lparr>i_data = [of_nat i], i_mode = 493, i_symlink = False, i_mtime = 0\<rparr>), fs_next := 2\<rparr>"

theorem revert_restores_witness: "content (snd (Revert ''svc'' twoFs)) ''svc'' \<in> {Some [0], Some [1]}"
proof -
  have "content twoFs ''svc'' = Some [0]" "content twoFs (OldPath ''svc'') = Some [1]"
    by (simp_all add: content_def twoFs_def OldPath_def)
  from revert_restores[OF this] show ?thesis by (metis insertCI surjective_pairing)
qed



section \<open>Stores\<close>

text \<open>
  C28.  A key the file and https stores accept is a list of ordinary names that does not
  start with a dot, so below a root it names a file of that root, never the lock file, and two
  keys never name the same file.
\<close>

theorem key_stays_inside:
  assumes "checkKey key" "root \<noteq> []"
  shows "list_all good_elem (split_slash key) \<and> hd key \<noteq> CHR ''.'' \<and>
    Join root key = unsplit (is_rooted root) (clean_parts root @ split_slash key) \<and>
    (\<forall>key'. checkKey key' \<longrightarrow> Join root key' = Join root key \<longrightarrow> key' = key)"
  using assms Join_elems Join_inj unfolding checkKey_elems by metis

theorem key_stays_inside_witness: "Join ''/srv'' ''blobs/ab'' = ''/srv/blobs/ab''"
proof -
  have "checkKey ''blobs/ab''" by code_simp
  then have "Join ''/srv'' ''blobs/ab'' = unsplit (is_rooted ''/srv'') (clean_parts ''/srv'' @ split_slash ''blobs/ab'')"
    using key_stays_inside[of "''blobs/ab''" "''/srv''"] by simp
  also have "\<dots> = ''/srv/blobs/ab''" by code_simp
  finally show ?thesis .
qed

text \<open>
  C12.  A \<open>Put\<close> to the directory store, whatever fails and wherever the process dies, leaves
  at the key what was there or the whole new object, and no other object changes.  It reports
  success only with the new object there.  With a precondition that names another version it
  writes nothing and does not report success.
\<close>

theorem store_put_atomic:
  assumes "root \<noteq> []" "checkKey key" "fs_wf s" "file_Put fl root key rd po s = (r, s')"
  shows "(content s' (Join root key) = content s (Join root key) \<or> snd rd \<and> content s' (Join root key) = Some (fst rd)) \<and>
    (r = Ret (Inr ()) \<longrightarrow> snd rd \<and> content s' (Join root key) = Some (fst rd)) \<and>
    (IfMatch po \<noteq> None \<and> IfMatch po \<noteq> Some (etag_of (Join root key) s) \<longrightarrow>
       r \<noteq> Ret (Inr ()) \<and> content s' (Join root key) = content s (Join root key)) \<and>
    (\<forall>q d. q \<noteq> Join root key \<longrightarrow> content s q = Some d \<longrightarrow> content s' q = Some d)"
  using wp_file_Put[OF assms(1-3), of fl rd po] assms(4)
  by (auto simp: wp_def put_result_def put_crash_def put_post_def put_inv_def put_done_def split: out.splits)

theorem store_put_atomic_witness:
  "content (snd (file_Put [Locked] ''/srv'' ''latest.json'' ([7], True) \<lparr>IfMatch = Some ''1-1-1'', ContentType = [], CacheControl = [], PutSize = 1\<rparr> emptyFs))
     ''/srv/latest.json'' = None"
proof -
  have k: "checkKey ''latest.json''" "Join ''/srv'' ''latest.json'' = ''/srv/latest.json''" by code_simp+
  have "fs_wf emptyFs" "etag_of ''/srv/latest.json'' emptyFs = []" "content emptyFs ''/srv/latest.json'' = None"
    by (simp_all add: fs_wf_def etag_of_def content_def emptyFs_def)
  then show ?thesis
    using store_put_atomic[of "''/srv''" "''latest.json''" emptyFs "[Locked]" "([7], True)" "\<lparr>IfMatch = Some ''1-1-1'', ContentType = [], CacheControl = [], PutSize = 1\<rparr>"
        "fst (file_Put [Locked] ''/srv'' ''latest.json'' ([7], True) \<lparr>IfMatch = Some ''1-1-1'', ContentType = [], CacheControl = [], PutSize = 1\<rparr> emptyFs)"
        "snd (file_Put [Locked] ''/srv'' ''latest.json'' ([7], True) \<lparr>IfMatch = Some ''1-1-1'', ContentType = [], CacheControl = [], PutSize = 1\<rparr> emptyFs)"] k
    by simp
qed

text \<open>
  C34.  What was put is what the next read of the whole object returns, or that read
  fails.
\<close>

theorem store_put_get:
  assumes "root \<noteq> []" "fs_wf s"
    and "tryS (file_Put fl root key (d, True) po) (\<lambda>_. GetAll (file_Get root) key) s = (Ret (Inr (b, t)), s')"
  shows "b = d"
  using wp_Ret[OF dir.put_GetAll[of root s fl key d po] assms(3)] assms(1,2) by (simp add: file_inv_def)

theorem store_put_get_witness:
  "\<exists>b t s'. tryS (file_Put [] ''/srv'' ''a'' ([7, 8], True) immutable) (\<lambda>_. GetAll (file_Get ''/srv'') ''a'') emptyFs = (Ret (Inr (b, t)), s') \<and> b = [7, 8]"
proof -
  let ?m = "tryS (file_Put [] ''/srv'' ''a'' ([7, 8], True) immutable) (\<lambda>_. GetAll (file_Get ''/srv'') ''a'') emptyFs"
  have "case fst ?m of Ret (Inr _) \<Rightarrow> True | _ \<Rightarrow> False" by code_simp
  then obtain b t s' where m: "?m = (Ret (Inr (b, t)), s')" by (cases "fst ?m") (auto simp: prod_eq_iff split: sum.splits)
  have "fs_wf emptyFs" by (simp add: fs_wf_def emptyFs_def)
  from store_put_get[OF _ this m] m show ?thesis by blast
qed




section \<open>The update loop\<close>

text \<open>
  C14.  Any number of cycles of the agent against a web store, stopped by any failure or
  crash, leave at the path the binary that was there or one with the hash of the head of a
  pointer that a response of the server carried, parsed, and is not older than the last one
  the agent had accepted.
\<close>

theorem agent_never_strays:
  fixes s :: "'z fsys_scheme"
  assumes "priv (mine path) s" "0 \<le> mx" "mx < 2 ^ 63 - 1"
    and "run (cliTarget (http_Get (net_server net)) unmarshal P G path mx dev sleep over restart check) poll n 0 a s = (r, s')"
  shows "content s' path = content s path \<or>
    (\<exists>t rq rs raw p d. net t rq = Some rs \<and> rq_key rq = PointerKey \<and> rs_status rs \<in> {200, 206} \<and> rs_body rs = (raw, True) \<and>
       ParsePointer unmarshal raw = Inr p \<and> ag_seq a \<le> pt_seq p \<and> content s' path = Some d \<and> HashBytes P d = rel_hash (pt_head p))"
proof -
  let ?T = "cliTarget (http_Get (net_server net)) unmarshal P G path mx dev sleep over restart check :: 'z target"
  have f: "t_path ?T = path" "t_prims ?T = P" by (simp_all add: cliTarget_def)
  have "settled ?T (content s path) (ag_seq a) (ag_seq a) s" using assms(1) by (simp add: settled_def f)
  from wp_result[OF webAgent.wp_run[OF this order_refl] assms(4)]
  have "anytime ?T (content s path) (ag_seq a) s'" by (auto simp: anytime_def)
  then consider "content s' path = content s path"
    | raw p d where "sent ?T raw p" "ag_seq a \<le> pt_seq p" "content s' path = Some d" "HashBytes P d = rel_hash (pt_head p)"
    unfolding anytime_def settled_def published_def runs_def f by blast
  then show ?thesis
  proof cases
    case 2
    from web_sent[OF 2(1) assms(2,3)] 2(2-4) show ?thesis by blast
  qed simp
qed

theorem agent_never_strays_witness:
  "content (snd (run (cliTarget (http_Get (net_server (\<lambda>t rq. None))) (\<lambda>b. None) copyPrims declineGo ''svc'' 1000 3 (\<lambda>t. True) (\<lambda>t. False) None None)
     second 2 0 \<lparr>ag_etag = [], ag_seq = 0, ag_skipped = zeroHash\<rparr> twoFs)) ''svc'' = Some [0]"
proof -
  have "priv (mine ''svc'') twoFs"
    by (auto simp: priv_def fs_wf_def own_def mine_def twoFs_def PendingPath_def hashPath_def failedPath_def StateDir_def)
  moreover have "content twoFs ''svc'' = Some [0]" by (simp add: content_def twoFs_def)
  moreover have "(0 :: int) \<le> 1000" "(1000 :: int) < 2 ^ 63 - 1" by simp_all
  ultimately show ?thesis
    using agent_never_strays[of "''svc''" twoFs 1000 "\<lambda>t rq. None", OF _ _ _ prod.collapse[symmetric]] by auto
qed



text \<open>
  C30.  From a store that answers, \<open>fetchBlob\<close> returns the release a published blob was made
  of, whatever its size and frame size.
\<close>

theorem fetch_blob_live:
  assumes "calm T m" "prims_ok (t_prims T)" "0 < frame" "int frame \<le> blobFrameSize" "length data < 2 ^ 61"
    and "encodeBlob (t_prims T) h data frame = (obj, b)" "\<forall>f \<in> set (bl_frames b). 0 < bf_zlen f" "m (bl_key b) = Some obj"
    and "rel_blob head = Some b" "rel_size head = int (length data)"
  shows "fetchBlob T head = retS (Inr data)"
  by (rule fetchBlob_calm[OF assms])

definition calmTarget :: "(string \<Rightarrow> bytes option) \<Rightarrow> unit target" where
  "calmTarget m = (cliTarget (calm_get m) (\<lambda>b. None) copyPrims declineGo ''svc'' 1000 3 (\<lambda>t. True) (\<lambda>t. False) None None)\<lparr>t_done := retS False\<rparr>"

lemma copy_Compress: "Compress copyPrims x = (Raw, x)"
  by (auto simp: Compress_def CompressZstd_def copyPrims_def Let_def)

lemma copy_frames: "list_all (\<lambda>f. 0 < bf_zlen f) (bl_frames (snd (encodeBlob copyPrims [] [1, 2, 3] 2)))"
proof -
  have "[0..<2] = [0, Suc 0]" by (simp add: upt_rec)
  then show ?thesis by (simp add: encodeBlob_def blob_frame_def copy_Compress Let_def slice_def)
qed

theorem fetch_blob_live_witness:
  "\<exists>obj b. fetchBlob (calmTarget (\<lambda>k. Some obj)) \<lparr>rel_hash = [], rel_version = [], rel_size = 3, rel_blob = Some b\<rparr> = retS (Inr [1, 2, 3])"
proof -
  obtain obj b where e: "encodeBlob copyPrims [] [1, 2, 3] 2 = (obj, b)" by (rule prod.exhaust)
  have z: "\<forall>f \<in> set (bl_frames b). 0 < bf_zlen f" using copy_frames unfolding e by (simp add: list_all_iff)
  have c: "calm (calmTarget (\<lambda>k. Some obj)) (\<lambda>k. Some obj)" "t_prims (calmTarget (\<lambda>k. Some obj)) = copyPrims"
    by (simp_all add: calm_def calmTarget_def cliTarget_def)
  show ?thesis
    by (rule exI[of _ obj], rule exI[of _ b], rule fetch_blob_live[OF c(1) _ _ _ _ _ z, where h = "[]" and frame = 2])
       (simp_all add: c(2) copyPrims_ok e blobFrameSize_def)
qed

text \<open>
  C38.  With the context over before the first frame is taken, \<open>fetchBlob\<close> reports success and
  returns zeros: no worker reports the frames it leaves out.  (The hash check after it refuses
  the bytes.)
\<close>

theorem cancelled_fetch:
  assumes "t_done T = retS True" "rel_blob head = Some b" "Blob_Check b = Inr ()" "PlainSize b = rel_size head"
  shows "fetchBlob T head = retS (Inr (replicate (nat (rel_size head)) 0))"
  by (rule fetchBlob_over[OF assms])

theorem cancelled_fetch_witness:
  "fetchBlob ((calmTarget (\<lambda>k. None))\<lparr>t_done := retS True\<rparr>)
     \<lparr>rel_hash = replicate 32 1, rel_version = [], rel_size = 3,
      rel_blob = Some \<lparr>bl_key = ''blobs/x'', bl_size = 5,
        bl_frames = [\<lparr>bf_off = 0, bf_len = 3, bf_zoff = 0, bf_zlen = 5, bf_codec = 1, bf_b3 = replicate 32 2\<rparr>]\<rparr>\<rparr> = retS (Inr [0, 0, 0])"
proof -
  let ?b = "\<lparr>bl_key = ''blobs/x'', bl_size = 5, bl_frames = [\<lparr>bf_off = 0, bf_len = 3, bf_zoff = 0, bf_zlen = 5, bf_codec = 1, bf_b3 = replicate 32 (2 :: byte)\<rparr>]\<rparr>"
  have "Blob_Check ?b = Inr ()" "PlainSize ?b = 3" by code_simp+
  then show ?thesis
    using cancelled_fetch[of "(calmTarget (\<lambda>k. None))\<lparr>t_done := retS True\<rparr>" "\<lparr>rel_hash = replicate 32 1, rel_version = [], rel_size = 3, rel_blob = Some ?b\<rparr>" ?b]
    by (simp add: numeral_3_eq_3)
qed

text \<open>
  C33.  A head that was marked failed on this target is not built, installed or restarted
  onto: the cycle ends there, touching no file, and remembers what it skipped.
\<close>

theorem failed_release_skipped:
  assumes "fs_fault s (fs_tick s) = Good" "content s (failedPath (t_path T)) = Some (to_bytes (Hash_String h))"
    and "length h = 32" "\<not> IsZero h" "rel_hash (pt_head p) = h" "rel_size (pt_head p) \<le> t_max T"
  shows "\<exists>e. advance T a cur p s = (Ret ((OutcomeAtHead, e), a\<lparr>ag_skipped := h\<rparr>), ticked s) \<and> e \<noteq> []"
  using advance_skips[OF assms] by auto

definition markedFs :: fsys where
  "markedFs = emptyFs\<lparr>fs_name := (\<lambda>p. if p = failedPath ''svc'' then Some 0 else None),
     fs_node := (\<lambda>i. \<lparr>i_data = to_bytes (Hash_String (replicate 32 7)), i_mode = 420, i_symlink = False, i_mtime = 0\<rparr>), fs_next := 1\<rparr>"

theorem failed_release_skipped_witness:
  "\<exists>e. advance (calmTarget (\<lambda>k. None)) \<lparr>ag_etag = [], ag_seq = 0, ag_skipped = zeroHash\<rparr> zeroHash
     \<lparr>pt_format = 1, pt_seq = 1, pt_head = \<lparr>rel_hash = replicate 32 7, rel_version = [], rel_size = 1, rel_blob = None\<rparr>, pt_chain = [], pt_etag = []\<rparr> markedFs =
     (Ret ((OutcomeAtHead, e), \<lparr>ag_etag = [], ag_seq = 0, ag_skipped = replicate 32 7\<rparr>), ticked markedFs) \<and> e \<noteq> []"
  using failed_release_skipped[of markedFs "calmTarget (\<lambda>k. None)" "replicate 32 7"
      "\<lparr>pt_format = 1, pt_seq = 1, pt_head = \<lparr>rel_hash = replicate 32 7, rel_version = [], rel_size = 1, rel_blob = None\<rparr>, pt_chain = [], pt_etag = []\<rparr>"
      "\<lparr>ag_etag = [], ag_seq = 0, ag_skipped = zeroHash\<rparr>" zeroHash]
  by (simp add: markedFs_def emptyFs_def content_def calmTarget_def cliTarget_def IsZero_def zeroHash_def)

section \<open>The embedded updater\<close>

text \<open>
  C32.  A process started by a handoff that asks for the same listeners in the same order gets
  the sockets its predecessor served on, each under its own pair, with none bound afresh.
\<close>

theorem handoff_sockets:
  assumes "unmarshal (marshal (listenerSpecs ls)) = Some (listenerSpecs ls)" "marshal (listenerSpecs ls) \<noteq> []"
    and "list_all (\<lambda>l. ln_network l \<noteq> []) ls" "\<forall>j < length ls. fdsock (3 + int j) = Some (ln_socket (ls ! j))"
    and "up_inherited u = []" "up_serving u = []"
    and "child = listen_all fdsock fresh (map pair_of ls) (up_start unmarshal atoi (marshal (listenerSpecs ls)) ready u)"
  shows "map ln_socket (up_serving child) = map ln_socket ls \<and> map pair_of (up_serving child) = map pair_of ls"
proof -
  have "up_inherited (up_start unmarshal atoi (marshal (listenerSpecs ls)) ready u) = [] @ map wait_for (specs_from 0 ls)"
    "up_serving (up_start unmarshal atoi (marshal (listenerSpecs ls)) ready u) = []"
    using parse_specs[where unmarshal = unmarshal and marshal = marshal and ls = ls, OF assms(1,3)] assms(2,5,6) by (simp_all add: up_start_def Let_def wait_for_def)
  from listen_inherits[OF this(1), of fdsock fresh] this(2) assms(4,7) show ?thesis by simp
qed

theorem handoff_sockets_witness:
  "map ln_socket (up_serving (listen_all (\<lambda>fd. Some (nat fd + 4)) None [(''tcp'', '':80'')]
     (up_start (\<lambda>s. Some (listenerSpecs [mk_listener ''tcp'' '':80'' 7])) (\<lambda>s. None) ''x'' []
       \<lparr>up_path = [], up_inherited = [], up_serving = [], up_callbacks = [], up_readyPipe = None, up_ready = False, up_upgrading = False, up_superseded = False\<rparr>))) = [7]"
  using handoff_sockets[of "\<lambda>s. Some (listenerSpecs [mk_listener ''tcp'' '':80'' 7])" "\<lambda>_. ''x''" "[mk_listener ''tcp'' '':80'' 7]"
      "\<lambda>fd. Some (nat fd + 4)" "\<lparr>up_path = [], up_inherited = [], up_serving = [], up_callbacks = [], up_readyPipe = None, up_ready = False, up_upgrading = False, up_superseded = False\<rparr>",
      OF _ _ _ _ _ _ refl, of None "\<lambda>s. None" "[]"]
  by (simp add: mk_listener_def pair_of_def)



section \<open>Publishing\<close>








text \<open>
  C37.  \<open>go-binsync patch\<close> that exits 0 has written the output of a patch that applied; exit code 2
  is bad usage and 3 a result that is not what the patch promised, and then no file changed.
\<close>

theorem patch_command:
  assumes "patchCmd P G args out s = (Ret r, s')"
  shows "(r = None \<longrightarrow> (\<exists>oldp patchp old p new. args = [oldp, patchp] \<and> content s oldp = Some old \<and> content s patchp = Some p \<and>
      Apply P G old p = Inr new \<and> content s' out = Some new)) \<and>
    (main_code r \<in> {2, 3} \<longrightarrow> content s' = content s)"
  using wp_patchCmd[of P G args out s] assms
  by (auto simp: wp_def main_code_def split: option.splits cli_err.splits)

theorem patch_command_witness:
  "\<exists>r s'. patchCmd copyPrims declineGo [''a''] ''out'' twoFs = (Ret r, s') \<and> main_code r = 2 \<and> content s' ''svc'' = Some [0]"
proof -
  have c: "patchCmd copyPrims declineGo [''a''] ''out'' twoFs = (Ret (Some (ExitError codeUsage [AErr ''patch needs a binary, a patch and -o''])), twoFs)"
    by (simp add: patchCmd_def retS_def)
  from patch_command[OF c] c show ?thesis by (auto simp: main_code_def codeUsage_def content_def twoFs_def)
qed

end
